(* ===== verification/Prelude.thy ===== *)
theory Prelude
  imports Main "HOL-Library.Word" "HOL-Library.Multiset"
begin

text \<open>
  Shared vocabulary of the development: the machine integer types of nbase.h, C strings and
  cursors into them, the C-locale character classes of ctype.h that the sources call, the
  string functions of the C library on cursors, and the generic list lemmas that several
  components use.

  A NUL-terminated C string is the list of its bytes before the terminator, and a
  \<open>const char *\<close> into it is the remaining suffix: \<open>*p == '\0'\<close> is \<open>p = []\<close>, and
  \<open>p++\<close> drops the head.  A cursor never runs past the terminator; functions of the code
  that could do so return \<open>None\<close> at that point.
\<close>

section \<open>Machine integers\<close>

type_synonym u8 = "8 word"
type_synonym u16 = "16 word"
type_synonym u32 = "32 word"
type_synonym u64 = "64 word"

text \<open>The limits of the LP64 targets the project builds for.\<close>

abbreviation INT_MAX :: int where "INT_MAX \<equiv> 2147483647"
abbreviation LONG_MAX :: int where "LONG_MAX \<equiv> 9223372036854775807"

section \<open>Collections of facts\<close>

named_theorems cursor_simps "evaluation of cursors and character classes"
named_theorems wf_intros "preservation of the components' invariants"

section \<open>Faults\<close>

text \<open>
  What ends an operation of the code before it returns: a failed \<open>assert\<close>, the use of a null
  pointer, an access outside an object, the use of released storage, or a call of the fatal-error
  functions (\<open>fatal\<close>, \<open>bye\<close>, \<open>die\<close>), which exit the process on purpose.
  A fallible operation returns \<open>Inl\<close> of the fault or \<open>Inr\<close> of its result.
\<close>

datatype fault = Assert_failed | Null_deref | Out_of_bounds | Use_after_free | Fatal_exit

type_synonym 'a outcome = "fault + 'a"

text \<open>Sequencing: the first fault ends the operation.\<close>

definition bind_out :: "'a outcome \<Rightarrow> ('a \<Rightarrow> 'b outcome) \<Rightarrow> 'b outcome" where
  "bind_out m f = (case m of Inl e \<Rightarrow> Inl e | Inr x \<Rightarrow> f x)"

lemma bind_out_simps [simp]:
  "bind_out (Inl e) f = Inl e" "bind_out (Inr x) f = f x"
  by (simp_all add: bind_out_def)

lemma bind_out_Inr: "bind_out m f = Inr y \<longleftrightarrow> (\<exists>x. m = Inr x \<and> f x = Inr y)"
  by (cases m) simp_all

lemma bind_out_cong [fundef_cong]:
  "m = m' \<Longrightarrow> (\<And>x. m' = Inr x \<Longrightarrow> f x = g x) \<Longrightarrow> bind_out m f = bind_out m' g"
  by (cases m') simp_all

text \<open>
  \<open>safe_malloc\<close>, \<open>safe_realloc\<close> and \<open>safe_zalloc\<close> end the process when the size read
  as an \<open>int\<close> is negative (nbase_memalloc.c); an allocation that fails for lack of memory
  ends it too, so a model only sees allocations that succeed.
\<close>

definition size_as_int :: "nat \<Rightarrow> int" where
  "size_as_int n = sint (word_of_nat n :: u32)"

definition safe_alloc_ok :: "nat \<Rightarrow> bool" where
  "safe_alloc_ok n \<longleftrightarrow> \<not> size_as_int n < 0"

lemma safe_alloc_ok_iff:
  assumes "n < 2 ^ 32"
  shows "safe_alloc_ok n \<longleftrightarrow> n < 2 ^ 31"
proof -
  have "size_as_int n = signed_take_bit 31 (int n)"
    by (simp add: size_as_int_def signed_of_nat)
  then have "safe_alloc_ok n \<longleftrightarrow> \<not> bit n 31"
    by (simp add: safe_alloc_ok_def bit_of_nat_iff_bit)
  also have "\<dots> \<longleftrightarrow> even (n div 2 ^ 31)"
    by (simp add: bit_iff_odd)
  also have "\<dots> \<longleftrightarrow> n < 2 ^ 31"
  proof
    assume e: "even (n div 2 ^ 31)"
    show "n < 2 ^ 31"
    proof (rule ccontr)
      assume "\<not> n < 2 ^ 31"
      with assms have "n div 2 ^ 31 = 1" by (intro div_nat_eqI) auto
      with e show False by simp
    qed
  qed simp
  finally show ?thesis .
qed

section \<open>C strings and cursors\<close>

type_synonym cstr = string

abbreviation NUL :: char where "NUL \<equiv> CHR 0x00"
abbreviation CR :: char where "CR \<equiv> CHR 0x0D"
abbreviation LF :: char where "LF \<equiv> CHR 0x0A"
abbreviation TAB :: char where "TAB \<equiv> CHR 0x09"

abbreviation code_of :: "char \<Rightarrow> nat" where "code_of \<equiv> (of_char :: char \<Rightarrow> nat)"

text \<open>\<open>*p\<close> for a cursor: the head, or the terminator at the end.\<close>

definition deref :: "cstr \<Rightarrow> char" where
  "deref s = (case s of [] \<Rightarrow> NUL | c # _ \<Rightarrow> c)"

lemma deref_simps [simp, cursor_simps]:
  "deref [] = NUL" "deref (c # s) = c"
  by (simp_all add: deref_def)

lemma deref_tl_less: "deref s \<noteq> NUL \<Longrightarrow> length (tl s) < length s"
  by (cases s) auto

text \<open>A list of bytes is a C string when the terminator does not occur in it.\<close>

definition is_cstr :: "cstr \<Rightarrow> bool" where
  "is_cstr s \<longleftrightarrow> NUL \<notin> set s"

lemma is_cstr_simps [simp]:
  "is_cstr []"
  "is_cstr (c # s) \<longleftrightarrow> c \<noteq> NUL \<and> is_cstr s"
  "is_cstr (s @ t) \<longleftrightarrow> is_cstr s \<and> is_cstr t"
  by (auto simp: is_cstr_def)

section \<open>Character classes (ctype.h in the C locale)\<close>

definition is_digit :: "char \<Rightarrow> bool" where
  "is_digit c \<longleftrightarrow> 48 \<le> code_of c \<and> code_of c \<le> 57"

definition is_upper :: "char \<Rightarrow> bool" where
  "is_upper c \<longleftrightarrow> 65 \<le> code_of c \<and> code_of c \<le> 90"

definition is_lower :: "char \<Rightarrow> bool" where
  "is_lower c \<longleftrightarrow> 97 \<le> code_of c \<and> code_of c \<le> 122"

definition is_space :: "char \<Rightarrow> bool" where
  "is_space c \<longleftrightarrow> code_of c = 32 \<or> (9 \<le> code_of c \<and> code_of c \<le> 13)"

definition is_cntrl :: "char \<Rightarrow> bool" where
  "is_cntrl c \<longleftrightarrow> code_of c < 32 \<or> code_of c = 127"

definition is_print :: "char \<Rightarrow> bool" where
  "is_print c \<longleftrightarrow> 32 \<le> code_of c \<and> code_of c \<le> 126"

definition to_lower :: "char \<Rightarrow> char" where
  "to_lower c = (if is_upper c then char_of (code_of c + 32) else c)"

definition digit_val :: "char \<Rightarrow> nat" where
  "digit_val c = code_of c - 48"

lemmas ctype_defs = is_digit_def is_upper_def is_lower_def is_space_def is_cntrl_def
  is_print_def

lemma code_of_inj: "code_of c = code_of d \<longleftrightarrow> c = d"
  by simp

lemma code_of_less [simp]: "code_of c < 256"
  by (rule nat_of_char_less_256)

lemma code_of_char_of: "n < 256 \<Longrightarrow> code_of (char_of n) = n"
  by simp

lemma not_digit_NUL [simp]: "\<not> is_digit NUL"
  by (simp add: is_digit_def)

lemma to_lower_NUL [simp]: "to_lower c = NUL \<longleftrightarrow> c = NUL"
proof (cases "is_upper c")
  case True
  then have "code_of (to_lower c) = code_of c + 32"
    by (simp add: to_lower_def is_upper_def)
  with True show ?thesis
    by (auto simp: is_upper_def)
next
  case False
  then show ?thesis by (simp add: to_lower_def)
qed

lemma code_to_lower:
  "code_of (to_lower c) = (if 65 \<le> code_of c \<and> code_of c \<le> 90 then code_of c + 32 else code_of c)"
  by (simp add: to_lower_def is_upper_def)

lemma to_lower_idem [simp]: "to_lower (to_lower c) = to_lower c"
  by (simp add: code_to_lower flip: code_of_inj)

lemma digit_val_less: "is_digit c \<Longrightarrow> digit_val c < 10"
  unfolding is_digit_def digit_val_def by linarith

section \<open>Functions of string.h on cursors\<close>

text \<open>\<open>strchr\<close> for a character other than the terminator: the suffix at the first match.\<close>

fun strchr :: "cstr \<Rightarrow> char \<Rightarrow> cstr option" where
  "strchr [] d = None"
| "strchr (c # s) d = (if c = d then Some (c # s) else strchr s d)"

text \<open>\<open>strrchr\<close>: the suffix at the last match.\<close>

fun strrchr :: "cstr \<Rightarrow> char \<Rightarrow> cstr option" where
  "strrchr [] d = None"
| "strrchr (c # s) d =
     (case strrchr s d of Some t \<Rightarrow> Some t | None \<Rightarrow> if c = d then Some (c # s) else None)"

text \<open>The bytes between a cursor \<open>p\<close> and a later cursor \<open>q\<close> into the same string.\<close>

definition span :: "cstr \<Rightarrow> cstr \<Rightarrow> cstr" where
  "span p q = take (length p - length q) p"

lemma strchr_Some:
  "strchr s d = Some t \<Longrightarrow> \<exists>pre rest. s = pre @ t \<and> t = d # rest \<and> d \<notin> set pre"
proof (induction s)
  case (Cons c s)
  show ?case
  proof (cases "c = d")
    case False
    with Cons obtain pre rest where "s = pre @ t \<and> t = d # rest \<and> d \<notin> set pre"
      by auto
    with False show ?thesis by (intro exI [of _ "c # pre"] exI [of _ rest]) auto
  qed (use Cons.prems in auto)
qed simp

lemma strchr_None: "strchr s d = None \<longleftrightarrow> d \<notin> set s"
  by (induction s) auto

lemma strrchr_None: "strrchr s d = None \<longleftrightarrow> d \<notin> set s"
  by (induction s) (auto split: option.splits)

lemma strrchr_Some:
  "strrchr s d = Some t \<Longrightarrow> \<exists>pre rest. s = pre @ t \<and> t = d # rest \<and> d \<notin> set rest"
proof (induction s)
  case (Cons c s)
  show ?case
  proof (cases "strrchr s d")
    case (Some u)
    with Cons obtain pre rest where "s = pre @ t \<and> t = d # rest \<and> d \<notin> set rest"
      by auto
    then show ?thesis by (intro exI [of _ "c # pre"] exI [of _ rest]) auto
  next
    case None
    then have "d \<notin> set s" by (simp add: strrchr_None)
    with None Cons.prems show ?thesis by (auto split: if_splits)
  qed
qed simp

lemma span_append [simp]: "span (p @ q) q = p"
  by (simp add: span_def)

lemma span_self [simp]: "span p p = []"
  by (simp add: span_def)

section \<open>Generic list lemmas\<close>

lemma mset_list_update_swap:
  "i < length xs \<Longrightarrow> j < length xs \<Longrightarrow> mset (xs[i := xs ! j, j := xs ! i]) = mset xs"
  by (simp add: mset_swap)

lemma takeWhile_dropWhile_split: "s = takeWhile P s @ dropWhile P s"
  by simp

lemma dropWhile_hd_not: "dropWhile P s = c # t \<Longrightarrow> \<not> P c"
  by (metis hd_dropWhile list.distinct(1) list.sel(1))

lemma dropWhile_less: "dropWhile P s \<noteq> s \<Longrightarrow> length (dropWhile P s) < length s"
  by (cases s) (auto simp: less_Suc_eq_le List.length_dropWhile_le split: if_splits)

lemma length_dropWhile_le [simp]: "length (dropWhile P s) \<le> length s"
  by (rule length_dropWhile_le)

end
