(* ===== verification/Gh_Heap.thy ===== *)
theory Gh_Heap
  imports Prelude
begin

text \<open>
  The binary heap of nsock (nsock/src/gh_heap.c and gh_heap.h) that holds the events with a
  timeout.  A heap is an array of pointers to nodes; every node stores its own position, which
  the heap keeps up to date, so that a node can be removed from the middle.  The model keeps the
  slots array, its high-water mark and the \<open>index\<close> field of every node in memory, and
  moves nodes through the hole exactly as \<open>hnode_up\<close> and \<open>hnode_down\<close> do.  Every \<open>assert\<close> of
  the code is a branch of the model; the lemmas show that none can fail on a well-formed heap.
\<close>

section \<open>State\<close>

record 'p gh_heap =
  cmp_op :: "('p \<Rightarrow> 'p \<Rightarrow> bool) option"
  count :: nat
  highwm :: nat
  slots :: "'p option list"
  hindex :: "'p \<Rightarrow> nat"

definition GH_SLOTS :: nat where "GH_SLOTS = 128"

definition GH_HEAP_GUARD :: nat where "GH_HEAP_GUARD = 0x19890721"

definition gh_hnode_is_valid :: "'p gh_heap \<Rightarrow> 'p \<Rightarrow> bool" where
  "gh_hnode_is_valid h p \<longleftrightarrow> hindex h p \<noteq> GH_HEAP_GUARD"

definition gh_hnode_invalidate :: "'p gh_heap \<Rightarrow> 'p \<Rightarrow> 'p gh_heap" where
  "gh_hnode_invalidate h p = h\<lparr>hindex := (hindex h)(p := GH_HEAP_GUARD)\<rparr>"

section \<open>Operations\<close>

text \<open>\<open>hnode_ptr\<close> with its two assertions: the position of the slot it returns a pointer to.\<close>

definition hnode_ptr :: "'p gh_heap \<Rightarrow> nat \<Rightarrow> nat outcome" where
  "hnode_ptr h i =
     (if \<not> i \<le> count h then Inl Assert_failed
      else if i = count h then Inr i
      else if \<not> i < length (slots h) then Inl Out_of_bounds
      else case slots h ! i of
             None \<Rightarrow> Inl Null_deref
           | Some p \<Rightarrow> if hindex h p = i then Inr i else Inl Assert_failed)"

text \<open>\<open>*hnode_ptr(heap, i)\<close>: the content of that slot.\<close>

definition hnode_at :: "'p gh_heap \<Rightarrow> nat \<Rightarrow> 'p option outcome" where
  "hnode_at h i =
     (case hnode_ptr h i of
        Inl e \<Rightarrow> Inl e
      | Inr j \<Rightarrow> if j < length (slots h) then Inr (slots h ! j) else Inl Out_of_bounds)"

definition gh_heap_find :: "'p gh_heap \<Rightarrow> nat \<Rightarrow> 'p option outcome" where
  "gh_heap_find h i = (if i \<ge> count h then Inr None else hnode_at h i)"

definition heap_cmp :: "'p gh_heap \<Rightarrow> 'p option \<Rightarrow> 'p option \<Rightarrow> bool outcome" where
  "heap_cmp h a b =
     (case (cmp_op h, a, b) of
        (Some lt, Some x, Some y) \<Rightarrow> Inr (lt x y)
      | _ \<Rightarrow> Inl Null_deref)"

text \<open>Moving a node into the hole at \<open>cur\<close>: \<open>p->index = cur; *cur_ptr = p\<close>.\<close>

definition fill_slot :: "'p gh_heap \<Rightarrow> nat \<Rightarrow> 'p \<Rightarrow> 'p gh_heap" where
  "fill_slot h cur p = h\<lparr>hindex := (hindex h)(p := cur), slots := (slots h)[cur := Some p]\<rparr>"

lemma fill_slot_sel [simp]:
  "cmp_op (fill_slot h cur p) = cmp_op h"
  "count (fill_slot h cur p) = count h"
  "highwm (fill_slot h cur p) = highwm h"
  "slots (fill_slot h cur p) = (slots h)[cur := Some p]"
  "hindex (fill_slot h cur p) = (hindex h)(p := cur)"
  by (simp_all add: fill_slot_def)

text \<open>\<open>(cur_idx - 1) >> 1\<close>\<close>

definition par :: "nat \<Rightarrow> nat" where
  "par i = (i - 1) div 2"

lemma par_less [simp]: "0 < i \<Longrightarrow> par i < i"
  by (simp add: par_def)

lemma par_le [simp]: "par i \<le> i"
  by (simp add: par_def)

lemma par_neq [simp]: "0 < i \<Longrightarrow> par i \<noteq> i"
  using par_less [of i] by linarith

function hnode_up_loop :: "'p gh_heap \<Rightarrow> 'p \<Rightarrow> nat \<Rightarrow> bool \<Rightarrow> ('p gh_heap \<times> nat \<times> bool) outcome"
where
  "hnode_up_loop h hnode cur action =
     (if \<not> cur > 0 then Inr (h, cur, action)
      else let parent_idx = par cur in
        case hnode_at h parent_idx of
          Inl e \<Rightarrow> Inl e
        | Inr parent \<Rightarrow>
            (case heap_cmp h parent (Some hnode) of
               Inl e \<Rightarrow> Inl e
             | Inr True \<Rightarrow> Inr (h, cur, action)
             | Inr False \<Rightarrow> hnode_up_loop (fill_slot h cur (the parent)) hnode parent_idx True))"
  by pat_completeness auto
termination
  by (relation "measure (\<lambda>(h, hnode, cur, action). cur)") auto

declare hnode_up_loop.simps [simp del]

definition hnode_up :: "'p gh_heap \<Rightarrow> 'p \<Rightarrow> ('p gh_heap \<times> bool) outcome" where
  "hnode_up h hnode =
     (case hnode_at h (hindex h hnode) of
        Inl e \<Rightarrow> Inl e
      | Inr cur \<Rightarrow>
          if cur \<noteq> Some hnode then Inl Assert_failed
          else case hnode_up_loop h hnode (hindex h hnode) False of
                 Inl e \<Rightarrow> Inl e
               | Inr (h', cur_idx, action) \<Rightarrow> Inr (fill_slot h' cur_idx hnode, action))"

text \<open>The smaller child of the hole: the second one replaces the first when it compares less.\<close>

definition smaller_child :: "'p gh_heap \<Rightarrow> nat \<Rightarrow> (nat \<times> 'p option) outcome" where
  "smaller_child h ch1_idx =
     (case hnode_at h ch1_idx of
        Inl e \<Rightarrow> Inl e
      | Inr ch1 \<Rightarrow>
          let ch2_idx = ch1_idx + 1 in
          if ch2_idx < count h then
            (case hnode_at h ch2_idx of
               Inl e \<Rightarrow> Inl e
             | Inr ch2 \<Rightarrow>
                 (case heap_cmp h ch2 ch1 of
                    Inl e \<Rightarrow> Inl e
                  | Inr True \<Rightarrow> Inr (ch2_idx, ch2)
                  | Inr False \<Rightarrow> Inr (ch1_idx, ch1)))
          else Inr (ch1_idx, ch1))"

lemma smaller_child_idx:
  "smaller_child h c = Inr (i, p) \<Longrightarrow> c \<le> i"
  by (auto simp: smaller_child_def Let_def split: sum.splits if_splits bool.splits)

function hnode_down_loop :: "'p gh_heap \<Rightarrow> 'p \<Rightarrow> nat \<Rightarrow> bool \<Rightarrow> ('p gh_heap \<times> nat \<times> bool) outcome"
where
  "hnode_down_loop h hnode cur action =
     (if \<not> cur < count h then Inr (h, cur, action)
      else let ch1_idx = 2 * cur + 1 in
        if ch1_idx \<ge> count h then Inr (h, cur, action)
        else case smaller_child h ch1_idx of
          Inl e \<Rightarrow> Inl e
        | Inr (ch_idx, None) \<Rightarrow> Inl Null_deref
        | Inr (ch_idx, Some ch) \<Rightarrow>
            if hindex h ch \<noteq> ch_idx then Inl Assert_failed
            else (case heap_cmp h (Some hnode) (Some ch) of
               Inl e \<Rightarrow> Inl e
             | Inr True \<Rightarrow> Inr (h, cur, action)
             | Inr False \<Rightarrow> hnode_down_loop (fill_slot h cur ch) hnode ch_idx True))"
  by pat_completeness auto
termination
  by (relation "measure (\<lambda>(h, hnode, cur, action). count h - cur)")
    (auto dest!: smaller_child_idx)

declare hnode_down_loop.simps [simp del]

definition hnode_down :: "'p gh_heap \<Rightarrow> 'p \<Rightarrow> ('p gh_heap \<times> bool) outcome" where
  "hnode_down h hnode =
     (case hnode_at h (hindex h hnode) of
        Inl e \<Rightarrow> Inl e
      | Inr cur \<Rightarrow>
          if cur \<noteq> Some hnode then Inl Assert_failed
          else case hnode_down_loop h hnode (hindex h hnode) False of
                 Inl e \<Rightarrow> Inl e
               | Inr (h', cur_idx, action) \<Rightarrow> Inr (fill_slot h' cur_idx hnode, action))"

definition heap_grow :: "'p gh_heap \<Rightarrow> 'p gh_heap outcome" where
  "heap_grow h =
     (if count h \<noteq> highwm h then Inl Assert_failed
      else if \<not> safe_alloc_ok ((count h + GH_SLOTS) * 8) then Inl Fatal_exit
      else Inr (h\<lparr>slots := take (count h) (slots h) @ replicate GH_SLOTS None,
                  highwm := highwm h + GH_SLOTS\<rparr>))"

definition gh_heap_init :: "('p \<Rightarrow> 'p \<Rightarrow> bool) option \<Rightarrow> ('p \<Rightarrow> nat) \<Rightarrow> (int \<times> 'p gh_heap option) outcome"
where
  "gh_heap_init cmp idx =
     (case cmp of
        None \<Rightarrow> Inr (-1, None)
      | Some _ \<Rightarrow>
          (case heap_grow \<lparr>cmp_op = cmp, count = 0, highwm = 0, slots = [], hindex = idx\<rparr> of
             Inl e \<Rightarrow> Inl e
           | Inr h \<Rightarrow> Inr (0, Some h)))"

definition gh_heap_free :: "'p gh_heap \<Rightarrow> 'p gh_heap outcome" where
  "gh_heap_free h =
     (if highwm h \<noteq> 0 \<and> slots h = [] then Inl Assert_failed
      else Inr (h\<lparr>cmp_op := None, count := 0, highwm := 0, slots := []\<rparr>))"

definition gh_heap_push :: "'p gh_heap \<Rightarrow> 'p \<Rightarrow> 'p gh_heap outcome" where
  "gh_heap_push h hnode =
     (let new_index = count h in
      if gh_hnode_is_valid h hnode then Inl Assert_failed
      else case (if new_index = highwm h then heap_grow h else Inr h) of
        Inl e \<Rightarrow> Inl e
      | Inr h1 \<Rightarrow>
          (let h2 = h1\<lparr>hindex := (hindex h1)(hnode := new_index)\<rparr> in
           case hnode_at h2 new_index of
             Inl e \<Rightarrow> Inl e
           | Inr old \<Rightarrow>
               if old \<noteq> None then Inl Assert_failed
               else case hnode_up (h2\<lparr>count := count h2 + 1,
                                      slots := (slots h2)[new_index := Some hnode]\<rparr>) hnode of
                      Inl e \<Rightarrow> Inl e
                    | Inr (h3, _) \<Rightarrow> Inr h3))"

text \<open>The last node moves into the slot of the removed one, then up or, failing that, down.\<close>

definition reinsert_last :: "'p gh_heap \<Rightarrow> nat \<Rightarrow> 'p \<Rightarrow> 'p \<Rightarrow> 'p gh_heap outcome" where
  "reinsert_last h cur_idx lastn hnode =
     (if lastn \<noteq> hnode then
        (case hnode_up (fill_slot h cur_idx lastn) lastn of
           Inl e \<Rightarrow> Inl e
         | Inr (h2, True) \<Rightarrow> Inr h2
         | Inr (h2, False) \<Rightarrow>
             (case slots h2 ! cur_idx of
                None \<Rightarrow> Inl Null_deref
              | Some p \<Rightarrow> map_sum id fst (hnode_down h2 p)))
      else Inr h)"

definition gh_heap_remove :: "'p gh_heap \<Rightarrow> 'p \<Rightarrow> 'p gh_heap outcome" where
  "gh_heap_remove h hnode =
     (let cur_idx = hindex h hnode in
      if \<not> gh_hnode_is_valid h hnode then Inl Assert_failed
      else if \<not> cur_idx < count h then Inl Assert_failed
      else case hnode_at h cur_idx of
        Inl e \<Rightarrow> Inl e
      | Inr cur \<Rightarrow>
        if cur \<noteq> Some hnode then Inl Assert_failed
        else (let cnt = count h - 1 in
          case hnode_at h cnt of
            Inl e \<Rightarrow> Inl e
          | Inr None \<Rightarrow> Inl Null_deref
          | Inr (Some lastn) \<Rightarrow>
             (let h1 = h\<lparr>count := cnt\<rparr> in
              case reinsert_last h1 cur_idx lastn hnode of
                Inl e \<Rightarrow> Inl e
              | Inr h3 \<Rightarrow>
                  (let h4 = gh_hnode_invalidate h3 hnode in
                   case hnode_ptr h4 cnt of
                     Inl e \<Rightarrow> Inl e
                   | Inr j \<Rightarrow>
                       if j < length (slots h4) then Inr (h4\<lparr>slots := (slots h4)[j := None]\<rparr>)
                       else Inl Out_of_bounds))))"

definition gh_heap_min :: "'p gh_heap \<Rightarrow> 'p option outcome" where
  "gh_heap_min h = (if count h = 0 then Inr None else gh_heap_find h 0)"

definition gh_heap_pop :: "'p gh_heap \<Rightarrow> ('p option \<times> 'p gh_heap) outcome" where
  "gh_heap_pop h =
     (case gh_heap_find h 0 of
        Inl e \<Rightarrow> Inl e
      | Inr None \<Rightarrow> Inr (None, h)
      | Inr (Some p) \<Rightarrow> map_sum id (Pair (Some p)) (gh_heap_remove h p))"

definition gh_heap_count :: "'p gh_heap \<Rightarrow> nat" where
  "gh_heap_count h = count h"

definition gh_heap_is_empty :: "'p gh_heap \<Rightarrow> bool" where
  "gh_heap_is_empty h \<longleftrightarrow> count h = 0"

section \<open>Well-formed heaps\<close>

definition node :: "'p gh_heap \<Rightarrow> nat \<Rightarrow> 'p" where
  "node h i = the (slots h ! i)"

definition heap_nodes :: "'p gh_heap \<Rightarrow> 'p set" where
  "heap_nodes h = node h ` {..<count h}"

text \<open>The array part: every live slot holds a node that knows its position, the rest is null.\<close>

definition slots_ok :: "'p gh_heap \<Rightarrow> bool" where
  "slots_ok h \<longleftrightarrow> count h \<le> highwm h \<and> length (slots h) = highwm h \<and> highwm h * 8 < 2 ^ 31 \<and>
     (\<forall>i < count h. \<exists>p. slots h ! i = Some p \<and> hindex h p = i) \<and>
     (\<forall>i < highwm h. count h \<le> i \<longrightarrow> slots h ! i = None)"

text \<open>The heap part: no node compares less than its parent.\<close>

definition heap_ordered :: "('p \<Rightarrow> 'p \<Rightarrow> bool) \<Rightarrow> 'p gh_heap \<Rightarrow> bool" where
  "heap_ordered lt h \<longleftrightarrow> (\<forall>i < count h. 0 < i \<longrightarrow> \<not> lt (node h i) (node h (par i)))"

definition heap_wf :: "('p \<Rightarrow> 'p \<Rightarrow> bool) \<Rightarrow> 'p gh_heap \<Rightarrow> bool" where
  "heap_wf lt h \<longleftrightarrow> cmp_op h = Some lt \<and> slots_ok h \<and> heap_ordered lt h"

section \<open>A heap with a hole\<close>

text \<open>
  While a node \<open>x\<close> moves, the slot at \<open>cur\<close> is a hole: its content is stale, the other slots
  are as in a well-formed heap, and \<open>x\<close> is in none of them.
\<close>

definition hole_ok :: "'p gh_heap \<Rightarrow> 'p \<Rightarrow> nat \<Rightarrow> bool" where
  "hole_ok h x cur \<longleftrightarrow> cur < count h \<and> count h \<le> length (slots h) \<and>
     (\<forall>i < count h. i \<noteq> cur \<longrightarrow> (\<exists>p. slots h ! i = Some p \<and> hindex h p = i \<and> p \<noteq> x))"

definition others :: "'p gh_heap \<Rightarrow> nat \<Rightarrow> 'p set" where
  "others h cur = node h ` ({..<count h} - {cur})"

definition ordered_but :: "('p \<Rightarrow> 'p \<Rightarrow> bool) \<Rightarrow> 'p gh_heap \<Rightarrow> nat \<Rightarrow> bool" where
  "ordered_but lt h cur \<longleftrightarrow>
     (\<forall>i < count h. 0 < i \<longrightarrow> i \<noteq> cur \<longrightarrow> par i \<noteq> cur \<longrightarrow> \<not> lt (node h i) (node h (par i))) \<and>
     (\<forall>i < count h. 0 < i \<longrightarrow> par i = cur \<longrightarrow> 0 < cur \<longrightarrow> \<not> lt (node h i) (node h (par cur)))"

definition above_children :: "('p \<Rightarrow> 'p \<Rightarrow> bool) \<Rightarrow> 'p gh_heap \<Rightarrow> 'p \<Rightarrow> nat \<Rightarrow> bool" where
  "above_children lt h x cur \<longleftrightarrow> (\<forall>i < count h. 0 < i \<longrightarrow> par i = cur \<longrightarrow> \<not> lt (node h i) x)"

definition below_parent :: "('p \<Rightarrow> 'p \<Rightarrow> bool) \<Rightarrow> 'p gh_heap \<Rightarrow> 'p \<Rightarrow> nat \<Rightarrow> bool" where
  "below_parent lt h x cur \<longleftrightarrow> (0 < cur \<longrightarrow> \<not> lt x (node h (par cur)))"

text \<open>The parts of the state that moving nodes around leaves alone.\<close>

definition same_frame :: "'p gh_heap \<Rightarrow> 'p gh_heap \<Rightarrow> bool" where
  "same_frame h h' \<longleftrightarrow> cmp_op h' = cmp_op h \<and> count h' = count h \<and> highwm h' = highwm h \<and>
     length (slots h') = length (slots h) \<and>
     (\<forall>i < length (slots h). count h \<le> i \<longrightarrow> slots h' ! i = slots h ! i)"

lemma same_frame_refl [simp]: "same_frame h h"
  by (simp add: same_frame_def)

lemma same_frame_trans: "same_frame h h' \<Longrightarrow> same_frame h' h'' \<Longrightarrow> same_frame h h''"
  by (simp add: same_frame_def)

lemma same_frame_fill: "cur < count h \<Longrightarrow> same_frame h (fill_slot h cur p)"
  by (auto simp: same_frame_def nth_list_update)

lemma hole_slot:
  assumes "hole_ok h x cur" "i < count h" "i \<noteq> cur"
  shows "slots h ! i = Some (node h i)" "hindex h (node h i) = i" "node h i \<noteq> x"
  using assms by (auto simp: hole_ok_def node_def)

lemma hole_inj:
  assumes "hole_ok h x cur" "i < count h" "j < count h" "i \<noteq> cur" "j \<noteq> cur"
    and "node h i = node h j"
  shows "i = j"
proof -
  have "hindex h (node h i) = hindex h (node h j)"
    using assms(6) by (rule arg_cong)
  then show ?thesis
    unfolding hole_slot(2) [OF assms(1,2,4)] hole_slot(2) [OF assms(1,3,5)] .
qed

lemma hole_at [simp]:
  assumes "hole_ok h x cur" "i < count h" "i \<noteq> cur"
  shows "hnode_at h i = Inr (Some (node h i))"
  using assms hole_slot [OF assms]
  by (auto simp: hnode_at_def hnode_ptr_def hole_ok_def)

lemma node_fill:
  assumes "cur < length (slots h)"
  shows "node (fill_slot h cur p) i = (if i = cur then p else node h i)"
  using assms by (auto simp: node_def nth_list_update)

text \<open>Moving the node at \<open>j\<close> into the hole makes \<open>j\<close> the hole.\<close>

lemma hole_move:
  assumes ok: "hole_ok h x cur" and j: "j < count h" "j \<noteq> cur"
  shows "hole_ok (fill_slot h cur (node h j)) x j"
proof -
  have len: "cur < length (slots h)" and cur: "cur < count h"
    using ok by (auto simp: hole_ok_def)
  have "\<exists>p. slots (fill_slot h cur (node h j)) ! i = Some p \<and>
          hindex (fill_slot h cur (node h j)) p = i \<and> p \<noteq> x"
    if i: "i < count h" "i \<noteq> j" for i
  proof (cases "i = cur")
    case True
    then show ?thesis using len hole_slot(3) [OF ok j] by simp
  next
    case False
    have "node h i \<noteq> node h j"
      using hole_inj [OF ok i(1) j(1) False j(2)] i(2) by blast
    with False show ?thesis
      using hole_slot [OF ok i(1) False] by simp
  qed
  then show ?thesis using ok j by (simp add: hole_ok_def)
qed

lemma node_fill_image:
  assumes "cur < length (slots h)" "cur \<notin> A"
  shows "node (fill_slot h cur p) ` A = node h ` A"
  using assms by (intro image_cong refl) (auto simp: node_fill)

lemma node_fill_insert:
  assumes "cur < length (slots h)" "cur \<in> A"
  shows "node (fill_slot h cur p) ` A = insert p (node h ` (A - {cur}))"
proof -
  have "A = insert cur (A - {cur})" using assms(2) by blast
  then have "node (fill_slot h cur p) ` A =
      insert (node (fill_slot h cur p) cur) (node (fill_slot h cur p) ` (A - {cur}))"
    by (metis image_insert)
  then show ?thesis
    using node_fill_image [OF assms(1), of "A - {cur}"] node_fill [OF assms(1)] by simp
qed

lemma others_move:
  assumes ok: "hole_ok h x cur" and j: "j < count h" "j \<noteq> cur"
  shows "others (fill_slot h cur (node h j)) j = others h cur"
proof -
  have len: "cur < length (slots h)" and cur: "cur \<in> {..<count h} - {j}"
    using ok j by (auto simp: hole_ok_def)
  have "others (fill_slot h cur (node h j)) j =
      node h ` insert j ({..<count h} - {j} - {cur})"
    unfolding others_def using node_fill_insert [OF len cur] by simp
  also have "insert j ({..<count h} - {j} - {cur}) = {..<count h} - {cur}"
    using j by blast
  finally show ?thesis by (simp add: others_def)
qed

lemma node_in_others: "i < count h \<Longrightarrow> i \<noteq> cur \<Longrightarrow> node h i \<in> others h cur"
  by (simp add: others_def)

text \<open>Dropping \<open>x\<close> into the hole gives a well-formed heap again.\<close>

lemma fill_hole_ordered:
  assumes ok: "hole_ok h x cur" and ord: "ordered_but lt h cur"
    and c: "above_children lt h x cur" and p: "below_parent lt h x cur"
  shows "heap_ordered lt (fill_slot h cur x)"
proof -
  have len: "cur < length (slots h)"
    using ok by (auto simp: hole_ok_def)
  show ?thesis
    unfolding heap_ordered_def node_fill [OF len]
    using ord c p by (auto simp: ordered_but_def above_children_def below_parent_def split: if_splits)
qed

lemma fill_hole_nodes:
  assumes ok: "hole_ok h x cur"
  shows "heap_nodes (fill_slot h cur x) = insert x (others h cur)"
proof -
  have len: "cur < length (slots h)" and cur: "cur \<in> {..<count h}"
    using ok by (auto simp: hole_ok_def)
  show ?thesis
    unfolding heap_nodes_def others_def using node_fill_insert [OF len cur] by simp
qed

lemma fill_hole_live:
  assumes ok: "hole_ok h x cur"
  shows "\<forall>i < count h. \<exists>p. slots (fill_slot h cur x) ! i = Some p \<and>
           hindex (fill_slot h cur x) p = i"
proof (intro allI impI)
  fix i assume i: "i < count h"
  have len: "cur < length (slots h)"
    using ok by (auto simp: hole_ok_def)
  show "\<exists>p. slots (fill_slot h cur x) ! i = Some p \<and> hindex (fill_slot h cur x) p = i"
  proof (cases "i = cur")
    case False
    then show ?thesis using hole_slot [OF ok i False] by simp
  qed (use len in simp)
qed

section \<open>Moving a node up and down\<close>

text \<open>Once a step was taken, the loop reports it.\<close>

lemma loop_acts:
  "hnode_up_loop h x cur True = Inr (h', cur', act') \<Longrightarrow> act'"
proof (induction cur arbitrary: h rule: less_induct)
  case (less cur)
  from less.prems show ?case
    by (subst (asm) hnode_up_loop.simps)
      (auto simp: Let_def split: if_splits sum.splits bool.splits dest: less.IH [rotated])
qed

text \<open>
  What the heap needs of its comparison: a strict weak order, as \<open>cmp_op\<close> of gh_heap.h
  (1 when the first node is less than the second) promises.
\<close>

locale heap_order =
  fixes lt :: "'p \<Rightarrow> 'p \<Rightarrow> bool"
  assumes asym: "lt a b \<Longrightarrow> \<not> lt b a"
    and neg_trans: "\<not> lt a b \<Longrightarrow> \<not> lt b c \<Longrightarrow> \<not> lt a c"
begin

lemma up_step:
  assumes ok: "hole_ok h x cur" and ord: "ordered_but lt h cur" and pos: "0 < cur"
    and stop: "\<not> lt (node h (par cur)) x"
  defines "h' \<equiv> fill_slot h cur (node h (par cur))"
  shows "ordered_but lt h' (par cur)" and "above_children lt h' x (par cur)"
proof -
  let ?k = "par cur"
  have cur: "cur < count h" and len: "cur < length (slots h)"
    using ok by (auto simp: hole_ok_def)
  have k: "?k < cur" using pos by simp
  note N = node_fill [OF len, of "node h ?k"]
  have o1: "\<not> lt (node h i) (node h (par i))"
    if "i < count h" "0 < i" "i \<noteq> cur" "par i \<noteq> cur" for i
    using ord that by (auto simp: ordered_but_def)
  have o2: "\<not> lt (node h i) (node h ?k)" if "i < count h" "0 < i" "par i = cur" for i
    using ord that pos by (auto simp: ordered_but_def)
  have sib: "\<not> lt (node h i) (node h ?k)" if "i < count h" "0 < i" "par i = ?k" "i \<noteq> cur" for i
    using o1 [of i] that k by auto
  have "\<not> lt (node h' i) (node h' (par i))"
    if i: "i < count h" "0 < i" "i \<noteq> ?k" "par i \<noteq> ?k" for i
  proof (cases "par i = cur")
    case True
    with i k show ?thesis using o2 [of i] by (auto simp: h'_def N)
  next
    case False
    with i k show ?thesis using o1 [of i] by (auto simp: h'_def N)
  qed
  moreover have "\<not> lt (node h' i) (node h' (par ?k))"
    if i: "i < count h" "0 < i" "par i = ?k" "0 < ?k" for i
  proof -
    have pk: "par ?k \<noteq> cur" using k par_le [of ?k] by linarith
    moreover have top: "\<not> lt (node h ?k) (node h (par ?k))"
      using o1 [of ?k] pk i(4) k cur by auto
    ultimately show ?thesis
      using neg_trans [OF sib [OF i(1-3)] top] by (auto simp: h'_def N)
  qed
  ultimately show "ordered_but lt h' ?k"
    by (simp add: ordered_but_def h'_def)
  show "above_children lt h' x ?k"
    using neg_trans [OF sib stop] stop by (auto simp: above_children_def h'_def N)
qed

lemma up_loop:
  assumes "hole_ok h x cur" "ordered_but lt h cur" "cmp_op h = Some lt"
    and "act \<longrightarrow> above_children lt h x cur"
  shows "\<exists>h' cur' act'. hnode_up_loop h x cur act = Inr (h', cur', act') \<and> hole_ok h' x cur' \<and>
           ordered_but lt h' cur' \<and> below_parent lt h' x cur' \<and>
           (act' \<longrightarrow> above_children lt h' x cur') \<and>
           (\<not> act' \<longrightarrow> h' = h \<and> cur' = cur) \<and>
           same_frame h h' \<and> others h' cur' = others h cur \<and>
           (\<forall>q. q \<notin> others h cur \<longrightarrow> hindex h' q = hindex h q)"
  using assms
proof (induction cur arbitrary: h act rule: less_induct)
  case (less cur)
  show ?case
  proof (cases "cur = 0")
    case True
    then show ?thesis
      using less.prems by (subst hnode_up_loop.simps) (auto simp: below_parent_def)
  next
    case False
    let ?k = "par cur" and ?h = "fill_slot h cur (node h (par cur))"
    have k: "?k < cur" and cur: "cur < count h"
      using False less.prems(1) by (auto simp: hole_ok_def)
    have at: "hnode_at h ?k = Inr (Some (node h ?k))"
      using hole_at [OF less.prems(1), of ?k] k cur by simp
    show ?thesis
    proof (cases "lt (node h ?k) x")
      case True
      then have "hnode_up_loop h x cur act = Inr (h, cur, act)"
        using False at less.prems(3) by (subst hnode_up_loop.simps) (simp add: heap_cmp_def Let_def)
      moreover have "below_parent lt h x cur"
        using asym [OF True] by (simp add: below_parent_def)
      ultimately show ?thesis using less.prems by auto
    next
      case stop: False
      have step: "hnode_up_loop h x cur act = hnode_up_loop ?h x ?k True"
        using False at less.prems(3) stop by (subst hnode_up_loop.simps) (simp add: heap_cmp_def Let_def)
      have "?k < count h" "?k \<noteq> cur" using k cur by auto
      note mv = hole_move [OF less.prems(1) this] others_move [OF less.prems(1) this]
      note up = up_step [OF less.prems(1,2) _ stop]
      obtain h' cur' act' where IH: "hnode_up_loop ?h x ?k True = Inr (h', cur', act')"
          "hole_ok h' x cur'" "ordered_but lt h' cur'" "below_parent lt h' x cur'"
          "act' \<longrightarrow> above_children lt h' x cur'" "\<not> act' \<longrightarrow> h' = ?h \<and> cur' = ?k"
          "same_frame ?h h'" "others h' cur' = others ?h ?k"
          "\<forall>q. q \<notin> others ?h ?k \<longrightarrow> hindex h' q = hindex ?h q"
        using less.IH [OF k mv(1), of True] up False less.prems(3) by auto
      have "above_children lt h' x cur'"
        using IH(5,6) up(2) False by auto
      moreover have "act'"
        using loop_acts [OF IH(1)] by simp
      moreover have "\<forall>q. q \<notin> others h cur \<longrightarrow> hindex h' q = hindex h q"
        using IH(9) node_in_others [OF \<open>?k < count h\<close> \<open>?k \<noteq> cur\<close>] unfolding mv(2) by auto
      ultimately show ?thesis
        using step IH mv(2) same_frame_trans [OF same_frame_fill [OF cur] IH(7)] by auto
    qed
  qed
qed

text \<open>Downwards: the hole moves to the smaller child.\<close>

lemma child_par:
  "0 < i \<Longrightarrow> par i = cur \<longleftrightarrow> i = 2 * cur + 1 \<or> i = 2 * cur + 2"
  by (auto simp: par_def)

lemma smaller_child_ok:
  assumes ok: "hole_ok h x cur" and cmp: "cmp_op h = Some lt" and c: "2 * cur + 1 < count h"
  shows "\<exists>j. smaller_child h (2 * cur + 1) = Inr (j, Some (node h j)) \<and> j < count h \<and> 0 < j \<and>
           par j = cur \<and> j \<noteq> cur \<and>
           (\<forall>i < count h. 0 < i \<longrightarrow> par i = cur \<longrightarrow> \<not> lt (node h i) (node h j))"
proof -
  let ?c1 = "2 * cur + 1" and ?c2 = "2 * cur + 1 + 1"
  have c1: "hnode_at h ?c1 = Inr (Some (node h ?c1))"
    by (rule hole_at [OF ok c]) simp
  show ?thesis
  proof (cases "?c2 < count h")
    case True
    have c2: "hnode_at h ?c2 = Inr (Some (node h ?c2))"
      by (rule hole_at [OF ok True]) simp
    have "smaller_child h ?c1 = Inr (if lt (node h ?c2) (node h ?c1) then (?c2, Some (node h ?c2))
            else (?c1, Some (node h ?c1)))"
      using True cmp unfolding smaller_child_def c1 by (simp add: c2 [simplified] heap_cmp_def Let_def)
    then show ?thesis
      using True c asym by (intro exI [of _ "if lt (node h ?c2) (node h ?c1) then ?c2 else ?c1"])
        (auto simp: child_par)
  next
    case False
    then have "smaller_child h ?c1 = Inr (?c1, Some (node h ?c1))"
      unfolding smaller_child_def c1 by (simp add: Let_def)
    then show ?thesis
      using False c asym by (intro exI [of _ ?c1]) (auto simp: child_par)
  qed
qed

lemma down_step:
  assumes ok: "hole_ok h x cur" and ord: "ordered_but lt h cur"
    and j: "j < count h" "0 < j" "par j = cur" "j \<noteq> cur"
    and least: "\<forall>i < count h. 0 < i \<longrightarrow> par i = cur \<longrightarrow> \<not> lt (node h i) (node h j)"
    and go: "\<not> lt x (node h j)"
  defines "h' \<equiv> fill_slot h cur (node h j)"
  shows "ordered_but lt h' j" and "below_parent lt h' x j"
proof -
  have len: "cur < length (slots h)"
    using ok by (auto simp: hole_ok_def)
  have lessj: "cur < j" using j by auto
  note N = node_fill [OF len, of "node h j"]
  have o1: "\<not> lt (node h i) (node h (par i))"
    if "i < count h" "0 < i" "i \<noteq> cur" "par i \<noteq> cur" for i
    using ord that by (auto simp: ordered_but_def)
  have o2: "\<not> lt (node h i) (node h (par cur))" if "i < count h" "0 < i" "par i = cur" "0 < cur" for i
    using ord that by (auto simp: ordered_but_def)
  have "\<not> lt (node h' i) (node h' (par i))"
    if i: "i < count h" "0 < i" "i \<noteq> j" "par i \<noteq> j" for i
  proof (cases "i = cur")
    case True
    with i j o2 [of j] show ?thesis by (auto simp: h'_def N)
  next
    case False
    with i least o1 [of i] show ?thesis by (auto simp: h'_def N)
  qed
  moreover have "\<not> lt (node h' i) (node h' (par j))"
    if i: "i < count h" "0 < i" "par i = j" for i
  proof -
    have "i \<noteq> cur" using lessj i par_le [of i] by linarith
    with i j o1 [of i] show ?thesis by (auto simp: h'_def N)
  qed
  ultimately show "ordered_but lt h' j"
    by (simp add: ordered_but_def h'_def)
  show "below_parent lt h' x j"
    using go j by (simp add: below_parent_def h'_def N)
qed

lemma down_loop:
  assumes "hole_ok h x cur" "ordered_but lt h cur" "cmp_op h = Some lt" "below_parent lt h x cur"
  shows "\<exists>h' cur' act'. hnode_down_loop h x cur act = Inr (h', cur', act') \<and> hole_ok h' x cur' \<and>
           ordered_but lt h' cur' \<and> below_parent lt h' x cur' \<and> above_children lt h' x cur' \<and>
           same_frame h h' \<and> others h' cur' = others h cur \<and>
           (\<forall>q. q \<notin> others h cur \<longrightarrow> hindex h' q = hindex h q)"
  using assms
proof (induction h x cur act rule: hnode_down_loop.induct)
  case (1 h x cur act)
  have cur: "cur < count h" using "1.prems"(1) by (simp add: hole_ok_def)
  show ?case
  proof (cases "2 * cur + 1 < count h")
    case False
    then have "hnode_down_loop h x cur act = Inr (h, cur, act)"
      by (subst hnode_down_loop.simps) (simp add: Let_def)
    moreover have "above_children lt h x cur"
      using False by (auto simp: above_children_def child_par)
    ultimately show ?thesis using "1.prems" by auto
  next
    case True
    obtain j where j: "smaller_child h (2 * cur + 1) = Inr (j, Some (node h j))" "j < count h"
        "0 < j" "par j = cur" "j \<noteq> cur"
        "\<forall>i < count h. 0 < i \<longrightarrow> par i = cur \<longrightarrow> \<not> lt (node h i) (node h j)"
      using smaller_child_ok [OF "1.prems"(1,3) True] by blast
    have idx: "hindex h (node h j) = j"
      by (rule hole_slot(2) [OF "1.prems"(1) j(2,5)])
    show ?thesis
    proof (cases "lt x (node h j)")
      case stop: True
      then have "hnode_down_loop h x cur act = Inr (h, cur, act)"
        using True j(1) idx "1.prems"(3) by (subst hnode_down_loop.simps) (simp add: Let_def heap_cmp_def)
      moreover have "above_children lt h x cur"
        using neg_trans [OF _ asym [OF stop]] j(6) by (auto simp: above_children_def)
      ultimately show ?thesis using "1.prems" by auto
    next
      case go: False
      let ?h = "fill_slot h cur (node h j)"
      have step: "hnode_down_loop h x cur act = hnode_down_loop ?h x j True"
        using True j(1) idx "1.prems"(3) go
        by (subst hnode_down_loop.simps) (simp add: Let_def heap_cmp_def)
      note mv = hole_move [OF "1.prems"(1) j(2,5)] others_move [OF "1.prems"(1) j(2,5)]
      note dn = down_step [OF "1.prems"(1,2) j(2-6) go]
      have "\<exists>h' cur' act'. hnode_down_loop ?h x j True = Inr (h', cur', act') \<and> hole_ok h' x cur' \<and>
           ordered_but lt h' cur' \<and> below_parent lt h' x cur' \<and> above_children lt h' x cur' \<and>
           same_frame ?h h' \<and> others h' cur' = others ?h j \<and>
           (\<forall>q. q \<notin> others ?h j \<longrightarrow> hindex h' q = hindex ?h q)"
        using "1.IH" [OF _ refl _ j(1) refl refl] True idx go "1.prems"(3) cur mv(1) dn
        by (auto simp: heap_cmp_def)
      moreover have "hindex ?h q = hindex h q" if "q \<notin> others h cur" for q
        using that node_in_others [OF j(2,5)] by auto
      ultimately show ?thesis
        unfolding step mv(2) using same_frame_trans [OF same_frame_fill [OF cur]] by fastforce
    qed
  qed
qed

end

section \<open>The operations on well-formed heaps\<close>

lemma fill_slot_triv:
  "slots h ! cur = Some x \<Longrightarrow> hindex h x = cur \<Longrightarrow> fill_slot h cur x = h"
  using list_update_id [of "slots h" cur] by (cases h) (simp add: fill_slot_def fun_upd_idem)

text \<open>What a sift leaves: the node is in, its position is known, nothing else moved.\<close>

definition sifted :: "'p gh_heap \<Rightarrow> 'p \<Rightarrow> nat \<Rightarrow> 'p gh_heap \<Rightarrow> bool" where
  "sifted h x cur h' \<longleftrightarrow>
     (\<forall>i < count h'. \<exists>p. slots h' ! i = Some p \<and> hindex h' p = i) \<and>
     heap_nodes h' = insert x (others h cur) \<and> same_frame h h' \<and>
     (\<forall>q. q \<notin> insert x (others h cur) \<longrightarrow> hindex h' q = hindex h q)"

lemma sifted_fill:
  assumes "hole_ok h' x cur'" "same_frame h h'" "others h' cur' = others h cur"
    and "\<forall>q. q \<notin> others h cur \<longrightarrow> hindex h' q = hindex h q"
  shows "sifted h x cur (fill_slot h' cur' x)"
proof -
  have "cur' < count h'" using assms(1) by (simp add: hole_ok_def)
  then have "same_frame h (fill_slot h' cur' x)"
    by (intro same_frame_trans [OF assms(2)] same_frame_fill)
  moreover have "\<forall>i < count (fill_slot h' cur' x). \<exists>p. slots (fill_slot h' cur' x) ! i = Some p \<and>
      hindex (fill_slot h' cur' x) p = i"
    using fill_hole_live [OF assms(1)] by simp
  moreover have "heap_nodes (fill_slot h' cur' x) = insert x (others h cur)"
    using fill_hole_nodes [OF assms(1)] assms(3) by simp
  moreover have "\<forall>q. q \<notin> insert x (others h cur) \<longrightarrow>
      hindex (fill_slot h' cur' x) q = hindex h q"
    using assms(4) by simp
  ultimately show ?thesis unfolding sifted_def by (intro conjI)
qed

lemma own_slot_at:
  assumes "hole_ok h x cur" "slots h ! cur = Some x" "hindex h x = cur"
  shows "hnode_at h cur = Inr (Some x)"
  using assms by (auto simp: hole_ok_def hnode_at_def hnode_ptr_def)

context heap_order
begin

lemma hnode_up_ok:
  assumes "hole_ok h x cur" "slots h ! cur = Some x" "hindex h x = cur"
    and "ordered_but lt h cur" "cmp_op h = Some lt"
  shows "\<exists>h' act. hnode_up h x = Inr (h', act) \<and> sifted h x cur h' \<and>
           (act \<longrightarrow> heap_ordered lt h') \<and>
           (\<not> act \<longrightarrow> h' = h \<and> below_parent lt h x cur)"
proof -
  obtain h1 cur1 act where L: "hnode_up_loop h x cur False = Inr (h1, cur1, act)"
      "hole_ok h1 x cur1" "ordered_but lt h1 cur1" "below_parent lt h1 x cur1"
      "act \<longrightarrow> above_children lt h1 x cur1" "\<not> act \<longrightarrow> h1 = h \<and> cur1 = cur"
      "same_frame h h1" "others h1 cur1 = others h cur"
      "\<forall>q. q \<notin> others h cur \<longrightarrow> hindex h1 q = hindex h q"
    using up_loop [OF assms(1,4,5), of False] by auto
  have "hnode_up h x = Inr (fill_slot h1 cur1 x, act)"
    using L(1) own_slot_at [OF assms(1-3)] assms(3) by (simp add: hnode_up_def)
  moreover have "act \<longrightarrow> heap_ordered lt (fill_slot h1 cur1 x)"
    using L by (auto intro: fill_hole_ordered)
  moreover have "\<not> act \<longrightarrow> fill_slot h1 cur1 x = h \<and> below_parent lt h x cur"
    using L(4,6) fill_slot_triv [OF assms(2,3)] by auto
  ultimately show ?thesis
    using sifted_fill [OF L(2,7,8,9)] by blast
qed

lemma hnode_down_ok:
  assumes "hole_ok h x cur" "slots h ! cur = Some x" "hindex h x = cur"
    and "ordered_but lt h cur" "cmp_op h = Some lt" "below_parent lt h x cur"
  shows "\<exists>h' act. hnode_down h x = Inr (h', act) \<and> sifted h x cur h' \<and> heap_ordered lt h'"
proof -
  obtain h1 cur1 act where L: "hnode_down_loop h x cur False = Inr (h1, cur1, act)"
      "hole_ok h1 x cur1" "ordered_but lt h1 cur1" "below_parent lt h1 x cur1"
      "above_children lt h1 x cur1" "same_frame h h1" "others h1 cur1 = others h cur"
      "\<forall>q. q \<notin> others h cur \<longrightarrow> hindex h1 q = hindex h q"
    using down_loop [OF assms(1,4,5,6), of False] by blast
  have "hnode_down h x = Inr (fill_slot h1 cur1 x, act)"
    using L(1) own_slot_at [OF assms(1-3)] assms(3) by (simp add: hnode_down_def)
  then show ?thesis
    using sifted_fill [OF L(2,6,7,8)] fill_hole_ordered [OF L(2,3,5,4)] by blast
qed

end

text \<open>Well-formed heaps, slot by slot.\<close>

lemma wf_slot:
  assumes "slots_ok h" "i < count h"
  shows "slots h ! i = Some (node h i)" "hindex h (node h i) = i" "hnode_at h i = Inr (Some (node h i))"
  using assms by (fastforce simp: slots_ok_def node_def hnode_at_def hnode_ptr_def)+

lemma wf_at_hindex:
  assumes "slots_ok h" "x \<in> heap_nodes h"
  shows "hindex h x < count h" "node h (hindex h x) = x"
  using assms wf_slot(2) by (fastforce simp: heap_nodes_def)+

text \<open>
  A live index never reaches the guard value that marks a node outside every heap: the
  allocation guard of \<open>safe_realloc\<close> bounds the array.
\<close>

lemma wf_index_bound:
  assumes "slots_ok h" "x \<in> heap_nodes h"
  shows "hindex h x < 2 ^ 28" "gh_hnode_is_valid h x"
proof -
  have "hindex h x < count h" by (rule wf_at_hindex [OF assms])
  with assms(1) show "hindex h x < 2 ^ 28" by (auto simp: slots_ok_def)
  then show "gh_hnode_is_valid h x" by (simp add: gh_hnode_is_valid_def GH_HEAP_GUARD_def)
qed

lemma heap_grow_ok:
  assumes "slots_ok h" "count h = highwm h"
  shows "heap_grow h =
    (if (highwm h + 128) * 8 < 2 ^ 31
     then Inr (h\<lparr>slots := slots h @ replicate 128 None, highwm := highwm h + 128\<rparr>)
     else Inl Fatal_exit)"
proof -
  have "(highwm h + 128) * 8 < 2 ^ 32"
    using assms(1) by (auto simp: slots_ok_def)
  then show ?thesis
    using assms safe_alloc_ok_iff [of "(highwm h + 128) * 8"]
    by (simp add: heap_grow_def GH_SLOTS_def slots_ok_def)
qed

text \<open>The heap after the room check of \<open>gh_heap_push\<close>.\<close>

lemma grow_wf:
  assumes "heap_wf lt h" "count h = highwm h" "heap_grow h = Inr h1"
  shows "heap_wf lt h1" "count h1 = count h" "count h1 < highwm h1" "hindex h1 = hindex h"
    "heap_nodes h1 = heap_nodes h"
proof -
  have ok: "slots_ok h" using assms(1) by (simp add: heap_wf_def)
  have h1: "h1 = h\<lparr>slots := slots h @ replicate 128 None, highwm := highwm h + 128\<rparr>"
    and small: "(highwm h + 128) * 8 < 2 ^ 31"
    using assms(3) unfolding heap_grow_ok [OF ok assms(2)] by (auto split: if_splits)
  have len: "length (slots h) = count h" using ok assms(2) by (simp add: slots_ok_def)
  have node: "node h1 i = node h i" if "i < count h" for i
    using that len by (simp add: h1 node_def nth_append)
  show "count h1 = count h" "count h1 < highwm h1" "hindex h1 = hindex h"
    using assms(2) by (simp_all add: h1)
  show "heap_nodes h1 = heap_nodes h"
    using node by (simp add: heap_nodes_def h1)
  have "slots_ok h1"
    using ok small len assms(2) by (auto simp: slots_ok_def h1 nth_append)
  moreover have "heap_ordered lt h1"
    using assms(1) node
    by (auto simp: heap_wf_def heap_ordered_def h1 less_trans [OF par_less])
  ultimately show "heap_wf lt h1"
    using assms(1) by (simp add: heap_wf_def h1)
qed

text \<open>The last step of \<open>gh_heap_remove\<close>: the vacated slot is cleared.\<close>

lemma clear_last_slot:
  assumes live: "\<forall>i < count h. \<exists>p. slots h ! i = Some p \<and> hindex h p = i"
    and ord: "heap_ordered lt h" and cmp: "cmp_op h = Some lt"
    and room: "count h < highwm h" "length (slots h) = highwm h" "highwm h * 8 < 2 ^ 31"
    and rest: "\<forall>i < highwm h. count h < i \<longrightarrow> slots h ! i = None"
    and out: "x \<notin> heap_nodes h"
  defines "h' \<equiv> (gh_hnode_invalidate h x)\<lparr>slots := (slots h)[count h := None]\<rparr>"
  shows "heap_wf lt h'" "heap_nodes h' = heap_nodes h"
proof -
  have node: "node h' i = node h i" if "i < count h" for i
    using that room by (simp add: h'_def node_def gh_hnode_invalidate_def)
  have idx: "hindex h' (node h i) = i" if "i < count h" for i
  proof -
    have "node h i \<noteq> x" using out that by (auto simp: heap_nodes_def)
    with live that show ?thesis
      by (auto simp: h'_def gh_hnode_invalidate_def node_def)
  qed
  have "slots h' ! i = Some (node h i)" if "i < count h" for i
    using live that room by (auto simp: h'_def node_def)
  then have "slots_ok h'"
    using idx room rest by (auto simp: slots_ok_def h'_def gh_hnode_invalidate_def nth_list_update)
  moreover have "heap_ordered lt h'"
    using ord node
    by (auto simp: heap_ordered_def h'_def gh_hnode_invalidate_def less_trans [OF par_less])
  ultimately show "heap_wf lt h'"
    using cmp by (simp add: heap_wf_def h'_def gh_hnode_invalidate_def)
  show "heap_nodes h' = heap_nodes h"
    using node by (simp add: heap_nodes_def h'_def gh_hnode_invalidate_def)
qed

text \<open>\<open>gh_heap_push\<close> after the room check: the new node enters at the end and sifts up.\<close>

definition enter_last :: "'p gh_heap \<Rightarrow> 'p \<Rightarrow> 'p gh_heap" where
  "enter_last h x = h\<lparr>hindex := (hindex h)(x := count h), count := count h + 1,
                      slots := (slots h)[count h := Some x]\<rparr>"

lemma enter_last_hole:
  assumes "heap_wf lt h" "count h < highwm h" "x \<notin> heap_nodes h"
  shows "hole_ok (enter_last h x) x (count h)" "ordered_but lt (enter_last h x) (count h)"
    "above_children lt (enter_last h x) x (count h)"
    "others (enter_last h x) (count h) = heap_nodes h"
proof -
  have ok: "slots_ok h" and ord: "heap_ordered lt h" using assms(1) by (simp_all add: heap_wf_def)
  have node: "node (enter_last h x) i = node h i" if "i < count h" for i
    using that by (simp add: node_def enter_last_def)
  have "\<exists>p. slots (enter_last h x) ! i = Some p \<and> hindex (enter_last h x) p = i \<and> p \<noteq> x"
    if i: "i < count h" for i
  proof -
    have "node h i \<noteq> x" using assms(3) i by (auto simp: heap_nodes_def)
    then show ?thesis using wf_slot [OF ok i] i by (simp add: enter_last_def)
  qed
  then show "hole_ok (enter_last h x) x (count h)"
    using ok assms(2) by (auto simp: hole_ok_def enter_last_def slots_ok_def less_Suc_eq)
  have nochild: "par i \<noteq> count h" if "0 < i" "i < Suc (count h)" for i
    using par_less [OF that(1)] that(2) by linarith
  show "ordered_but lt (enter_last h x) (count h)"
    using ord node nochild
    by (auto simp: ordered_but_def heap_ordered_def enter_last_def [of h x] less_Suc_eq
        less_trans [OF par_less] simp flip: enter_last_def)
  show "above_children lt (enter_last h x) x (count h)"
    using nochild by (auto simp: above_children_def enter_last_def)
  have "{..<count (enter_last h x)} - {count h} = {..<count h}"
    by (auto simp: enter_last_def)
  then show "others (enter_last h x) (count h) = heap_nodes h"
    using node by (simp add: others_def heap_nodes_def)
qed

text \<open>The part of the invariant that survives a sift.\<close>

lemma sifted_wf:
  assumes "sifted h x cur h'" "heap_ordered lt h'" "cmp_op h = Some lt"
    and "count h \<le> highwm h" "length (slots h) = highwm h" "highwm h * 8 < 2 ^ 31"
    and "\<forall>i < highwm h. count h \<le> i \<longrightarrow> slots h ! i = None"
  shows "heap_wf lt h'"
  using assms by (simp add: heap_wf_def slots_ok_def sifted_def same_frame_def)

context heap_order
begin

lemma push_room:
  assumes wf: "heap_wf lt h" and room: "count h < highwm h" and x: "x \<notin> heap_nodes h"
  shows "\<exists>h' act. hnode_up (enter_last h x) x = Inr (h', act) \<and> heap_wf lt h' \<and>
           heap_nodes h' = insert x (heap_nodes h) \<and> count h' = count h + 1 \<and>
           highwm h' = highwm h \<and>
           (\<forall>q. q \<notin> insert x (heap_nodes h) \<longrightarrow> hindex h' q = hindex h q)"
proof -
  let ?h = "enter_last h x" and ?c = "count h"
  note hole = enter_last_hole [OF wf room x]
  have own: "slots ?h ! ?c = Some x" "hindex ?h x = ?c"
    using wf room by (auto simp: enter_last_def heap_wf_def slots_ok_def)
  have cmp: "cmp_op ?h = Some lt" using wf by (simp add: enter_last_def heap_wf_def)
  obtain h' act where up: "hnode_up ?h x = Inr (h', act)" "sifted ?h x ?c h'"
      "act \<longrightarrow> heap_ordered lt h'" "\<not> act \<longrightarrow> h' = ?h \<and> below_parent lt ?h x ?c"
    using hnode_up_ok [OF hole(1) own hole(2) cmp] by blast
  have "heap_ordered lt h'"
  proof (cases act)
    case False
    then have "h' = fill_slot ?h ?c x" using up(4) fill_slot_triv [OF own] by simp
    then show ?thesis using fill_hole_ordered [OF hole(1-3)] up(4) False by simp
  qed (use up in simp)
  then have "heap_wf lt h'"
    by (rule sifted_wf [OF up(2) _ cmp]) (use wf room in \<open>auto simp: enter_last_def heap_wf_def slots_ok_def\<close>)
  moreover have "\<forall>q. q \<notin> insert x (heap_nodes h) \<longrightarrow> hindex h' q = hindex h q"
    using up(2) hole(4) by (auto simp: sifted_def enter_last_def)
  ultimately show ?thesis
    using up(1,2) hole(4) by (auto simp: sifted_def same_frame_def enter_last_def)
qed

lemma push_ok:
  assumes wf: "heap_wf lt h" and new: "\<not> gh_hnode_is_valid h x"
    and room: "count h < highwm h \<or> (highwm h + 128) * 8 < 2 ^ 31"
  shows "\<exists>h'. gh_heap_push h x = Inr h' \<and> heap_wf lt h' \<and> x \<notin> heap_nodes h \<and>
           heap_nodes h' = insert x (heap_nodes h) \<and> count h' = count h + 1 \<and>
           (\<forall>q. q \<notin> insert x (heap_nodes h) \<longrightarrow> hindex h' q = hindex h q)"
proof -
  have ok: "slots_ok h" using wf by (simp add: heap_wf_def)
  have x: "x \<notin> heap_nodes h" using wf_index_bound(2) [OF ok] new by blast
  obtain h1 where h1: "(if count h = highwm h then heap_grow h else Inr h) = Inr h1"
      "heap_wf lt h1" "count h1 = count h" "count h1 < highwm h1" "hindex h1 = hindex h"
      "heap_nodes h1 = heap_nodes h"
  proof (cases "count h = highwm h")
    case True
    then have "heap_grow h = Inr (h\<lparr>slots := slots h @ replicate 128 None, highwm := highwm h + 128\<rparr>)"
      using room heap_grow_ok [OF ok True] by auto
    then show ?thesis
      using that [OF _ grow_wf [OF wf True]] True by simp
  next
    case False
    then show ?thesis using that [of h] wf ok by (simp add: slots_ok_def)
  qed
  have x1: "x \<notin> heap_nodes h1" using x h1(6) by simp
  have "hnode_at (h1\<lparr>hindex := (hindex h1)(x := count h)\<rparr>) (count h) = Inr None"
    using h1(2-4) by (auto simp: hnode_at_def hnode_ptr_def heap_wf_def slots_ok_def)
  then have "gh_heap_push h x = (case hnode_up (enter_last h1 x) x of Inl e \<Rightarrow> Inl e | Inr (h3, _) \<Rightarrow> Inr h3)"
    using new h1(1,3) by (simp add: gh_heap_push_def Let_def enter_last_def fun_upd_def)
  moreover obtain h' act where "hnode_up (enter_last h1 x) x = Inr (h', act)" "heap_wf lt h'"
      "heap_nodes h' = insert x (heap_nodes h)" "count h' = count h + 1"
      "\<forall>q. q \<notin> insert x (heap_nodes h) \<longrightarrow> hindex h' q = hindex h q"
    using push_room [OF h1(2,4) x1] unfolding h1(3,5,6) by blast
  ultimately show ?thesis
    using x by (intro exI [of _ h']) simp
qed

end

text \<open>\<open>gh_heap_remove\<close>: the last node takes the place of the removed one.\<close>

definition drop_last :: "'p gh_heap \<Rightarrow> 'p gh_heap" where
  "drop_last h = h\<lparr>count := count h - 1\<rparr>"

lemma drop_last_sel [simp]:
  "cmp_op (drop_last h) = cmp_op h" "count (drop_last h) = count h - 1"
  "highwm (drop_last h) = highwm h" "slots (drop_last h) = slots h"
  "hindex (drop_last h) = hindex h" "node (drop_last h) i = node h i"
  by (simp_all add: drop_last_def node_def)

lemma move_last_hole:
  assumes ok: "slots_ok h" and x: "x \<in> heap_nodes h" "node h (count h - 1) \<noteq> x"
  defines "l \<equiv> node h (count h - 1)" and "c \<equiv> hindex h x"
  shows "hole_ok (fill_slot (drop_last h) c l) l c"
    and "insert l (others (fill_slot (drop_last h) c l) c) = heap_nodes h - {x}"
    and "c < count h - 1"
proof -
  have c: "c < count h" "node h c = x" using wf_at_hindex [OF ok x(1)] by (simp_all add: c_def)
  then have "c \<noteq> count h - 1" using x(2) by auto
  with c show cl: "c < count h - 1" by linarith
  then have len: "c < length (slots h)" and n: "count h = Suc (count h - 1)"
    using ok by (auto simp: slots_ok_def)
  have inj: "i = j" if "i < count h" "j < count h" "node h i = node h j" for i j
    using wf_slot(2) [OF ok that(1)] wf_slot(2) [OF ok that(2)] that(3) by metis
  have "\<exists>p. slots (fill_slot (drop_last h) c l) ! i = Some p \<and>
      hindex (fill_slot (drop_last h) c l) p = i \<and> p \<noteq> l" if "i < count h - 1" "i \<noteq> c" for i
  proof -
    have "node h i \<noteq> l" using inj [of i "count h - 1"] that(1) by (auto simp: l_def)
    then show ?thesis using wf_slot [OF ok, of i] that by simp
  qed
  then show hole: "hole_ok (fill_slot (drop_last h) c l) l c"
    using cl ok by (auto simp: hole_ok_def slots_ok_def)
  have "others (fill_slot (drop_last h) c l) c = node h ` ({..<count h - 1} - {c})"
    using node_fill_image [of c "drop_last h" "{..<count h - 1} - {c}" l] len
    by (simp add: others_def drop_last_def node_def)
  moreover have "insert l (node h ` ({..<count h - 1} - {c})) = node h ` ({..<count h} - {c})"
  proof -
    have "{..<count h} - {c} = insert (count h - 1) ({..<count h - 1} - {c})"
      using cl n by auto
    then show ?thesis by (simp add: l_def)
  qed
  moreover have "node h ` ({..<count h} - {c}) = heap_nodes h - {x}"
    using inj c by (auto simp: heap_nodes_def)
  ultimately show "insert l (others (fill_slot (drop_last h) c l) c) = heap_nodes h - {x}"
    by simp
qed

context heap_order
begin

lemma ordered_but_drop:
  assumes "ordered_but lt h c" "c < length (slots h)"
  shows "ordered_but lt (fill_slot (drop_last h) c l) c"
proof -
  have N: "node (fill_slot (drop_last h) c l) i = (if i = c then l else node h i)" for i
    using node_fill [of c "drop_last h"] assms(2) by simp
  show ?thesis using assms(1) by (auto simp: ordered_but_def N)
qed

lemma heap_ordered_but:
  assumes "heap_ordered lt h" "c < count h"
  shows "ordered_but lt h c"
proof -
  have ord: "\<not> lt (node h i) (node h (par i))" if "i < count h" "0 < i" for i
    using assms(1) that by (simp add: heap_ordered_def)
  have "\<not> lt (node h i) (node h (par c))" if "i < count h" "0 < i" "par i = c" "0 < c" for i
    using neg_trans [of "node h i" "node h c" "node h (par c)"] ord [of i] ord [of c] that assms(2)
    by simp
  then show ?thesis using ord by (auto simp: ordered_but_def)
qed

text \<open>The sift of the moved node: up, and down when it did not move up.\<close>

lemma resift_ok:
  assumes hole: "hole_ok h x c" "slots h ! c = Some x" "hindex h x = c"
    and ord: "ordered_but lt h c" "cmp_op h = Some lt"
  shows "\<exists>h'. (case hnode_up h x of
             Inl e \<Rightarrow> Inl e
           | Inr (h2, True) \<Rightarrow> Inr h2
           | Inr (h2, False) \<Rightarrow>
               (case slots h2 ! c of
                  None \<Rightarrow> Inl Null_deref
                | Some p \<Rightarrow> map_sum id fst (hnode_down h2 p))) = Inr h' \<and>
           sifted h x c h' \<and> heap_ordered lt h'"
proof -
  obtain h1 act where up: "hnode_up h x = Inr (h1, act)" "sifted h x c h1"
      "act \<longrightarrow> heap_ordered lt h1" "\<not> act \<longrightarrow> h1 = h \<and> below_parent lt h x c"
    using hnode_up_ok [OF hole ord] by blast
  show ?thesis
  proof (cases act)
    case False
    with up have "h1 = h" "below_parent lt h x c" by auto
    moreover obtain h' a where "hnode_down h x = Inr (h', a)" "sifted h x c h'" "heap_ordered lt h'"
      using hnode_down_ok [OF hole ord] calculation by blast
    ultimately show ?thesis using up(1) False hole(2) by (intro exI [of _ h']) simp
  qed (use up in simp)
qed

text \<open>The key of the removed node does not matter, as it is compared with no other.\<close>

lemma remove_off_ok:
  assumes ok: "slots_ok h" and cmp: "cmp_op h = Some lt" and ord: "ordered_but lt h (hindex h x)"
    and x: "x \<in> heap_nodes h"
  shows "\<exists>h'. gh_heap_remove h x = Inr h' \<and> heap_wf lt h' \<and> heap_nodes h' = heap_nodes h - {x} \<and>
           count h' = count h - 1 \<and> \<not> gh_hnode_is_valid h' x \<and>
           (\<forall>q. q \<notin> heap_nodes h \<longrightarrow> hindex h' q = hindex h q)"
proof -
  let ?c = "hindex h x" and ?n = "count h - 1"
  let ?l = "node h ?n"
  have c: "?c < count h" "node h ?c = x" using wf_at_hindex [OF ok x] by simp_all
  have valid: "gh_hnode_is_valid h x" by (rule wf_index_bound [OF ok x])
  have at: "hnode_at h ?c = Inr (Some x)" "hnode_at h ?n = Inr (Some ?l)"
    using wf_slot(3) [OF ok c(1)] wf_slot(3) [OF ok, of ?n] c by simp_all
  obtain h3 where h3: "reinsert_last (drop_last h) ?c ?l x = Inr h3"
    "\<forall>i < count h3. \<exists>p. slots h3 ! i = Some p \<and> hindex h3 p = i" "heap_ordered lt h3"
    "heap_nodes h3 = heap_nodes h - {x}" "same_frame (drop_last h) h3"
    "\<forall>q. q \<notin> heap_nodes h \<longrightarrow> hindex h3 q = hindex h q"
  proof (cases "?l = x")
    case True
    have eq: "?c = ?n" using wf_slot(2) [OF ok, of ?n] c True by simp
    have "{..<count h} = insert ?n {..<?n}" using c by auto
    then have "heap_nodes h = insert x (heap_nodes (drop_last h))"
      using True by (simp add: heap_nodes_def node_def drop_last_def)
    moreover have "x \<notin> heap_nodes (drop_last h)"
      using wf_slot(2) [OF ok] eq by (fastforce simp: heap_nodes_def node_def drop_last_def)
    moreover have "heap_ordered lt (drop_last h)"
      unfolding heap_ordered_def
    proof (intro allI impI)
      fix i assume i: "i < count (drop_last h)" "0 < i"
      then have "i < count h" "i \<noteq> ?n" by simp_all
      moreover have "par i \<noteq> ?n" using par_le [of i] i(1) unfolding drop_last_sel by linarith
      ultimately have "i < count h" "i \<noteq> ?n" "par i \<noteq> ?n" .
      then show "\<not> lt (node (drop_last h) i) (node (drop_last h) (par i))"
        using ord i(2) unfolding eq ordered_but_def by simp
    qed
    ultimately show ?thesis
      using that [of "drop_last h"] True wf_slot [OF ok] by (auto simp: reinsert_last_def)
  next
    case False
    note mv = move_last_hole [OF ok x False]
    have len: "?c < length (slots h)" using c ok by (simp add: slots_ok_def)
    obtain h3 where "reinsert_last (drop_last h) ?c ?l x = Inr h3" "sifted (fill_slot (drop_last h) ?c ?l) ?l ?c h3"
        "heap_ordered lt h3"
      using resift_ok [OF mv(1) _ _ ordered_but_drop [OF ord len]] cmp len False
      by (auto simp: reinsert_last_def)
    moreover have "same_frame (drop_last h) (fill_slot (drop_last h) ?c ?l)"
      using mv(3) by (intro same_frame_fill) simp
    moreover have "hindex h3 q = hindex h q" if "q \<notin> heap_nodes h" for q
    proof -
      have "?l \<in> heap_nodes h" using c by (simp add: heap_nodes_def)
      then have "q \<noteq> ?l" "q \<notin> insert ?l (others (fill_slot (drop_last h) ?c ?l) ?c)"
        using that unfolding mv(2) by auto
      then show ?thesis using calculation(2) by (simp add: sifted_def)
    qed
    ultimately show ?thesis
      using that mv(2) by (auto simp: sifted_def intro: same_frame_trans)
  qed
  have fr: "count h3 = ?n" "cmp_op h3 = Some lt" "highwm h3 = highwm h"
      "length (slots h3) = highwm h3" "highwm h3 * 8 < 2 ^ 31" "count h3 < highwm h3"
      "\<forall>i < highwm h3. count h3 < i \<longrightarrow> slots h3 ! i = None"
    using h3(5) ok cmp c by (auto simp: same_frame_def slots_ok_def)
  have out: "x \<notin> heap_nodes h3" using h3(4) by simp
  note fin = clear_last_slot [OF h3(2,3) fr(2,6,4,5,7) out]
  have "gh_heap_remove h x = Inr ((gh_hnode_invalidate h3 x)\<lparr>slots := (slots h3)[count h3 := None]\<rparr>)"
    using valid c(1) at h3(1) [unfolded drop_last_def] fr(1,3,4,6)
    by (simp add: gh_heap_remove_def Let_def hnode_ptr_def gh_hnode_invalidate_def)
  then show ?thesis
    using fin h3(4,6) fr(1) x
    by (auto simp: gh_hnode_is_valid_def gh_hnode_invalidate_def GH_HEAP_GUARD_def)
qed

lemma remove_ok:
  assumes wf: "heap_wf lt h" and x: "x \<in> heap_nodes h"
  shows "\<exists>h'. gh_heap_remove h x = Inr h' \<and> heap_wf lt h' \<and> heap_nodes h' = heap_nodes h - {x} \<and>
           count h' = count h - 1 \<and> \<not> gh_hnode_is_valid h' x \<and>
           (\<forall>q. q \<notin> heap_nodes h \<longrightarrow> hindex h' q = hindex h q)"
proof -
  have ok: "slots_ok h" and ord: "heap_ordered lt h" and cmp: "cmp_op h = Some lt"
    using wf by (simp_all add: heap_wf_def)
  have "hindex h x < count h" using wf_at_hindex [OF ok x] by simp
  from remove_off_ok [OF ok cmp heap_ordered_but [OF ord this] x] show ?thesis .
qed

end

end
