(* ===== verification/Expirables.thy ===== *)
theory Expirables
  imports Gh_Heap "HOL-Library.Signed_Division"
begin

text \<open>
  The timers of an nsock pool: the time arithmetic of nbase.h, the comparison that orders the
  heap of events with a timeout (nsock/src/nsock_pool.c), the test for an expired event
  (nsock/src/nsock_event.c), and the loop of \<open>nsock_pool_delete\<close> that empties the heap.
  The interface between the pool and the heap is the locale \<open>timer_queue\<close>; the pool's loop is
  analysed against it, and the heap provides it.
\<close>

section \<open>Time values (nbase.h)\<close>

datatype timeval = Timeval (tv_sec: int) (tv_usec: int)

definition TIMEVAL_BEFORE :: "timeval \<Rightarrow> timeval \<Rightarrow> bool" where
  "TIMEVAL_BEFORE a b \<longleftrightarrow>
     tv_sec a < tv_sec b \<or> (tv_sec a = tv_sec b \<and> tv_usec a < tv_usec b)"

definition TIMEVAL_AFTER :: "timeval \<Rightarrow> timeval \<Rightarrow> bool" where
  "TIMEVAL_AFTER a b \<longleftrightarrow>
     tv_sec a > tv_sec b \<or> (tv_sec a = tv_sec b \<and> tv_usec a > tv_usec b)"

definition TIMEVAL_SUBTRACT :: "timeval \<Rightarrow> timeval \<Rightarrow> int" where
  "TIMEVAL_SUBTRACT a b = (tv_sec a - tv_sec b) * 1000000 + tv_usec a - tv_usec b"

definition TIMEVAL_MSEC_SUBTRACT :: "timeval \<Rightarrow> timeval \<Rightarrow> int" where
  "TIMEVAL_MSEC_SUBTRACT a b =
     (tv_sec a - tv_sec b) * 1000 + (tv_usec a - tv_usec b) sdiv 1000"

definition TIMEVAL_SEC_SUBTRACT :: "timeval \<Rightarrow> timeval \<Rightarrow> int" where
  "TIMEVAL_SEC_SUBTRACT a b =
     tv_sec a - tv_sec b + (if tv_usec a < tv_usec b then -1 else 0)"

definition TIMEVAL_MSEC_ADD :: "timeval \<Rightarrow> int \<Rightarrow> timeval" where
  "TIMEVAL_MSEC_ADD b msecs =
     (let sec = tv_sec b + msecs sdiv 1000;
          usec = tv_usec b + (msecs smod 1000) * 1000
      in Timeval (sec + usec sdiv 1000000) (usec smod 1000000))"

definition TIMEVAL_ADD :: "timeval \<Rightarrow> int \<Rightarrow> timeval" where
  "TIMEVAL_ADD b usecs =
     (let sec = tv_sec b + usecs sdiv 1000000;
          usec = tv_usec b + usecs smod 1000000
      in Timeval (sec + usec sdiv 1000000) (usec smod 1000000))"

text \<open>The order on time values is linear, with \<open>TIMEVAL_BEFORE\<close> as its strict part.\<close>

instantiation timeval :: linorder
begin

definition less_timeval :: "timeval \<Rightarrow> timeval \<Rightarrow> bool" where
  "a < b \<longleftrightarrow> TIMEVAL_BEFORE a b"

definition less_eq_timeval :: "timeval \<Rightarrow> timeval \<Rightarrow> bool" where
  "a \<le> b \<longleftrightarrow> \<not> TIMEVAL_BEFORE b a"

instance
  by intro_classes
    (auto simp: less_timeval_def less_eq_timeval_def TIMEVAL_BEFORE_def intro: timeval.expand)

end

lemma TIMEVAL_AFTER_iff [simp]: "TIMEVAL_AFTER a b \<longleftrightarrow> b < a"
  by (auto simp: less_timeval_def TIMEVAL_AFTER_def TIMEVAL_BEFORE_def)

lemma TIMEVAL_BEFORE_iff [simp]: "TIMEVAL_BEFORE a b \<longleftrightarrow> a < b"
  by (simp add: less_timeval_def)

text \<open>A time value in microseconds, and the values whose microseconds are in range.\<close>

definition usecs_of :: "timeval \<Rightarrow> int" where
  "usecs_of t = tv_sec t * 1000000 + tv_usec t"

definition normal_tv :: "timeval \<Rightarrow> bool" where
  "normal_tv t \<longleftrightarrow> 0 \<le> tv_usec t \<and> tv_usec t < 1000000"

lemma normal_less_iff:
  "normal_tv a \<Longrightarrow> normal_tv b \<Longrightarrow> a < b \<longleftrightarrow> usecs_of a < usecs_of b"
  unfolding less_timeval_def TIMEVAL_BEFORE_def normal_tv_def usecs_of_def by linarith

lemma sdiv_nonneg: "0 \<le> a \<Longrightarrow> 0 < b \<Longrightarrow> a sdiv b = a div (b :: int)"
  by (cases "a = 0") (simp_all add: signed_divide_int_def)

lemma smod_nonneg: "0 \<le> a \<Longrightarrow> 0 < b \<Longrightarrow> a smod b = a mod (b :: int)"
  by (cases "a = 0") (simp_all add: signed_modulo_int_def)

section \<open>Events with a timeout\<close>

definition expirable_cmp :: "('p \<Rightarrow> timeval) \<Rightarrow> 'p \<Rightarrow> 'p \<Rightarrow> bool" where
  "expirable_cmp timeout n1 n2 \<longleftrightarrow> TIMEVAL_BEFORE (timeout n1) (timeout n2)"

text \<open>\<open>event_timedout\<close>: \<open>tv_sec = 0\<close> means no timeout.\<close>

definition event_timedout :: "bool \<Rightarrow> timeval \<Rightarrow> timeval \<Rightarrow> bool" where
  "event_timedout event_done timeout nsock_tod \<longleftrightarrow>
     (if event_done then False
      else tv_sec timeout \<noteq> 0 \<and> \<not> TIMEVAL_AFTER timeout nsock_tod)"

interpretation expirable: heap_order "expirable_cmp timeout"
  for timeout :: "'p \<Rightarrow> timeval"
  by unfold_locales (auto simp: expirable_cmp_def)

section \<open>The interface of the pool to its timers\<close>

locale timer_queue =
  fixes wf :: "'q \<Rightarrow> bool"
    and elems :: "'q \<Rightarrow> 'p set"
    and size_of :: "'q \<Rightarrow> nat"
    and pop :: "'q \<Rightarrow> ('p option \<times> 'q) outcome"
    and key :: "'p \<Rightarrow> 'k :: linorder"
  assumes size_elems: "wf q \<Longrightarrow> finite (elems q) \<and> size_of q = card (elems q)"
    and pop_empty: "wf q \<Longrightarrow> elems q = {} \<Longrightarrow> pop q = Inr (None, q)"
    and pop_min: "wf q \<Longrightarrow> elems q \<noteq> {} \<Longrightarrow>
      \<exists>p q'. pop q = Inr (Some p, q') \<and> wf q' \<and> p \<in> elems q \<and> elems q' = elems q - {p} \<and>
             (\<forall>x \<in> elems q. key p \<le> key x)"

text \<open>A client that pops until the queue is empty.\<close>

locale timer_drain = timer_queue wf elems size_of pop key
  for wf :: "'q \<Rightarrow> bool" and elems :: "'q \<Rightarrow> 'p set" and size_of :: "'q \<Rightarrow> nat"
    and pop :: "'q \<Rightarrow> ('p option \<times> 'q) outcome" and key :: "'p \<Rightarrow> 'k :: linorder" +
  fixes drain :: "'q \<Rightarrow> ('p list \<times> 'q) outcome"
  assumes drain_unfold: "drain q =
    (if \<not> size_of q > 0 then Inr ([], q)
     else case pop q of
            Inl e \<Rightarrow> Inl e
          | Inr (None, q') \<Rightarrow> Inl Null_deref
          | Inr (Some p, q') \<Rightarrow> map_sum id (map_prod (Cons p) id) (drain q'))"
begin

lemma drain_sorted:
  assumes "wf q"
  shows "\<exists>ps q'. drain q = Inr (ps, q') \<and> sorted (map key ps) \<and> distinct ps \<and>
           set ps = elems q \<and> wf q' \<and> elems q' = {}"
  using assms
proof (induction "card (elems q)" arbitrary: q)
  case 0
  then have "elems q = {}" using size_elems by auto
  then show ?case using 0 size_elems by (subst drain_unfold) auto
next
  case (Suc n)
  from Suc.hyps(2) have ne: "elems q \<noteq> {}" by auto
  obtain p q' where p: "pop q = Inr (Some p, q')" "wf q'" "p \<in> elems q"
      "elems q' = elems q - {p}" "\<forall>x \<in> elems q. key p \<le> key x"
    using pop_min [OF Suc.prems ne] by blast
  have "n = card (elems q')"
    using Suc.hyps(2) p(3,4) size_elems [OF Suc.prems] by simp
  then obtain ps q'' where IH: "drain q' = Inr (ps, q'')" "sorted (map key ps)" "distinct ps"
      "set ps = elems q'" "wf q''" "elems q'' = {}"
    using Suc.hyps(1) [OF _ p(2)] by blast
  have "drain q = Inr (p # ps, q'')"
    using Suc.hyps(2) size_elems [OF Suc.prems] p(1) IH(1) by (subst drain_unfold) simp
  then show ?case using IH p(3-5) by auto
qed

end

section \<open>The heap as the pool's timer queue\<close>

lemma find_root:
  assumes "slots_ok h" "0 < count h"
  shows "gh_heap_find h 0 = Inr (Some (node h 0))"
  using wf_slot(3) [OF assms] assms(2) by (simp add: gh_heap_find_def)

context heap_order
begin

lemma root_least:
  assumes "heap_ordered lt h" "i < count h"
  shows "\<not> lt (node h i) (node h 0)"
  using assms(2)
proof (induction i rule: less_induct)
  case (less i)
  show ?case
  proof (cases "i = 0")
    case True
    then show ?thesis using asym by blast
  next
    case False
    then have "\<not> lt (node h i) (node h (par i))"
      using assms(1) less.prems by (simp add: heap_ordered_def)
    moreover have "\<not> lt (node h (par i)) (node h 0)"
      using False less.prems by (intro less.IH) (auto intro: less_trans [OF par_less])
    ultimately show ?thesis by (rule neg_trans)
  qed
qed

lemma pop_ok:
  assumes wf: "heap_wf lt h" and ne: "heap_nodes h \<noteq> {}"
  shows "\<exists>p h'. gh_heap_pop h = Inr (Some p, h') \<and> gh_heap_min h = Inr (Some p) \<and>
           heap_wf lt h' \<and> p \<in> heap_nodes h \<and>
           heap_nodes h' = heap_nodes h - {p} \<and> \<not> gh_hnode_is_valid h' p \<and>
           (\<forall>x \<in> heap_nodes h. \<not> lt x p)"
proof -
  have ok: "slots_ok h" and ord: "heap_ordered lt h" using wf by (simp_all add: heap_wf_def)
  have pos: "0 < count h" using ne by (auto simp: heap_nodes_def)
  have root: "node h 0 \<in> heap_nodes h" using pos by (simp add: heap_nodes_def)
  obtain h' where "gh_heap_remove h (node h 0) = Inr h'" "heap_wf lt h'"
      "heap_nodes h' = heap_nodes h - {node h 0}" "\<not> gh_hnode_is_valid h' (node h 0)"
    using remove_ok [OF wf root] by blast
  moreover have "\<forall>x \<in> heap_nodes h. \<not> lt x (node h 0)"
    using root_least [OF ord] by (auto simp: heap_nodes_def)
  ultimately show ?thesis
    using find_root [OF ok pos] pos root
    by (intro exI [of _ "node h 0"] exI [of _ h']) (simp add: gh_heap_pop_def gh_heap_min_def)
qed

end

lemma pop_none: "heap_nodes h = {} \<Longrightarrow> gh_heap_pop h = Inr (None, h)"
  by (auto simp: heap_nodes_def gh_heap_pop_def gh_heap_find_def)

lemma card_heap_nodes:
  assumes "slots_ok h"
  shows "finite (heap_nodes h)" "card (heap_nodes h) = count h"
proof -
  have "inj_on (node h) {..<count h}"
    using wf_slot(2) [OF assms] by (intro inj_onI) (metis lessThan_iff)
  then show "finite (heap_nodes h)" "card (heap_nodes h) = count h"
    by (simp_all add: heap_nodes_def card_image)
qed

text \<open>Every removal takes one node off the count, so the loop that pops terminates.\<close>

lemma up_loop_count:
  "hnode_up_loop h x cur act = Inr (h', cur', act') \<Longrightarrow> count h' = count h"
proof (induction h x cur act rule: hnode_up_loop.induct)
  case (1 h x cur act)
  from "1.prems" show ?case
    by (subst (asm) hnode_up_loop.simps)
      (auto simp: Let_def split: if_splits sum.splits bool.splits dest: "1.IH" [rotated -1])
qed

lemma down_loop_count:
  "hnode_down_loop h x cur act = Inr (h', cur', act') \<Longrightarrow> count h' = count h"
proof (induction h x cur act rule: hnode_down_loop.induct)
  case (1 h x cur act)
  from "1.prems" show ?case
    by (subst (asm) hnode_down_loop.simps)
      (auto simp: Let_def split: if_splits sum.splits bool.splits option.splits prod.splits
        dest: "1.IH" [rotated -1])
qed

lemma reinsert_last_count:
  "reinsert_last h c l x = Inr h' \<Longrightarrow> count h' = count h"
  by (auto simp: reinsert_last_def hnode_up_def hnode_down_def map_sum_def Let_def
      split: if_splits sum.splits bool.splits option.splits prod.splits
      dest!: up_loop_count down_loop_count)

lemma gh_heap_remove_count:
  "gh_heap_remove h x = Inr h' \<Longrightarrow> count h' < count h"
  by (auto simp: gh_heap_remove_def Let_def gh_hnode_invalidate_def
      split: if_splits sum.splits option.splits dest!: reinsert_last_count)

lemma gh_heap_pop_count:
  "gh_heap_pop h = Inr (Some p, h') \<Longrightarrow> count h' < count h"
  by (auto simp: gh_heap_pop_def map_sum_def split: sum.splits option.splits
      dest!: gh_heap_remove_count)

text \<open>The loop of \<open>nsock_pool_delete\<close> over the heap: the nodes in the order they are killed.\<close>

function drain_expirables :: "'p gh_heap \<Rightarrow> ('p list \<times> 'p gh_heap) outcome" where
  "drain_expirables h =
     (if \<not> gh_heap_count h > 0 then Inr ([], h)
      else case gh_heap_pop h of
             Inl e \<Rightarrow> Inl e
           | Inr (None, h') \<Rightarrow> Inl Null_deref
           | Inr (Some p, h') \<Rightarrow> map_sum id (map_prod (Cons p) id) (drain_expirables h'))"
  by pat_completeness auto
termination
  by (relation "measure count") (auto dest: gh_heap_pop_count)

declare drain_expirables.simps [simp del]

text \<open>Only the timers among them get the \<open>NSE_STATUS_KILL\<close> callback.\<close>

definition kill_timers :: "('p \<Rightarrow> bool) \<Rightarrow> 'p gh_heap \<Rightarrow> ('p list \<times> 'p gh_heap) outcome" where
  "kill_timers is_timer h = map_sum id (map_prod (filter is_timer) id) (drain_expirables h)"

interpretation expirables: timer_drain "heap_wf (expirable_cmp timeout)" heap_nodes
    gh_heap_count gh_heap_pop timeout drain_expirables
  for timeout :: "'p \<Rightarrow> timeval"
proof unfold_locales
  fix h :: "'p gh_heap"
  assume "heap_wf (expirable_cmp timeout) h"
  then have wf: "heap_wf (expirable_cmp timeout) h" and ok: "slots_ok h"
    by (simp_all add: heap_wf_def)
  show "finite (heap_nodes h) \<and> gh_heap_count h = card (heap_nodes h)"
    using card_heap_nodes [OF ok] by (simp add: gh_heap_count_def)
  show "gh_heap_pop h = Inr (None, h)" if "heap_nodes h = {}"
    using that by (rule pop_none)
  show "\<exists>p h'. gh_heap_pop h = Inr (Some p, h') \<and> heap_wf (expirable_cmp timeout) h' \<and>
      p \<in> heap_nodes h \<and> heap_nodes h' = heap_nodes h - {p} \<and>
      (\<forall>x \<in> heap_nodes h. timeout p \<le> timeout x)" if "heap_nodes h \<noteq> {}"
    using expirable.pop_ok [OF wf that] by (auto simp: expirable_cmp_def not_less)
next
  fix h :: "'p gh_heap"
  show "drain_expirables h =
    (if \<not> 0 < gh_heap_count h then Inr ([], h)
     else case gh_heap_pop h of
            Inl e \<Rightarrow> Inl e
          | Inr (None, h') \<Rightarrow> Inl Null_deref
          | Inr (Some p, h') \<Rightarrow> map_sum id (map_prod (Cons p) id) (drain_expirables h'))"
    by (rule drain_expirables.simps)
qed

section \<open>What the code promises of the heap\<close>

text \<open>
  The heaps an nsock pool can hold: \<open>gh_heap_init\<close> with the pool's comparison, then pushes of
  nodes that are in no heap and removals of nodes that are in this one.
\<close>

inductive expirables_reachable :: "('p \<Rightarrow> timeval) \<Rightarrow> 'p gh_heap \<Rightarrow> bool" for timeout where
  reach_init: "gh_heap_init (Some (expirable_cmp timeout)) idx = Inr (0, Some h) \<Longrightarrow>
    expirables_reachable timeout h"
| reach_push: "expirables_reachable timeout h \<Longrightarrow> gh_heap_push h x = Inr h' \<Longrightarrow>
    expirables_reachable timeout h'"
| reach_remove: "expirables_reachable timeout h \<Longrightarrow> x \<in> heap_nodes h \<Longrightarrow>
    gh_heap_remove h x = Inr h' \<Longrightarrow> expirables_reachable timeout h'"

lemma gh_heap_init_eq:
  "gh_heap_init (Some lt) idx =
     Inr (0, Some \<lparr>cmp_op = Some lt, count = 0, highwm = 128, slots = replicate 128 None, hindex = idx\<rparr>)"
  using heap_grow_ok [of "\<lparr>cmp_op = Some lt, count = 0, highwm = 0, slots = [], hindex = idx\<rparr>"]
  by (simp add: gh_heap_init_def slots_ok_def)

lemma init_wf:
  "gh_heap_init (Some lt) idx = Inr (0, Some h) \<Longrightarrow> heap_wf lt h \<and> heap_nodes h = {} \<and> count h = 0"
  by (auto simp: gh_heap_init_eq heap_wf_def slots_ok_def heap_ordered_def heap_nodes_def)

lemma push_no_room:
  assumes wf: "heap_wf lt h" and full: "count h = highwm h" "\<not> (highwm h + 128) * 8 < 2 ^ 31"
    and new: "\<not> gh_hnode_is_valid h x"
  shows "gh_heap_push h x = Inl Fatal_exit"
  using heap_grow_ok [of h] wf full new by (auto simp: gh_heap_push_def heap_wf_def Let_def)

lemma push_cases:
  assumes "heap_wf (expirable_cmp timeout) h" "gh_heap_push h x = Inr h'"
  shows "heap_wf (expirable_cmp timeout) h'"
proof -
  have new: "\<not> gh_hnode_is_valid h x" using assms(2) by (auto simp: gh_heap_push_def Let_def)
  show ?thesis
  proof (cases "count h < highwm h \<or> (highwm h + 128) * 8 < 2 ^ 31")
    case True
    then show ?thesis using expirable.push_ok [OF assms(1) new] assms(2) by auto
  next
    case False
    then have "count h = highwm h" using assms(1) by (auto simp: heap_wf_def slots_ok_def)
    then show ?thesis using push_no_room [OF assms(1) _ _ new] False assms(2) by simp
  qed
qed

lemma reachable_wf:
  "expirables_reachable timeout h \<Longrightarrow> heap_wf (expirable_cmp timeout) h"
proof (induction rule: expirables_reachable.induct)
  case (reach_init idx h)
  from init_wf [OF this] show ?case by (rule conjunct1)
next
  case (reach_push h x h')
  from push_cases [OF reach_push.IH reach_push.hyps(2)] show ?case .
next
  case (reach_remove h x h')
  from expirable.remove_ok [OF reach_remove.IH reach_remove.hyps(2)] obtain h''
    where "gh_heap_remove h x = Inr h''" "heap_wf (expirable_cmp timeout) h''" by iprover
  with reach_remove.hyps(3) show ?case by simp
qed

text \<open>
  C12. In every heap an nsock pool can reach, the slots array and the nodes agree (each live slot
  points to a node that stores that position, the rest of the array is null), every position is
  below \<open>2^28\<close> and so differs from the guard value that marks a node outside the heap, and no
  event expires before the event in the parent slot.
\<close>

theorem expirables_invariant:
  assumes "expirables_reachable timeout h"
  shows "count h \<le> highwm h \<and> length (slots h) = highwm h \<and>
     (\<forall>i < count h. slots h ! i = Some (node h i) \<and> hindex h (node h i) = i \<and> i < 2 ^ 28 \<and>
        gh_hnode_is_valid h (node h i)) \<and>
     (\<forall>i < highwm h. count h \<le> i \<longrightarrow> slots h ! i = None) \<and>
     (\<forall>i < count h. 0 < i \<longrightarrow> timeout (node h ((i - 1) div 2)) \<le> timeout (node h i))"
proof -
  have wf: "heap_wf (expirable_cmp timeout) h" by (rule reachable_wf [OF assms])
  then have ok: "slots_ok h" and ord: "heap_ordered (expirable_cmp timeout) h"
    by (simp_all add: heap_wf_def)
  have "slots h ! i = Some (node h i) \<and> hindex h (node h i) = i \<and> i < 2 ^ 28 \<and>
      gh_hnode_is_valid h (node h i)" if "i < count h" for i
  proof -
    have "node h i \<in> heap_nodes h" using that by (simp add: heap_nodes_def)
    from wf_index_bound [OF ok this] show ?thesis using wf_slot [OF ok that] by simp
  qed
  moreover have "timeout (node h ((i - 1) div 2)) \<le> timeout (node h i)" if "i < count h" "0 < i" for i
    using ord that by (auto simp: heap_ordered_def expirable_cmp_def not_less par_def)
  moreover have "count h \<le> highwm h \<and> length (slots h) = highwm h"
    and "\<forall>i < highwm h. count h \<le> i \<longrightarrow> slots h ! i = None"
    using ok unfolding slots_ok_def by iprover+
  ultimately show ?thesis by blast
qed

definition empty_timers :: "(nat \<Rightarrow> timeval) \<Rightarrow> nat gh_heap" where
  "empty_timers timeout = \<lparr>cmp_op = Some (expirable_cmp timeout), count = 0, highwm = 128,
     slots = replicate 128 None, hindex = (\<lambda>_. GH_HEAP_GUARD)\<rparr>"

lemma empty_timers_reachable: "expirables_reachable timeout (empty_timers timeout)"
  unfolding empty_timers_def by (rule expirables_reachable.reach_init [OF gh_heap_init_eq])

theorem expirables_invariant_witness:
  "length (slots (empty_timers (\<lambda>_. Timeval 0 0))) = highwm (empty_timers (\<lambda>_. Timeval 0 0))"
  by (rule expirables_invariant [OF empty_timers_reachable, THEN conjunct2, THEN conjunct1])

text \<open>
  Pushing an event that is in no heap onto a reachable heap trips no assertion: either the
  array is full and its growth would exceed the allocation limit, and the process exits, or the
  event is added, no other event is lost, and the positions of nodes outside the heap are kept.
\<close>

theorem expirables_push:
  assumes "expirables_reachable timeout h" and "\<not> gh_hnode_is_valid h x"
  shows "if count h = highwm h \<and> (highwm h + 128) * 8 \<ge> 2 ^ 31
         then gh_heap_push h x = Inl Fatal_exit
         else \<exists>h'. gh_heap_push h x = Inr h' \<and> expirables_reachable timeout h' \<and>
                x \<notin> heap_nodes h \<and> heap_nodes h' = insert x (heap_nodes h) \<and>
                count h' = count h + 1 \<and>
                (\<forall>q. q \<notin> heap_nodes h' \<longrightarrow> hindex h' q = hindex h q)"
proof -
  have wf: "heap_wf (expirable_cmp timeout) h" by (rule reachable_wf [OF assms(1)])
  show ?thesis
  proof (cases "count h = highwm h \<and> (highwm h + 128) * 8 \<ge> 2 ^ 31")
    case True
    then show ?thesis using push_no_room [OF wf _ _ assms(2)] by auto
  next
    case False
    then have "count h < highwm h \<or> (highwm h + 128) * 8 < 2 ^ 31"
      using wf by (auto simp: heap_wf_def slots_ok_def)
    from expirable.push_ok [OF wf assms(2) this] obtain h' where
      "gh_heap_push h x = Inr h'" "x \<notin> heap_nodes h" "heap_nodes h' = insert x (heap_nodes h)"
      "count h' = count h + 1" "\<forall>q. q \<notin> insert x (heap_nodes h) \<longrightarrow> hindex h' q = hindex h q"
      by blast
    moreover from this(1) have "expirables_reachable timeout h'"
      by (rule expirables_reachable.reach_push [OF assms(1)])
    ultimately have "\<exists>h'. gh_heap_push h x = Inr h' \<and> expirables_reachable timeout h' \<and>
                x \<notin> heap_nodes h \<and> heap_nodes h' = insert x (heap_nodes h) \<and>
                count h' = count h + 1 \<and>
                (\<forall>q. q \<notin> heap_nodes h' \<longrightarrow> hindex h' q = hindex h q)"
      by (intro exI [of _ h']) simp
    then show ?thesis unfolding if_not_P [OF False] .
  qed
qed

theorem expirables_push_witness:
  "\<exists>h'. gh_heap_push (empty_timers (\<lambda>n. Timeval (int n) 0)) 7 = Inr h' \<and> heap_nodes h' = {7}"
  using expirables_push [OF empty_timers_reachable, of "\<lambda>n. Timeval (int n) 0" 7]
  by (auto simp: empty_timers_def gh_hnode_is_valid_def heap_nodes_def)

text \<open>
  C13. Removing any event of a reachable heap trips no assertion, takes exactly that event out,
  marks its node as outside the heap, and leaves a reachable heap.
\<close>

theorem expirables_remove:
  assumes "expirables_reachable timeout h" and "x \<in> heap_nodes h"
  shows "\<exists>h'. gh_heap_remove h x = Inr h' \<and> expirables_reachable timeout h' \<and>
           heap_nodes h' = heap_nodes h - {x} \<and> count h' = count h - 1 \<and>
           \<not> gh_hnode_is_valid h' x"
  using expirable.remove_ok [OF reachable_wf [OF assms(1)] assms(2)]
    expirables_reachable.reach_remove [OF assms] by blast

lemma one_timer:
  "\<exists>h. expirables_reachable (\<lambda>n. Timeval (int n) 0) h \<and> heap_nodes h = {7 :: nat}"
proof -
  let ?t = "\<lambda>n :: nat. Timeval (int n) 0"
  have wf: "heap_wf (expirable_cmp ?t) (empty_timers ?t)"
    by (rule reachable_wf [OF empty_timers_reachable])
  have "\<not> gh_hnode_is_valid (empty_timers ?t) 7"
    by (simp add: empty_timers_def gh_hnode_is_valid_def)
  from expirable.push_ok [OF wf this] obtain h' where
    "gh_heap_push (empty_timers ?t) 7 = Inr h'" "heap_nodes h' = insert 7 (heap_nodes (empty_timers ?t))"
    by (auto simp: empty_timers_def)
  then show ?thesis
    using expirables_reachable.reach_push [OF empty_timers_reachable]
    by (intro exI [of _ h']) (auto simp: empty_timers_def heap_nodes_def)
qed

theorem expirables_remove_witness:
  "\<exists>h h'. gh_heap_remove h (7 :: nat) = Inr h' \<and> heap_nodes h' = {}"
proof -
  obtain h where h: "expirables_reachable (\<lambda>n. Timeval (int n) 0) h" "heap_nodes h = {7 :: nat}"
    using one_timer by blast
  show ?thesis using expirables_remove [OF h(1), of 7] h(2) by auto
qed

text \<open>
  The loop of \<open>nsock_pool_delete\<close> terminates without a failed assertion or a null
  dereference, kills every timer of the heap exactly once, in the order of their timeouts,
  and leaves the heap empty.
\<close>

theorem pool_delete_kills_timers:
  assumes "expirables_reachable timeout h"
  shows "\<exists>ps h'. kill_timers is_timer h = Inr (ps, h') \<and>
           sorted (map timeout ps) \<and> distinct ps \<and>
           set ps = {p \<in> heap_nodes h. is_timer p} \<and> gh_heap_is_empty h'"
proof -
  have wf: "heap_wf (expirable_cmp timeout) h" by (rule reachable_wf [OF assms])
  obtain ps h' where d: "drain_expirables h = Inr (ps, h')" "sorted (map timeout ps)"
      "distinct ps" "set ps = heap_nodes h" "heap_nodes h' = {}"
    using expirables.drain_sorted [OF wf] by blast
  have "gh_heap_is_empty h'" using d(5) by (auto simp: heap_nodes_def gh_heap_is_empty_def)
  moreover have "sorted (map timeout (filter is_timer ps))"
    using d(2) by (rule sorted_filter)
  ultimately show ?thesis
    using d by (auto simp: kill_timers_def)
qed

theorem pool_delete_kills_timers_witness:
  "\<exists>h h'. kill_timers (\<lambda>_. True) h = Inr ([7 :: nat], h')"
proof -
  obtain h where h: "expirables_reachable (\<lambda>n. Timeval (int n) 0) h" "heap_nodes h = {7 :: nat}"
    using one_timer by blast
  obtain ps h' where "kill_timers (\<lambda>_. True) h = Inr (ps, h')" "distinct ps" "set ps = {7}"
    using pool_delete_kills_timers [OF h(1), of "\<lambda>_. True"] h(2) by auto
  then have "ps = [7]" by (cases ps) (auto simp: subset_singleton_iff)
  with \<open>kill_timers (\<lambda>_. True) h = Inr (ps, h')\<close> show ?thesis by blast
qed

text \<open>
  Adding milliseconds to a time value in the range of the system clock gives a normalised
  value that many milliseconds later, and the comparison of two such values is the comparison
  of the instants: the expiry of an event is set and tested exactly.
\<close>

theorem timeval_add_exact:
  assumes "normal_tv t" and "0 \<le> ms"
  shows "normal_tv (TIMEVAL_MSEC_ADD t ms) \<and>
         usecs_of (TIMEVAL_MSEC_ADD t ms) = usecs_of t + ms * 1000 \<and>
         TIMEVAL_SUBTRACT (TIMEVAL_MSEC_ADD t ms) t = ms * 1000"
proof -
  let ?u = "tv_usec t + (ms mod 1000) * 1000"
  have u: "0 \<le> ?u" using assms by (simp add: normal_tv_def)
  have eq: "TIMEVAL_MSEC_ADD t ms = Timeval (tv_sec t + ms div 1000 + ?u div 1000000) (?u mod 1000000)"
    using assms(2) u by (simp add: TIMEVAL_MSEC_ADD_def Let_def sdiv_nonneg smod_nonneg)
  have split: "?u div 1000000 * 1000000 + ?u mod 1000000 = ?u" "ms div 1000 * 1000 + ms mod 1000 = ms"
    by simp_all
  have "usecs_of (TIMEVAL_MSEC_ADD t ms) = usecs_of t + ms * 1000"
    unfolding eq usecs_of_def timeval.sel distrib_right using split by presburger
  moreover have "normal_tv (TIMEVAL_MSEC_ADD t ms)" by (simp add: eq normal_tv_def)
  ultimately show ?thesis by (simp add: TIMEVAL_SUBTRACT_def usecs_of_def)
qed

theorem timeval_add_exact_witness:
  "usecs_of (TIMEVAL_MSEC_ADD (Timeval 5 999999) 1) = 6000999"
proof -
  have "normal_tv (Timeval 5 999999)" by (simp add: normal_tv_def)
  from timeval_add_exact [OF this, of 1] show ?thesis by (simp add: usecs_of_def)
qed

end
