(* ===== verification/Parse_Long.thy ===== *)
theory Parse_Long
  imports Prelude
begin

text \<open>
  \<open>parse_long\<close> of nbase/nbase_misc.c, the digits-only reading of a number that the address
  sets and the HTTP code share, with the decimal printing that it inverts.
\<close>

section \<open>strtol in base ten on a digit\<close>

text \<open>The value of a digit string, most significant digit first.\<close>

definition dec_value :: "cstr \<Rightarrow> nat" where
  "dec_value ds = foldl (\<lambda>v c. 10 * v + digit_val c) 0 ds"

text \<open>
  \<open>parse_long s\<close> returns the number, whether \<open>strtol\<close> set \<open>errno\<close> (a value out of range, for
  which it returns \<open>LONG_MAX\<close>), and the new \<open>tail\<close>.  Callers clear \<open>errno\<close> first.
\<close>

definition parse_long :: "cstr \<Rightarrow> int \<times> bool \<times> cstr" where
  "parse_long s =
     (if \<not> is_digit (deref s) then (0, False, s)
      else let v = int (dec_value (takeWhile is_digit s)); tail = dropWhile is_digit s
           in if v > LONG_MAX then (LONG_MAX, True, tail) else (v, False, tail))"

lemma parse_long_nonneg: "parse_long s = (v, e, t) \<Longrightarrow> 0 \<le> v"
  by (auto simp: parse_long_def Let_def split: if_splits)

lemma parse_long_tail: "parse_long s = (v, e, t) \<Longrightarrow> \<exists>ds. s = ds @ t \<and> (\<forall>c \<in> set ds. is_digit c)"
  by (auto simp: parse_long_def Let_def split: if_splits
      intro!: exI [of _ "takeWhile is_digit s"] dest: set_takeWhileD)

lemma parse_long_length: "parse_long s = (v, e, t) \<Longrightarrow> length t \<le> length s"
  using parse_long_tail by fastforce

lemma parse_long_progress:
  "parse_long s = (v, e, t) \<Longrightarrow> t \<noteq> s \<longleftrightarrow> is_digit (deref s)"
proof -
  assume p: "parse_long s = (v, e, t)"
  show ?thesis
  proof (cases s)
    case Nil
    then show ?thesis using p by (simp add: parse_long_def)
  next
    case (Cons c r)
    have "length (dropWhile is_digit r) < Suc (length r)"
      by (simp add: length_dropWhile_le less_Suc_eq_le)
    then have "dropWhile is_digit r \<noteq> c # r" by (metis length_Cons less_irrefl)
    then show ?thesis using p Cons by (auto simp: parse_long_def Let_def split: if_splits)
  qed
qed

lemma parse_long_not_digit:
  "\<not> is_digit (deref s) \<Longrightarrow> parse_long s = (0, False, s)"
  by (simp add: parse_long_def)

section \<open>Decimal printing\<close>

text \<open>\<open>%d\<close> of a natural number.\<close>

fun dec :: "nat \<Rightarrow> cstr" where
  "dec n = (if n < 10 then [char_of (48 + n)] else dec (n div 10) @ [char_of (48 + n mod 10)])"

declare dec.simps [simp del]

lemma digit_char:
  assumes "n < 10"
  shows "is_digit (char_of (48 + n))" "digit_val (char_of (48 + n)) = n"
  using assms by (simp_all add: is_digit_def digit_val_def)

lemma dec_digits: "\<forall>c \<in> set (dec n). is_digit c"
proof (induction n rule: dec.induct)
  case (1 n)
  then show ?case
    by (subst dec.simps) (auto simp: digit_char)
qed

lemma dec_not_Nil [simp]: "dec n \<noteq> []"
  by (subst dec.simps) simp

lemma dec_value_snoc: "dec_value (ds @ [c]) = 10 * dec_value ds + digit_val c"
  by (simp add: dec_value_def)

lemma dec_value_dec [simp]: "dec_value (dec n) = n"
proof (induction n rule: dec.induct)
  case (1 n)
  show ?case
  proof (cases "n < 10")
    case True
    then show ?thesis by (subst dec.simps) (simp add: dec_value_def digit_char)
  next
    case False
    then show ?thesis
      using 1 by (subst dec.simps) (simp add: dec_value_snoc digit_char)
  qed
qed

lemma parse_long_dec:
  assumes "int n \<le> LONG_MAX" and "\<not> is_digit (deref rest)"
  shows "parse_long (dec n @ rest) = (int n, False, rest)"
proof -
  have d: "\<And>c. c \<in> set (dec n) \<Longrightarrow> is_digit c" using dec_digits by blast
  have r: "takeWhile is_digit rest = []" "dropWhile is_digit rest = rest"
    using assms(2) by (cases rest; simp)+
  have "takeWhile is_digit (dec n @ rest) = dec n" "dropWhile is_digit (dec n @ rest) = rest"
    using d r by (simp_all add: takeWhile_append2 dropWhile_append2)
  moreover have "is_digit (deref (dec n @ rest))"
    using d dec_not_Nil [of n] by (cases "dec n") auto
  ultimately show ?thesis using assms(1) by (simp add: parse_long_def)
qed

lemma dec_no_char: "\<not> is_digit c \<Longrightarrow> c \<notin> set (dec n)"
  using dec_digits by blast

lemma dec_inj: "dec m = dec n \<longleftrightarrow> m = n"
  by (metis dec_value_dec)

lemma dec_length_le:
  "n < 10 ^ k \<Longrightarrow> 0 < k \<Longrightarrow> length (dec n) \<le> k"
proof (induction n arbitrary: k rule: dec.induct)
  case (1 n)
  show ?case
  proof (cases "n < 10")
    case True
    then show ?thesis using 1 by (subst dec.simps) simp
  next
    case False
    obtain j where k: "k = Suc j" using 1(3) by (cases k) auto
    have j: "0 < j" using False 1(2) k by (cases j) auto
    have "n div 10 < 10 ^ j" using 1(2) k by (simp add: less_mult_imp_div_less mult.commute)
    then have "length (dec (n div 10)) \<le> j" using 1(1) [OF False _ j] by simp
    then show ?thesis using False k by (subst dec.simps) simp
  qed
qed

end
