(* ===== verification/Octet_Set.thy ===== *)
theory Octet_Set
  imports Parse_Long
begin

text \<open>
  The IPv4 half of nbase/nbase_addrset.c: an \<open>addrset_elem\<close> holds one 256-bit vector for each
  octet of an address.  The theory has the bit vector operations, the parser of address ranges
  (\<open>parse_ipv4_ranges\<close>), the netmask expansion (\<open>apply_ipv4_netmask_octet\<close> and its callers)
  and the match, with what each means for the set of octets a vector stands for.
\<close>

unbundle bit_operations_syntax

section \<open>Bit vectors\<close>

type_synonym octet_bitvector = "u64 list"

definition BITVECTOR_BITS :: nat where "BITVECTOR_BITS = 64"

definition BIT_SET :: "octet_bitvector \<Rightarrow> nat \<Rightarrow> octet_bitvector" where
  "BIT_SET v n = v[n div BITVECTOR_BITS :=
     v ! (n div BITVECTOR_BITS) OR push_bit (n mod BITVECTOR_BITS) 1]"

definition BIT_IS_SET :: "octet_bitvector \<Rightarrow> nat \<Rightarrow> bool" where
  "BIT_IS_SET v n \<longleftrightarrow> v ! (n div BITVECTOR_BITS) AND push_bit (n mod BITVECTOR_BITS) 1 \<noteq> 0"

definition zero_bits :: octet_bitvector where "zero_bits = replicate 4 0"

text \<open>The array of \<open>octet_bitvector\<close> has \<open>(256 - 1) / 64 + 1 = 4\<close> words, so every index of an octet is in it.\<close>

definition bits_ok :: "octet_bitvector \<Rightarrow> bool" where
  "bits_ok v \<longleftrightarrow> length v = 4"

definition octets_of :: "octet_bitvector \<Rightarrow> nat set" where
  "octets_of v = {n. n < 256 \<and> BIT_IS_SET v n}"

lemma and_push_bit_one: "(w :: u64) AND push_bit k 1 \<noteq> 0 \<longleftrightarrow> bit w k \<and> k < 64"
proof
  assume "w AND push_bit k 1 \<noteq> 0"
  then obtain n where "bit (w AND push_bit k 1) n" by (metis bit_eqI bit_0_eq bot_apply bot_bool_def)
  then show "bit w k \<and> k < 64" by (auto simp: bit_simps)
next
  assume "bit w k \<and> k < 64"
  then have "bit (w AND push_bit k 1) k" by (simp add: bit_simps)
  then show "w AND push_bit k 1 \<noteq> 0" by auto
qed

lemma BIT_IS_SET_bit: "BIT_IS_SET v n \<longleftrightarrow> bit (v ! (n div 64)) (n mod 64)"
  unfolding BIT_IS_SET_def BITVECTOR_BITS_def and_push_bit_one by simp

lemma BIT_SET_ok [wf_intros]: "bits_ok v \<Longrightarrow> bits_ok (BIT_SET v n)"
  by (simp add: bits_ok_def BIT_SET_def)

lemma BIT_IS_SET_SET:
  assumes "bits_ok v" "n < 256" "m < 256"
  shows "BIT_IS_SET (BIT_SET v n) m \<longleftrightarrow> m = n \<or> BIT_IS_SET v m"
proof -
  have l: "n div 64 < length v" using assms by (auto simp: bits_ok_def)
  have eq: "m = n \<longleftrightarrow> m div 64 = n div 64 \<and> m mod 64 = n mod 64"
    by (metis div_mult_mod_eq)
  show ?thesis
    using l by (auto simp: BIT_IS_SET_bit BIT_SET_def BITVECTOR_BITS_def nth_list_update eq bit_simps)
qed

lemma octets_of_BIT_SET:
  "bits_ok v \<Longrightarrow> n < 256 \<Longrightarrow> octets_of (BIT_SET v n) = insert n (octets_of v)"
  by (auto simp: octets_of_def BIT_IS_SET_SET)

lemma zero_bits_ok [wf_intros]: "bits_ok zero_bits"
  by (simp add: bits_ok_def zero_bits_def)

lemma octets_of_zero [simp]: "octets_of zero_bits = {}"
proof -
  have "\<not> BIT_IS_SET zero_bits n" if "n < 256" for n
  proof -
    have "n div 64 < 4" using that by auto
    then show ?thesis by (simp add: BIT_IS_SET_bit zero_bits_def)
  qed
  then show ?thesis by (auto simp: octets_of_def)
qed

section \<open>Filling a range\<close>

text \<open>\<open>for (i = start; i <= end; i++) BIT_SET(bits, i);\<close>\<close>

definition fill_range :: "octet_bitvector \<Rightarrow> nat \<Rightarrow> nat \<Rightarrow> octet_bitvector" where
  "fill_range bits start end = fold (\<lambda>i v. BIT_SET v i) [start ..< Suc end] bits"

lemma fold_BIT_SET:
  "bits_ok v \<Longrightarrow> \<forall>i \<in> set is. i < 256 \<Longrightarrow>
     bits_ok (fold (\<lambda>i v. BIT_SET v i) is v) \<and>
     octets_of (fold (\<lambda>i v. BIT_SET v i) is v) = set is \<union> octets_of v"
  by (induction "is" arbitrary: v) (auto simp: octets_of_BIT_SET BIT_SET_ok)

lemma fill_range_ok:
  assumes "bits_ok v" "hi < 256"
  shows "bits_ok (fill_range v lo hi)" "octets_of (fill_range v lo hi) = {lo..hi} \<union> octets_of v"
  using fold_BIT_SET [OF assms(1), of "[lo ..< Suc hi]"] assms(2)
  by (auto simp: fill_range_def)

section \<open>parse_ipv4_ranges\<close>

text \<open>
  The second bound of a range: after a \<open>-\<close>, a number or 255 when none follows; without it,
  the first bound.  The result is the bound and the rest of the input, or failure.
\<close>

definition parse_range_end :: "int \<Rightarrow> cstr \<Rightarrow> (int \<times> cstr) option" where
  "parse_range_end start p =
     (if deref p = CHR ''-'' then
        (case parse_long (tl p) of (v, err, tail) \<Rightarrow>
           let end = (if tail = tl p then 255 else v)
           in if err \<or> end < 0 \<or> end > 255 \<or> end < start then None else Some (end, tail))
      else Some (start, p))"

text \<open>The inner \<open>for (;;)\<close>: ranges separated by commas, into the vector of one octet.\<close>

lemma parse_range_end_length:
  "parse_range_end start p = Some (e, q) \<Longrightarrow> length q \<le> length p"
proof -
  assume a: "parse_range_end start p = Some (e, q)"
  obtain v err tail where "parse_long (tl p) = (v, err, tail)" by (cases "parse_long (tl p)")
  with a parse_long_length [OF this] show ?thesis
    by (auto simp: parse_range_end_def Let_def split: if_splits)
qed

function parse_range_list :: "octet_bitvector \<Rightarrow> cstr \<Rightarrow> (octet_bitvector \<times> cstr) option" where
  "parse_range_list bits p =
     (case parse_long p of (v, err, tail) \<Rightarrow>
        if tail = p \<and> deref p \<noteq> CHR ''-'' then None
        else let start = (if tail = p then 0 else v)
             in if err \<or> start < 0 \<or> start > 255 then None
                else case parse_range_end start tail of
                       None \<Rightarrow> None
                     | Some (end, q) \<Rightarrow>
                         let bits' = fill_range bits (nat start) (nat end)
                         in if deref q \<noteq> CHR '','' then Some (bits', q)
                            else parse_range_list bits' (tl q))"
  by pat_completeness auto
termination
proof (relation "measure (length \<circ> snd)", simp)
  fix bits :: octet_bitvector and p r :: cstr and v x tail st err e q s bits'
  assume "(v, x) = parse_long p" "(err, tail) = x" "parse_range_end st tail = Some q"
    "(e, r) = q" "\<not> deref r \<noteq> CHR '',''"
  then have "length tail \<le> length p" "length r \<le> length tail" "deref r \<noteq> NUL"
    using parse_long_length [of p v err tail] parse_range_end_length [of st tail e r] by auto
  then show "((bits', tl r), bits, p) \<in> measure (length \<circ> snd)"
    using deref_tl_less [of r] by simp
qed

declare parse_range_list.simps [simp del]

text \<open>
  The outer loop, over the four octets.  On success the four vectors are filled; on failure the
  caller frees the element, so its half-filled vectors are not part of the result.
\<close>

function parse_octets :: "octet_bitvector list \<Rightarrow> nat \<Rightarrow> cstr \<Rightarrow> (octet_bitvector list \<times> nat \<times> cstr) option" where
  "parse_octets elem octet_index p =
     (if \<not> (p \<noteq> [] \<and> octet_index < 4) then Some (elem, octet_index, p)
      else case (if deref p = CHR ''*'' then Some (fill_range (elem ! octet_index) 0 255, tl p)
                 else parse_range_list (elem ! octet_index) p) of
             None \<Rightarrow> None
           | Some (bits, q) \<Rightarrow>
               let elem' = elem[octet_index := bits]; octet_index' = octet_index + 1
               in if octet_index' < 4
                  then if deref q \<noteq> CHR ''.'' then None
                       else parse_octets elem' octet_index' (tl q)
                  else parse_octets elem' octet_index' q)"
  by pat_completeness auto
termination by (relation "measure (\<lambda>(elem, i, p). 4 - i)") auto

declare parse_octets.simps [simp del]

definition parse_ipv4_ranges :: "octet_bitvector list \<Rightarrow> cstr \<Rightarrow> octet_bitvector list option" where
  "parse_ipv4_ranges elem spec =
     (case parse_octets elem 0 spec of
        None \<Rightarrow> None
      | Some (elem', octet_index, p) \<Rightarrow>
          if p \<noteq> [] \<or> octet_index < 4 then None else Some elem')"

section \<open>Netmasks\<close>

text \<open>
  The body of the two inner loops for one pair of positions, then the loops: chunks of size 1, 2,
  up to 128, in pairs.
\<close>

definition pair_step :: "nat \<Rightarrow> nat \<Rightarrow> octet_bitvector \<Rightarrow> octet_bitvector" where
  "pair_step chunk_size k bits =
     (if BIT_IS_SET bits k then BIT_SET bits (k + chunk_size)
      else if BIT_IS_SET bits (k + chunk_size) then BIT_SET bits k
      else bits)"

definition chunk_step :: "u8 \<Rightarrow> nat \<Rightarrow> octet_bitvector \<Rightarrow> octet_bitvector" where
  "chunk_step msk chunk_size bits =
     (if ucast msk AND (of_nat chunk_size :: u32) \<noteq> 0 then bits
      else fold (\<lambda>i. fold (\<lambda>j. pair_step chunk_size (i + j)) [0 ..< chunk_size])
             (map (\<lambda>m. m * (chunk_size * 2)) [0 ..< 256 div (chunk_size * 2)]) bits)"

definition apply_ipv4_netmask_octet :: "octet_bitvector \<Rightarrow> u8 \<Rightarrow> octet_bitvector" where
  "apply_ipv4_netmask_octet bits msk =
     fold (chunk_step msk) [1, 2, 4, 8, 16, 32, 64, 128] bits"

text \<open>\<open>apply_ipv4_netmask\<close>, on the msk in host byte order (\<open>htonl\<close> and \<open>ntohl\<close> cancel).\<close>

definition apply_ipv4_netmask :: "octet_bitvector list \<Rightarrow> u32 \<Rightarrow> octet_bitvector list" where
  "apply_ipv4_netmask elem msk =
     elem[0 := apply_ipv4_netmask_octet (elem ! 0) (ucast (drop_bit 24 (msk AND 0xFF000000))),
          1 := apply_ipv4_netmask_octet (elem ! 1) (ucast (drop_bit 16 (msk AND 0x00FF0000))),
          2 := apply_ipv4_netmask_octet (elem ! 2) (ucast (drop_bit 8 (msk AND 0x0000FF00))),
          3 := apply_ipv4_netmask_octet (elem ! 3) (ucast (msk AND 0x000000FF))]"

definition apply_ipv4_netmask_bits :: "octet_bitvector list \<Rightarrow> int \<Rightarrow> octet_bitvector list" where
  "apply_ipv4_netmask_bits elem bits =
     (if bits > 32 then elem
      else let bits' = (if bits < 0 then 32 else bits);
               msk = (if bits' = 0 then 0 else push_bit (nat (32 - bits')) 0xFFFFFFFF :: u32)
           in apply_ipv4_netmask elem msk)"

section \<open>Matching\<close>

definition in_addr_to_octets :: "u32 \<Rightarrow> nat list" where
  "in_addr_to_octets hbo =
     [unat (drop_bit 24 (hbo AND push_bit 24 0xFF)), unat (drop_bit 16 (hbo AND push_bit 16 0xFF)),
      unat (drop_bit 8 (hbo AND push_bit 8 0xFF)), unat (hbo AND 0xFF)]"

definition match_ipv4_bits :: "octet_bitvector list \<Rightarrow> u32 \<Rightarrow> bool" where
  "match_ipv4_bits bits hbo =
     (let octets = in_addr_to_octets hbo
      in BIT_IS_SET (bits ! 0) (octets ! 0) \<and> BIT_IS_SET (bits ! 1) (octets ! 1) \<and>
         BIT_IS_SET (bits ! 2) (octets ! 2) \<and> BIT_IS_SET (bits ! 3) (octets ! 3))"

section \<open>The language of ranges\<close>

text \<open>One range of an octet, as it is written, and the octets it stands for.\<close>

datatype range_syntax = One nat | Between nat nat | From nat | UpTo nat | Any

fun range_lo :: "range_syntax \<Rightarrow> nat" where
  "range_lo (One n) = n"
| "range_lo (Between a b) = a"
| "range_lo (From a) = a"
| "range_lo (UpTo b) = 0"
| "range_lo Any = 0"

fun range_hi :: "range_syntax \<Rightarrow> nat" where
  "range_hi (One n) = n"
| "range_hi (Between a b) = b"
| "range_hi (From a) = 255"
| "range_hi (UpTo b) = b"
| "range_hi Any = 255"

fun range_text :: "range_syntax \<Rightarrow> cstr" where
  "range_text (One n) = dec n"
| "range_text (Between a b) = dec a @ ''-'' @ dec b"
| "range_text (From a) = dec a @ ''-''"
| "range_text (UpTo b) = ''-'' @ dec b"
| "range_text Any = ''-''"

definition range_valid :: "range_syntax \<Rightarrow> bool" where
  "range_valid r \<longleftrightarrow> range_lo r \<le> range_hi r \<and> range_hi r \<le> 255"

datatype octet_syntax = Star | Ranges range_syntax "range_syntax list"

fun ranges_text :: "range_syntax \<Rightarrow> range_syntax list \<Rightarrow> cstr" where
  "ranges_text r [] = range_text r"
| "ranges_text r (r' # rs) = range_text r @ '','' @ ranges_text r' rs"

fun octet_text :: "octet_syntax \<Rightarrow> cstr" where
  "octet_text Star = ''*''"
| "octet_text (Ranges r rs) = ranges_text r rs"

fun octet_denotes :: "octet_syntax \<Rightarrow> nat set" where
  "octet_denotes Star = {0..255}"
| "octet_denotes (Ranges r rs) = (\<Union>x \<in> set (r # rs). {range_lo x .. range_hi x})"

fun octet_valid :: "octet_syntax \<Rightarrow> bool" where
  "octet_valid Star = True"
| "octet_valid (Ranges r rs) = (\<forall>x \<in> set (r # rs). range_valid x)"

lemma deref_dec [simp]: "is_digit (deref (dec n @ s))"
  using dec_digits [of n] dec_not_Nil [of n] by (cases "dec n") auto

lemma parse_long_dec_small:
  "n \<le> 255 \<Longrightarrow> \<not> is_digit (deref rest) \<Longrightarrow> parse_long (dec n @ rest) = (int n, False, rest)"
  by (rule parse_long_dec) auto

lemma parse_range_step:
  assumes "range_valid r" and rest: "\<not> is_digit (deref rest)" "deref rest \<noteq> CHR ''-''"
  shows "parse_range_list bits (range_text r @ rest) =
    (let bits' = fill_range bits (range_lo r) (range_hi r)
     in if deref rest \<noteq> CHR '','' then Some (bits', rest) else parse_range_list bits' (tl rest))"
proof -
  have nd: "\<not> is_digit CHR ''-''" by (simp add: is_digit_def)
  have ne: "rest \<noteq> dec n @ rest" "dec n @ s \<noteq> s" for n and s :: cstr by simp_all
  show ?thesis
    using assms
    by (cases r; subst parse_range_list.simps)
      (simp_all add: range_valid_def parse_range_end_def parse_long_dec_small parse_long_not_digit nd ne Let_def)
qed

lemma not_digit_sep: "\<not> is_digit CHR '',''" "\<not> is_digit CHR ''.''" "\<not> is_digit CHR ''-''"
  by (simp_all add: is_digit_def)

lemma parse_ranges:
  assumes "bits_ok bits" "\<forall>x \<in> set (r # rs). range_valid x"
    and rest: "\<not> is_digit (deref rest)" "deref rest \<noteq> CHR ''-''" "deref rest \<noteq> CHR '',''"
  shows "\<exists>bits'. parse_range_list bits (ranges_text r rs @ rest) = Some (bits', rest) \<and> bits_ok bits' \<and>
    octets_of bits' = octet_denotes (Ranges r rs) \<union> octets_of bits"
  using assms(1,2)
proof (induction rs arbitrary: r bits)
  case Nil
  then show ?case
    using fill_range_ok [of bits "range_hi r" "range_lo r"] rest
    by (auto simp: parse_range_step range_valid_def Let_def)
next
  case (Cons r' rs)
  let ?b = "fill_range bits (range_lo r) (range_hi r)"
  have b: "bits_ok ?b" "octets_of ?b = {range_lo r .. range_hi r} \<union> octets_of bits"
    using fill_range_ok [of bits "range_hi r" "range_lo r"] Cons.prems by (auto simp: range_valid_def)
  obtain bits' where "parse_range_list ?b (ranges_text r' rs @ rest) = Some (bits', rest)" "bits_ok bits'"
      "octets_of bits' = octet_denotes (Ranges r' rs) \<union> octets_of ?b"
    using Cons.IH [OF b(1), of r'] Cons.prems by auto
  then show ?case
    using Cons.prems b by (auto simp: parse_range_step not_digit_sep Let_def)
qed

lemma range_text_head: "deref (range_text r @ s) \<noteq> CHR ''*''" "range_text r \<noteq> []"
proof -
  have d: "deref (dec n @ t) \<noteq> CHR ''*''" for n t
    using deref_dec [of n t] by (auto simp: is_digit_def)
  show "deref (range_text r @ s) \<noteq> CHR ''*''" "range_text r \<noteq> []"
    using d by (cases r; simp)+
qed

lemma ranges_text_head: "deref (ranges_text r rs @ s) \<noteq> CHR ''*''" "ranges_text r rs \<noteq> []"
  using range_text_head by (cases rs; simp)+

definition parse_octet :: "octet_bitvector \<Rightarrow> cstr \<Rightarrow> (octet_bitvector \<times> cstr) option" where
  "parse_octet bits p =
     (if deref p = CHR ''*'' then Some (fill_range bits 0 255, tl p) else parse_range_list bits p)"

lemma parse_octet_text:
  assumes "bits_ok bits" "octet_valid x"
    and rest: "\<not> is_digit (deref rest)" "deref rest \<noteq> CHR ''-''" "deref rest \<noteq> CHR '',''"
  shows "\<exists>bits'. parse_octet bits (octet_text x @ rest) = Some (bits', rest) \<and> bits_ok bits' \<and>
    octets_of bits' = octet_denotes x \<union> octets_of bits"
proof (cases x)
  case Star
  then show ?thesis using fill_range_ok [OF assms(1), of 255 0] by (simp add: parse_octet_def)
next
  case (Ranges r rs)
  then show ?thesis using parse_ranges [OF assms(1) _ rest, of r rs] assms(2) ranges_text_head
    by (simp add: parse_octet_def)
qed

lemma parse_octets_dot:
  assumes "i < 3" "octet_valid x" "bits_ok (elem ! i)"
  shows "\<exists>bits'. parse_octets elem i (octet_text x @ ''.'' @ rest) = parse_octets (elem[i := bits']) (Suc i) rest \<and>
    bits_ok bits' \<and> octets_of bits' = octet_denotes x \<union> octets_of (elem ! i)"
proof -
  obtain bits' where b: "parse_octet (elem ! i) (octet_text x @ ''.'' @ rest) = Some (bits', ''.'' @ rest)"
      "bits_ok bits'" "octets_of bits' = octet_denotes x \<union> octets_of (elem ! i)"
    using parse_octet_text [OF assms(3,2), of "''.'' @ rest"] not_digit_sep by auto
  have "parse_octets elem i (octet_text x @ ''.'' @ rest) = parse_octets (elem[i := bits']) (Suc i) rest"
    using b(1) assms(1) by (subst parse_octets.simps) (auto simp: parse_octet_def Let_def)
  with b show ?thesis by blast
qed

lemma parse_octets_last:
  assumes "octet_valid x" "bits_ok (elem ! 3)"
  shows "\<exists>bits'. parse_octets elem 3 (octet_text x) = Some (elem[3 := bits'], 4, []) \<and>
    bits_ok bits' \<and> octets_of bits' = octet_denotes x \<union> octets_of (elem ! 3)"
proof -
  obtain bits' where b: "parse_octet (elem ! 3) (octet_text x) = Some (bits', [])"
      "bits_ok bits'" "octets_of bits' = octet_denotes x \<union> octets_of (elem ! 3)"
    using parse_octet_text [OF assms(2,1), of "[]"] by auto
  have "octet_text x \<noteq> []" using ranges_text_head by (cases x) auto
  then have "parse_octets elem 3 (octet_text x) = Some (elem[3 := bits'], 4, [])"
    using b(1) by (subst parse_octets.simps) (auto simp: parse_octet_def Let_def parse_octets.simps)
  with b show ?thesis by blast
qed

lemma parse_ipv4_ranges_text:
  assumes "\<forall>x \<in> {a, b, c, d}. octet_valid x" "length elem = 4" "\<forall>i < 4. bits_ok (elem ! i)"
  shows "\<exists>w x y z. parse_ipv4_ranges elem
      (octet_text a @ ''.'' @ octet_text b @ ''.'' @ octet_text c @ ''.'' @ octet_text d) = Some [w, x, y, z] \<and>
    (\<forall>v \<in> {w, x, y, z}. bits_ok v) \<and>
    octets_of w = octet_denotes a \<union> octets_of (elem ! 0) \<and>
    octets_of x = octet_denotes b \<union> octets_of (elem ! 1) \<and>
    octets_of y = octet_denotes c \<union> octets_of (elem ! 2) \<and>
    octets_of z = octet_denotes d \<union> octets_of (elem ! 3)"
proof -
  obtain e0 e1 e2 e3 where e: "elem = [e0, e1, e2, e3]"
    using assms(2) by (auto simp: numeral_eq_Suc length_Suc_conv)
  have ok: "bits_ok e0" "bits_ok e1" "bits_ok e2" "bits_ok e3"
    using assms(3) unfolding e by (simp_all add: numeral_eq_Suc All_less_Suc)
  obtain w where w: "parse_octets [e0, e1, e2, e3] 0
        (octet_text a @ ''.'' @ octet_text b @ ''.'' @ octet_text c @ ''.'' @ octet_text d) =
      parse_octets [w, e1, e2, e3] 1 (octet_text b @ ''.'' @ octet_text c @ ''.'' @ octet_text d)"
      "bits_ok w" "octets_of w = octet_denotes a \<union> octets_of e0"
    using parse_octets_dot [of 0 a "[e0, e1, e2, e3]"] assms(1) ok by fastforce
  obtain x where x: "parse_octets [w, e1, e2, e3] 1 (octet_text b @ ''.'' @ octet_text c @ ''.'' @ octet_text d) =
      parse_octets [w, x, e2, e3] 2 (octet_text c @ ''.'' @ octet_text d)"
      "bits_ok x" "octets_of x = octet_denotes b \<union> octets_of e1"
    using parse_octets_dot [of 1 b "[w, e1, e2, e3]"] assms(1) ok by (fastforce simp: numeral_eq_Suc)
  obtain y where y: "parse_octets [w, x, e2, e3] 2 (octet_text c @ ''.'' @ octet_text d) =
      parse_octets [w, x, y, e3] 3 (octet_text d)"
      "bits_ok y" "octets_of y = octet_denotes c \<union> octets_of e2"
    using parse_octets_dot [of 2 c "[w, x, e2, e3]"] assms(1) ok by (fastforce simp: numeral_eq_Suc)
  obtain z where z: "parse_octets [w, x, y, e3] 3 (octet_text d) = Some ([w, x, y, z], 4, [])"
      "bits_ok z" "octets_of z = octet_denotes d \<union> octets_of e3"
    using parse_octets_last [of d "[w, x, y, e3]"] assms(1) ok by (fastforce simp: numeral_eq_Suc)
  show ?thesis
    using w x y z by (simp add: parse_ipv4_ranges_def e numeral_eq_Suc)
qed

section \<open>What the netmask expansion computes\<close>

text \<open>One pass over the pairs of positions \<open>c\<close> apart adds the partner of every member.\<close>

lemma pair_step_ok:
  assumes "bits_ok v" "k + c < 256"
  shows "bits_ok (pair_step c k v)"
    "octets_of (pair_step c k v) =
      (if k \<in> octets_of v \<or> k + c \<in> octets_of v then insert k (insert (k + c) (octets_of v)) else octets_of v)"
proof -
  have "k < 256" using assms(2) by simp
  then have m: "BIT_IS_SET v k \<longleftrightarrow> k \<in> octets_of v" "BIT_IS_SET v (k + c) \<longleftrightarrow> k + c \<in> octets_of v"
    using assms(2) by (simp_all add: octets_of_def)
  show "bits_ok (pair_step c k v)" using assms by (simp add: pair_step_def BIT_SET_ok)
  show "octets_of (pair_step c k v) =
      (if k \<in> octets_of v \<or> k + c \<in> octets_of v then insert k (insert (k + c) (octets_of v)) else octets_of v)"
    using assms \<open>k < 256\<close> by (auto simp: pair_step_def octets_of_BIT_SET m)
qed

definition closed_by :: "nat \<Rightarrow> nat set \<Rightarrow> nat set \<Rightarrow> nat set" where
  "closed_by c ks S = S \<union> {x. \<exists>k \<in> ks. (x = k \<or> x = k + c) \<and> (k \<in> S \<or> k + c \<in> S)}"

lemma fold_pair_step:
  assumes "bits_ok v" "\<forall>k \<in> set ks. k + c < 256"
    and "\<forall>k \<in> set ks. k + c \<notin> set ks"
  shows "bits_ok (fold (pair_step c) ks v) \<and>
    octets_of (fold (pair_step c) ks v) = closed_by c (set ks) (octets_of v)"
  using assms
proof (induction ks arbitrary: v)
  case Nil
  then show ?case by (simp add: closed_by_def)
next
  case (Cons k ks)
  let ?v = "pair_step c k v"
  have ok: "bits_ok ?v" and set: "octets_of ?v =
      (if k \<in> octets_of v \<or> k + c \<in> octets_of v then insert k (insert (k + c) (octets_of v)) else octets_of v)"
    using pair_step_ok [of v k c] Cons.prems by auto
  have other: "j \<in> octets_of ?v \<or> j + c \<in> octets_of ?v \<longleftrightarrow> j \<in> octets_of v \<or> j + c \<in> octets_of v"
    if "j \<in> set ks" for j
    using that Cons.prems(3) unfolding set by (cases "j = k") auto
  have "closed_by c (set ks) (octets_of ?v) =
      octets_of ?v \<union> {x. \<exists>j \<in> set ks. (x = j \<or> x = j + c) \<and> (j \<in> octets_of v \<or> j + c \<in> octets_of v)}"
    using other by (auto simp: closed_by_def)
  also have "\<dots> = closed_by c (set (k # ks)) (octets_of v)"
    unfolding set by (auto simp: closed_by_def)
  finally have "closed_by c (set ks) (octets_of ?v) = closed_by c (set (k # ks)) (octets_of v)" .
  then show ?case using Cons.IH [OF ok] Cons.prems by simp
qed

text \<open>The positions the loops visit for a chunk size \<open>2 ^ b\<close> are those with bit \<open>b\<close> clear.\<close>

definition chunk_positions :: "nat \<Rightarrow> nat list" where
  "chunk_positions c =
     concat (map (\<lambda>m. map (\<lambda>j. m * (c * 2) + j) [0 ..< c]) [0 ..< 256 div (c * 2)])"

lemma chunk_step_eq:
  "chunk_step msk c v =
     (if ucast msk AND (of_nat c :: u32) \<noteq> 0 then v else fold (pair_step c) (chunk_positions c) v)"
proof -
  have inner: "fold (\<lambda>j. pair_step c (i + j)) js w = fold (pair_step c) (map (\<lambda>j. i + j) js) w" for i js w
    by (induction js arbitrary: w) simp_all
  have "fold (\<lambda>i. fold (\<lambda>j. pair_step c (i + j)) js) is w =
      fold (pair_step c) (concat (map (\<lambda>i. map (\<lambda>j. i + j) js) is)) w" for "is" js w
    by (induction "is" arbitrary: w) (simp_all add: inner)
  then show ?thesis by (simp add: chunk_step_def chunk_positions_def comp_def)
qed

lemma chunk_positions:
  assumes "b < 8"
  shows "\<forall>k \<in> set (chunk_positions (2 ^ b)). k + 2 ^ b < 256"
    "set (chunk_positions (2 ^ b)) = {x. x < 256 \<and> \<not> bit x b}"
proof -
  let ?c = "2 ^ b :: nat"
  have "(256 :: nat) = 2 ^ 8" by simp
  also have "\<dots> = (2 :: nat) ^ (7 - b) * (?c * 2)"
    using assms by (simp flip: power_add power_Suc)
  finally have n: "256 div (?c * 2) * (?c * 2) = 256"
    by (intro dvd_div_mult_self) (metis dvd_triv_right)
  have mem: "x \<in> set (chunk_positions ?c) \<longleftrightarrow> x + ?c < 256 \<and> even (x div ?c)"
    "x \<in> set (chunk_positions ?c) \<longleftrightarrow> x < 256 \<and> even (x div ?c)" for x
  proof -
    let ?m = "x div (?c * 2)" and ?j = "x mod (?c * 2)"
    have x: "x = ?m * (?c * 2) + ?j" by (rule div_mult_mod_eq [symmetric])
    have "x \<in> set (chunk_positions ?c) \<longleftrightarrow> (\<exists>m < 256 div (?c * 2). \<exists>j < ?c. x = m * (?c * 2) + j)"
      by (simp only: chunk_positions_def set_concat set_map set_upt UN_iff image_iff Bex_def
          image_image atLeastLessThan_iff) auto
    also have "\<dots> \<longleftrightarrow> ?m < 256 div (?c * 2) \<and> ?j < ?c"
    proof safe
      fix m j assume "m < 256 div (?c * 2)" "j < ?c"
      then show "(m * (?c * 2) + j) div (?c * 2) < 256 div (?c * 2)" "(m * (?c * 2) + j) mod (?c * 2) < ?c"
        by simp_all
    next
      assume "?m < 256 div (?c * 2)" "?j < ?c"
      then show "\<exists>m < 256 div (?c * 2). \<exists>j < ?c. x = m * (?c * 2) + j" using x by blast
    qed
    finally have mj: "x \<in> set (chunk_positions ?c) \<longleftrightarrow> ?m < 256 div (?c * 2) \<and> ?j < ?c" .
    have j: "?j < ?c \<longleftrightarrow> even (x div ?c)"
      by (cases "even (x div ?c)") (simp_all add: mod_mult2_eq odd_iff_mod_2_eq_one even_iff_mod_2_eq_zero)
    have lt: "?m < 256 div (?c * 2) \<longleftrightarrow> x < 256"
      by (subst (2) n [symmetric], rule div_less_iff_less_mult) simp
    have "?j < ?c \<Longrightarrow> x + ?c < 256 \<longleftrightarrow> x < 256"
    proof
      assume "?j < ?c" "x < 256"
      then have "Suc ?m \<le> 256 div (?c * 2)" using lt by simp
      then have "Suc ?m * (?c * 2) \<le> 256" using n by (metis mult_le_mono1)
      then show "x + ?c < 256" using x \<open>?j < ?c\<close> by simp
    qed simp
    then show "x \<in> set (chunk_positions ?c) \<longleftrightarrow> x + ?c < 256 \<and> even (x div ?c)"
      "x \<in> set (chunk_positions ?c) \<longleftrightarrow> x < 256 \<and> even (x div ?c)"
      using mj j lt by blast+
  qed
  show "\<forall>k \<in> set (chunk_positions ?c). k + ?c < 256" using mem(1) by blast
  show "set (chunk_positions ?c) = {x. x < 256 \<and> \<not> bit x b}"
    using mem(2) by (simp add: set_eq_iff bit_iff_odd)
qed

text \<open>Flipping one bit.\<close>

lemma add_pow_bit:
  fixes x :: nat
  assumes "\<not> bit x b"
  shows "x + 2 ^ b = x XOR 2 ^ b"
proof -
  have "x AND 2 ^ b = 0" using assms by (intro bit_eqI) (auto simp: bit_simps)
  then show ?thesis by (simp add: disjunctive_add_eq_xor)
qed

lemma flip_less:
  fixes x :: nat
  assumes "x < 256" "b < 8"
  shows "x XOR 2 ^ b < 256"
proof -
  have "take_bit 8 (x XOR 2 ^ b) = x XOR 2 ^ b"
    using assms by (simp add: take_bit_nat_eq_self power_strict_increasing)
  then show ?thesis using take_bit_nat_less_exp [of 8 "x XOR 2 ^ b"] by simp
qed

lemma closed_by_chunk:
  assumes "b < 8" "S \<subseteq> {..<256}"
  shows "closed_by (2 ^ b) (set (chunk_positions (2 ^ b))) S = {x. x < 256 \<and> (x \<in> S \<or> x XOR 2 ^ b \<in> S)}"
proof -
  have x256: "x XOR 2 ^ b < 256" if "x < 256" for x :: nat
    using that assms(1) by (rule flip_less)
  have invol: "(x XOR 2 ^ b) XOR 2 ^ b = x" for x :: nat by (simp add: xor.assoc)
  have bitx: "bit (x XOR 2 ^ b) b \<longleftrightarrow> \<not> bit x b" for x :: nat by (simp add: bit_simps)
  show ?thesis
  proof (intro set_eqI iffI)
    fix x assume "x \<in> closed_by (2 ^ b) (set (chunk_positions (2 ^ b))) S"
    then show "x \<in> {x. x < 256 \<and> (x \<in> S \<or> x XOR 2 ^ b \<in> S)}"
      using assms(2) x256
      by (auto simp: closed_by_def chunk_positions(2) [OF assms(1)] add_pow_bit invol)
  next
    fix x assume x: "x \<in> {x. x < 256 \<and> (x \<in> S \<or> x XOR 2 ^ b \<in> S)}"
    let ?k = "if bit x b then x XOR 2 ^ b else x"
    have "?k \<in> set (chunk_positions (2 ^ b))" "?k + 2 ^ b = ?k XOR 2 ^ b"
      using x x256 bitx by (auto simp: chunk_positions(2) [OF assms(1)] add_pow_bit)
    then show "x \<in> closed_by (2 ^ b) (set (chunk_positions (2 ^ b))) S"
      using x by (auto simp: closed_by_def invol intro!: bexI [of _ ?k] split: if_splits)
  qed
qed

lemma mask_test:
  fixes msk :: u8
  assumes "b < 8"
  shows "ucast msk AND (of_nat (2 ^ b) :: u32) \<noteq> 0 \<longleftrightarrow> bit msk b"
proof -
  have "(of_nat (2 ^ b) :: u32) = push_bit b 1" by simp
  then have eq: "bit (ucast msk AND (of_nat (2 ^ b) :: u32)) n \<longleftrightarrow> n = b \<and> bit msk b" for n
    using assms by (auto simp: bit_simps)
  show ?thesis using eq by (metis bit_eqI bit_0_eq bot_apply bot_bool_def)
qed

lemma chunk_step_ok:
  assumes "bits_ok v" "b < 8"
  shows "bits_ok (chunk_step msk (2 ^ b) v)"
    "octets_of (chunk_step msk (2 ^ b) v) =
      (if bit msk b then octets_of v else {x. x < 256 \<and> (x \<in> octets_of v \<or> x XOR 2 ^ b \<in> octets_of v)})"
proof -
  let ?ks = "chunk_positions (2 ^ b)"
  have "\<forall>k \<in> set ?ks. k + 2 ^ b \<notin> set ?ks"
    by (auto simp: chunk_positions(2) [OF assms(2)] add_pow_bit bit_simps)
  then have f: "bits_ok (fold (pair_step (2 ^ b)) ?ks v)"
      "octets_of (fold (pair_step (2 ^ b)) ?ks v) = closed_by (2 ^ b) (set ?ks) (octets_of v)"
    using fold_pair_step [OF assms(1) chunk_positions(1) [OF assms(2)]] by auto
  have "octets_of v \<subseteq> {..<256}" by (auto simp: octets_of_def)
  with f show "bits_ok (chunk_step msk (2 ^ b) v)"
    "octets_of (chunk_step msk (2 ^ b) v) =
      (if bit msk b then octets_of v else {x. x < 256 \<and> (x \<in> octets_of v \<or> x XOR 2 ^ b \<in> octets_of v)})"
    using assms by (simp_all add: chunk_step_eq mask_test closed_by_chunk del: of_nat_power)
qed

text \<open>Octets that agree on the mask, and differ at most in the lowest \<open>n\<close> bits.\<close>

definition agree_upto :: "u8 \<Rightarrow> nat \<Rightarrow> nat \<Rightarrow> nat \<Rightarrow> bool" where
  "agree_upto msk n x y \<longleftrightarrow> (\<forall>k. bit x k \<noteq> bit y k \<longrightarrow> k < n \<and> \<not> bit msk k)"

lemma agree_upto_Suc:
  "agree_upto msk (Suc n) x y \<longleftrightarrow>
     agree_upto msk n x y \<or> (\<not> bit msk n \<and> agree_upto msk n (x XOR 2 ^ n) y)"
  by (auto simp: agree_upto_def bit_simps less_Suc_eq)

lemma chunk_steps:
  "bits_ok v \<Longrightarrow> n \<le> 8 \<Longrightarrow>
     bits_ok (fold (\<lambda>b. chunk_step msk (2 ^ b)) [0 ..< n] v) \<and>
     octets_of (fold (\<lambda>b. chunk_step msk (2 ^ b)) [0 ..< n] v) =
       {x. x < 256 \<and> (\<exists>y \<in> octets_of v. agree_upto msk n x y)}"
proof (induction n)
  case 0
  have "agree_upto msk 0 x y \<longleftrightarrow> x = y" for x y :: nat
    by (auto simp: agree_upto_def intro: bit_eqI)
  then show ?case using 0 by (auto simp: octets_of_def)
next
  case (Suc n)
  have x256: "x XOR 2 ^ n < 256" if "x < 256" for x :: nat
    using that Suc.prems(2) by (intro flip_less) auto
  show ?case
    using Suc chunk_step_ok [of _ n msk] x256 by (auto simp: agree_upto_Suc)
qed

lemma apply_octet_eq:
  "apply_ipv4_netmask_octet v msk = fold (\<lambda>b. chunk_step msk (2 ^ b)) [0 ..< 8] v"
  by (simp add: apply_ipv4_netmask_octet_def upt_rec)

lemma apply_octet:
  assumes "bits_ok v"
  shows "bits_ok (apply_ipv4_netmask_octet v msk)"
    "octets_of (apply_ipv4_netmask_octet v msk) =
       {x. x < 256 \<and> (\<exists>y \<in> octets_of v. \<forall>k < 8. bit msk k \<longrightarrow> bit x k = bit y k)}"
proof -
  note c = chunk_steps [OF assms, of 8 msk]
  show "bits_ok (apply_ipv4_netmask_octet v msk)" using c by (simp add: apply_octet_eq)
  have small: "\<not> bit x k" if "x < 256" "8 \<le> k" for x k :: nat
  proof -
    have "x < 2 ^ k" using that power_increasing [of 8 k "2 :: nat"] by simp
    then show ?thesis by (simp add: bit_iff_odd)
  qed
  have "agree_upto msk 8 x y \<longleftrightarrow> (\<forall>k < 8. bit msk k \<longrightarrow> bit x k = bit y k)" if "x < 256" "y < 256" for x y
    using small [OF that(1)] small [OF that(2)] unfolding agree_upto_def by (metis not_le)
  then show "octets_of (apply_ipv4_netmask_octet v msk) =
       {x. x < 256 \<and> (\<exists>y \<in> octets_of v. \<forall>k < 8. bit msk k \<longrightarrow> bit x k = bit y k)}"
    using c by (auto simp: apply_octet_eq octets_of_def)
qed

section \<open>Addresses and their octets\<close>

definition elem_ok :: "octet_bitvector list \<Rightarrow> bool" where
  "elem_ok elem \<longleftrightarrow> length elem = 4 \<and> (\<forall>i < 4. bits_ok (elem ! i))"

definition octet :: "u32 \<Rightarrow> nat \<Rightarrow> nat" where
  "octet a i = in_addr_to_octets a ! i"

lemma less_4: "(\<forall>i < 4. P i) \<longleftrightarrow> P 0 \<and> P 1 \<and> P 2 \<and> P (3 :: nat)"
  by (simp add: numeral_eq_Suc All_less_Suc conj_ac)

lemma bit_ff:
  "bit (0xFF :: u32) k \<longleftrightarrow> k < 8" "bit (0xFF :: nat) k \<longleftrightarrow> k < 8" "bit (0xFF :: int) k \<longleftrightarrow> k < 8"
proof -
  have "(0xFF :: u32) = mask 8" "(0xFF :: nat) = mask 8" "(0xFF :: int) = mask 8"
    by (simp_all add: mask_eq_exp_minus_1)
  then show "bit (0xFF :: u32) k \<longleftrightarrow> k < 8" "bit (0xFF :: nat) k \<longleftrightarrow> k < 8" "bit (0xFF :: int) k \<longleftrightarrow> k < 8"
    by (auto simp only: bit_mask_iff possible_bit_word possible_bit_nat possible_bit_int len_of_numeral_defs)
qed

lemma bit_octet:
  assumes "i < 4"
  shows "bit (octet a i) k \<longleftrightarrow> k < 8 \<and> bit a (24 - 8 * i + k)"
proof -
  have "\<forall>i < 4. bit (octet a i) k \<longleftrightarrow> k < 8 \<and> bit a (24 - 8 * i + k)"
    unfolding less_4 octet_def in_addr_to_octets_def
    by (auto simp: bit_simps bit_ff simp del: push_bit_numeral dest: bit_imp_le_length)
  then show ?thesis using assms by blast
qed

lemma small_iff_bits: "(x :: nat) < 256 \<longleftrightarrow> (\<forall>k. bit x k \<longrightarrow> k < 8)"
proof
  assume "x < 256"
  then have "take_bit 8 x = x" by (simp add: take_bit_nat_eq_self)
  then show "\<forall>k. bit x k \<longrightarrow> k < 8" by (metis bit_take_bit_iff)
next
  assume "\<forall>k. bit x k \<longrightarrow> k < 8"
  then have "take_bit 8 x = x" by (intro bit_eqI) (auto simp: bit_take_bit_iff)
  then show "x < 256" using take_bit_nat_less_exp [of 8 x] by simp
qed

lemma octet_less: "i < 4 \<Longrightarrow> octet a i < 256"
  by (simp add: small_iff_bits bit_octet)

lemma match_iff:
  "match_ipv4_bits elem a \<longleftrightarrow> (\<forall>i < 4. octet a i \<in> octets_of (elem ! i))"
  unfolding less_4 using octet_less [of _ a]
  by (simp add: match_ipv4_bits_def Let_def octets_of_def flip: octet_def)

text \<open>Every choice of four octets is an address.\<close>

lemma address_of_octets:
  assumes "\<forall>i < 4. y i < (256 :: nat)"
  shows "\<exists>a. \<forall>i < 4. octet a i = y i"
proof -
  define a :: u32 where "a = push_bit 24 (of_nat (y 0)) OR push_bit 16 (of_nat (y 1)) OR
    push_bit 8 (of_nat (y 2)) OR of_nat (y 3)"
  have y: "bit (y 0) k \<Longrightarrow> k < 8" "bit (y 1) k \<Longrightarrow> k < 8" "bit (y 2) k \<Longrightarrow> k < 8" "bit (y 3) k \<Longrightarrow> k < 8" for k
    using assms unfolding less_4 small_iff_bits by blast+
  have bit_a: "bit a n \<longleftrightarrow> n < 32 \<and> (24 \<le> n \<and> bit (y 0) (n - 24) \<or> 16 \<le> n \<and> bit (y 1) (n - 16) \<or>
      8 \<le> n \<and> bit (y 2) (n - 8) \<or> bit (y 3) n)" for n
    by (auto simp: a_def bit_simps)
  have "\<forall>i < 4. bit (octet a i) k = bit (y i) k" for k
    unfolding less_4 by (auto simp: bit_octet bit_a dest: y y(2) [simplified])
  then show ?thesis by (intro exI [of _ a]) (auto intro: bit_eqI)
qed

text \<open>The four octets of a netmask word, one after the other.\<close>

definition mask_octet :: "u32 \<Rightarrow> nat \<Rightarrow> u8" where
  "mask_octet msk i =
     [ucast (drop_bit 24 (msk AND 0xFF000000)), ucast (drop_bit 16 (msk AND 0x00FF0000)),
      ucast (drop_bit 8 (msk AND 0x0000FF00)), ucast (msk AND 0x000000FF)] ! i"

lemma bit_mask_octet:
  assumes "i < 4" "k < 8"
  shows "bit (mask_octet msk i) k \<longleftrightarrow> bit msk (24 - 8 * i + k)"
proof -
  have "(0xFF000000 :: u32) = push_bit 24 0xFF" "(0x00FF0000 :: u32) = push_bit 16 0xFF"
    "(0x0000FF00 :: u32) = push_bit 8 0xFF" by simp_all
  note c = this
  have "\<forall>i < 4. bit (mask_octet msk i) k \<longleftrightarrow> bit msk (24 - 8 * i + k)"
    unfolding less_4 mask_octet_def c using assms(2)
    by (auto simp: bit_simps bit_ff simp del: push_bit_numeral)
  then show ?thesis using assms(1) by blast
qed

lemma apply_ipv4_netmask_nth:
  assumes "elem_ok elem" "i < 4"
  shows "apply_ipv4_netmask elem msk ! i = apply_ipv4_netmask_octet (elem ! i) (mask_octet msk i)"
proof -
  obtain e0 e1 e2 e3 where e: "elem = [e0, e1, e2, e3]"
    using assms(1) by (auto simp: elem_ok_def numeral_eq_Suc length_Suc_conv)
  have "\<forall>i < 4. apply_ipv4_netmask elem msk ! i = apply_ipv4_netmask_octet (elem ! i) (mask_octet msk i)"
    unfolding less_4 by (simp add: e apply_ipv4_netmask_def mask_octet_def numeral_eq_Suc)
  with assms(2) show ?thesis by blast
qed

lemma apply_ipv4_netmask_elem_ok:
  "elem_ok elem \<Longrightarrow> elem_ok (apply_ipv4_netmask elem msk)"
  using apply_octet(1) by (simp add: elem_ok_def apply_ipv4_netmask_nth [unfolded elem_ok_def])
    (simp add: apply_ipv4_netmask_def)

lemma apply_ipv4_netmask_match:
  assumes "elem_ok elem"
  shows "match_ipv4_bits (apply_ipv4_netmask elem msk) a \<longleftrightarrow>
    (\<exists>b. match_ipv4_bits elem b \<and> a AND msk = b AND msk)"
proof
  assume "match_ipv4_bits (apply_ipv4_netmask elem msk) a"
  then have "\<forall>i < 4. \<exists>y. y \<in> octets_of (elem ! i) \<and>
      (\<forall>k < 8. bit (mask_octet msk i) k \<longrightarrow> bit (octet a i) k = bit y k)"
    using assms by (auto simp: match_iff apply_ipv4_netmask_nth apply_octet elem_ok_def)
  then obtain y where y: "\<And>i. i < 4 \<Longrightarrow> y i \<in> octets_of (elem ! i)"
      "\<And>i k. i < 4 \<Longrightarrow> k < 8 \<Longrightarrow> bit (mask_octet msk i) k \<Longrightarrow> bit (octet a i) k = bit (y i) k"
    by metis
  have "\<forall>i < 4. y i < 256" using y(1) by (auto simp: octets_of_def)
  then obtain b where b: "\<forall>i < 4. octet b i = y i" using address_of_octets by blast
  have "bit (a AND msk) n = bit (b AND msk) n" if "n < 32" for n
  proof -
    define q k where "q = n div 8" and "k = n mod 8"
    have "n = 8 * q + k" "q < 4" using that by (auto simp: q_def k_def)
    then have n: "3 - q < 4" "k < 8" "24 - 8 * (3 - q) + k = n" by (auto simp: k_def)
    have "bit a n = bit b n" if "bit msk n"
      using y(2) [OF n(1,2)] b n that bit_mask_octet [OF n(1,2)]
      by (metis bit_octet)
    then show ?thesis by (auto simp: bit_and_iff)
  qed
  then have "a AND msk = b AND msk" by (intro bit_word_eqI) simp
  moreover have "match_ipv4_bits elem b" using y(1) b by (simp add: match_iff)
  ultimately show "\<exists>b. match_ipv4_bits elem b \<and> a AND msk = b AND msk" by blast
next
  assume "\<exists>b. match_ipv4_bits elem b \<and> a AND msk = b AND msk"
  then obtain b where b: "match_ipv4_bits elem b" "a AND msk = b AND msk" by blast
  have agree: "bit a n = bit b n" if "bit msk n" for n
    using b(2) that by (metis bit_and_iff)
  have "octet a i \<in> octets_of (apply_ipv4_netmask elem msk ! i)" if "i < 4" for i
    using that b(1) agree assms octet_less [OF that, of a]
    by (auto simp: match_iff apply_ipv4_netmask_nth apply_octet elem_ok_def bit_mask_octet bit_octet
        intro!: bexI [of _ "octet b i"])
  then show "match_ipv4_bits (apply_ipv4_netmask elem msk) a" by (simp add: match_iff)
qed

text \<open>The first \<open>n\<close> bits of an address.\<close>

definition same_prefix :: "nat \<Rightarrow> u32 \<Rightarrow> u32 \<Rightarrow> bool" where
  "same_prefix n a b \<longleftrightarrow> (\<forall>k < 32. 32 - n \<le> k \<longrightarrow> bit a k = bit b k)"

lemma mask_and_eq:
  assumes "n \<le> 32"
  shows "a AND (if n = 0 then 0 else push_bit (32 - n) 0xFFFFFFFF :: u32) =
    b AND (if n = 0 then 0 else push_bit (32 - n) 0xFFFFFFFF) \<longleftrightarrow> same_prefix n a b"
proof -
  have ones: "(0xFFFFFFFF :: u32) = mask 32" by (simp add: mask_eq_exp_minus_1)
  have m: "bit (if n = 0 then 0 else push_bit (32 - n) 0xFFFFFFFF :: u32) k \<longleftrightarrow> k < 32 \<and> 32 - n \<le> k" for k
    unfolding ones by (auto simp: bit_simps)
  show ?thesis
    by (simp only: bit_eq_iff [of "a AND _"] bit_and_iff m same_prefix_def) (auto simp: bit_imp_le_length)
qed

lemma apply_ipv4_netmask_bits_ok:
  assumes "elem_ok elem" "0 \<le> bits" "bits \<le> 32"
  shows "elem_ok (apply_ipv4_netmask_bits elem bits)"
    "match_ipv4_bits (apply_ipv4_netmask_bits elem bits) a \<longleftrightarrow>
      (\<exists>b. match_ipv4_bits elem b \<and> same_prefix (nat bits) a b)"
proof -
  have n: "nat bits \<le> 32" "nat (32 - bits) = 32 - nat bits" "bits = 0 \<longleftrightarrow> nat bits = 0" using assms by auto
  have eq: "apply_ipv4_netmask_bits elem bits =
      apply_ipv4_netmask elem (if nat bits = 0 then 0 else push_bit (32 - nat bits) 0xFFFFFFFF)"
    using assms(2,3) unfolding apply_ipv4_netmask_bits_def Let_def not_less [symmetric]
    by (simp only: if_False n(2,3))
  show "elem_ok (apply_ipv4_netmask_bits elem bits)"
    unfolding eq by (rule apply_ipv4_netmask_elem_ok [OF assms(1)])
  show "match_ipv4_bits (apply_ipv4_netmask_bits elem bits) a \<longleftrightarrow>
      (\<exists>b. match_ipv4_bits elem b \<and> same_prefix (nat bits) a b)"
    unfolding eq apply_ipv4_netmask_match [OF assms(1)] mask_and_eq [OF n(1)] ..
qed

lemma apply_ipv4_netmask_bits_all:
  assumes "elem_ok elem" "bits < 0"
  shows "match_ipv4_bits (apply_ipv4_netmask_bits elem bits) a \<longleftrightarrow> match_ipv4_bits elem a"
proof -
  have "apply_ipv4_netmask_bits elem bits = apply_ipv4_netmask_bits elem 32"
    using assms(2) by (simp add: apply_ipv4_netmask_bits_def Let_def)
  moreover have "same_prefix 32 a b \<longleftrightarrow> a = b" for b
    by (auto simp: same_prefix_def intro: bit_word_eqI)
  ultimately show ?thesis using apply_ipv4_netmask_bits_ok(2) [OF assms(1), of 32 a] by auto
qed

section \<open>Every accepted text gives a well-formed element\<close>

lemma fill_range_bits_ok [wf_intros]: "bits_ok v \<Longrightarrow> bits_ok (fill_range v lo hi)"
proof -
  have "bits_ok v \<Longrightarrow> bits_ok (fold (\<lambda>i v. BIT_SET v i) is v)" for "is"
    by (induction "is" arbitrary: v) (simp_all add: BIT_SET_ok)
  then show "bits_ok v \<Longrightarrow> bits_ok (fill_range v lo hi)" by (simp only: fill_range_def)
qed

lemma parse_range_list_ok: "parse_range_list bits p = Some (b, q) \<Longrightarrow> bits_ok bits \<Longrightarrow> bits_ok b"
proof (induction bits p arbitrary: b q rule: parse_range_list.induct)
  case (1 bits p)
  obtain v err tail where pl: "parse_long p = (v, err, tail)" by (cases "parse_long p")
  let ?st = "if tail = p then 0 else v"
  show ?case
  proof (cases "tail = p \<and> deref p \<noteq> CHR ''-'' \<or> err \<or> ?st < 0 \<or> ?st > 255 \<or> parse_range_end ?st tail = None")
    case True
    then show ?thesis using "1.prems"(1) by (subst (asm) parse_range_list.simps) (auto simp: pl Let_def split: if_splits)
  next
    case False
    then obtain e r where e: "parse_range_end ?st tail = Some (e, r)" by auto
    let ?b = "fill_range bits (nat ?st) (nat e)"
    have eq: "parse_range_list bits p = (if deref r \<noteq> CHR '','' then Some (?b, r) else parse_range_list ?b (tl r))"
      using False e by (subst parse_range_list.simps) (auto simp: pl Let_def)
    have "bits_ok ?b" using "1.prems"(2) by (rule fill_range_bits_ok)
    then show ?thesis
      using "1.IH" [OF pl [symmetric] refl _ refl _ e refl refl, of b q] False eq "1.prems" by (auto split: if_splits)
  qed
qed

lemma parse_octets_ok:
  "parse_octets elem i p = Some (elem', j, q) \<Longrightarrow> elem_ok elem \<Longrightarrow> elem_ok elem'"
proof (induction elem i p arbitrary: elem' j q rule: parse_octets.induct)
  case (1 elem i p)
  show ?case
  proof (cases "p \<noteq> [] \<and> i < 4")
    case False
    then show ?thesis using "1.prems" by (subst (asm) parse_octets.simps) auto
  next
    case True
    obtain bits r where b: "parse_octet (elem ! i) p = Some (bits, r)"
      using "1.prems"(1) True by (subst (asm) parse_octets.simps) (auto simp: parse_octet_def split: option.splits if_splits)
    have "bits_ok (elem ! i)" using "1.prems"(2) True by (simp add: elem_ok_def)
    then have "bits_ok bits"
      using b parse_range_list_ok [of "elem ! i" p] fill_range_bits_ok by (auto simp: parse_octet_def split: if_splits)
    then have "bits_ok (elem[i := bits] ! k)" if "k < 4" for k
      using "1.prems"(2) that by (cases "k = i") (simp_all add: elem_ok_def)
    then have e: "elem_ok (elem[i := bits])" using "1.prems"(2) by (simp add: elem_ok_def)
    have eq: "parse_octets elem i p =
        (if i + 1 < 4 then if deref r \<noteq> CHR ''.'' then None else parse_octets (elem[i := bits]) (i + 1) (tl r)
         else parse_octets (elem[i := bits]) (i + 1) r)"
      using b True by (subst parse_octets.simps) (auto simp: parse_octet_def Let_def)
    have p: "\<not> \<not> (p \<noteq> [] \<and> i < 4)" using True by blast
    note ih = "1.IH" [OF p b [unfolded parse_octet_def] refl refl refl]
    show ?thesis
      using ih(1) [of elem' j q] ih(2) [of elem' j q] "1.prems"(1) e unfolding eq by (auto split: if_splits)
  qed
qed

lemma parse_ipv4_ranges_ok:
  assumes "parse_ipv4_ranges (replicate 4 zero_bits) s = Some elem"
  shows "elem_ok elem"
proof -
  have "elem_ok (replicate 4 zero_bits)" by (simp add: elem_ok_def zero_bits_ok)
  with assms show ?thesis
    using parse_octets_ok by (auto simp: parse_ipv4_ranges_def split: option.splits if_splits)
qed

end
