(* ===== verification/Addr_Trie.thy ===== *)
theory Addr_Trie
  imports Prelude
begin

text \<open>
  The radix tree of nbase/nbase_addrset.c: the mask arithmetic on 32-bit words, matching,
  splitting and insertion of a prefix, and the release of a tree with an explicit stack.
  The tree has no sharing apart from the constant \<open>TRIE_NODE_TRUE\<close>, so a node owns its two
  branches and the in-place updates of the code are the updated tree.
\<close>

unbundle bit_operations_syntax

section \<open>Words and masks\<close>

definition LT :: "int \<Rightarrow> int list" where "LT n = replicate 16 n"

definition LogTable256 :: "int list" where
  "LogTable256 =
     [-1, 0, 1, 1, 2, 2, 2, 2, 3, 3, 3, 3, 3, 3, 3, 3] @
     LT 4 @ LT 5 @ LT 5 @ LT 6 @ LT 6 @ LT 6 @ LT 6 @
     LT 7 @ LT 7 @ LT 7 @ LT 7 @ LT 7 @ LT 7 @ LT 7 @ LT 7"

definition common_mask :: "u32 \<Rightarrow> u32 \<Rightarrow> u32" where
  "common_mask a b =
     (let v = a XOR b in
      if v = 0 then 0xffffffff
      else let tt = drop_bit 16 v;
               r = (if tt \<noteq> 0
                    then let t = drop_bit 8 tt
                         in if t \<noteq> 0 then 24 + LogTable256 ! unat t else 16 + LogTable256 ! unat tt
                    else let t = drop_bit 8 v
                         in if t \<noteq> 0 then 8 + LogTable256 ! unat t else LogTable256 ! unat v)
           in if r + 1 \<ge> 32 then 0 else NOT (push_bit (nat (r + 1)) 1 - 1))"

definition next_bit_is_one :: "u32 \<Rightarrow> u32 \<Rightarrow> u32" where
  "next_bit_is_one msk value =
     (if msk = 0 then 0x80000000 AND value
      else if msk = 0xffffffff then 0
      else (drop_bit 1 msk AND NOT msk) AND value)"

text \<open>The loops over the four words of an address stop at the end of the lists.\<close>

fun addr_next_bit_is_one :: "u32 list \<Rightarrow> u32 list \<Rightarrow> u32" where
  "addr_next_bit_is_one (m # ms) (a # as) =
     (if m < 0xffffffff then next_bit_is_one m a else addr_next_bit_is_one ms as)"
| "addr_next_bit_is_one _ _ = 0"

definition mask_matches :: "u32 \<Rightarrow> u32 \<Rightarrow> u32 \<Rightarrow> bool" where
  "mask_matches msk a b \<longleftrightarrow> msk AND (a XOR b) = 0"

fun addr_matches :: "u32 list \<Rightarrow> u32 list \<Rightarrow> u32 list \<Rightarrow> bool" where
  "addr_matches (m # ms) (a # as) (b # bs) =
     (if m = 0 then True
      else if \<not> mask_matches m a b then False
      else addr_matches ms as bs)"
| "addr_matches _ _ _ = True"

section \<open>The tree\<close>

datatype trie =
    Trie_null
  | Trie_true
  | Trie_node (t_addr: "u32 list") (t_mask: "u32 list") (next_bit_one: trie) (next_bit_zero: trie)

definition new_trie_node :: "u32 list \<Rightarrow> u32 list \<Rightarrow> trie" where
  "new_trie_node addr msk = Trie_node addr msk Trie_true Trie_true"

text \<open>
  The loop of \<open>trie_split\<close> over the words: the new address supersedes the node, which then keeps
  the returned mask; the node contains it; or the node divides at the returned common mask.
\<close>

datatype split_case = Superseded "u32 list" | Contained | Divide "u32 list"

fun cons_split :: "u32 \<Rightarrow> split_case \<Rightarrow> split_case" where
  "cons_split m (Superseded ms) = Superseded (m # ms)"
| "cons_split m Contained = Contained"
| "cons_split m (Divide ms) = Divide (m # ms)"

fun split_scan :: "u32 list \<Rightarrow> u32 list \<Rightarrow> u32 list \<Rightarrow> u32 list \<Rightarrow> split_case" where
  "split_scan (ta # tas) (tm # tms) (a # as) (m # ms) =
     (let nm = common_mask ta a;
          nm = (if nm > tm then tm else nm)
      in if nm > m then Superseded (m # replicate (length ms) 0)
         else if nm < 0xffffffff
              then if nm \<ge> tm then Contained else Divide (nm # replicate (length ms) 0)
              else cons_split nm (split_scan tas tms as ms))"
| "split_scan _ _ _ _ = Contained"

fun trie_split :: "trie \<Rightarrow> u32 list \<Rightarrow> u32 list \<Rightarrow> trie" where
  "trie_split (Trie_node ta tm t1 t0) addr msk =
     (case split_scan ta tm addr msk of
        Superseded tm' \<Rightarrow> Trie_node ta tm' Trie_true Trie_true
      | Contained \<Rightarrow> Trie_node ta tm t1 t0
      | Divide new_mask \<Rightarrow>
          let new_node = Trie_node ta tm t1 t0
          in if addr_next_bit_is_one new_mask ta \<noteq> 0 then Trie_node ta new_mask new_node Trie_null
             else Trie_node ta new_mask Trie_null new_node)"
| "trie_split t addr msk = t"

fun trie_match_at :: "trie \<Rightarrow> u32 list \<Rightarrow> bool" where
  "trie_match_at Trie_null addr = False"
| "trie_match_at Trie_true addr = True"
| "trie_match_at (Trie_node ta tm t1 t0) addr =
     (if \<not> addr_matches tm ta addr then False
      else if 1 AND tm ! 3 \<noteq> 0 then True
      else if addr_next_bit_is_one tm addr \<noteq> 0 then trie_match_at t1 addr
      else trie_match_at t0 addr)"

section \<open>Masks as prefix lengths\<close>

text \<open>Bit \<open>j\<close> of an address, from the most significant, and the mask of its first \<open>n\<close> bits.\<close>

fun abit :: "u32 list \<Rightarrow> nat \<Rightarrow> bool" where
  "abit [] j = False"
| "abit (w # ws) j = (if j < 32 then bit w (31 - j) else abit ws (j - 32))"

definition wmask :: "nat \<Rightarrow> u32" where
  "wmask n = NOT (mask (32 - n))"

fun pmask :: "nat \<Rightarrow> nat \<Rightarrow> u32 list" where
  "pmask 0 n = []"
| "pmask (Suc l) n = wmask n # pmask l (n - 32)"

lemma length_pmask [simp]: "length (pmask l n) = l"
  by (induction l arbitrary: n) simp_all

lemma bit_wmask: "bit (wmask n) k \<longleftrightarrow> k < 32 \<and> 32 - n \<le> k"
  by (auto simp: wmask_def bit_simps)

lemma wmask_simps: "wmask 0 = 0" "32 \<le> n \<Longrightarrow> wmask n = 0xffffffff"
  by (simp_all add: wmask_def mask_eq_exp_minus_1)

lemma not_less_not: "NOT (x :: u32) < NOT y \<longleftrightarrow> y < x"
  by transfer (simp add: take_bit_not_eq_mask_diff)

lemma mask_less: "i \<le> 32 \<Longrightarrow> j \<le> 32 \<Longrightarrow> (mask i :: u32) < mask j \<longleftrightarrow> i < j"
  by transfer (simp add: min_absorb2, simp add: mask_eq_exp_minus_1)

lemma wmask_less: "n \<le> 32 \<Longrightarrow> k \<le> 32 \<Longrightarrow> wmask n < wmask k \<longleftrightarrow> n < k"
  by (auto simp: wmask_def not_less_not mask_less)

lemma wmask_min: "wmask n = wmask (min n 32)"
  by (simp add: wmask_def min_def)

lemma wmask_full: "wmask n < 0xffffffff \<longleftrightarrow> n < 32"
  using wmask_less [of "min n 32" 32] wmask_min [of n] wmask_simps(2) [of 32] by auto

lemma mask_matches_wmask:
  "mask_matches (wmask n) a b \<longleftrightarrow> (\<forall>j < 32. j < n \<longrightarrow> bit a (31 - j) = bit b (31 - j))"
proof -
  have "mask_matches (wmask n) a b \<longleftrightarrow> (\<forall>k < 32. 32 - n \<le> k \<longrightarrow> bit a k = bit b k)"
    by (auto simp: mask_matches_def bit_eq_iff bit_simps bit_wmask)
  also have "\<dots> \<longleftrightarrow> (\<forall>j < 32. j < n \<longrightarrow> bit a (31 - j) = bit b (31 - j))"
  proof
    assume "\<forall>k < 32. 32 - n \<le> k \<longrightarrow> bit a k = bit b k"
    then show "\<forall>j < 32. j < n \<longrightarrow> bit a (31 - j) = bit b (31 - j)" by simp
  next
    assume *: "\<forall>j < 32. j < n \<longrightarrow> bit a (31 - j) = bit b (31 - j)"
    show "\<forall>k < 32. 32 - n \<le> k \<longrightarrow> bit a k = bit b k"
    proof (intro allI impI)
      fix k :: nat assume "k < 32" "32 - n \<le> k"
      then have "31 - k < 32" "31 - k < n" "31 - (31 - k) = k" by auto
      with * show "bit a k = bit b k" by metis
    qed
  qed
  finally show ?thesis .
qed

lemma and_nonzero: "(x :: u32) AND y \<noteq> 0 \<longleftrightarrow> (\<exists>k < 32. bit x k \<and> bit y k)"
  by (auto simp: bit_eq_iff bit_simps)

lemma bit_top: "bit (0x80000000 :: u32) k \<longleftrightarrow> k = 31"
proof -
  have "(0x80000000 :: u32) = 2 ^ 31" by simp
  then show ?thesis by (simp only: bit_exp_iff) auto
qed

lemma next_bit_is_one_wmask:
  assumes "n \<le> 32"
  shows "next_bit_is_one (wmask n) v \<noteq> 0 \<longleftrightarrow> n < 32 \<and> bit v (31 - n)"
proof -
  consider "n = 0" | "n = 32" | "0 < n" "n < 32" using assms by linarith
  then show ?thesis
  proof cases
    case 3
    then have "wmask n \<noteq> 0" "wmask n \<noteq> 0xffffffff"
      using wmask_less [of 0 n] wmask_less [of n 32] wmask_simps by auto
    moreover have "bit (drop_bit 1 (wmask n) AND NOT (wmask n)) k \<longleftrightarrow> k = 31 - n" for k
      using 3 by (auto simp: bit_simps bit_wmask)
    ultimately have "next_bit_is_one (wmask n) v \<noteq> 0 \<longleftrightarrow> (\<exists>k < 32. k = 31 - n \<and> bit v k)"
      by (simp add: next_bit_is_one_def and_nonzero)
    with 3 show ?thesis by auto
  next
    case 1
    have "0x80000000 AND v \<noteq> 0 \<longleftrightarrow> bit v 31"
      unfolding and_nonzero bit_top by auto
    then show ?thesis using 1 by (simp add: wmask_simps next_bit_is_one_def)
  qed (simp add: wmask_simps next_bit_is_one_def)
qed

section \<open>The common prefix of two words\<close>

lemma LT_eq: "LT n = [n, n, n, n, n, n, n, n, n, n, n, n, n, n, n, n]"
  by (simp add: LT_def numeral_eq_Suc)

lemma LogTable256_ok:
  "list_all2 (\<lambda>v l. 0 \<le> l \<and> 2 ^ nat l \<le> v \<and> v < 2 * 2 ^ nat l) [1 ..< 256] (tl LogTable256)"
  by (simp add: LogTable256_def LT_eq upt_rec)

lemma length_LogTable256: "length LogTable256 = 256"
  by (simp add: LogTable256_def LT_def)

lemma LogTable256:
  assumes "0 < v" "v < 256"
  shows "\<exists>l. LogTable256 ! v = int l \<and> 2 ^ l \<le> v \<and> v < 2 ^ Suc l"
proof -
  have "0 \<le> LogTable256 ! v \<and> 2 ^ nat (LogTable256 ! v) \<le> v \<and> v < 2 * 2 ^ nat (LogTable256 ! v)"
    using list_all2_nthD [OF LogTable256_ok, of "v - 1"] assms length_LogTable256 by (simp add: nth_tl)
  then show ?thesis
    by (intro exI [of _ "nat (LogTable256 ! v)"]) simp
qed

text \<open>The position of the highest set bit, as the code computes it from the table.\<close>

definition word_log :: "u32 \<Rightarrow> int" where
  "word_log v =
     (let tt = drop_bit 16 v in
      if tt \<noteq> 0
      then let t = drop_bit 8 tt
           in if t \<noteq> 0 then 24 + LogTable256 ! unat t else 16 + LogTable256 ! unat tt
      else let t = drop_bit 8 v
           in if t \<noteq> 0 then 8 + LogTable256 ! unat t else LogTable256 ! unat v)"

lemma drop_log:
  fixes v :: u32
  assumes "drop_bit s v \<noteq> 0" "unat v < 2 ^ (s + 8)"
  shows "\<exists>l. int s + LogTable256 ! unat (drop_bit s v) = int l \<and> 2 ^ l \<le> unat v \<and> unat v < 2 ^ Suc l"
proof -
  have d: "unat (drop_bit s v) = unat v div 2 ^ s" unfolding unat_drop_bit_eq by (rule drop_bit_eq_div)
  have "unat (drop_bit s v) \<noteq> 0" using assms(1) by (simp add: unsigned_eq_0_iff)
  moreover have "unat (drop_bit s v) < 256"
    using assms(2) by (simp add: d less_mult_imp_div_less power_add)
  ultimately obtain l where l: "LogTable256 ! unat (drop_bit s v) = int l"
      "2 ^ l \<le> unat v div 2 ^ s" "unat v div 2 ^ s < 2 ^ Suc l"
    using LogTable256 d by (metis not_gr_zero)
  have "2 ^ l * 2 ^ s \<le> unat v" using l(2) by (metis mult_le_mono1 div_times_less_eq_dividend order_trans)
  moreover have "unat v < 2 ^ Suc l * 2 ^ s" using l(3) by (simp add: div_less_iff_less_mult)
  ultimately show ?thesis
    using l(1) by (intro exI [of _ "s + l"]) (simp add: power_add mult.commute mult.left_commute)
qed

lemma word_log:
  assumes "v \<noteq> 0"
  shows "\<exists>l. word_log v = int l \<and> 2 ^ l \<le> unat v \<and> unat v < 2 ^ Suc l"
proof -
  have z: "drop_bit s v = 0 \<longleftrightarrow> unat v < 2 ^ s" for s
    by (metis drop_bit_eq_div div_eq_0_iff unsigned_eq_0_iff unat_drop_bit_eq power_not_zero zero_neq_numeral)
  have v32: "unat v < 2 ^ 32" using unsigned_less [of v] by simp
  have d: "drop_bit 8 (drop_bit 16 v) = drop_bit 24 v" by simp
  show ?thesis
    using assms v32 drop_log [of 24 v] drop_log [of 16 v] drop_log [of 8 v] drop_log [of 0 v]
    by (auto simp: word_log_def Let_def d z not_less)
qed

lemma bit_unat_ge: "bit v k \<Longrightarrow> 2 ^ k \<le> unat (v :: u32)"
proof (rule ccontr)
  assume "bit v k" "\<not> 2 ^ k \<le> unat v"
  then have "bit (unat v) k" "unat v div 2 ^ k = 0" by (simp_all add: bit_unsigned_iff)
  then show False by (simp add: bit_iff_odd)
qed

lemma bit_from_log:
  assumes "2 ^ l \<le> unat (v :: u32)" "unat v < 2 ^ Suc l"
  shows "bit v l" "l < 32" "\<And>k. bit v k \<Longrightarrow> k \<le> l"
proof -
  have "unat v div 2 ^ l = 1" using assms by (intro div_nat_eqI) auto
  then have "bit (unat v) l" by (simp add: bit_iff_odd)
  then show "bit v l" by (simp add: bit_unsigned_iff)
  then show "l < 32" using bit_imp_le_length by fastforce
  fix k assume "bit v k"
  then have "2 ^ k < (2 :: nat) ^ Suc l" using bit_unat_ge assms(2) by (metis order_le_less_trans)
  then show "k \<le> l" by (metis less_Suc_eq_le nat_power_less_imp_less zero_less_numeral)
qed

lemma common_mask_eq:
  "common_mask a b = (let v = a XOR b in if v = 0 then 0xffffffff
     else if word_log v + 1 \<ge> 32 then 0 else NOT (push_bit (nat (word_log v + 1)) 1 - 1))"
  by (simp add: common_mask_def word_log_def Let_def)

lemma common_mask:
  "\<exists>n \<le> 32. common_mask a b = wmask n \<and> (\<forall>j < n. bit a (31 - j) = bit b (31 - j)) \<and>
     (n < 32 \<longrightarrow> bit a (31 - n) \<noteq> bit b (31 - n))"
proof (cases "a XOR b = 0")
  case True
  then have "a = b" by (metis bit.xor_self xor.assoc xor.right_neutral)
  then show ?thesis using True by (intro exI [of _ 32]) (simp add: common_mask_def Let_def wmask_simps)
next
  case False
  then obtain l where l: "word_log (a XOR b) = int l" "2 ^ l \<le> unat (a XOR b)" "unat (a XOR b) < 2 ^ Suc l"
    using word_log by blast
  note b = bit_from_log [OF l(2,3)]
  have "common_mask a b = wmask (31 - l)"
  proof (cases "l = 31")
    case True
    then show ?thesis using False l(1) by (simp add: common_mask_eq Let_def wmask_simps)
  next
    case F: False
    then have "nat (int l + 1) = l + 1" "\<not> int l + 1 \<ge> 32" "32 - (31 - l) = l + 1" using b(2) by auto
    then show ?thesis using False l(1)
      by (simp add: common_mask_eq Let_def wmask_def mask_eq_exp_minus_1)
  qed
  moreover have "bit a (31 - j) = bit b (31 - j)" if "j < 31 - l" for j
  proof -
    have "\<not> 31 - j \<le> l" using that by linarith
    then show ?thesis using b(3) [of "31 - j"] by (auto simp: bit_xor_iff)
  qed
  moreover have "bit a (31 - (31 - l)) \<noteq> bit b (31 - (31 - l))"
    using b(1,2) by (simp add: bit_xor_iff)
  ultimately show ?thesis using b(2) by (intro exI [of _ "31 - l"]) auto
qed

section \<open>Addresses bit by bit\<close>

definition agree :: "nat \<Rightarrow> u32 list \<Rightarrow> u32 list \<Rightarrow> bool" where
  "agree n as bs \<longleftrightarrow> (\<forall>j < n. abit as j = abit bs j)"

definition common_len :: "nat \<Rightarrow> u32 list \<Rightarrow> u32 list \<Rightarrow> bool" where
  "common_len c as bs \<longleftrightarrow> c \<le> 32 * length as \<and> agree c as bs \<and>
     (c < 32 * length as \<longrightarrow> abit as c \<noteq> abit bs c)"

lemma common_len_exists: "\<exists>c. common_len c as bs"
proof (cases "agree (32 * length as) as bs")
  case True
  then show ?thesis by (auto simp: common_len_def)
next
  case False
  define c where "c = (LEAST j. abit as j \<noteq> abit bs j)"
  obtain j where j: "j < 32 * length as" "abit as j \<noteq> abit bs j" using False by (auto simp: agree_def)
  have "abit as c \<noteq> abit bs c" unfolding c_def by (rule LeastI [of _ j]) (rule j(2))
  moreover have "c \<le> j" unfolding c_def by (rule Least_le) (rule j(2))
  moreover have "agree c as bs" unfolding agree_def c_def using not_less_Least by blast
  ultimately show ?thesis using j(1) by (intro exI [of _ c]) (auto simp: common_len_def)
qed

lemma agree_sym: "agree n as bs \<longleftrightarrow> agree n bs as"
  by (auto simp: agree_def)

lemma agree_trans: "agree n as bs \<Longrightarrow> agree n bs cs \<Longrightarrow> agree n as cs"
  by (simp add: agree_def)

lemma agree_mono: "agree n as bs \<Longrightarrow> m \<le> n \<Longrightarrow> agree m as bs"
  by (simp add: agree_def)

lemma agree_refl [simp]: "agree n as as"
  by (simp add: agree_def)

lemma agree_common:
  assumes "common_len c as bs" "m \<le> 32 * length as"
  shows "agree m as bs \<longleftrightarrow> m \<le> c"
  using assms unfolding common_len_def agree_def by (meson le_less_trans not_le order_less_le_trans)

lemma common_len_Cons:
  assumes "common_len c (a # as) (b # bs)"
  shows "common_mask a b = wmask c" "32 \<le> c \<Longrightarrow> common_len (c - 32) as bs"
proof -
  have c: "\<And>j. j < c \<Longrightarrow> abit (a # as) j = abit (b # bs) j" "c \<le> 32 + 32 * length as"
    "c < 32 + 32 * length as \<Longrightarrow> abit (a # as) c \<noteq> abit (b # bs) c"
    using assms by (auto simp: common_len_def agree_def)
  obtain n where n: "n \<le> 32" "common_mask a b = wmask n" "\<forall>j < n. bit a (31 - j) = bit b (31 - j)"
      "n < 32 \<longrightarrow> bit a (31 - n) \<noteq> bit b (31 - n)"
    using common_mask by blast
  have "n = min c 32"
  proof (rule ccontr)
    assume "n \<noteq> min c 32"
    then consider "n < c" "n < 32" | "c < n" using n(1) by linarith
    then show False
      by cases (use n c(1) [of n] c(2,3) in auto)
  qed
  then show "common_mask a b = wmask c" using n(2) wmask_min [of c] by simp
  assume "32 \<le> c"
  have "abit as j = abit bs j" if "j < c - 32" for j
    using c(1) [of "j + 32"] that by simp
  then show "common_len (c - 32) as bs"
    using c(2,3) \<open>32 \<le> c\<close> by (auto simp: common_len_def agree_def)
qed

lemma pmask_0 [simp]: "pmask l 0 = replicate l 0"
  by (induction l) (simp_all add: wmask_simps)

lemma wmask_cmp: "wmask n < wmask k \<longleftrightarrow> min n 32 < min k 32"
  using wmask_less [of "min n 32" "min k 32"] wmask_min by simp

lemma wmask_big: "32 \<le> n \<Longrightarrow> 32 \<le> k \<Longrightarrow> wmask n = wmask k"
  by (simp add: wmask_simps)

lemma wmask_clip: "(if wmask c > wmask n then wmask n else wmask c) = wmask (min c n)"
proof (cases "min n 32 < min c 32")
  case True
  then have q: "min c n = n" by linarith
  show ?thesis unfolding q using True by (simp add: wmask_cmp)
next
  case False
  then have "wmask c = wmask (min c n)"
  proof (cases "c \<le> n")
    case c: False
    then show ?thesis using False by (intro wmask_big) linarith+
  qed simp
  moreover have "\<not> wmask n < wmask c" unfolding wmask_cmp by (rule False)
  ultimately show ?thesis by simp
qed

lemma split_scan:
  assumes "length ta = l" "length a = l" "common_len c ta a" "n \<le> 32 * l"
  shows "split_scan ta (pmask l n) a (pmask l k) =
    (if k < min c n then Superseded (pmask l k)
     else if n \<le> c then Contained else Divide (pmask l c))"
  using assms
proof (induction l arbitrary: ta a c n k)
  case 0
  then show ?case by (simp add: common_len_def)
next
  case (Suc l)
  obtain x xs y ys where e: "ta = x # xs" "a = y # ys" "length xs = l" "length ys = l"
    using Suc.prems by (auto simp: length_Suc_conv)
  note cm = common_len_Cons [OF Suc.prems(3) [unfolded e]]
  let ?q = "min c n"
  have nm: "(if common_mask x y > wmask n then wmask n else common_mask x y) = wmask ?q"
    unfolding cm(1) by (rule wmask_clip)
  consider "k < 32" "k < ?q" | "?q < 32" "?q \<le> k" | "32 \<le> ?q" "32 \<le> k" by linarith
  then show ?case
  proof cases
    case 1
    then have "wmask k < wmask ?q" by (auto simp: wmask_cmp)
    then show ?thesis using 1 by (simp add: e Let_def nm)
  next
    case 2
    then have "\<not> wmask k < wmask ?q" "wmask ?q < 0xffffffff" by (auto simp: wmask_cmp wmask_full)
    moreover have "wmask n \<le> wmask ?q \<longleftrightarrow> n \<le> c" "\<not> n \<le> c \<Longrightarrow> ?q = c"
      using 2 by (auto simp: wmask_cmp simp flip: not_less)
    ultimately show ?thesis using 2 by (auto simp: e Let_def nm)
  next
    case 3
    then have "wmask ?q = 0xffffffff" "wmask k = 0xffffffff" by (simp_all add: wmask_simps)
    moreover have "split_scan xs (pmask l (n - 32)) ys (pmask l (k - 32)) =
        (if k - 32 < min (c - 32) (n - 32) then Superseded (pmask l (k - 32))
         else if n - 32 \<le> c - 32 then Contained else Divide (pmask l (c - 32)))"
      using Suc.IH [OF e(3,4)] cm(2) 3 Suc.prems(4) by simp
    moreover have "wmask c = 0xffffffff" using 3 by (simp add: wmask_simps)
    moreover have "c \<le> 32 + 32 * l" using Suc.prems by (simp add: common_len_def)
    ultimately show ?thesis using 3 by (auto simp: e Let_def nm)
  qed
qed

lemma addr_next_bit:
  "n \<le> 32 * l \<Longrightarrow> length a = l \<Longrightarrow>
     addr_next_bit_is_one (pmask l n) a \<noteq> 0 \<longleftrightarrow> n < 32 * l \<and> abit a n"
proof (induction l arbitrary: n a)
  case (Suc l)
  obtain x xs where e: "a = x # xs" "length xs = l" using Suc.prems by (auto simp: length_Suc_conv)
  show ?case
  proof (cases "n < 32")
    case True
    then show ?thesis by (simp add: e wmask_full next_bit_is_one_wmask)
  next
    case False
    have "addr_next_bit_is_one (pmask l (n - 32)) xs \<noteq> 0 \<longleftrightarrow> n - 32 < 32 * l \<and> abit xs (n - 32)"
      using Suc.prems(1) e(2) by (intro Suc.IH) auto
    moreover have "n - 32 < 32 * l \<longleftrightarrow> n < 32 * Suc l" using False by auto
    ultimately show ?thesis using False by (simp add: e wmask_full)
  qed
qed simp

lemma addr_matches:
  "length a = l \<Longrightarrow> length b = l \<Longrightarrow> n \<le> 32 * l \<Longrightarrow> addr_matches (pmask l n) a b \<longleftrightarrow> agree n a b"
proof (induction l arbitrary: n a b)
  case (Suc l)
  obtain x xs y ys where e: "a = x # xs" "b = y # ys" "length xs = l" "length ys = l"
    using Suc.prems by (auto simp: length_Suc_conv)
  have split: "agree n a b \<longleftrightarrow> (\<forall>j < 32. j < n \<longrightarrow> bit x (31 - j) = bit y (31 - j)) \<and> agree (n - 32) xs ys"
  proof
    assume A: "agree n a b"
    have "abit xs j = abit ys j" if "j < n - 32" for j
      using A that unfolding agree_def e by (auto dest!: spec [of _ "j + 32"])
    moreover have "bit x (31 - j) = bit y (31 - j)" if "j < 32" "j < n" for j
      using A that unfolding agree_def e by (auto dest!: spec [of _ j])
    ultimately show "(\<forall>j < 32. j < n \<longrightarrow> bit x (31 - j) = bit y (31 - j)) \<and> agree (n - 32) xs ys"
      by (simp add: agree_def)
  next
    assume A: "(\<forall>j < 32. j < n \<longrightarrow> bit x (31 - j) = bit y (31 - j)) \<and> agree (n - 32) xs ys"
    show "agree n a b" unfolding agree_def e
    proof (intro allI impI)
      fix j assume "j < n"
      then show "abit (x # xs) j = abit (y # ys) j" using A by (cases "j < 32") (auto simp: agree_def)
    qed
  qed
  show ?case
  proof (cases "n = 0")
    case True
    then show ?thesis by (simp add: e wmask_simps agree_def)
  next
    case False
    then have "wmask n \<noteq> 0" using wmask_cmp [of 0 n] wmask_simps(1) by auto
    moreover have "n - 32 \<le> 32 * l" using Suc.prems by simp
    ultimately show ?thesis
      using Suc.IH [OF e(3,4)] unfolding split by (simp add: e(1,2) mask_matches_wmask)
  qed
qed (simp add: agree_def)

lemma pmask_4: "pmask 4 n = [wmask n, wmask (n - 32), wmask (n - 64), wmask (n - 96)]"
proof -
  have "(4 :: nat) = Suc (Suc (Suc (Suc 0)))" by simp
  then show ?thesis by (simp only: pmask.simps diff_diff_left) simp
qed

lemma last_mask_bit:
  assumes "n \<le> 128"
  shows "1 AND pmask 4 n ! 3 \<noteq> 0 \<longleftrightarrow> n = 128"
proof -
  have "1 AND wmask (n - 96) \<noteq> 0 \<longleftrightarrow> n = 128"
    unfolding and_nonzero bit_wmask using assms by (auto simp: bit_1_iff)
  then show ?thesis by (simp add: pmask_4)
qed

section \<open>Insertion\<close>

lemma not_less_max: "\<not> (w :: u32) < 0xffffffff \<Longrightarrow> w = 0xffffffff"
proof -
  have "(0xffffffff :: u32) = - 1" by simp
  then show "\<not> w < 0xffffffff \<Longrightarrow> w = 0xffffffff" using word_order.not_eq_extremum by metis
qed

text \<open>A division separates the node from the new address, so the walk does not meet the copy.\<close>

lemma split_scan_divides:
  "split_scan ta tm a m = Divide nm \<Longrightarrow> 
     (addr_next_bit_is_one nm ta \<noteq> 0) \<noteq> (addr_next_bit_is_one nm a \<noteq> 0)"
proof (induction ta tm a m arbitrary: nm rule: split_scan.induct)
  case (1 x xs n ns y ys k ks)
  let ?w = "if common_mask x y > n then n else common_mask x y"
  show ?case
  proof (cases "?w > k \<or> ?w < 0xffffffff")
    case True
    then have w: "\<not> ?w > k" "?w < n" "?w < 0xffffffff" "nm = ?w # replicate (length ks) 0"
      using "1.prems"(1) by (auto simp: Let_def split: if_splits)
    obtain j where j: "j \<le> 32" "common_mask x y = wmask j" "j < 32 \<longrightarrow> bit x (31 - j) \<noteq> bit y (31 - j)"
      using common_mask by blast
    have "?w = wmask j" "j < 32" using w(2,3) j(2) by (auto simp: wmask_full split: if_splits)
    then show ?thesis using w(3,4) j by (simp add: next_bit_is_one_wmask)
  next
    case False
    have full: "?w = 0xffffffff" using False not_less_max by blast
    obtain nm' where "split_scan xs ns ys ks = Divide nm'" "nm = ?w # nm'"
      using "1.prems"(1) False by (cases "split_scan xs ns ys ks") (auto simp: Let_def split: if_splits)
    then show ?thesis using "1.IH" False full by (auto simp: Let_def)
  qed
qed auto

text \<open>
  The walk of \<open>_trie_insert\<close>: split the node, then go down the branch of the next bit of the
  address, adding a node on an empty branch.
\<close>

function trie_insert_at :: "trie \<Rightarrow> u32 list \<Rightarrow> u32 list \<Rightarrow> trie" where
  "trie_insert_at Trie_null addr msk = Trie_null"
| "trie_insert_at Trie_true addr msk = Trie_true"
| "trie_insert_at (Trie_node ta tm t1 t0) addr msk =
     (case trie_split (Trie_node ta tm t1 t0) addr msk of
        Trie_node ta' tm' t1' t0' \<Rightarrow>
          if addr_next_bit_is_one tm' addr \<noteq> 0
          then if t1' = Trie_null then Trie_node ta' tm' (new_trie_node addr msk) t0'
               else Trie_node ta' tm' (trie_insert_at t1' addr msk) t0'
          else if t0' = Trie_null then Trie_node ta' tm' t1' (new_trie_node addr msk)
               else Trie_node ta' tm' t1' (trie_insert_at t0' addr msk)
      | t \<Rightarrow> t)"
  by pat_completeness auto

termination
proof (relation "measure (\<lambda>(t, addr, msk). size t)", simp)
  fix ta tm t1 t0 addr msk ta' tm' t1' t0'
  assume s: "trie_split (Trie_node ta tm t1 t0) addr msk = Trie_node ta' tm' t1' t0'"
    and b: "addr_next_bit_is_one tm' addr \<noteq> 0" and n: "t1' \<noteq> Trie_null"
  show "((t1', addr, msk), Trie_node ta tm t1 t0, addr, msk) \<in> measure (\<lambda>(t, addr, msk). size t)"
    using s b n
    by (auto simp: Let_def split: split_case.splits if_splits dest: split_scan_divides)
next
  fix ta tm t1 t0 addr msk ta' tm' t1' t0'
  assume s: "trie_split (Trie_node ta tm t1 t0) addr msk = Trie_node ta' tm' t1' t0'"
    and b: "\<not> addr_next_bit_is_one tm' addr \<noteq> 0" and n: "t0' \<noteq> Trie_null"
  show "((t0', addr, msk), Trie_node ta tm t1 t0, addr, msk) \<in> measure (\<lambda>(t, addr, msk). size t)"
    using s b n
    by (auto simp: Let_def split: split_case.splits if_splits dest: split_scan_divides)
qed

section \<open>The shape of a tree\<close>

text \<open>
  A branch of a node with \<open>n\<close> mask bits leads to an address that shares these bits and has the
  branch's value as the next one; the branch of the node's own next bit is never empty.
\<close>

fun branch_ok :: "nat \<Rightarrow> u32 list \<Rightarrow> bool \<Rightarrow> trie \<Rightarrow> bool" where
  "branch_ok n a b (Trie_node ca cm c1 c0) \<longleftrightarrow> agree n a ca \<and> abit ca n = b"
| "branch_ok n a b _ \<longleftrightarrow> True"

fun own_branch :: "u32 list \<Rightarrow> trie \<Rightarrow> bool" where
  "own_branch a (Trie_node ca cm c1 c0) \<longleftrightarrow> ca = a"
| "own_branch a t \<longleftrightarrow> t = Trie_true"

inductive twf :: "nat \<Rightarrow> trie \<Rightarrow> bool" where
  twf_null: "twf d Trie_null"
| twf_true: "twf d Trie_true"
| twf_leaf: "length a = 4 \<Longrightarrow> d \<le> n \<Longrightarrow> n \<le> 128 \<Longrightarrow> twf d (Trie_node a (pmask 4 n) Trie_true Trie_true)"
| twf_inner: "length a = 4 \<Longrightarrow> d < n \<Longrightarrow> n < 128 \<Longrightarrow> branch_ok n a True t1 \<Longrightarrow> branch_ok n a False t0 \<Longrightarrow>
    own_branch a (if abit a n then t1 else t0) \<Longrightarrow> twf n t1 \<Longrightarrow> twf n t0 \<Longrightarrow>
    twf d (Trie_node a (pmask 4 n) t1 t0)"

inductive_cases twf_nodeE: "twf d (Trie_node a m t1 t0)"

lemma twf_nodeE':
  assumes "twf d (Trie_node a m t1 t0)"
  obtains n where "length a = 4" "m = pmask 4 n" "d \<le> n" "n \<le> 128" "twf n t1" "twf n t0"
    "branch_ok n a True t1" "branch_ok n a False t0" "own_branch a (if abit a n then t1 else t0)"
    "d < n \<and> n < 128 \<or> t1 = Trie_true \<and> t0 = Trie_true"
  using assms
proof (rule twf_nodeE)
  fix n assume "length a = 4" "d \<le> n" "n \<le> 128" "m = pmask 4 n" "t1 = Trie_true" "t0 = Trie_true"
  then show thesis by (intro that [of n]) (auto intro: twf_true)
next
  fix n assume "length a = 4" "d < n" "n < 128" "branch_ok n a True t1" "branch_ok n a False t0"
    "own_branch a (if abit a n then t1 else t0)" "twf n t1" "twf n t0" "m = pmask 4 n"
  then show thesis by (intro that [of n]) auto
qed

lemma wmask_eq: "wmask n = wmask k \<longleftrightarrow> min n 32 = min k 32"
  using wmask_cmp [of n k] wmask_cmp [of k n] by (metis less_irrefl linorder_neqE_nat wmask_min)

lemma word_sum:
  assumes "n \<le> (128 :: nat)"
  shows "n = min n 32 + min (n - 32) 32 + min (n - 64) 32 + min (n - 96) 32"
proof -
  consider "n \<le> 32" | "32 < n" "n \<le> 64" | "64 < n" "n \<le> 96" | "96 < n" by linarith
  then show ?thesis using assms by cases simp_all
qed

lemma pmask_inj: "n \<le> 128 \<Longrightarrow> k \<le> 128 \<Longrightarrow> pmask 4 n = pmask 4 k \<longleftrightarrow> n = k"
proof
  assume le: "n \<le> 128" "k \<le> 128" and "pmask 4 n = pmask 4 k"
  then have "min n 32 = min k 32" "min (n - 32) 32 = min (k - 32) 32"
      "min (n - 64) 32 = min (k - 64) 32" "min (n - 96) 32 = min (k - 96) 32"
    unfolding pmask_4 list.inject wmask_eq by blast+
  with le show "n = k" using word_sum [of n] word_sum [of k] by metis
qed simp

lemma twf_nodeD:
  assumes "twf d (Trie_node a (pmask 4 n) t1 t0)" "n \<le> 128"
  shows "length a = 4" "d \<le> n" "twf n t1" "twf n t0" "branch_ok n a True t1" "branch_ok n a False t0"
    "own_branch a (if abit a n then t1 else t0)" "d < n \<and> n < 128 \<or> t1 = Trie_true \<and> t0 = Trie_true"
  using assms(1)
  by (rule twf_nodeE'; use assms(2) in \<open>simp add: pmask_inj\<close>)+

lemma match_node:
  assumes "length a = 4" "length x = 4" "n \<le> 128"
  shows "trie_match_at (Trie_node a (pmask 4 n) t1 t0) x \<longleftrightarrow>
    agree n a x \<and> (n = 128 \<or> (if abit x n then trie_match_at t1 x else trie_match_at t0 x))"
  using assms addr_matches [of a 4 x n] last_mask_bit [OF assms(3)] addr_next_bit [of n 4 x] by auto

declare trie_match_at.simps(3) [simp del]

lemma match_leaf:
  assumes "length a = 4" "length x = 4" "n \<le> 128"
  shows "trie_match_at (Trie_node a (pmask 4 n) Trie_true Trie_true) x \<longleftrightarrow> agree n a x"
  by (simp add: match_node [OF assms])

text \<open>Every node matches its own address.\<close>

lemma self_match: "twf d t \<Longrightarrow> t = Trie_node a m t1 t0 \<Longrightarrow> trie_match_at t a"
proof (induction arbitrary: a m t1 t0 rule: twf.induct)
  case (twf_leaf a' d n)
  then show ?case by (auto simp: match_leaf)
next
  case (twf_inner a' d n s1 s0)
  have a: "a' = a" using twf_inner.prems by simp
  have "trie_match_at (if abit a n then s1 else s0) a"
    using twf_inner(6,9,10) unfolding a
    by (cases "if abit a n then s1 else s0") (auto split: if_splits)
  then show ?case using twf_inner(1-3) a
    by (cases "abit a n") (simp_all add: match_node)
qed auto

section \<open>What an insertion does\<close>

text \<open>The result of \<open>trie_split\<close> and one step down, on masks as prefix lengths.\<close>

definition with_branch :: "bool \<Rightarrow> u32 list \<Rightarrow> u32 list \<Rightarrow> trie \<Rightarrow> trie \<Rightarrow> trie" where
  "with_branch b a m t other = (if b then Trie_node a m t other else Trie_node a m other t)"

definition child :: "bool \<Rightarrow> trie \<Rightarrow> trie \<Rightarrow> trie" where
  "child b t1 t0 = (if b then t1 else t0)"

lemma insert_node:
  assumes "length ta = 4" "length addr = 4" "n \<le> 128" "k \<le> 128" and c: "common_len c ta addr"
    and leaf: "n = 128 \<longrightarrow> t1 = Trie_true \<and> t0 = Trie_true"
  shows "trie_insert_at (Trie_node ta (pmask 4 n) t1 t0) addr (pmask 4 k) =
    (if k < min c n then Trie_node ta (pmask 4 k) Trie_true Trie_true
     else if n \<le> c
          then let b = abit addr n; t = child b t1 t0
               in if n = 128 then Trie_node ta (pmask 4 n) t1 t0
                  else with_branch b ta (pmask 4 n)
                   (if t = Trie_null then new_trie_node addr (pmask 4 k) else trie_insert_at t addr (pmask 4 k))
                   (child (\<not> b) t1 t0)
     else with_branch (abit ta c) ta (pmask 4 c) (Trie_node ta (pmask 4 n) t1 t0)
            (new_trie_node addr (pmask 4 k)))"
proof -
  have sc: "split_scan ta (pmask 4 n) addr (pmask 4 k) =
    (if k < min c n then Superseded (pmask 4 k) else if n \<le> c then Contained else Divide (pmask 4 c))"
    using assms by (intro split_scan) auto
  have nb: "addr_next_bit_is_one (pmask 4 m) x \<noteq> 0 \<longleftrightarrow> m < 128 \<and> abit x m" if "m \<le> 128" "length x = 4" for m x
    using addr_next_bit [of m 4 x] that by simp
  have c128: "c \<le> 128" using c assms(1) by (simp add: common_len_def)
  consider "k < min c n" | "\<not> k < min c n" "n \<le> c" | "\<not> k < min c n" "c < n" by linarith
  then show ?thesis
  proof cases
    case 1
    then show ?thesis using nb assms by (simp add: sc)
  next
    case 2
    then show ?thesis using nb [OF assms(3,2)] leaf assms(3)
      by (auto simp: sc Let_def with_branch_def child_def)
  next
    case 3
    then have "abit ta c \<noteq> abit addr c" "c < 128" using c assms by (auto simp: common_len_def)
    then show ?thesis using 3 nb [of c ta] nb [of c addr] assms
      by (auto simp: sc Let_def with_branch_def)
  qed
qed

declare trie_insert_at.simps(3) [simp del]

text \<open>A tree of addresses that share the first \<open>d + 1\<close> bits with the new one.\<close>

fun toward :: "nat \<Rightarrow> trie \<Rightarrow> u32 list \<Rightarrow> bool" where
  "toward d (Trie_node a m t1 t0) addr \<longleftrightarrow> agree (Suc d) a addr"
| "toward d t addr \<longleftrightarrow> True"

text \<open>What an insertion of the prefix of length \<open>k\<close> keeps and gives.\<close>

definition insert_ok :: "nat \<Rightarrow> trie \<Rightarrow> u32 list \<Rightarrow> nat \<Rightarrow> trie \<Rightarrow> bool" where
  "insert_ok d t addr k t' \<longleftrightarrow>
     twf d t' \<and> (t' = Trie_null \<longleftrightarrow> t = Trie_null) \<and>
     (\<forall>n a b. branch_ok n a b t \<longrightarrow> branch_ok n a b t') \<and> (\<forall>a. own_branch a t \<longrightarrow> own_branch a t') \<and>
     (\<forall>x. length x = 4 \<longrightarrow>
        (trie_match_at t x \<longrightarrow> trie_match_at t' x) \<and>
        (trie_match_at t' x \<longrightarrow> trie_match_at t x \<or> agree k addr x) \<and>
        (t \<noteq> Trie_null \<and> agree k addr x \<and> (\<forall>y. length y = 4 \<and> agree k addr y \<longrightarrow> \<not> trie_match_at t y) \<longrightarrow>
           trie_match_at t' x)) \<and>
     (t \<noteq> Trie_null \<longrightarrow> trie_match_at t' addr)"

lemma insert_okD:
  assumes "insert_ok d t addr k t'"
  shows "twf d t'" "t' = Trie_null \<longleftrightarrow> t = Trie_null" "branch_ok n a b t \<Longrightarrow> branch_ok n a b t'"
    "own_branch a t \<Longrightarrow> own_branch a t'"
    "length x = 4 \<Longrightarrow> trie_match_at t x \<Longrightarrow> trie_match_at t' x"
    "length x = 4 \<Longrightarrow> trie_match_at t' x \<Longrightarrow> trie_match_at t x \<or> agree k addr x"
    "t \<noteq> Trie_null \<Longrightarrow> \<forall>y. length y = 4 \<and> agree k addr y \<longrightarrow> \<not> trie_match_at t y \<Longrightarrow>
      length x = 4 \<Longrightarrow> agree k addr x \<Longrightarrow> trie_match_at t' x"
    "t \<noteq> Trie_null \<Longrightarrow> trie_match_at t' addr"
  using assms unfolding insert_ok_def by blast+

lemma new_node_match:
  "length addr = 4 \<Longrightarrow> k \<le> 128 \<Longrightarrow> length x = 4 \<Longrightarrow>
     trie_match_at (new_trie_node addr (pmask 4 k)) x \<longleftrightarrow> agree k addr x"
  by (simp add: new_trie_node_def match_leaf)

lemma with_branch_match:
  assumes "length a = 4" "length x = 4" "n < 128"
  shows "trie_match_at (with_branch b a (pmask 4 n) t other) x \<longleftrightarrow>
    agree n a x \<and> (if abit x n = b then trie_match_at t x else trie_match_at other x)"
  using assms by (auto simp: with_branch_def match_node)

lemma with_branch_child: "with_branch b a m (child b t1 t0) (child (\<not> b) t1 t0) = Trie_node a m t1 t0"
  by (simp add: with_branch_def child_def)

lemma insert_supersede:
  assumes wf: "twf d (Trie_node ta (pmask 4 n) t1 t0)" and "length addr = 4" "d \<le> k"
    and c: "common_len c ta addr" "k < min c n" "n \<le> 128"
  shows "insert_ok d (Trie_node ta (pmask 4 n) t1 t0) addr k (Trie_node ta (pmask 4 k) Trie_true Trie_true)"
    (is "insert_ok d ?t addr k ?t'")
proof -
  have l: "length ta = 4" using twf_nodeD(1) [OF wf c(3)] .
  have ag: "agree k ta addr" using c agree_mono [of c ta addr k] by (auto simp: common_len_def)
  have m': "trie_match_at ?t' x \<longleftrightarrow> agree k addr x" if "length x = 4" for x
    using match_leaf [OF l that] c ag agree_trans agree_sym by (metis less_imp_le min_less_iff_conj order_trans)
  have "trie_match_at ?t x \<Longrightarrow> agree k addr x" if "length x = 4" for x
    using match_node [OF l that c(3)] agree_mono [of n ta x k] c(2) ag agree_trans agree_sym
    by (metis less_imp_le min_less_iff_conj)
  moreover have "twf d ?t'"
    using l assms by (intro twf_leaf) auto
  ultimately show ?thesis
    unfolding insert_ok_def using m' assms(2) by simp
qed

lemma insert_divide:
  assumes wf: "twf d (Trie_node ta (pmask 4 n) t1 t0)" and "length addr = 4" "d \<le> k" "k \<le> 128"
    and c: "common_len c ta addr" "\<not> k < min c n" "c < n" "n \<le> 128" and to: "agree (Suc d) ta addr"
  shows "insert_ok d (Trie_node ta (pmask 4 n) t1 t0) addr k
    (with_branch (abit ta c) ta (pmask 4 c) (Trie_node ta (pmask 4 n) t1 t0) (new_trie_node addr (pmask 4 k)))"
    (is "insert_ok d ?t addr k ?t'")
proof -
  note wfD = twf_nodeD [OF wf c(4)]
  have l: "length ta = 4" by (rule wfD(1))
  have c128: "c < 128" "c \<le> k" using c by auto
  have d: "d < c"
  proof (rule ccontr)
    assume "\<not> d < c"
    then have "abit ta c = abit addr c" using to by (simp add: agree_def)
    then show False using c(1) c128 l by (simp add: common_len_def)
  qed
  have ab: "abit addr c = (\<not> abit ta c)" and ag: "agree c ta addr"
    using c(1) c128 l by (auto simp: common_len_def)
  have m': "trie_match_at ?t' x \<longleftrightarrow>
      agree c ta x \<and> (if abit x c = abit ta c then trie_match_at ?t x else agree k addr x)" if "length x = 4" for x
    using with_branch_match [OF l that c128(1)] new_node_match [OF assms(2,4) that] by simp
  have m: "agree n ta x" if "trie_match_at ?t x" "length x = 4" for x
    using match_node [OF l that(2) c(4)] that(1) by blast
  have mc: "agree c ta x" "abit x c = abit ta c" if "trie_match_at ?t x" "length x = 4" for x
    using m [OF that] c(3) by (auto simp: agree_def)
  have self: "trie_match_at ?t ta" using self_match [OF wf] by blast
  have "trie_match_at ?t' x" if "length x = 4" "agree k addr x"
      "\<forall>y. length y = 4 \<and> agree k addr y \<longrightarrow> \<not> trie_match_at ?t y" for x
  proof -
    have "c \<noteq> k" using self that(3) l ag agree_sym by metis
    then have "abit x c = abit addr c" "agree c addr x" using that(2) c128(2) by (auto simp: agree_def)
    then show ?thesis using m' [OF that(1)] ab that(2) agree_trans [OF ag] by simp
  qed
  moreover have "twf d ?t'"
  proof -
    have "twf c ?t"
      using wfD c(3,4) by (cases "d < n \<and> n < 128") (auto intro: twf_inner twf_leaf)
    moreover have "twf c (new_trie_node addr (pmask 4 k))"
      unfolding new_trie_node_def using assms c128 by (intro twf_leaf) auto
    ultimately show ?thesis
      using d l c128 ab ag by (auto simp: with_branch_def new_trie_node_def intro!: twf_inner)
  qed
  moreover have "branch_ok j a b ?t \<longrightarrow> branch_ok j a b ?t'" "own_branch a ?t \<longrightarrow> own_branch a ?t'"
      "?t' \<noteq> Trie_null" for j a b
    by (simp_all add: with_branch_def)
  moreover have "trie_match_at ?t' addr" using m' [OF assms(2)] ab ag by simp
  ultimately show ?thesis
    unfolding insert_ok_def
  proof (intro conjI allI impI; (elim conjE)?)
    fix x :: "u32 list" assume x: "length x = 4"
    show "trie_match_at ?t' x" if "trie_match_at ?t x" using m' [OF x] mc [OF that x] that by simp
    show "trie_match_at ?t x \<or> agree k addr x" if "trie_match_at ?t' x"
      using m' [OF x] that by (cases "abit x c = abit ta c") simp_all
  qed blast+
qed

lemma insert_descend:
  assumes wf: "twf d (Trie_node ta (pmask 4 n) t1 t0)" and l: "length addr = 4" and kn: "n \<le> k" "k \<le> 128"
    and n: "n < 128" and ag: "agree n ta addr" and t: "t = child (abit addr n) t1 t0"
    and IH: "t \<noteq> Trie_null \<Longrightarrow> insert_ok n t addr k t'"
    and new: "t = Trie_null \<Longrightarrow> t' = new_trie_node addr (pmask 4 k)"
    and true: "t = Trie_true \<Longrightarrow> t' = Trie_true"
  shows "insert_ok d (Trie_node ta (pmask 4 n) t1 t0) addr k
    (with_branch (abit addr n) ta (pmask 4 n) t' (child (\<not> abit addr n) t1 t0))"
    (is "insert_ok d ?t addr k ?t'")
proof -
  let ?b = "abit addr n" and ?o = "child (\<not> abit addr n) t1 t0"
  note wfD = twf_nodeD [OF wf less_imp_le [OF n]]
  have lt: "length ta = 4" by (rule wfD(1))
  have eq: "?t = with_branch ?b ta (pmask 4 n) t ?o" by (simp add: t with_branch_child)
  have m: "trie_match_at ?t x \<longleftrightarrow> agree n ta x \<and> (if abit x n = ?b then trie_match_at t x else trie_match_at ?o x)"
    "trie_match_at ?t' x \<longleftrightarrow> agree n ta x \<and> (if abit x n = ?b then trie_match_at t' x else trie_match_at ?o x)"
    if "length x = 4" for x
    unfolding eq by (rule with_branch_match [OF lt that n])+
  have step: "trie_match_at t x \<Longrightarrow> trie_match_at t' x" "trie_match_at t' x \<Longrightarrow> trie_match_at t x \<or> agree k addr x"
    if "length x = 4" for x
  proof -
    have "(trie_match_at t x \<longrightarrow> trie_match_at t' x) \<and> (trie_match_at t' x \<longrightarrow> trie_match_at t x \<or> agree k addr x)"
    proof (cases "t = Trie_null")
      case True
      then show ?thesis using new new_node_match [OF l kn(2) that] by simp
    next
      case False
      show ?thesis using insert_okD(5,6) [OF IH [OF False] that] by blast
    qed
    then show "trie_match_at t x \<Longrightarrow> trie_match_at t' x" "trie_match_at t' x \<Longrightarrow> trie_match_at t x \<or> agree k addr x"
      by blast+
  qed
  have self: "trie_match_at t' addr"
  proof (cases "t = Trie_null")
    case True
    then show ?thesis using new new_node_match [OF l kn(2) l] by simp
  next
    case False
    show ?thesis by (rule insert_okD(8) [OF IH [OF False] False])
  qed
  have full: "trie_match_at ?t' x"
    if "length x = 4" "agree k addr x" "\<forall>y. length y = 4 \<and> agree k addr y \<longrightarrow> \<not> trie_match_at ?t y" for x
  proof -
    note none_t = that(3)
    have "n \<noteq> k"
    proof
      assume "n = k"
      then have "agree k addr ta" using ag by (simp add: agree_sym)
      then show False using that(3) self_match [OF wf refl] lt by blast
    qed
    have nk: "abit y n = ?b \<and> agree n ta y" if "agree k addr y" for y
    proof -
      have "abit y n = ?b" using that kn(1) \<open>n \<noteq> k\<close> by (simp add: agree_def)
      then show ?thesis using agree_trans [OF ag agree_mono [OF that kn(1)]] by blast
    qed
    have "\<not> trie_match_at t y" if "length y = 4" "agree k addr y" for y
      using m(1) [OF that(1)] nk [OF that(2)] none_t that by metis
    then have "\<forall>y. length y = 4 \<and> agree k addr y \<longrightarrow> \<not> trie_match_at t y" by blast
    note none = this
    have "trie_match_at t' x"
    proof (cases "t = Trie_null")
      case True
      then show ?thesis using new new_node_match [OF l kn(2) that(1)] that(2) by simp
    next
      case False
      show ?thesis by (rule insert_okD(7) [OF IH [OF False] False none that(1,2)])
    qed
    then show ?thesis using m(2) [OF that(1)] nk [OF that(2)] by simp
  qed
  have wt': "twf n t'" "t' \<noteq> Trie_null" "branch_ok n ta ?b t'"
  proof -
    have "branch_ok n ta ?b t" using wfD(5,6) by (cases ?b) (simp_all add: t child_def)
    moreover have "twf n (new_trie_node addr (pmask 4 k))" "branch_ok n ta ?b (new_trie_node addr (pmask 4 k))"
      using l kn ag by (auto simp: new_trie_node_def intro: twf_leaf)
    moreover have "new_trie_node addr (pmask 4 k) \<noteq> Trie_null" by (simp add: new_trie_node_def)
    ultimately show "twf n t'" "t' \<noteq> Trie_null" "branch_ok n ta ?b t'"
      using insert_okD(1-3) [OF IH] new by metis+
  qed
  have own: "own_branch ta t'" if "own_branch ta t"
  proof -
    have "t \<noteq> Trie_null" using that by auto
    then show ?thesis using insert_okD(4) [OF IH that] by blast
  qed
  have "twf d ?t'"
  proof (cases "d < n")
    case True
    have "own_branch ta (if abit ta n then if ?b then t' else t1 else if ?b then t0 else t')"
      using wfD(7) own by (cases "abit ta n"; cases ?b) (simp_all add: t child_def)
    then show ?thesis
      using True n lt wfD(3-6) wt' by (cases ?b) (auto simp: with_branch_def child_def intro!: twf_inner)
  next
    case False
    then have "t1 = Trie_true" "t0 = Trie_true" using wfD(8) by auto
    then have "?t' = ?t" using true by (cases ?b) (simp_all add: t child_def with_branch_def)
    then show ?thesis using wf by simp
  qed
  moreover have "branch_ok j a b ?t \<longrightarrow> branch_ok j a b ?t'" "own_branch a ?t \<longrightarrow> own_branch a ?t'"
      "?t' \<noteq> Trie_null" for j a b
    by (simp_all add: with_branch_def)
  moreover have "trie_match_at ?t' addr" using m(2) [OF l] self ag by simp
  ultimately show ?thesis
    unfolding insert_ok_def
  proof (intro conjI allI impI; (elim conjE)?)
    fix x :: "u32 list" assume x: "length x = 4"
    show "trie_match_at ?t' x" if "trie_match_at ?t x" using m [OF x] step(1) [OF x] that by simp
    show "trie_match_at ?t x \<or> agree k addr x" if "trie_match_at ?t' x"
      using m [OF x] step(2) [OF x] that by (cases "abit x n = ?b") simp_all
    show "trie_match_at ?t' x" if "agree k addr x" "\<forall>y. length y = 4 \<and> agree k addr y \<longrightarrow> \<not> trie_match_at ?t y"
      using full x that by blast
  qed simp_all
qed

lemma toward_child:
  assumes "branch_ok n a (abit addr n) t" "agree n a addr"
  shows "toward n t addr"
  using assms agree_trans agree_sym by (cases t) (auto simp: agree_def less_Suc_eq)

lemma trie_insert_at_ok:
  assumes "twf d t" "length addr = 4" "d \<le> k" "k \<le> 128" "toward d t addr"
  shows "insert_ok d t addr k (trie_insert_at t addr (pmask 4 k))"
  using assms
proof (induction t arbitrary: d rule: trie.induct)
  case (Trie_node ta tm t1 t0)
  obtain n where n: "tm = pmask 4 n" "n \<le> 128" using Trie_node.prems(1) by (auto elim: twf_nodeE')
  note wf = Trie_node.prems(1) [unfolded n(1)]
  note wfD = twf_nodeD [OF wf n(2)]
  obtain c where c: "common_len c ta addr" using common_len_exists by blast
  have to: "agree (Suc d) ta addr" using Trie_node.prems(5) by simp
  have leaf: "n = 128 \<longrightarrow> t1 = Trie_true \<and> t0 = Trie_true" using wfD(8) by auto
  note eq = insert_node [OF wfD(1) Trie_node.prems(2) n(2) Trie_node.prems(4) c leaf]
  consider "k < min c n" | "\<not> k < min c n" "c < n" | "\<not> k < min c n" "n \<le> c" "n < 128" | "n \<le> c" "n = 128" "\<not> k < min c n"
    using n(2) by linarith
  then show ?case
  proof cases
    case 1
    then show ?thesis
      using insert_supersede [OF wf Trie_node.prems(2,3) c 1 n(2)] by (simp add: n(1) eq)
  next
    case 2
    then show ?thesis
      using insert_divide [OF wf Trie_node.prems(2-4) c 2 n(2) to] by (simp add: n(1) eq)
  next
    case 3
    let ?t = "child (abit addr n) t1 t0"
    have ag: "agree n ta addr" using c 3(2) by (auto simp: common_len_def intro: agree_mono)
    have "branch_ok n ta (abit addr n) ?t" using wfD(5,6) by (cases "abit addr n") (simp_all add: child_def)
    then have tow: "toward n ?t addr" by (rule toward_child [OF _ ag])
    have "insert_ok n ?t addr k (trie_insert_at ?t addr (pmask 4 k))"
      using Trie_node.IH wfD(3,4) Trie_node.prems(2,4) 3 tow by (cases "abit addr n") (simp_all add: child_def)
    then show ?thesis
      using insert_descend [OF wf Trie_node.prems(2) _ Trie_node.prems(4) 3(3) ag refl,
          of "if ?t = Trie_null then new_trie_node addr (pmask 4 k) else trie_insert_at ?t addr (pmask 4 k)"] 3
      by (simp add: n(1) eq Let_def)
  next
    case 4
    have "agree 128 ta addr" using c 4 by (auto simp: common_len_def intro: agree_mono)
    then have "trie_match_at (Trie_node ta (pmask 4 128) t1 t0) addr"
      using match_node [OF wfD(1) Trie_node.prems(2)] by simp
    moreover have "trie_insert_at (Trie_node ta (pmask 4 n) t1 t0) addr (pmask 4 k) = Trie_node ta (pmask 4 n) t1 t0"
      unfolding eq if_not_P [OF 4(3)] if_P [OF 4(1)] Let_def if_P [OF 4(2)] ..
    ultimately show ?thesis using 4(2) wf Trie_node.prems(2)
      unfolding n(1) insert_ok_def by (auto intro!: exI [of _ addr])
  qed
qed (auto simp: insert_ok_def intro: twf_null twf_true)

section \<open>Socket addresses\<close>

text \<open>
  The families of \<open>struct sockaddr\<close> that the code distinguishes.  An IPv4 address is its value in
  host byte order, an IPv6 address its 16 bytes.
\<close>

datatype sockaddr = AF_INET u32 | AF_INET6 "u8 list" | AF_other

definition bytes_word :: "u8 list \<Rightarrow> nat \<Rightarrow> u32" where
  "bytes_word addr6 i =
     push_bit 24 (ucast (addr6 ! (i * 4))) + push_bit 16 (ucast (addr6 ! (i * 4 + 1))) +
     push_bit 8 (ucast (addr6 ! (i * 4 + 2))) + ucast (addr6 ! (i * 4 + 3))"

fun sockaddr_to_addr :: "sockaddr \<Rightarrow> u32 list option" where
  "sockaddr_to_addr (AF_INET a) = Some [0, 0, 0xffff, a]"
| "sockaddr_to_addr (AF_INET6 addr6) = Some (map (bytes_word addr6) [0 ..< 4])"
| "sockaddr_to_addr AF_other = None"

definition mask_words :: "nat \<Rightarrow> u32 list" where
  "mask_words bits =
     (let k = bits div 32
      in map (\<lambda>i. if i < k then 0xffffffff
                  else if i > k then 0
                  else push_bit (31 - bits mod 32) 0xfffffffe) [0 ..< 4])"

fun sockaddr_to_mask :: "sockaddr \<Rightarrow> int \<Rightarrow> u32 list option" where
  "sockaddr_to_mask (AF_INET a) bits = Some (mask_words (if bits \<ge> 0 then nat (bits + 96) else 128))"
| "sockaddr_to_mask (AF_INET6 addr6) bits = Some (mask_words (if bits \<ge> 0 then nat bits else 128))"
| "sockaddr_to_mask AF_other bits = (if bits \<ge> 0 then None else Some (mask_words 128))"

section \<open>The tree from its root\<close>

text \<open>
  \<open>_trie_insert\<close> asserts on entry that the first bits match.  The root has no address or mask of
  its own, so the first bit selects the branch.
\<close>

definition trie_insert_branch :: "trie \<Rightarrow> u32 list \<Rightarrow> u32 list \<Rightarrow> trie outcome" where
  "trie_insert_branch t addr msk =
     (if t = Trie_true \<or> (case t of Trie_node ta _ _ _ \<Rightarrow> (ta ! 0) XOR (addr ! 0) < 0x80000000 | _ \<Rightarrow> False)
      then Inr (trie_insert_at t addr msk) else Inl Assert_failed)"

fun trie_insert :: "trie \<Rightarrow> sockaddr \<Rightarrow> int \<Rightarrow> trie outcome" where
  "trie_insert (Trie_node ra rm r1 r0) sa bits =
     (case sockaddr_to_addr sa of
        None \<Rightarrow> Inr (Trie_node ra rm r1 r0)
      | Some addr \<Rightarrow>
          (case sockaddr_to_mask sa bits of
             None \<Rightarrow> Inr (Trie_node ra rm r1 r0)
           | Some msk \<Rightarrow>
               if 0x80000000 AND addr ! 0 \<noteq> 0
               then if r1 = Trie_null then Inr (Trie_node ra rm (new_trie_node addr msk) r0)
                    else map_sum id (\<lambda>t. Trie_node ra rm t r0) (trie_insert_branch r1 addr msk)
               else if r0 = Trie_null then Inr (Trie_node ra rm r1 (new_trie_node addr msk))
                    else map_sum id (\<lambda>t. Trie_node ra rm r1 t) (trie_insert_branch r0 addr msk)))"
| "trie_insert t sa bits = Inl Null_deref"

fun trie_match :: "trie \<Rightarrow> sockaddr \<Rightarrow> bool" where
  "trie_match (Trie_node ra rm r1 r0) sa =
     (case sockaddr_to_addr sa of
        None \<Rightarrow> False
      | Some addr \<Rightarrow> if 0x80000000 AND addr ! 0 \<noteq> 0 then trie_match_at r1 addr else trie_match_at r0 addr)"
| "trie_match t sa = False"

definition new_trie :: trie where
  "new_trie = Trie_node [0, 0, 0, 0] [0, 0, 0, 0] Trie_null Trie_null"

section \<open>Socket addresses as bit strings\<close>

fun sa_ok :: "sockaddr \<Rightarrow> bool" where
  "sa_ok (AF_INET6 addr6) \<longleftrightarrow> length addr6 = 16"
| "sa_ok _ \<longleftrightarrow> True"

definition sa_addr :: "sockaddr \<Rightarrow> u32 list" where
  "sa_addr sa = (case sockaddr_to_addr sa of Some a \<Rightarrow> a | None \<Rightarrow> [])"

text \<open>The number of leading bits that a netmask length selects, out of 128.\<close>

fun prefix_len :: "sockaddr \<Rightarrow> int \<Rightarrow> nat" where
  "prefix_len (AF_INET a) bits = (if bits \<ge> 0 then nat (bits + 96) else 128)"
| "prefix_len _ bits = (if bits \<ge> 0 then nat bits else 128)"

text \<open>A netmask length the code lets through for the family, and the addresses it then covers.\<close>

fun bits_ok_for :: "sockaddr \<Rightarrow> int \<Rightarrow> bool" where
  "bits_ok_for (AF_INET a) bits \<longleftrightarrow> bits \<le> 32"
| "bits_ok_for _ bits \<longleftrightarrow> bits \<le> 128"

definition covers :: "sockaddr \<Rightarrow> int \<Rightarrow> sockaddr \<Rightarrow> bool" where
  "covers sa bits x \<longleftrightarrow> sa \<noteq> AF_other \<and> x \<noteq> AF_other \<and> agree (prefix_len sa bits) (sa_addr sa) (sa_addr x)"

lemma sockaddr_to_addr_sa: "sa \<noteq> AF_other \<Longrightarrow> sockaddr_to_addr sa = Some (sa_addr sa)"
  by (cases sa) (simp_all add: sa_addr_def)

lemma length_sa_addr: "sa \<noteq> AF_other \<Longrightarrow> length (sa_addr sa) = 4"
  by (cases sa) (simp_all add: sa_addr_def)

lemma prefix_len_le: "bits_ok_for sa bits \<Longrightarrow> prefix_len sa bits \<le> 128"
  by (cases sa) auto

lemma mask_word:
  assumes "n < 32"
  shows "push_bit (31 - n) 0xfffffffe = wmask n"
proof -
  have "(0xfffffffe :: u32) = NOT 1" by simp
  then have "bit (push_bit (31 - n) 0xfffffffe :: u32) k \<longleftrightarrow> k < 32 \<and> 32 - n \<le> k" for k
    using assms by (simp only:) (auto simp: bit_simps bit_1_iff)
  then show ?thesis by (intro bit_word_eqI) (simp add: bit_wmask)
qed

lemma mask_words: "n \<le> 128 \<Longrightarrow> mask_words n = pmask 4 n"
proof -
  assume n: "n \<le> 128"
  define q r where "q = n div 32" and "r = n mod 32"
  have qr: "n = 32 * q + r" "r < 32" by (simp_all add: q_def r_def)
  have w: "(if i < q then 0xffffffff else if i > q then 0 else push_bit (31 - r) 0xfffffffe) = wmask (n - 32 * i)" for i
  proof -
    consider "i < q" | "i = q" | "q < i" by linarith
    then show ?thesis using qr by cases (auto simp: wmask_simps mask_word)
  qed
  have "mask_words n = map (\<lambda>i. wmask (n - 32 * i)) [0 ..< 4]"
    unfolding mask_words_def Let_def q_def [symmetric] r_def [symmetric] w ..
  then show ?thesis by (simp add: pmask_4 upt_rec)
qed

lemma sockaddr_to_mask_sa:
  assumes "sa \<noteq> AF_other" "bits_ok_for sa bits"
  shows "sockaddr_to_mask sa bits = Some (pmask 4 (prefix_len sa bits))"
  using assms by (cases sa) (auto simp: mask_words)

lemma abit_0: "length a = 4 \<Longrightarrow> 0x80000000 AND a ! 0 \<noteq> 0 \<longleftrightarrow> abit a 0"
proof -
  assume "length a = 4"
  then obtain w ws where a: "a = w # ws" by (cases a) auto
  have "0x80000000 AND w \<noteq> 0 \<longleftrightarrow> bit w 31" unfolding and_nonzero bit_top by auto
  then show ?thesis by (simp add: a)
qed

lemma less_top: "(w :: u32) < 0x80000000 \<longleftrightarrow> \<not> bit w 31"
proof -
  have "w < 0x80000000 \<longleftrightarrow> unat w < 2 ^ 31" by (simp add: word_less_nat_alt)
  moreover have "unat w < 2 ^ 31 \<longleftrightarrow> \<not> bit w 31"
  proof
    assume "\<not> bit w 31"
    then have "\<not> bit (unat w) 31" by (simp add: bit_unsigned_iff)
    then have even: "even (unat w div 2 ^ 31)" unfolding bit_iff_odd by simp
    have "unat w < 2 ^ 32" using unsigned_less [of w] by simp
    then have "unat w div 2 ^ 31 < 2" by (simp add: less_mult_imp_div_less)
    with even have "unat w div 2 ^ 31 = 0" by (auto simp: less_2_cases_iff)
    then show "unat w < 2 ^ 31" by (simp add: div_eq_0_iff)
  qed (use bit_unat_ge [of w 31] in auto)
  ultimately show ?thesis by simp
qed

section \<open>The tree of a set\<close>

fun under_root :: "bool \<Rightarrow> trie \<Rightarrow> bool" where
  "under_root b (Trie_node a m t1 t0) \<longleftrightarrow> abit a 0 = b"
| "under_root b t \<longleftrightarrow> t = Trie_null"

definition root_ok :: "trie \<Rightarrow> bool" where
  "root_ok t \<longleftrightarrow> (\<exists>ra rm r1 r0. t = Trie_node ra rm r1 r0 \<and> twf 0 r1 \<and> twf 0 r0 \<and>
     under_root True r1 \<and> under_root False r0)"

lemma new_trie_ok: "root_ok new_trie" "\<not> trie_match new_trie x"
  by (auto simp: root_ok_def new_trie_def intro: twf_null split: option.splits)

text \<open>One branch of the root.\<close>

definition insert_branch :: "trie \<Rightarrow> u32 list \<Rightarrow> u32 list \<Rightarrow> trie outcome" where
  "insert_branch t addr msk =
     (if t = Trie_null then Inr (new_trie_node addr msk) else trie_insert_branch t addr msk)"

lemma insert_is_node: "\<exists>m s1 s0. trie_insert_at (Trie_node ta tm t1 t0) addr msk = Trie_node ta m s1 s0"
  by (subst trie_insert_at.simps(3)) (auto simp del: trie_insert_at.simps simp: Let_def split: split_case.splits)

text \<open>The change of the set that a tree stands for, when a prefix is inserted.\<close>

definition adds :: "nat \<Rightarrow> u32 list \<Rightarrow> (u32 list \<Rightarrow> bool) \<Rightarrow> (u32 list \<Rightarrow> bool) \<Rightarrow> bool" where
  "adds k addr P Q \<longleftrightarrow>
     (\<forall>x. length x = 4 \<longrightarrow> (P x \<longrightarrow> Q x) \<and> (Q x \<longrightarrow> P x \<or> agree k addr x)) \<and> Q addr \<and>
     ((\<forall>y. length y = 4 \<and> agree k addr y \<longrightarrow> \<not> P y) \<longrightarrow> (\<forall>x. length x = 4 \<and> agree k addr x \<longrightarrow> Q x))"

lemma insert_ok_adds:
  "insert_ok d t addr k t' \<Longrightarrow> t \<noteq> Trie_null \<Longrightarrow> adds k addr (trie_match_at t) (trie_match_at t')"
  unfolding insert_ok_def adds_def by blast

lemma new_node_adds:
  assumes "length addr = 4" "k \<le> 128"
  shows "adds k addr (trie_match_at Trie_null) (trie_match_at (new_trie_node addr (pmask 4 k)))"
  unfolding adds_def using new_node_match [OF assms] assms(1) by simp

lemma insert_branch_ok:
  assumes "twf 0 t" "under_root b t" "length addr = 4" "abit addr 0 = b" "k \<le> 128"
  shows "\<exists>t'. insert_branch t addr (pmask 4 k) = Inr t' \<and> twf 0 t' \<and> under_root b t' \<and>
    adds k addr (trie_match_at t) (trie_match_at t')"
proof (cases t)
  case Trie_null
  have "twf 0 (new_trie_node addr (pmask 4 k))"
    unfolding new_trie_node_def by (rule twf_leaf) (use assms in auto)
  moreover have "under_root b (new_trie_node addr (pmask 4 k))" using assms(4) by (simp add: new_trie_node_def)
  ultimately show ?thesis
    using Trie_null new_node_adds [OF assms(3,5)] by (simp add: insert_branch_def)
next
  case Trie_true
  with assms(2) show ?thesis by simp
next
  case (Trie_node ta tm t1 t0)
  have l: "length ta = 4" using assms(1) unfolding Trie_node by (auto elim: twf_nodeE)
  have b: "abit ta 0 = abit addr 0" using assms(2,4) by (simp add: Trie_node)
  obtain v vs w ws where e: "ta = v # vs" "addr = w # ws"
    using l assms(3) by (metis length_0_conv neq_Nil_conv zero_neq_numeral)
  have "(ta ! 0) XOR (addr ! 0) < 0x80000000"
    unfolding less_top using b by (simp add: e bit_xor_iff)
  then have eq: "insert_branch t addr (pmask 4 k) = Inr (trie_insert_at t addr (pmask 4 k))"
    by (simp add: insert_branch_def trie_insert_branch_def Trie_node)
  have "toward 0 t addr" using b by (simp add: Trie_node agree_def)
  from trie_insert_at_ok [OF assms(1,3) _ assms(5) this]
  have ok: "insert_ok 0 t addr k (trie_insert_at t addr (pmask 4 k))" by simp
  obtain m s1 s0 where "trie_insert_at t addr (pmask 4 k) = Trie_node ta m s1 s0"
    using insert_is_node unfolding Trie_node by blast
  then have "under_root b (trie_insert_at t addr (pmask 4 k))" using assms(2) by (simp add: Trie_node)
  moreover have "adds k addr (trie_match_at t) (trie_match_at (trie_insert_at t addr (pmask 4 k)))"
    by (rule insert_ok_adds [OF ok]) (simp add: Trie_node)
  ultimately show ?thesis
    using eq insert_okD(1) [OF ok] by blast
qed

text \<open>An insertion at the root, and the set of addresses it gives.\<close>

definition adds_sa :: "sockaddr \<Rightarrow> int \<Rightarrow> (sockaddr \<Rightarrow> bool) \<Rightarrow> (sockaddr \<Rightarrow> bool) \<Rightarrow> bool" where
  "adds_sa sa bits P Q \<longleftrightarrow>
     (\<forall>x. sa_ok x \<longrightarrow> (P x \<longrightarrow> Q x) \<and> (Q x \<longrightarrow> P x \<or> covers sa bits x)) \<and> (sa \<noteq> AF_other \<longrightarrow> Q sa) \<and>
     (0 < prefix_len sa bits \<and> (\<forall>y. sa_ok y \<and> covers sa bits y \<longrightarrow> \<not> P y) \<longrightarrow>
        (\<forall>x. sa_ok x \<and> covers sa bits x \<longrightarrow> Q x))"

lemma trie_insert_eq:
  assumes "sa \<noteq> AF_other" "bits_ok_for sa bits"
  shows "trie_insert (Trie_node ra rm r1 r0) sa bits =
    (if abit (sa_addr sa) 0
     then map_sum id (\<lambda>t. Trie_node ra rm t r0) (insert_branch r1 (sa_addr sa) (pmask 4 (prefix_len sa bits)))
     else map_sum id (\<lambda>t. Trie_node ra rm r1 t) (insert_branch r0 (sa_addr sa) (pmask 4 (prefix_len sa bits))))"
  using abit_0 [OF length_sa_addr [OF assms(1)]] sockaddr_to_addr_sa [OF assms(1)] sockaddr_to_mask_sa [OF assms]
  by (simp add: insert_branch_def)

lemma trie_match_eq:
  assumes "x \<noteq> AF_other"
  shows "trie_match (Trie_node ra rm r1 r0) x \<longleftrightarrow>
    (if abit (sa_addr x) 0 then trie_match_at r1 (sa_addr x) else trie_match_at r0 (sa_addr x))"
  using abit_0 [OF length_sa_addr [OF assms]] sockaddr_to_addr_sa [OF assms] by simp

text \<open>Every 128-bit string is the address of an IPv6 socket address.\<close>

lemma word_of_bytes:
  "push_bit 24 (ucast (ucast (drop_bit 24 w) :: u8)) + push_bit 16 (ucast (ucast (drop_bit 16 w) :: u8)) +
     push_bit 8 (ucast (ucast (drop_bit 8 w) :: u8)) + ucast (ucast w :: u8) = (w :: u32)"
proof -
  let ?a = "push_bit 24 (ucast (ucast (drop_bit 24 w) :: u8)) :: u32"
    and ?b = "push_bit 16 (ucast (ucast (drop_bit 16 w) :: u8)) :: u32"
    and ?c = "push_bit 8 (ucast (ucast (drop_bit 8 w) :: u8)) :: u32" and ?d = "ucast (ucast w :: u8) :: u32"
  have bits: "bit ?a k \<longleftrightarrow> 24 \<le> k \<and> bit w k" "bit ?b k \<longleftrightarrow> 16 \<le> k \<and> k < 24 \<and> bit w k"
    "bit ?c k \<longleftrightarrow> 8 \<le> k \<and> k < 16 \<and> bit w k" "bit ?d k \<longleftrightarrow> k < 8 \<and> bit w k" for k
    by (auto simp: bit_simps dest: bit_imp_le_length)
  have "?a + ?b = ?a OR ?b" by (rule disjunctive_add) (auto simp: bits)
  moreover have "(?a OR ?b) + ?c = (?a OR ?b) OR ?c" by (rule disjunctive_add) (auto simp: bits bit_or_iff)
  moreover have "((?a OR ?b) OR ?c) + ?d = ((?a OR ?b) OR ?c) OR ?d"
    by (rule disjunctive_add) (auto simp: bits bit_or_iff)
  moreover have "((?a OR ?b) OR ?c) OR ?d = w"
    by (rule bit_word_eqI) (auto simp: bits bit_or_iff)
  ultimately show ?thesis by simp
qed

definition word_bytes :: "u32 \<Rightarrow> u8 list" where
  "word_bytes w = [ucast (drop_bit 24 w), ucast (drop_bit 16 w), ucast (drop_bit 8 w), ucast w]"

lemma ipv6_address:
  assumes "length a = 4"
  shows "\<exists>sa. sa_ok sa \<and> sa \<noteq> AF_other \<and> sa_addr sa = a"
proof -
  obtain w0 w1 w2 w3 where a: "a = [w0, w1, w2, w3]"
    using assms by (auto simp: numeral_eq_Suc length_Suc_conv)
  let ?sa = "AF_INET6 (concat (map word_bytes a))"
  have "sa_addr ?sa = a"
    by (simp add: a sa_addr_def word_bytes_def bytes_word_def upt_rec word_of_bytes)
  moreover have "sa_ok ?sa" by (simp add: a word_bytes_def)
  ultimately show ?thesis by (intro exI [of _ ?sa]) simp
qed

lemma adds_branch:
  assumes sa: "sa \<noteq> AF_other" "sa_ok sa" and k: "k = prefix_len sa bits"
    and b: "adds k (sa_addr sa) (trie_match_at u) (trie_match_at u')"
    and P: "\<And>x. x \<noteq> AF_other \<Longrightarrow> P x \<longleftrightarrow>
      (if abit (sa_addr x) 0 = abit (sa_addr sa) 0 then trie_match_at u (sa_addr x) else R x)"
    and Q: "\<And>x. x \<noteq> AF_other \<Longrightarrow> Q x \<longleftrightarrow>
      (if abit (sa_addr x) 0 = abit (sa_addr sa) 0 then trie_match_at u' (sa_addr x) else R x)"
    and other: "\<not> P AF_other" "\<not> Q AF_other"
  shows "adds_sa sa bits P Q"
proof -
  note D = b [unfolded adds_def]
  have same: "abit (sa_addr x) 0 = abit (sa_addr sa) 0" if "agree k (sa_addr sa) (sa_addr x)" "0 < k" for x
    using that by (auto simp: agree_def)
  have "(P x \<longrightarrow> Q x) \<and> (Q x \<longrightarrow> P x \<or> covers sa bits x)" for x
  proof (cases "x = AF_other")
    case False
    then have "length (sa_addr x) = 4" by (rule length_sa_addr)
    then show ?thesis
      using D [THEN conjunct1, rule_format, of "sa_addr x"] P [OF False] Q [OF False] False sa(1) k
      by (cases "abit (sa_addr x) 0 = abit (sa_addr sa) 0") (simp_all add: covers_def)
  qed (simp add: other)
  moreover have "Q sa" using D Q [OF sa(1)] by simp
  moreover have "Q x" if "0 < k" and none: "\<forall>y. sa_ok y \<and> covers sa bits y \<longrightarrow> \<not> P y"
      and x: "sa_ok x" "covers sa bits x" for x
  proof -
    have x': "x \<noteq> AF_other" "agree k (sa_addr sa) (sa_addr x)" using x(2) k by (simp_all add: covers_def)
    have "\<not> trie_match_at u y" if y: "length y = 4" "agree k (sa_addr sa) y" for y
    proof -
      obtain ya where ya: "sa_ok ya" "ya \<noteq> AF_other" "sa_addr ya = y" using ipv6_address [OF y(1)] by blast
      then have "\<not> P ya" using none y(2) sa(1) k by (simp add: covers_def)
      then show ?thesis using P [OF ya(2)] same [of ya] y(2) ya(3) \<open>0 < k\<close> by simp
    qed
    then have "trie_match_at u' (sa_addr x)" using D x'(2) length_sa_addr [OF x'(1)] by blast
    then show ?thesis using Q [OF x'(1)] same [OF x'(2) \<open>0 < k\<close>] by simp
  qed
  ultimately show ?thesis unfolding adds_sa_def k by blast
qed

lemma trie_insert_ok:
  assumes "root_ok t" "sa_ok sa" "bits_ok_for sa bits"
  shows "\<exists>t'. trie_insert t sa bits = Inr t' \<and> root_ok t' \<and> adds_sa sa bits (trie_match t) (trie_match t')"
proof -
  obtain ra rm r1 r0 where t: "t = Trie_node ra rm r1 r0" "twf 0 r1" "twf 0 r0"
      "under_root True r1" "under_root False r0"
    using assms(1) by (auto simp: root_ok_def)
  show ?thesis
  proof (cases "sa = AF_other")
    case True
    then have "trie_insert t sa bits = Inr t" "adds_sa sa bits (trie_match t) (trie_match t)"
      by (simp_all add: t(1) adds_sa_def covers_def)
    then show ?thesis using assms(1) by blast
  next
    case False
    let ?k = "prefix_len sa bits" and ?a = "sa_addr sa"
    have l: "length ?a = 4" by (rule length_sa_addr [OF False])
    note k = prefix_len_le [OF assms(3)]
    have eq: "trie_match (Trie_node ra rm q1 q0) x \<longleftrightarrow>
        (if abit (sa_addr x) 0 then trie_match_at q1 (sa_addr x) else trie_match_at q0 (sa_addr x))"
      if "x \<noteq> AF_other" for q1 q0 x by (rule trie_match_eq [OF that])
    show ?thesis
    proof (cases "abit ?a 0")
      case True
      obtain u where u: "insert_branch r1 ?a (pmask 4 ?k) = Inr u" "twf 0 u" "under_root True u"
          "adds ?k ?a (trie_match_at r1) (trie_match_at u)"
        using insert_branch_ok [OF t(2,4) l _ k] True by auto
      have "adds_sa sa bits (trie_match (Trie_node ra rm r1 r0)) (trie_match (Trie_node ra rm u r0))"
        by (rule adds_branch [OF False assms(2) refl u(4), where R = "\<lambda>x. trie_match_at r0 (sa_addr x)"])
          (simp_all add: eq True del: trie_match.simps, simp_all)
      then show ?thesis
        using u t True by (intro exI [of _ "Trie_node ra rm u r0"])
          (simp add: trie_insert_eq [OF False assms(3)] root_ok_def del: trie_insert.simps trie_match.simps)
    next
      case F: False
      obtain u where u: "insert_branch r0 ?a (pmask 4 ?k) = Inr u" "twf 0 u" "under_root False u"
          "adds ?k ?a (trie_match_at r0) (trie_match_at u)"
        using insert_branch_ok [OF t(3,5) l _ k] F by auto
      have "adds_sa sa bits (trie_match (Trie_node ra rm r1 r0)) (trie_match (Trie_node ra rm r1 u))"
        by (rule adds_branch [OF False assms(2) refl u(4), where R = "\<lambda>x. trie_match_at r1 (sa_addr x)"])
          (simp_all add: eq F del: trie_match.simps, simp_all)
      then show ?thesis
        using u t F by (intro exI [of _ "Trie_node ra rm r1 u"])
          (simp add: trie_insert_eq [OF False assms(3)] root_ok_def del: trie_insert.simps trie_match.simps)
    qed
  qed
qed

end
