(* ===== verification/Addrset.thy ===== *)
theory Addrset
  imports Addr_Trie Octet_Set
begin

text \<open>
  The interface of nbase/nbase_addrset.c: creation, release, adding of host specifications and of
  files of them, and the membership test that ncat's access lists use.  Name resolution
  (\<open>getaddrinfo\<close>) is a parameter; log output is not modelled.
\<close>

unbundle bit_operations_syntax

section \<open>Release of a tree\<close>

definition live :: "trie \<Rightarrow> bool" where
  "live t \<longleftrightarrow> t \<noteq> Trie_null \<and> t \<noteq> Trie_true"

text \<open>
  The loop of \<open>trie_free\<close>.  The list \<open>stk\<close> holds \<open>stack[1 .. i - 1]\<close>, its top first;
  \<open>stack[0]\<close> is null and ends the loop.  The result lists the nodes given to \<open>free\<close>.
\<close>

function trie_free_loop :: "trie list \<Rightarrow> trie \<Rightarrow> trie list \<Rightarrow> trie list outcome" where
  "trie_free_loop stk cur freed =
     (case cur of
        Trie_node a m next_one next_zero \<Rightarrow>
          if live next_one \<and> \<not> length stk + 1 < 128 + 4 then Inl Out_of_bounds
          else let stk' = (if live next_one then next_one # stk else stk)
               in if live next_zero then trie_free_loop stk' next_zero freed
                  else (case stk' of
                          [] \<Rightarrow> Inr (freed @ [cur])
                        | c # s \<Rightarrow> trie_free_loop s c (freed @ [cur]))
      | _ \<Rightarrow> Inr freed)"
  by pat_completeness auto
termination
  by (relation "measure (\<lambda>(stk, cur, freed). sum_list (map size stk) + size cur)")
    (auto split: if_splits)

declare trie_free_loop.simps [simp del]

definition trie_free :: "trie \<Rightarrow> trie list outcome" where
  "trie_free t = trie_free_loop [] t []"

section \<open>Sets of addresses\<close>

record addrset =
  head :: "octet_bitvector list list"
  trie_of :: trie

definition addrset_new :: addrset where
  "addrset_new = \<lparr>head = [], trie_of = new_trie\<rparr>"

definition addrset_free :: "addrset \<Rightarrow> (octet_bitvector list list \<times> trie list) outcome" where
  "addrset_free aset = map_sum id (Pair (head aset)) (trie_free (trie_of aset))"

text \<open>
  \<open>getaddrinfo\<close> on a name, with whether \<open>AI_NUMERICHOST\<close> is aset and the address family of the
  hints (0 is \<open>AF_UNSPEC\<close>): its return code and the list of addresses.
\<close>

type_synonym gai = "cstr \<Rightarrow> bool \<Rightarrow> int \<Rightarrow> int \<times> sockaddr list"

definition resolve_name :: "gai \<Rightarrow> cstr \<Rightarrow> int \<Rightarrow> bool \<Rightarrow> int \<times> sockaddr list" where
  "resolve_name gai nm af use_dns =
     (case gai nm True 0 of (rc, result) \<Rightarrow>
        if rc = 0 \<or> \<not> use_dns then (rc, result) else gai nm False af)"

text \<open>A loop over a list whose body may return from the function.\<close>

fun walk :: "('s \<Rightarrow> 'p \<Rightarrow> ('s \<times> bool) outcome) \<Rightarrow> 's \<Rightarrow> 'p list \<Rightarrow> ('s \<times> bool) outcome" where
  "walk step s [] = Inr (s, True)"
| "walk step s (p # ps) =
     (case step s p of
        Inl e \<Rightarrow> Inl e
      | Inr (s', cont) \<Rightarrow> if cont then walk step s' ps else Inr (s', False))"

text \<open>The bodies of the two loops of \<open>addrset_add_spec\<close> over resolved addresses.\<close>

fun illegal_netmask :: "sockaddr \<Rightarrow> int \<Rightarrow> bool" where
  "illegal_netmask (AF_INET a) bits \<longleftrightarrow> bits > 32"
| "illegal_netmask (AF_INET6 a) bits \<longleftrightarrow> bits > 128"
| "illegal_netmask AF_other bits \<longleftrightarrow> False"

definition add_numeric :: "int \<Rightarrow> trie \<Rightarrow> sockaddr \<Rightarrow> (trie \<times> bool) outcome" where
  "add_numeric netmask_bits t addr =
     (if illegal_netmask addr netmask_bits then Inr (t, False)
      else map_sum id (\<lambda>t'. (t', True)) (trie_insert t addr netmask_bits))"

definition add_resolved :: "int \<Rightarrow> trie \<Rightarrow> sockaddr \<Rightarrow> (trie \<times> bool) outcome" where
  "add_resolved netmask_bits t addr =
     (if illegal_netmask addr netmask_bits then Inr (t, False)
      else if addr = AF_other then Inr (t, True)
      else map_sum id (\<lambda>t'. (t', True)) (trie_insert t addr netmask_bits))"

text \<open>Splitting \<open>name/bits\<close>: the name and the netmask, or a syntax error.\<close>

definition split_netmask :: "cstr \<Rightarrow> (cstr \<times> int) option" where
  "split_netmask spec =
     (case strchr spec CHR ''/'' of
        None \<Rightarrow> Some (spec, -1)
      | Some slash \<Rightarrow>
          (case parse_long (tl slash) of (netmask_bits, err, tail) \<Rightarrow>
             if err \<or> tail \<noteq> [] \<or> tail = tl slash then None
             else Some (span spec slash, netmask_bits)))"

definition with_trie :: "addrset \<Rightarrow> (trie \<times> bool) outcome \<Rightarrow> (addrset \<times> bool) outcome" where
  "with_trie aset r = map_sum id (map_prod (\<lambda>t. aset\<lparr>trie_of := t\<rparr>) id) r"

definition addrset_add_spec :: "gai \<Rightarrow> addrset \<Rightarrow> cstr \<Rightarrow> int \<Rightarrow> bool \<Rightarrow> (addrset \<times> bool) outcome" where
  "addrset_add_spec gai aset spec af dns =
     (case split_netmask spec of
        None \<Rightarrow> Inr (aset, False)
      | Some (local_spec, netmask_bits) \<Rightarrow>
          (case resolve_name gai local_spec af False of (rc, addrs) \<Rightarrow>
             if rc = 0 \<and> addrs \<noteq> []
             then with_trie aset (walk (add_numeric netmask_bits) (trie_of aset) addrs)
             else
               (case parse_ipv4_ranges (replicate 4 zero_bits) local_spec of
                  Some elem \<Rightarrow>
                    if netmask_bits > 32 then Inr (aset, False)
                    else Inr (aset\<lparr>head := apply_ipv4_netmask_bits elem netmask_bits # head aset\<rparr>, True)
                | None \<Rightarrow>
                    (case resolve_name gai local_spec af dns of (rc, addrs) \<Rightarrow>
                       if rc \<noteq> 0 then Inr (aset, False)
                       else with_trie aset (walk (add_resolved netmask_bits) (trie_of aset) addrs)))))"

text \<open>
  \<open>addrset_add_file\<close> on the remaining bytes of the file: skip white space, collect a word into
  the buffer of 1024 bytes, and add it as a C string.
\<close>

function addrset_add_file :: "gai \<Rightarrow> addrset \<Rightarrow> cstr \<Rightarrow> int \<Rightarrow> bool \<Rightarrow> (addrset \<times> bool) outcome" where
  "addrset_add_file gai aset fd af dns =
     (case dropWhile is_space fd of
        [] \<Rightarrow> Inr (aset, True)
      | c # cs \<Rightarrow>
          let word = takeWhile (Not \<circ> is_space) (c # cs); rest = dropWhile (Not \<circ> is_space) (c # cs)
          in if length word > 1024 - 1 then Inr (aset, False)
             else (case addrset_add_spec gai aset (takeWhile (\<lambda>c. c \<noteq> NUL) word) af dns of
                     Inl e \<Rightarrow> Inl e
                   | Inr (aset', ok) \<Rightarrow>
                       if \<not> ok then Inr (aset', False) else addrset_add_file gai aset' (tl rest) af dns))"
  by pat_completeness auto
termination
proof (relation "measure (\<lambda>(gai, aset, fd, af, dns). length fd)", simp)
  fix gai :: gai and aset :: addrset and fd af dns and c :: char and cs word rest
  fix x1 x2 and y :: "addrset \<times> bool" and aset' ok
  assume d: "dropWhile is_space fd = c # cs" and r: "rest = dropWhile (Not \<circ> is_space) (c # cs)"
  have "\<not> is_space c" using d by (rule dropWhile_hd_not)
  then have "rest = dropWhile (Not \<circ> is_space) cs" by (simp add: r)
  then have "length rest \<le> length cs" by simp
  moreover have "length (c # cs) \<le> length fd" using d by (metis length_dropWhile_le)
  ultimately show "((gai, aset', tl rest, af, dns), gai, aset, fd, af, dns)
      \<in> measure (\<lambda>(gai, aset, fd, af, dns). length fd)"
    by simp
qed

declare addrset_add_file.simps [simp del]

definition addrset_elem_match :: "octet_bitvector list \<Rightarrow> sockaddr \<Rightarrow> bool" where
  "addrset_elem_match elem sa = (case sa of AF_INET a \<Rightarrow> match_ipv4_bits elem a | _ \<Rightarrow> False)"

definition addrset_contains :: "addrset \<Rightarrow> sockaddr \<Rightarrow> bool" where
  "addrset_contains aset sa =
     (if trie_match (trie_of aset) sa then True
      else (case sa of AF_INET a \<Rightarrow> list_ex (\<lambda>elem. addrset_elem_match elem sa) (head aset) | _ \<Rightarrow> False))"

section \<open>The stack of \<open>trie_free\<close> is large enough\<close>

fun nodes :: "trie \<Rightarrow> trie list" where
  "nodes (Trie_node a m t1 t0) = Trie_node a m t1 t0 # nodes t1 @ nodes t0"
| "nodes _ = []"

text \<open>The nodes that the loop frees: those whose branch for a zero bit leads to no further node.\<close>

fun freed_node :: "trie \<Rightarrow> bool" where
  "freed_node (Trie_node a m t1 t0) \<longleftrightarrow> \<not> live t0"
| "freed_node _ \<longleftrightarrow> False"

text \<open>The number of stack slots that a subtree takes.\<close>

fun need :: "trie \<Rightarrow> nat" where
  "need (Trie_node a m t1 t0) = max ((if live t1 then 1 else 0) + need t0) (need t1)"
| "need _ = 0"

fun stack_ok :: "trie list \<Rightarrow> bool" where
  "stack_ok [] \<longleftrightarrow> True"
| "stack_ok (t # ts) \<longleftrightarrow> live t \<and> length ts + need t \<le> 131 \<and> stack_ok ts"

lemma nodes_dead: "\<not> live t \<Longrightarrow> nodes t = []"
  by (cases t) (auto simp: live_def)

lemma live_node [simp]: "live (Trie_node a m t1 t0)"
  by (simp add: live_def)

lemma trie_free_loop_ok:
  "length stk + need cur \<le> 131 \<Longrightarrow> stack_ok stk \<Longrightarrow> live cur \<Longrightarrow>
     \<exists>fs. trie_free_loop stk cur freed = Inr (freed @ fs) \<and>
       mset fs = mset (filter freed_node (nodes cur @ concat (map nodes stk)))"
proof (induction stk cur freed rule: trie_free_loop.induct)
  case (1 stk cur freed)
  obtain a m t1 t0 where cur: "cur = Trie_node a m t1 t0"
    using "1.prems"(3) by (cases cur) (auto simp: live_def)
  let ?stk = "if live t1 then t1 # stk else stk"
  have room: "\<not> (live t1 \<and> \<not> length stk + 1 < 128 + 4)" using "1.prems"(1) by (auto simp: cur)
  have stk: "stack_ok ?stk" using "1.prems" by (auto simp: cur)
  note unf = trie_free_loop.simps [of stk cur freed, unfolded cur, simplified if_not_P [OF room] Let_def trie.case]
  show ?case
  proof (cases "live t0")
    case True
    have "length ?stk + need t0 \<le> 131" using "1.prems"(1) by (auto simp: cur)
    then obtain fs where "trie_free_loop ?stk t0 freed = Inr (freed @ fs)"
        "mset fs = mset (filter freed_node (nodes t0 @ concat (map nodes ?stk)))"
      using "1.IH"(1) [OF cur room refl True _ stk True] by blast
    then show ?thesis using True by (auto simp: cur unf nodes_dead)
  next
    case False
    show ?thesis
    proof (cases ?stk)
      case Nil
      then show ?thesis using False by (auto simp: cur unf nodes_dead split: if_splits)
    next
      case (Cons c s)
      have "length s + need c \<le> 131" "stack_ok s" "live c" using stk unfolding Cons by auto
      then obtain fs where fs: "trie_free_loop s c (freed @ [cur]) = Inr ((freed @ [cur]) @ fs)"
          "mset fs = mset (filter freed_node (nodes c @ concat (map nodes s)))"
        using "1.IH"(2) [OF cur room refl False Cons] by blast
      have "nodes cur @ concat (map nodes stk) = cur # concat (map nodes ?stk)"
        using False by (auto simp: cur nodes_dead)
      then show ?thesis using fs False Cons unf by (auto simp: cur intro!: exI [of _ "cur # fs"])
    qed
  qed
qed

lemma need_twf: "twf d t \<Longrightarrow> d \<le> 128 \<Longrightarrow> need t \<le> 128 - d"
  by (induction rule: twf.induct) (auto simp: live_def)

lemma trie_free_ok:
  assumes "root_ok t"
  shows "\<exists>fs. trie_free t = Inr fs \<and> mset fs = mset (filter freed_node (nodes t))"
proof -
  obtain ra rm r1 r0 where t: "t = Trie_node ra rm r1 r0" "twf 0 r1" "twf 0 r0"
    using assms by (auto simp: root_ok_def)
  have "need r1 \<le> 128" "need r0 \<le> 128" using need_twf [OF t(2)] need_twf [OF t(3)] by simp_all
  then have "length [] + need t \<le> 131" by (auto simp: t(1))
  from trie_free_loop_ok [OF this, of "[]"] show ?thesis by (simp add: trie_free_def t(1))
qed

section \<open>Sets that only grow\<close>

text \<open>
  The contract of a step that adds an item to a set: it does not fail, keeps the invariant,
  loses no member, and adds no member that the item does not account for.
\<close>

definition grows :: "('a \<Rightarrow> bool) \<Rightarrow> ('a \<Rightarrow> bool) \<Rightarrow> ('a \<Rightarrow> bool) \<Rightarrow> ('a \<Rightarrow> bool) \<Rightarrow> bool" where
  "grows elig P Q C \<longleftrightarrow> (\<forall>x. elig x \<longrightarrow> (P x \<longrightarrow> Q x) \<and> (Q x \<longrightarrow> P x \<or> C x))"

lemma grows_refl: "grows elig P P C"
  by (simp add: grows_def)

lemma grows_trans: "grows elig P Q C \<Longrightarrow> grows elig Q R D \<Longrightarrow> grows elig P R (\<lambda>x. C x \<or> D x)"
  by (auto simp: grows_def)

lemma grows_weaken: "grows elig P Q C \<Longrightarrow> (\<And>x. elig x \<Longrightarrow> C x \<Longrightarrow> D x) \<Longrightarrow> grows elig P Q D"
  by (auto simp: grows_def)

locale growing_set =
  fixes inv :: "'s \<Rightarrow> bool" and item_ok :: "'p \<Rightarrow> bool" and elig :: "'a \<Rightarrow> bool"
    and mem :: "'s \<Rightarrow> 'a \<Rightarrow> bool" and cov :: "'p \<Rightarrow> 'a \<Rightarrow> bool"
    and step :: "'s \<Rightarrow> 'p \<Rightarrow> ('s \<times> bool) outcome"
  assumes step_ok: "inv s \<Longrightarrow> item_ok p \<Longrightarrow>
    \<exists>s' cont. step s p = Inr (s', cont) \<and> inv s' \<and> grows elig (mem s) (mem s') (cov p)"
begin

lemma walk_grows:
  "inv s \<Longrightarrow> \<forall>p \<in> set ps. item_ok p \<Longrightarrow>
     \<exists>s' ok. walk step s ps = Inr (s', ok) \<and> inv s' \<and>
       grows elig (mem s) (mem s') (\<lambda>x. \<exists>p \<in> set ps. cov p x)"
proof (induction ps arbitrary: s)
  case Nil
  then show ?case by (intro exI [of _ s] exI [of _ True]) (simp add: grows_refl)
next
  case (Cons p ps)
  obtain s' cont where s': "step s p = Inr (s', cont)" "inv s'" "grows elig (mem s) (mem s') (cov p)"
    using step_ok [OF Cons.prems(1), of p] Cons.prems(2) by auto
  show ?case
  proof (cases cont)
    case False
    then show ?thesis using s' by (auto intro: grows_weaken)
  next
    case True
    obtain s'' ok where "walk step s' ps = Inr (s'', ok)" "inv s''"
        "grows elig (mem s') (mem s'') (\<lambda>x. \<exists>p \<in> set ps. cov p x)"
      using Cons.IH [OF s'(2)] Cons.prems(2) by auto
    then show ?thesis
      using True s'(1) grows_trans [OF s'(3)] by (auto elim: grows_weaken)
  qed
qed

end

section \<open>The tree of a set of addresses grows\<close>

lemma trie_insert_grows:
  assumes "root_ok t" "sa_ok sa" "\<not> illegal_netmask sa bits" "bits \<le> 128"
  shows "\<exists>t'. trie_insert t sa bits = Inr t' \<and> root_ok t' \<and>
    grows sa_ok (trie_match t) (trie_match t') (covers sa bits)"
proof -
  have "bits_ok_for sa bits" using assms(3,4) by (cases sa) auto
  from trie_insert_ok [OF assms(1,2) this] show ?thesis
    by (auto simp: adds_sa_def grows_def)
qed

lemma trie_insert_other: "root_ok t \<Longrightarrow> trie_insert t AF_other bits = Inr t"
  by (auto simp: root_ok_def)

lemma add_step_ok:
  assumes "root_ok t" "sa_ok sa"
  shows "\<exists>t' cont. add_numeric bits t sa = Inr (t', cont) \<and> root_ok t' \<and>
      grows sa_ok (trie_match t) (trie_match t') (covers sa bits)"
    and "\<exists>t' cont. add_resolved bits t sa = Inr (t', cont) \<and> root_ok t' \<and>
      grows sa_ok (trie_match t) (trie_match t') (covers sa bits)"
proof -
  consider "illegal_netmask sa bits" | "sa = AF_other" | "sa \<noteq> AF_other" "\<not> illegal_netmask sa bits" by blast
  then have "(\<exists>t' cont. add_numeric bits t sa = Inr (t', cont) \<and> root_ok t' \<and>
      grows sa_ok (trie_match t) (trie_match t') (covers sa bits)) \<and>
    (\<exists>t' cont. add_resolved bits t sa = Inr (t', cont) \<and> root_ok t' \<and>
      grows sa_ok (trie_match t) (trie_match t') (covers sa bits))"
  proof cases
    case 1
    then show ?thesis using assms(1)
      by (intro conjI exI [of _ t] exI [of _ False]) (simp_all add: add_numeric_def add_resolved_def grows_refl)
  next
    case 2
    then show ?thesis using assms(1) trie_insert_other [OF assms(1)]
      by (intro conjI exI [of _ t] exI [of _ True]) (simp_all add: add_numeric_def add_resolved_def grows_refl)
  next
    case 3
    then have "bits \<le> 128" by (cases sa) auto
    from trie_insert_grows [OF assms 3(2) this] 3 show ?thesis
      by (auto simp: add_numeric_def add_resolved_def)
  qed
  then show "\<exists>t' cont. add_numeric bits t sa = Inr (t', cont) \<and> root_ok t' \<and>
      grows sa_ok (trie_match t) (trie_match t') (covers sa bits)"
    "\<exists>t' cont. add_resolved bits t sa = Inr (t', cont) \<and> root_ok t' \<and>
      grows sa_ok (trie_match t) (trie_match t') (covers sa bits)" by blast+
qed

interpretation numeric: growing_set root_ok sa_ok sa_ok trie_match "\<lambda>sa. covers sa bits" "add_numeric bits"
  for bits :: int
  by unfold_locales (rule add_step_ok(1))

interpretation resolved: growing_set root_ok sa_ok sa_ok trie_match "\<lambda>sa. covers sa bits" "add_resolved bits"
  for bits :: int
  by unfold_locales (rule add_step_ok(2))

section \<open>Adding a specification\<close>

definition addrset_ok :: "addrset \<Rightarrow> bool" where
  "addrset_ok aset \<longleftrightarrow> root_ok (trie_of aset) \<and> (\<forall>elem \<in> set (head aset). elem_ok elem)"

definition resolver_ok :: "gai \<Rightarrow> bool" where
  "resolver_ok gai \<longleftrightarrow> (\<forall>nm num af rc sas. gai nm num af = (rc, sas) \<longrightarrow> (\<forall>sa \<in> set sas. sa_ok sa))"

text \<open>
  What a specification accounts for: an address under the netmask of an address that its name
  resolves to, or an IPv4 address under the netmask of one in its ranges.
\<close>

definition spec_covers :: "gai \<Rightarrow> int \<Rightarrow> bool \<Rightarrow> cstr \<Rightarrow> sockaddr \<Rightarrow> bool" where
  "spec_covers gai af dns spec x \<longleftrightarrow>
     (\<exists>nm bits. split_netmask spec = Some (nm, bits) \<and>
        ((\<exists>sa \<in> set (snd (resolve_name gai nm af False)) \<union> set (snd (resolve_name gai nm af dns)). covers sa bits x) \<or>
         (\<exists>elem a b. parse_ipv4_ranges (replicate 4 zero_bits) nm = Some elem \<and> x = AF_INET a \<and>
            match_ipv4_bits elem b \<and> (if bits < 0 then a = b else same_prefix (nat bits) a b))))"

lemma contains_iff:
  "addrset_contains aset x \<longleftrightarrow>
     trie_match (trie_of aset) x \<or> (\<exists>elem \<in> set (head aset). addrset_elem_match elem x)"
  by (auto simp: addrset_contains_def addrset_elem_match_def list_ex_iff split: sockaddr.splits)

lemma resolver_sa_ok:
  assumes "resolver_ok gai" "resolve_name gai nm af dns = (rc, sas)" "sa \<in> set sas"
  shows "sa_ok sa"
proof -
  obtain rc1 s1 where 1: "gai nm True 0 = (rc1, s1)" by (cases "gai nm True 0")
  obtain rc2 s2 where 2: "gai nm False af = (rc2, s2)" by (cases "gai nm False af")
  have "sas = s1 \<or> sas = s2" using assms(2) by (auto simp: resolve_name_def 1 2 split: if_splits)
  then show ?thesis using assms(1,3) 1 2 unfolding resolver_ok_def by blast
qed

lemma split_netmask_bits: "split_netmask spec = Some (nm, bits) \<Longrightarrow> bits = -1 \<or> 0 \<le> bits"
  by (auto simp: split_netmask_def Let_def split: option.splits prod.splits if_splits dest: parse_long_nonneg)

lemma with_trie_walk:
  assumes "\<exists>t ok. walk step (trie_of aset) sas = Inr (t, ok) \<and> root_ok t \<and> grows sa_ok (trie_match (trie_of aset)) (trie_match t) C"
    and "addrset_ok aset"
  shows "\<exists>aset' ok. with_trie aset (walk step (trie_of aset) sas) = Inr (aset', ok) \<and> addrset_ok aset' \<and>
    grows sa_ok (addrset_contains aset) (addrset_contains aset') C"
proof -
  obtain t ok where t: "walk step (trie_of aset) sas = Inr (t, ok)" "root_ok t"
      "grows sa_ok (trie_match (trie_of aset)) (trie_match t) C"
    using assms(1) by blast
  have "grows sa_ok (addrset_contains aset) (addrset_contains (aset\<lparr>trie_of := t\<rparr>)) C"
    using t(3) by (auto simp: grows_def contains_iff)
  then show ?thesis
    using t(1,2) assms(2) by (auto simp: with_trie_def addrset_ok_def)
qed

lemma add_range_ok:
  assumes ok: "addrset_ok aset" and elem: "elem_ok elem" and bits: "bits \<le> 32"
  shows "addrset_ok (aset\<lparr>head := apply_ipv4_netmask_bits elem bits # head aset\<rparr>)"
    "addrset_contains (aset\<lparr>head := apply_ipv4_netmask_bits elem bits # head aset\<rparr>) x \<longleftrightarrow>
      addrset_contains aset x \<or>
      (\<exists>a b. x = AF_INET a \<and> match_ipv4_bits elem b \<and> (if bits < 0 then a = b else same_prefix (nat bits) a b))"
proof -
  have m: "match_ipv4_bits (apply_ipv4_netmask_bits elem bits) a \<longleftrightarrow>
      (\<exists>b. match_ipv4_bits elem b \<and> (if bits < 0 then a = b else same_prefix (nat bits) a b))" for a
    using apply_ipv4_netmask_bits_ok(2) [OF elem _ bits] apply_ipv4_netmask_bits_all [OF elem]
    by (cases "bits < 0") auto
  have "elem_ok (apply_ipv4_netmask_bits elem bits)"
  proof (cases "bits < 0")
    case True
    then have "apply_ipv4_netmask_bits elem bits = apply_ipv4_netmask_bits elem 32"
      by (simp add: apply_ipv4_netmask_bits_def Let_def)
    then show ?thesis using apply_ipv4_netmask_bits_ok(1) [OF elem, of 32] by simp
  qed (use apply_ipv4_netmask_bits_ok(1) [OF elem] bits in auto)
  then show "addrset_ok (aset\<lparr>head := apply_ipv4_netmask_bits elem bits # head aset\<rparr>)"
    using ok by (simp add: addrset_ok_def)
  show "addrset_contains (aset\<lparr>head := apply_ipv4_netmask_bits elem bits # head aset\<rparr>) x \<longleftrightarrow>
      addrset_contains aset x \<or>
      (\<exists>a b. x = AF_INET a \<and> match_ipv4_bits elem b \<and> (if bits < 0 then a = b else same_prefix (nat bits) a b))"
    by (auto simp: contains_iff addrset_elem_match_def m split: sockaddr.splits)
qed

lemma spec_coversI:
  assumes "split_netmask spec = Some (nm, bits)" "covers sa bits x"
  shows "resolve_name gai nm af False = (rc, sas) \<Longrightarrow> sa \<in> set sas \<Longrightarrow> spec_covers gai af dns spec x"
    and "resolve_name gai nm af dns = (rc, sas) \<Longrightarrow> sa \<in> set sas \<Longrightarrow> spec_covers gai af dns spec x"
  unfolding spec_covers_def
  by (rule exI [of _ nm], rule exI [of _ bits], use assms in auto)+

lemma add_spec_grows:
  assumes ok: "addrset_ok aset" and gai: "resolver_ok gai"
  shows "\<exists>aset' ret. addrset_add_spec gai aset spec af dns = Inr (aset', ret) \<and> addrset_ok aset' \<and>
    grows sa_ok (addrset_contains aset) (addrset_contains aset') (spec_covers gai af dns spec)"
proof (cases "split_netmask spec")
  case None
  then show ?thesis using ok
    by (intro exI [of _ aset] exI [of _ False]) (simp add: addrset_add_spec_def grows_refl)
next
  case (Some nb)
  obtain nm bits where nb: "nb = (nm, bits)" by (cases nb)
  have sp: "split_netmask spec = Some (nm, bits)" using Some nb by simp
  obtain rc sas where r: "resolve_name gai nm af False = (rc, sas)" by (cases "resolve_name gai nm af False")
  obtain rc' sas' where r': "resolve_name gai nm af dns = (rc', sas')" by (cases "resolve_name gai nm af dns")
  have root: "root_ok (trie_of aset)" using ok by (simp add: addrset_ok_def)
  consider "rc = 0 \<and> sas \<noteq> []" | elem where "\<not> (rc = 0 \<and> sas \<noteq> [])" "parse_ipv4_ranges (replicate 4 zero_bits) nm = Some elem"
    | "\<not> (rc = 0 \<and> sas \<noteq> [])" "parse_ipv4_ranges (replicate 4 zero_bits) nm = None"
    by (cases "parse_ipv4_ranges (replicate 4 zero_bits) nm") auto
  then show ?thesis
  proof cases
    case 1
    have "\<forall>sa \<in> set sas. sa_ok sa" using resolver_sa_ok [OF gai r] by blast
    from with_trie_walk [OF numeric.walk_grows [OF root this, of bits] ok]
    show ?thesis using 1 r sp
      by (auto simp: addrset_add_spec_def elim!: grows_weaken intro: spec_coversI(1))
  next
    case 2
    have elem: "elem_ok elem" by (rule parse_ipv4_ranges_ok [OF 2(2)])
    show ?thesis
    proof (cases "bits > 32")
      case True
      then show ?thesis using 2 r sp ok
        by (intro exI [of _ aset] exI [of _ False]) (auto simp: addrset_add_spec_def grows_refl)
    next
      case False
      note a = add_range_ok [OF ok elem, of bits]
      show ?thesis using 2 r sp False a
        by (auto simp: addrset_add_spec_def grows_def spec_covers_def)
    qed
  next
    case 3
    show ?thesis
    proof (cases "rc' = 0")
      case False
      then show ?thesis using 3 r r' sp ok
        by (intro exI [of _ aset] exI [of _ False]) (auto simp: addrset_add_spec_def grows_refl)
    next
      case True
      have "\<forall>sa \<in> set sas'. sa_ok sa" using resolver_sa_ok [OF gai r'] by blast
      from with_trie_walk [OF resolved.walk_grows [OF root this, of bits] ok]
      show ?thesis using 3 True r r' sp
        by (auto simp: addrset_add_spec_def elim!: grows_weaken intro: spec_coversI(2))
    qed
  qed
qed

interpretation access_list: growing_set addrset_ok "\<lambda>_. resolver_ok gai" sa_ok addrset_contains
    "spec_covers gai af dns" "\<lambda>aset spec. addrset_add_spec gai aset spec af dns"
  for gai :: gai and af dns
  by unfold_locales (rule add_spec_grows)

section \<open>Adding a file\<close>

text \<open>The words of a file, and the step that adds one.\<close>

function file_words :: "cstr \<Rightarrow> cstr list" where
  "file_words s =
     (case dropWhile is_space s of
        [] \<Rightarrow> []
      | c # cs \<Rightarrow> takeWhile (Not \<circ> is_space) (c # cs) # file_words (tl (dropWhile (Not \<circ> is_space) (c # cs))))"
  by pat_completeness auto
termination
proof (relation "measure length", simp)
  fix s :: cstr and c cs
  assume d: "dropWhile is_space s = c # cs"
  have "\<not> is_space c" using d by (rule dropWhile_hd_not)
  then have "length (dropWhile (Not \<circ> is_space) (c # cs)) \<le> length cs" by simp
  moreover have "length (c # cs) \<le> length s" using d by (metis length_dropWhile_le)
  ultimately show "(tl (dropWhile (Not \<circ> is_space) (c # cs)), s) \<in> measure length" by simp
qed

declare file_words.simps [simp del]

definition add_word :: "gai \<Rightarrow> int \<Rightarrow> bool \<Rightarrow> addrset \<Rightarrow> cstr \<Rightarrow> (addrset \<times> bool) outcome" where
  "add_word gai af dns aset word =
     (if length word > 1024 - 1 then Inr (aset, False)
      else addrset_add_spec gai aset (takeWhile (\<lambda>c. c \<noteq> NUL) word) af dns)"

lemma add_file_walk: "addrset_add_file gai aset fd af dns = walk (add_word gai af dns) aset (file_words fd)"
proof (induction gai aset fd af dns rule: addrset_add_file.induct)
  case (1 gai aset fd af dns)
  show ?case
  proof (cases "dropWhile is_space fd")
    case Nil
    then show ?thesis
      by (subst addrset_add_file.simps, subst file_words.simps) (simp only: list.case walk.simps)
  next
    case (Cons c cs)
    let ?w = "takeWhile (Not \<circ> is_space) (c # cs)" and ?r = "tl (dropWhile (Not \<circ> is_space) (c # cs))"
    have words: "file_words fd = ?w # file_words ?r"
      by (subst file_words.simps) (simp only: Cons list.case)
    show ?thesis
    proof (cases "length ?w > 1024 - 1")
      case True
      then have "add_word gai af dns aset ?w = Inr (aset, False)" by (simp only: add_word_def if_True)
      moreover have "addrset_add_file gai aset fd af dns = Inr (aset, False)"
        using True by (subst addrset_add_file.simps) (simp only: Cons list.case Let_def if_True)
      ultimately show ?thesis by (simp only: words walk.simps sum.case prod.case if_False)
    next
      case False
      let ?a = "addrset_add_spec gai aset (takeWhile (\<lambda>c. c \<noteq> NUL) ?w) af dns"
      have "add_word gai af dns aset ?w = ?a" using False by (simp only: add_word_def if_False)
      moreover have "addrset_add_file gai aset fd af dns =
          (case ?a of Inl e \<Rightarrow> Inl e
           | Inr (aset', ok) \<Rightarrow> if \<not> ok then Inr (aset', False) else addrset_add_file gai aset' ?r af dns)"
        using False by (subst addrset_add_file.simps) (simp only: Cons list.case Let_def if_False)
      moreover note "1.IH" [OF Cons refl refl False]
      ultimately show ?thesis
        unfolding words by (cases ?a) (auto simp only: walk.simps sum.case prod.case split: prod.splits if_splits)
    qed
  qed
qed

interpretation access_file: growing_set addrset_ok "\<lambda>_. resolver_ok gai" sa_ok addrset_contains
    "\<lambda>word. spec_covers gai af dns (takeWhile (\<lambda>c. c \<noteq> NUL) word)" "add_word gai af dns"
  for gai :: gai and af dns
proof
  fix aset word
  assume "addrset_ok aset" "resolver_ok gai"
  from add_spec_grows [OF this] show "\<exists>s' cont. add_word gai af dns aset word = Inr (s', cont) \<and>
    addrset_ok s' \<and> grows sa_ok (addrset_contains aset) (addrset_contains s')
      (spec_covers gai af dns (takeWhile (\<lambda>c. c \<noteq> NUL) word))"
    using \<open>addrset_ok aset\<close>
    by (cases "length word > 1024 - 1") (auto simp: add_word_def grows_refl intro!: exI [of _ False])
qed

section \<open>What the code promises of access lists\<close>

lemma abit_eqI:
  "length a = n \<Longrightarrow> length b = n \<Longrightarrow> \<forall>j < 32 * n. abit a j = abit b j \<Longrightarrow> a = b"
proof (induction n arbitrary: a b)
  case (Suc n)
  obtain x xs y ys where e: "a = x # xs" "b = y # ys" "length xs = n" "length ys = n"
    using Suc.prems by (auto simp: length_Suc_conv)
  have bits: "abit (x # xs) j = abit (y # ys) j" if "j < 32 + 32 * n" for j
    using Suc.prems(3) that by (simp add: e(1,2))
  have "bit x k = bit y k" if "k < 32" for k
  proof -
    have "31 - k < 32" "31 - (31 - k) = k" using that by auto
    then show ?thesis using bits [of "31 - k"] by simp
  qed
  then have "x = y" by (intro bit_word_eqI) simp
  moreover have "abit xs j = abit ys j" if "j < 32 * n" for j
    using bits [of "j + 32"] that by simp
  then have "xs = ys" using Suc.IH e by blast
  ultimately show ?case by (simp add: e)
qed simp

text \<open>The sets a program can build: a new one, and one after a specification was added.\<close>

inductive access_set :: "gai \<Rightarrow> addrset \<Rightarrow> bool" for gai where
  access_new: "access_set gai addrset_new"
| access_add: "access_set gai aset \<Longrightarrow> addrset_add_spec gai aset spec af dns = Inr (aset', ret) \<Longrightarrow>
    access_set gai aset'"

lemma addrset_new_ok: "addrset_ok addrset_new" "\<not> addrset_contains addrset_new x"
  using new_trie_ok by (simp_all add: addrset_ok_def addrset_new_def contains_iff)

lemma access_set_ok:
  "access_set gai aset \<Longrightarrow> resolver_ok gai \<Longrightarrow> addrset_ok aset"
proof (induction rule: access_set.induct)
  case (access_add aset spec af dns aset' ret)
  then show ?case using add_spec_grows [of aset gai spec af dns] by auto
qed (rule addrset_new_ok)

text \<open>A resolver that knows numeric addresses only through a table.\<close>

definition table_gai :: "(cstr \<times> sockaddr) list \<Rightarrow> gai" where
  "table_gai tab nm num af = (case map_of tab nm of Some sa \<Rightarrow> (0, [sa]) | None \<Rightarrow> (1, []))"

lemma table_gai_ok: "\<forall>(nm, sa) \<in> set tab. sa_ok sa \<Longrightarrow> resolver_ok (table_gai tab)"
  by (auto simp: resolver_ok_def table_gai_def split: option.splits dest: map_of_SomeD)

text \<open>
  C14. Adding a specification to an access list always returns (no assertion on the tree fails),
  whatever the text and whatever the resolver answers; no address that was in the set is lost,
  and every address that is new lies under the netmask of an address the name resolves to or of
  an address in the ranges of the text.
\<close>

theorem add_spec_safe:
  assumes "access_set gai aset" and "resolver_ok gai"
  shows "\<exists>aset' ret. addrset_add_spec gai aset spec af dns = Inr (aset', ret) \<and> access_set gai aset' \<and>
    (\<forall>x. sa_ok x \<longrightarrow> (addrset_contains aset x \<longrightarrow> addrset_contains aset' x) \<and>
       (addrset_contains aset' x \<longrightarrow> addrset_contains aset x \<or> spec_covers gai af dns spec x))"
proof -
  obtain aset' ret where a: "addrset_add_spec gai aset spec af dns = Inr (aset', ret)"
      "grows sa_ok (addrset_contains aset) (addrset_contains aset') (spec_covers gai af dns spec)"
    using add_spec_grows [OF access_set_ok [OF assms] assms(2)] by blast
  then show ?thesis using access_set.access_add [OF assms(1) a(1)] by (auto simp: grows_def)
qed

theorem add_spec_safe_witness:
  "\<exists>aset' ret. addrset_add_spec (table_gai []) addrset_new ''10.0.0.1'' 0 False = Inr (aset', ret)"
  using add_spec_safe [OF access_set.access_new table_gai_ok, of "[]" "''10.0.0.1''" 0 False] by auto

text \<open>
  Adding a file of specifications is adding its words one after the other until one fails: the
  loop over the bytes ends, no address is lost, and every new address is accounted for by a word.
\<close>

theorem add_file_safe:
  assumes "access_set gai aset" and "resolver_ok gai"
  shows "\<exists>aset' ret. addrset_add_file gai aset fd af dns = Inr (aset', ret) \<and>
    addrset_add_file gai aset fd af dns = walk (add_word gai af dns) aset (file_words fd) \<and>
    (\<forall>x. sa_ok x \<longrightarrow> (addrset_contains aset x \<longrightarrow> addrset_contains aset' x) \<and>
       (addrset_contains aset' x \<longrightarrow> addrset_contains aset x \<or>
          (\<exists>word \<in> set (file_words fd). spec_covers gai af dns (takeWhile (\<lambda>c. c \<noteq> NUL) word) x)))"
proof -
  obtain aset' ret where "walk (add_word gai af dns) aset (file_words fd) = Inr (aset', ret)"
      "grows sa_ok (addrset_contains aset) (addrset_contains aset')
        (\<lambda>x. \<exists>word \<in> set (file_words fd). spec_covers gai af dns (takeWhile (\<lambda>c. c \<noteq> NUL) word) x)"
    using access_file.walk_grows [OF access_set_ok [OF assms]] assms(2) by blast
  then show ?thesis by (auto simp: add_file_walk grows_def)
qed

theorem add_file_safe_witness:
  "\<exists>aset' ret. addrset_add_file (table_gai []) addrset_new ''10.0.0.1 10.0.1.*'' 0 False = Inr (aset', ret)"
  using add_file_safe [OF access_set.access_new table_gai_ok, of "[]" "''10.0.0.1 10.0.1.*''" 0 False] by auto

lemma add_host_ok:
  assumes "access_set gai aset" and "resolver_ok gai"
    and "CHR ''/'' \<notin> set spec" and "gai spec True 0 = (0, [sa])" and "sa \<noteq> AF_other"
  shows "\<exists>aset'. addrset_add_spec gai aset spec af dns = Inr (aset', True) \<and>
    (\<forall>x. sa_ok x \<longrightarrow> addrset_contains aset' x =
       (addrset_contains aset x \<or> x \<noteq> AF_other \<and> (\<forall>j < 128. abit (sa_addr x) j = abit (sa_addr sa) j)))"
proof -
  have root: "root_ok (trie_of aset)" using access_set_ok [OF assms(1,2)] by (simp add: addrset_ok_def)
  have sa: "sa_ok sa" using assms(2,4) unfolding resolver_ok_def by fastforce
  have "bits_ok_for sa (-1)" by (cases sa) auto
  then obtain t where t: "trie_insert (trie_of aset) sa (-1) = Inr t" "adds_sa sa (-1) (trie_match (trie_of aset)) (trie_match t)"
    using trie_insert_ok [OF root sa] by blast
  have cov: "covers sa (-1) x \<longleftrightarrow> x \<noteq> AF_other \<and> (\<forall>j < 128. abit (sa_addr x) j = abit (sa_addr sa) j)" for x
    using assms(5) by (cases sa) (auto simp: covers_def agree_def)
  have same: "trie_match t x" if "covers sa (-1) x" for x
  proof -
    have x: "x \<noteq> AF_other" "\<forall>j < 128. abit (sa_addr x) j = abit (sa_addr sa) j" using that cov by auto
    have "sa_addr x = sa_addr sa"
      using abit_eqI [OF length_sa_addr [OF x(1)] length_sa_addr [OF assms(5)]] x(2) by simp
    moreover have "trie_match t sa" using t(2) assms(5) by (simp add: adds_sa_def)
    moreover obtain ra rm r1 r0 where "t = Trie_node ra rm r1 r0"
      using t(2) \<open>trie_match t sa\<close> by (cases t) auto
    ultimately show ?thesis using trie_match_eq x(1) assms(5) by metis
  qed
  have "strchr spec CHR ''/'' = None" by (rule iffD2 [OF strchr_None assms(3)])
  then have "split_netmask spec = Some (spec, -1)" by (simp add: split_netmask_def)
  moreover have "resolve_name gai spec af False = (0, [sa])" using assms(4) by (simp add: resolve_name_def)
  moreover have "\<not> illegal_netmask sa (-1)" by (cases sa) auto
  ultimately have "addrset_add_spec gai aset spec af dns = Inr (aset\<lparr>trie_of := t\<rparr>, True)"
    using t(1) by (simp add: addrset_add_spec_def with_trie_def add_numeric_def)
  moreover have "addrset_contains (aset\<lparr>trie_of := t\<rparr>) x = (addrset_contains aset x \<or> covers sa (-1) x)"
    if "sa_ok x" for x
    using t(2) same that by (auto simp: contains_iff adds_sa_def)
  ultimately show ?thesis using cov by auto
qed

text \<open>
  C15. Adding a single numeric address without a netmask puts exactly that address into the set
  (an IPv4 address and its IPv4-mapped IPv6 form are the same address).
\<close>

theorem add_host_exact:
  assumes "access_set gai aset" and "resolver_ok gai"
    and "CHR ''/'' \<notin> set spec" and "gai spec True 0 = (0, [sa])" and "sa \<noteq> AF_other"
  shows "\<exists>aset'. addrset_add_spec gai aset spec af dns = Inr (aset', True) \<and>
    (\<forall>x. sa_ok x \<longrightarrow> addrset_contains aset' x =
       (addrset_contains aset x \<or> x \<noteq> AF_other \<and> (\<forall>j < 128. abit (sa_addr x) j = abit (sa_addr sa) j)))"
  using assms by (rule add_host_ok)

theorem add_host_exact_witness:
  "\<exists>aset'. addrset_add_spec (table_gai [(''h'', AF_INET 7)]) addrset_new ''h'' 0 False = Inr (aset', True) \<and>
    \<not> addrset_contains aset' (AF_INET 6)"
proof -
  let ?gai = "table_gai [(''h'', AF_INET 7)]"
  have "resolver_ok ?gai" by (rule table_gai_ok) simp
  moreover have "?gai ''h'' True 0 = (0, [AF_INET 7])" by (simp add: table_gai_def)
  ultimately obtain aset' where a: "addrset_add_spec ?gai addrset_new ''h'' 0 False = Inr (aset', True)"
      "\<forall>x. sa_ok x \<longrightarrow> addrset_contains aset' x =
        (addrset_contains addrset_new x \<or> x \<noteq> AF_other \<and> (\<forall>j < 128. abit (sa_addr x) j = abit (sa_addr (AF_INET 7)) j))"
    using add_host_exact [OF access_set.access_new, of ?gai "''h''" "AF_INET 7" 0 False] by auto
  have "abit (sa_addr (AF_INET 6)) 127 \<noteq> abit (sa_addr (AF_INET 7)) 127" by (simp add: sa_addr_def)
  then have "\<not> addrset_contains aset' (AF_INET 6)" using a(2) addrset_new_ok(2) by fastforce
  then show ?thesis using a(1) by blast
qed

text \<open>
  Inserting a prefix of at least one bit into the tree never fails and is exact whenever no
  address of the prefix was in the tree before: the members afterwards are the members before and
  the addresses that share the prefix.
\<close>

theorem trie_insert_exact:
  assumes "root_ok t" and "sa_ok sa" and "sa \<noteq> AF_other" and "bits_ok_for sa bits" and "bits \<noteq> 0"
    and "\<And>y. sa_ok y \<Longrightarrow> covers sa bits y \<Longrightarrow> \<not> trie_match t y"
  shows "\<exists>t'. trie_insert t sa bits = Inr t' \<and> root_ok t' \<and>
    (\<forall>x. sa_ok x \<longrightarrow> trie_match t' x = (trie_match t x \<or> covers sa bits x))"
proof -
  obtain t' where t': "trie_insert t sa bits = Inr t'" "root_ok t'" "adds_sa sa bits (trie_match t) (trie_match t')"
    using trie_insert_ok [OF assms(1,2,4)] by blast
  have "0 < prefix_len sa bits" using assms(3,5) by (cases sa) auto
  then show ?thesis using t' assms(6) by (auto simp: adds_sa_def)
qed

theorem trie_insert_exact_witness:
  "\<exists>t'. trie_insert new_trie (AF_INET 0x0A000000) 8 = Inr t' \<and> root_ok t'"
  using trie_insert_exact [OF new_trie_ok(1), of "AF_INET 0x0A000000" 8] new_trie_ok(2) by auto


text \<open>
  \<open>trie_free\<close> never leaves its stack of 132 pointers on a tree the code has built, and frees
  exactly the nodes whose branch for a zero bit leads to no further node, once each; the other
  nodes, the root of any set with an IPv4 address among them, stay allocated.
\<close>

theorem trie_free_stack:
  assumes "access_set gai aset" and "resolver_ok gai"
  shows "\<exists>fs. addrset_free aset = Inr (head aset, fs) \<and>
    mset fs = mset (filter freed_node (nodes (trie_of aset)))"
proof -
  have "root_ok (trie_of aset)" using access_set_ok [OF assms] by (simp add: addrset_ok_def)
  from trie_free_ok [OF this] show ?thesis by (auto simp: addrset_free_def)
qed

theorem trie_free_stack_witness: "\<exists>fs. addrset_free addrset_new = Inr ([], fs) \<and> length fs = 1"
proof -
  have "resolver_ok (table_gai [])" by (rule table_gai_ok) simp
  from trie_free_stack [OF access_set.access_new this] obtain fs where
    "addrset_free addrset_new = Inr (head addrset_new, fs)"
    "mset fs = mset (filter freed_node (nodes (trie_of addrset_new)))" by blast
  then show ?thesis
    by (auto simp: addrset_new_def new_trie_def live_def dest: mset_eq_length)
qed

text \<open>
  C16. The reading of IPv4 ranges inverts their writing: for octets given as stars or comma lists
  of single values and closed, left-open or right-open ranges, with the optional netmask, the new
  element contains exactly the addresses that share their first bits with an address whose octets
  all lie in the given sets.
\<close>

theorem ipv4_ranges_roundtrip:
  assumes "\<forall>x \<in> {a, b, c, d}. octet_valid x" and "bits \<le> 32"
  shows "\<exists>elem. parse_ipv4_ranges (replicate 4 zero_bits)
        (octet_text a @ ''.'' @ octet_text b @ ''.'' @ octet_text c @ ''.'' @ octet_text d) = Some elem \<and>
      (\<forall>x. match_ipv4_bits (apply_ipv4_netmask_bits elem bits) x =
        (\<exists>y. (if bits < 0 then x = y else same_prefix (nat bits) x y) \<and>
             octet y 0 \<in> octet_denotes a \<and> octet y 1 \<in> octet_denotes b \<and>
             octet y 2 \<in> octet_denotes c \<and> octet y 3 \<in> octet_denotes d))"
proof -
  obtain w x y z where p: "parse_ipv4_ranges (replicate 4 zero_bits)
        (octet_text a @ ''.'' @ octet_text b @ ''.'' @ octet_text c @ ''.'' @ octet_text d) = Some [w, x, y, z]"
      "octets_of w = octet_denotes a" "octets_of x = octet_denotes b"
      "octets_of y = octet_denotes c" "octets_of z = octet_denotes d"
    using parse_ipv4_ranges_text [OF assms(1), of "replicate 4 zero_bits"] zero_bits_ok
    by (auto simp: numeral_eq_Suc All_less_Suc)
  have ok: "elem_ok [w, x, y, z]" by (rule parse_ipv4_ranges_ok [OF p(1)])
  have "match_ipv4_bits (apply_ipv4_netmask_bits [w, x, y, z] bits) v \<longleftrightarrow>
      (\<exists>u. match_ipv4_bits [w, x, y, z] u \<and> (if bits < 0 then v = u else same_prefix (nat bits) v u))" for v
    using apply_ipv4_netmask_bits_ok(2) [OF ok _ assms(2)] apply_ipv4_netmask_bits_all [OF ok]
    by (cases "bits < 0") auto
  moreover have "match_ipv4_bits [w, x, y, z] u \<longleftrightarrow>
      octet u 0 \<in> octet_denotes a \<and> octet u 1 \<in> octet_denotes b \<and>
      octet u 2 \<in> octet_denotes c \<and> octet u 3 \<in> octet_denotes d" for u
    unfolding match_iff less_4 by (simp add: p(2-5) numeral_eq_Suc)
  ultimately show ?thesis using p(1) by auto
qed

theorem ipv4_ranges_roundtrip_witness:
  "\<exists>elem. parse_ipv4_ranges (replicate 4 zero_bits) ''10.0-1.7,9-.*'' = Some elem"
proof -
  have "octet_valid (Ranges (One 10) [])" "octet_valid (Ranges (Between 0 1) [])"
    "octet_valid (Ranges (One 7) [From 9])" "octet_valid Star"
    by (simp_all add: range_valid_def)
  then have "\<forall>x \<in> {Ranges (One 10) [], Ranges (Between 0 1) [], Ranges (One 7) [From 9], Star}. octet_valid x"
    by blast
  note ipv4_ranges_roundtrip [OF this, of 24]
  moreover have "dec 10 = ''10''" "dec 0 = ''0''" "dec 1 = ''1''" "dec 7 = ''7''" "dec 9 = ''9''"
    by code_simp+
  ultimately show ?thesis by auto
qed

end
