(* ===== verification/Gh_List.thy ===== *)
theory Gh_List
  imports Prelude
begin

text \<open>
  The intrusive doubly linked list of nsock/src/gh_list.h, on an explicit store: the links of all
  nodes are two maps from node addresses to pointers, and a list header points into them.  The
  store is shared by all lists, so what an operation leaves alone is part of its contract.
  The checks under \<open>GH_LIST_PARANOID\<close> are off in the build; \<open>paranoid_list_check\<close> states them.
\<close>

section \<open>Headers and links\<close>

record 'p lstore =
  nxt :: "'p \<Rightarrow> 'p option"
  prv :: "'p \<Rightarrow> 'p option"

record 'p gh_list =
  lcount :: u32
  lfirst :: "'p option"
  llast :: "'p option"

definition set_next :: "'p lstore \<Rightarrow> 'p \<Rightarrow> 'p option \<Rightarrow> 'p lstore" where
  "set_next s x v = s\<lparr>nxt := (nxt s)(x := v)\<rparr>"

definition set_prev :: "'p lstore \<Rightarrow> 'p \<Rightarrow> 'p option \<Rightarrow> 'p lstore" where
  "set_prev s x v = s\<lparr>prv := (prv s)(x := v)\<rparr>"

lemma store_simps [simp]:
  "nxt (set_next s x v) = (nxt s)(x := v)" "prv (set_next s x v) = prv s"
  "nxt (set_prev s x v) = nxt s" "prv (set_prev s x v) = (prv s)(x := v)"
  by (simp_all add: set_next_def set_prev_def)

text \<open>\<open>if (p) p->field = v;\<close> and the store through a pointer that must not be null.\<close>

definition when_ptr :: "'p option \<Rightarrow> ('p \<Rightarrow> 'p lstore) \<Rightarrow> 'p lstore \<Rightarrow> 'p lstore" where
  "when_ptr p f s = (case p of None \<Rightarrow> s | Some q \<Rightarrow> f q)"

section \<open>Operations\<close>

definition paranoid_list_check :: "'p gh_list \<Rightarrow> bool" where
  "paranoid_list_check l =
     (if lcount l = 0 then lfirst l = None \<and> llast l = None
      else if lcount l = 1 then lfirst l \<noteq> None \<and> llast l \<noteq> None \<and> lfirst l = llast l
      else lfirst l \<noteq> None \<and> llast l \<noteq> None \<and> lfirst l \<noteq> llast l)"

definition gh_list_init :: "'p gh_list" where
  "gh_list_init = \<lparr>lcount = 0, lfirst = None, llast = None\<rparr>"

definition gh_list_append :: "'p gh_list \<Rightarrow> 'p lstore \<Rightarrow> 'p \<Rightarrow> 'p gh_list \<times> 'p lstore" where
  "gh_list_append l s lnode =
     (let oldlast = llast l;
          s = when_ptr oldlast (\<lambda>ol. set_next s ol (Some lnode)) s;
          s = set_prev s lnode oldlast;
          s = set_next s lnode None;
          l = l\<lparr>lcount := lcount l + 1, llast := Some lnode\<rparr>;
          l = (if lcount l = 1 then l\<lparr>lfirst := Some lnode\<rparr> else l)
      in (l, s))"

definition gh_list_prepend :: "'p gh_list \<Rightarrow> 'p lstore \<Rightarrow> 'p \<Rightarrow> 'p gh_list \<times> 'p lstore" where
  "gh_list_prepend l s lnode =
     (let oldfirst = lfirst l;
          s = when_ptr oldfirst (\<lambda>ol. set_prev s ol (Some lnode)) s;
          s = set_next s lnode oldfirst;
          s = set_prev s lnode None;
          l = l\<lparr>lcount := lcount l + 1, lfirst := Some lnode\<rparr>;
          l = (if lcount l = 1 then l\<lparr>llast := Some lnode\<rparr> else l)
      in (l, s))"

definition gh_list_insert_before :: "'p gh_list \<Rightarrow> 'p lstore \<Rightarrow> 'p \<Rightarrow> 'p \<Rightarrow> 'p gh_list \<times> 'p lstore" where
  "gh_list_insert_before l s before lnode =
     (let s = set_prev s lnode (prv s before);
          s = set_next s lnode (Some before);
          (l, s) = (case prv s before of
                      Some q \<Rightarrow> (l, set_next s q (Some lnode))
                    | None \<Rightarrow> (l\<lparr>lfirst := Some lnode\<rparr>, s));
          s = set_prev s before (Some lnode);
          l = l\<lparr>lcount := lcount l + 1\<rparr>
      in (l, s))"

definition gh_list_pop :: "'p gh_list \<Rightarrow> 'p lstore \<Rightarrow> 'p option \<times> 'p gh_list \<times> 'p lstore" where
  "gh_list_pop l s =
     (case lfirst l of
        None \<Rightarrow> (None, l, s)
      | Some elem \<Rightarrow>
          let l = l\<lparr>lfirst := nxt s elem\<rparr>;
              s = when_ptr (lfirst l) (\<lambda>f. set_prev s f None) s;
              l = l\<lparr>lcount := lcount l - 1\<rparr>;
              l = (if lcount l < 2 then l\<lparr>llast := lfirst l\<rparr> else l);
              s = set_prev s elem None;
              s = set_next s elem None
          in (Some elem, l, s))"

definition gh_list_remove :: "'p gh_list \<Rightarrow> 'p lstore \<Rightarrow> 'p \<Rightarrow> ('p gh_list \<times> 'p lstore) outcome" where
  "gh_list_remove l s lnode =
     (case (case prv s lnode of
              Some q \<Rightarrow> Inr (l, set_next s q (nxt s lnode))
            | None \<Rightarrow> if lfirst l = Some lnode then Inr (l\<lparr>lfirst := nxt s lnode\<rparr>, s) else Inl Assert_failed) of
        Inl e \<Rightarrow> Inl e
      | Inr (l, s) \<Rightarrow>
          (case (case nxt s lnode of
                   Some q \<Rightarrow> Inr (l, set_prev s q (prv s lnode))
                 | None \<Rightarrow> if llast l = Some lnode then Inr (l\<lparr>llast := prv s lnode\<rparr>, s) else Inl Assert_failed) of
             Inl e \<Rightarrow> Inl e
           | Inr (l, s) \<Rightarrow> Inr (l\<lparr>lcount := lcount l - 1\<rparr>, set_next (set_prev s lnode None) lnode None)))"

text \<open>
  \<open>gh_list_free\<close> pops until the count is zero.  A header with a positive count and no first node
  would make the loop run forever, so the loop is a partial function.
\<close>

partial_function (option) free_loop :: "'p gh_list \<Rightarrow> 'p lstore \<Rightarrow> ('p gh_list \<times> 'p lstore) option" where
  "free_loop l s =
     (if lcount l > 0
      then (case gh_list_pop l s of (e, l', s') \<Rightarrow> free_loop l' s')
      else Some (l, s))"

definition gh_list_free :: "'p gh_list \<Rightarrow> 'p lstore \<Rightarrow> ('p gh_list \<times> 'p lstore) option" where
  "gh_list_free l s = map_option (\<lambda>(l', s'). (\<lparr>lcount = 0, lfirst = None, llast = None\<rparr>, s')) (free_loop l s)"

definition gh_list_move_front :: "'p gh_list \<Rightarrow> 'p lstore \<Rightarrow> 'p \<Rightarrow> ('p gh_list \<times> 'p lstore) outcome" where
  "gh_list_move_front l s lnode =
     (if lfirst l = Some lnode then Inr (l, s)
      else case prv s lnode of
             None \<Rightarrow> Inl Null_deref
           | Some q \<Rightarrow>
               let s = set_next s q (nxt s lnode)
               in case (case nxt s lnode of
                          Some r \<Rightarrow> Inr (l, set_prev s r (prv s lnode))
                        | None \<Rightarrow> if llast l = Some lnode then Inr (l\<lparr>llast := prv s lnode\<rparr>, s)
                                  else Inl Assert_failed) of
                    Inl e \<Rightarrow> Inl e
                  | Inr (l, s) \<Rightarrow>
                      (case lfirst l of
                         None \<Rightarrow> Inl Null_deref
                       | Some f \<Rightarrow>
                           let s = set_prev s f (Some lnode);
                               s = set_next s lnode (lfirst l);
                               s = set_prev s lnode None
                           in Inr (l\<lparr>lfirst := Some lnode\<rparr>, s)))"

definition gh_lnode_next :: "'p lstore \<Rightarrow> 'p \<Rightarrow> 'p option" where "gh_lnode_next s elem = nxt s elem"
definition gh_lnode_prev :: "'p lstore \<Rightarrow> 'p \<Rightarrow> 'p option" where "gh_lnode_prev s elem = prv s elem"
definition gh_list_first_elem :: "'p gh_list \<Rightarrow> 'p option" where "gh_list_first_elem l = lfirst l"
definition gh_list_last_elem :: "'p gh_list \<Rightarrow> 'p option" where "gh_list_last_elem l = llast l"
definition gh_list_count :: "'p gh_list \<Rightarrow> u32" where "gh_list_count l = lcount l"

section \<open>The sequence a header stands for\<close>

text \<open>A linked run of nodes, between the pointers before and after it.\<close>

fun linked :: "'p lstore \<Rightarrow> 'p option \<Rightarrow> 'p list \<Rightarrow> 'p option \<Rightarrow> bool" where
  "linked s p [] n \<longleftrightarrow> True"
| "linked s p (x # xs) n \<longleftrightarrow>
     prv s x = p \<and> nxt s x = (if xs = [] then n else Some (hd xs)) \<and> linked s (Some x) xs n"

definition hd_ptr :: "'p list \<Rightarrow> 'p option \<Rightarrow> 'p option" where
  "hd_ptr xs n = (if xs = [] then n else Some (hd xs))"

definition last_ptr :: "'p list \<Rightarrow> 'p option \<Rightarrow> 'p option" where
  "last_ptr xs p = (if xs = [] then p else Some (last xs))"

definition is_list :: "'p gh_list \<Rightarrow> 'p lstore \<Rightarrow> 'p list \<Rightarrow> bool" where
  "is_list l s xs \<longleftrightarrow>
     distinct xs \<and> lcount l = of_nat (length xs) \<and> length xs < 2 ^ 32 \<and>
     lfirst l = hd_ptr xs None \<and> llast l = last_ptr xs None \<and> linked s None xs None"

lemma ptr_simps [simp]:
  "hd_ptr [] n = n" "hd_ptr (x # xs) n = Some x" "last_ptr [] p = p"
  "last_ptr (x # xs) p = last_ptr xs (Some x)" "last_ptr (xs @ ys) p = last_ptr ys (last_ptr xs p)"
  "hd_ptr (xs @ ys) n = hd_ptr xs (hd_ptr ys n)"
  by (simp_all add: hd_ptr_def last_ptr_def)

lemma linked_Cons: "linked s p (x # xs) n \<longleftrightarrow> prv s x = p \<and> nxt s x = hd_ptr xs n \<and> linked s (Some x) xs n"
  by (simp add: hd_ptr_def)

declare linked.simps(2) [simp del]
declare linked_Cons [simp]

lemma linked_append [simp]:
  "linked s p (xs @ ys) n \<longleftrightarrow> linked s p xs (hd_ptr ys n) \<and> linked s (last_ptr xs p) ys n"
  by (induction xs arbitrary: p) (auto simp: hd_ptr_def)

lemma linked_frame:
  "\<forall>x \<in> set xs. nxt t x = nxt s x \<and> prv t x = prv s x \<Longrightarrow> linked t p xs n \<longleftrightarrow> linked s p xs n"
  by (induction xs arbitrary: p) auto

lemma linked_update [simp]:
  "x \<notin> set xs \<Longrightarrow> linked (set_next s x v) p xs n \<longleftrightarrow> linked s p xs n"
  "x \<notin> set xs \<Longrightarrow> linked (set_prev s x v) p xs n \<longleftrightarrow> linked s p xs n"
  by (rule linked_frame; auto)+

lemma count_eq:
  assumes "n < 2 ^ 32" "k < 2 ^ 32"
  shows "(of_nat n :: u32) = of_nat k \<longleftrightarrow> n = k"
  using assms by (simp add: word_of_nat_eq_iff take_bit_nat_eq_self)

lemma count_less:
  assumes "n < 2 ^ 32" "k < 2 ^ 32"
  shows "(of_nat n :: u32) < of_nat k \<longleftrightarrow> n < k"
  using assms by (simp add: word_of_nat_less_iff take_bit_nat_eq_self)

section \<open>Operations on the sequence\<close>

text \<open>Nodes whose links an operation leaves as they were.\<close>

definition same_links :: "'p set \<Rightarrow> 'p lstore \<Rightarrow> 'p lstore \<Rightarrow> bool" where
  "same_links A s t \<longleftrightarrow> (\<forall>x. x \<notin> A \<longrightarrow> nxt t x = nxt s x \<and> prv t x = prv s x)"

lemma last_split: "xs = [] \<or> (\<exists>ys y. xs = ys @ [y])"
  by (cases xs rule: rev_cases) auto

lemma init_is_list: "is_list gh_list_init s []"
  by (simp add: is_list_def gh_list_init_def)

lemma append_ok:
  assumes l: "is_list l s xs" and x: "x \<notin> set xs" and room: "length xs + 1 < 2 ^ 32"
    and r: "gh_list_append l s x = (l', s')"
  shows "is_list l' s' (xs @ [x])" "same_links (insert x (set xs)) s s'"
proof -
  have c1: "(of_nat (length xs) + 1 :: u32) = 1 \<longleftrightarrow> xs = []"
    using count_eq [of "length xs + 1" 1] room by (simp add: add.commute)
  show "is_list l' s' (xs @ [x])"
    using last_split [of xs] l x room r c1
    by (auto simp: gh_list_append_def is_list_def when_ptr_def Let_def add.commute)
  show "same_links (insert x (set xs)) s s'"
    using last_split [of xs] l r
    by (auto simp: gh_list_append_def is_list_def when_ptr_def Let_def same_links_def)
qed

lemma prepend_ok:
  assumes l: "is_list l s xs" and x: "x \<notin> set xs" and room: "length xs + 1 < 2 ^ 32"
    and r: "gh_list_prepend l s x = (l', s')"
  shows "is_list l' s' (x # xs)" "same_links (insert x (set xs)) s s'"
proof -
  have c1: "(of_nat (length xs) + 1 :: u32) = 1 \<longleftrightarrow> xs = []"
    using count_eq [of "length xs + 1" 1] room by (simp add: add.commute)
  show "is_list l' s' (x # xs)"
    using l x room r c1
    by (cases xs) (auto simp: gh_list_prepend_def is_list_def when_ptr_def Let_def add.commute)
  show "same_links (insert x (set xs)) s s'"
    using l r
    by (cases xs) (auto simp: gh_list_prepend_def is_list_def when_ptr_def Let_def same_links_def)
qed

lemma insert_before_ok:
  assumes l: "is_list l s (ys @ b # zs)" and x: "x \<notin> set (ys @ b # zs)" and room: "length (ys @ b # zs) + 1 < 2 ^ 32"
    and r: "gh_list_insert_before l s b x = (l', s')"
  shows "is_list l' s' (ys @ x # b # zs)" "same_links (insert x (set (ys @ b # zs))) s s'"
proof -
  show "is_list l' s' (ys @ x # b # zs)"
    using last_split [of ys] l x room r
    by (auto simp: gh_list_insert_before_def is_list_def Let_def split: prod.splits option.splits)
  show "same_links (insert x (set (ys @ b # zs))) s s'"
    using last_split [of ys] l x r
    by (auto simp: gh_list_insert_before_def is_list_def Let_def same_links_def split: prod.splits option.splits)
qed

lemma pop_Nil: "is_list l s [] \<Longrightarrow> gh_list_pop l s = (None, l, s)"
  by (simp add: gh_list_pop_def is_list_def)

lemma pop_Cons:
  assumes l: "is_list l s (x # xs)" and r: "gh_list_pop l s = (e, l', s')"
  shows "e = Some x" "is_list l' s' xs" "same_links (set (x # xs)) s s'" "nxt s' x = None" "prv s' x = None"
    "lcount l' < lcount l"
proof -
  have len: "length xs < 2 ^ 32" "length (x # xs) < 2 ^ 32" using l by (auto simp: is_list_def)
  have c: "lcount l = of_nat (length (x # xs))" using l by (simp add: is_list_def)
  have c2: "(of_nat (length xs) :: u32) < 2 \<longleftrightarrow> length xs < 2"
    using count_less [of "length xs" 2] len by simp
  show "e = Some x" "nxt s' x = None" "prv s' x = None"
    using l r by (auto simp: gh_list_pop_def is_list_def Let_def when_ptr_def)
  have "lcount l' = of_nat (length xs)"
    using l r c by (auto simp: gh_list_pop_def is_list_def Let_def)
  then show "lcount l' < lcount l"
    using count_less [OF len] c by simp
  show "same_links (set (x # xs)) s s'"
    using l r by (cases xs) (auto simp: gh_list_pop_def is_list_def Let_def when_ptr_def same_links_def)
  show "is_list l' s' xs"
  proof (cases xs)
    case Nil
    then show ?thesis using l r by (auto simp: gh_list_pop_def is_list_def Let_def when_ptr_def)
  next
    case (Cons y ys)
    then have "length xs < 2 \<Longrightarrow> ys = []" by auto
    then show ?thesis using l r c2 Cons
      by (auto simp: gh_list_pop_def is_list_def Let_def when_ptr_def last_ptr_def)
  qed
qed

lemma list_remove_ok:
  assumes l: "is_list l s (ys @ x # zs)"
  shows "\<exists>l' s'. gh_list_remove l s x = Inr (l', s') \<and> is_list l' s' (ys @ zs) \<and>
    same_links (set (ys @ x # zs)) s s' \<and> nxt s' x = None \<and> prv s' x = None"
proof -
  have c: "lcount l - 1 = of_nat (length (ys @ zs))" using l by (simp add: is_list_def)
  consider "ys = []" "zs = []" | y ys' where "ys = ys' @ [y]" "zs = []"
    | z zs' where "ys = []" "zs = z # zs'" | y ys' z zs' where "ys = ys' @ [y]" "zs = z # zs'"
    using last_split [of ys] by (cases zs) auto
  then show ?thesis
    using l c
    by cases (auto simp: gh_list_remove_def is_list_def same_links_def last_ptr_def)
qed

lemma move_front_ok:
  assumes l: "is_list l s (ys @ x # zs)"
  shows "\<exists>l' s'. gh_list_move_front l s x = Inr (l', s') \<and> is_list l' s' (x # ys @ zs) \<and>
    same_links (set (ys @ x # zs)) s s'"
proof (cases ys rule: rev_cases)
  case Nil
  then show ?thesis using l by (auto simp: gh_list_move_front_def is_list_def same_links_def)
next
  case (snoc ys' y)
  then show ?thesis
    using l by (cases ys'; cases zs) (auto simp: gh_list_move_front_def is_list_def same_links_def last_ptr_def Let_def)
qed

section \<open>Clients that pop until the list is empty\<close>

text \<open>
  The loop of \<open>nsock_pool_delete\<close> over one event list: the events in the order in which they get
  their \<open>NSE_STATUS_KILL\<close> callback.
\<close>

partial_function (option) kill_list ::
    "'p gh_list \<Rightarrow> 'p lstore \<Rightarrow> 'p list \<Rightarrow> ('p list \<times> 'p gh_list \<times> 'p lstore) outcome option" where
  "kill_list l s killed =
     (if gh_list_count l > 0
      then (case gh_list_pop l s of
              (None, l', s') \<Rightarrow> Some (Inl Assert_failed)
            | (Some lnode, l', s') \<Rightarrow> kill_list l' s' (killed @ [lnode]))
      else Some (Inr (killed, l, s)))"

locale pop_queue =
  fixes rel :: "'q \<Rightarrow> 'p list \<Rightarrow> bool" and cnt :: "'q \<Rightarrow> 'n :: {zero, ord}" and pop :: "'q \<Rightarrow> 'p option \<times> 'q"
  assumes cnt_pos: "rel q xs \<Longrightarrow> cnt q > 0 \<longleftrightarrow> xs \<noteq> []"
    and pop_first: "rel q (x # xs) \<Longrightarrow> pop q = (Some x, q') \<Longrightarrow> rel q' xs"
    and pop_some: "rel q (x # xs) \<Longrightarrow> fst (pop q) = Some x"
begin

lemma drain:
  assumes step: "\<And>q acc. drain q acc =
      (if cnt q > 0
       then (case pop q of (None, q') \<Rightarrow> Some (Inl Assert_failed) | (Some x, q') \<Rightarrow> drain q' (acc @ [x]))
       else Some (Inr (acc, q)))"
    and "rel q xs"
  shows "\<exists>q'. drain q acc = Some (Inr (acc @ xs, q')) \<and> rel q' []"
  using assms(2)
proof (induction xs arbitrary: q acc)
  case Nil
  then show ?case using cnt_pos by (subst step) simp
next
  case (Cons x xs)
  obtain q' where q': "pop q = (Some x, q')" using pop_some [OF Cons.prems] by (cases "pop q") auto
  have "drain q acc = drain q' (acc @ [x])"
    using cnt_pos [OF Cons.prems] q' by (subst step) simp
  then show ?case using Cons.IH [OF pop_first [OF Cons.prems q'], of "acc @ [x]"] by simp
qed

end

interpretation event_list: pop_queue "\<lambda>q. is_list (fst q) (snd q)" "\<lambda>q. lcount (fst q)"
    "\<lambda>q. gh_list_pop (fst q) (snd q)"
proof unfold_locales
  fix q :: "'p gh_list \<times> 'p lstore" and xs
  assume "is_list (fst q) (snd q) xs"
  then have "length xs < 2 ^ 32" "lcount (fst q) = of_nat (length xs)" by (auto simp: is_list_def)
  then show "lcount (fst q) > 0 \<longleftrightarrow> xs \<noteq> []"
    using count_less [of 0 "length xs"] by simp
next
  fix q q' :: "'p gh_list \<times> 'p lstore" and x xs
  assume "is_list (fst q) (snd q) (x # xs)" "gh_list_pop (fst q) (snd q) = (Some x, q')"
  then show "is_list (fst q') (snd q') xs"
    using pop_Cons(2) by (cases q') fastforce
next
  fix q :: "'p gh_list \<times> 'p lstore" and x xs
  assume "is_list (fst q) (snd q) (x # xs)"
  then show "fst (gh_list_pop (fst q) (snd q)) = Some x"
    by (auto simp: gh_list_pop_def is_list_def Let_def)
qed

lemma kill_list_ok:
  assumes "is_list l s xs"
  shows "\<exists>l' s'. kill_list l s killed = Some (Inr (killed @ xs, l', s')) \<and> is_list l' s' []"
proof -
  have step: "kill_list (fst q) (snd q) acc =
      (if lcount (fst q) > 0
       then (case gh_list_pop (fst q) (snd q) of
               (None, q') \<Rightarrow> Some (Inl Assert_failed)
             | (Some x, q') \<Rightarrow> kill_list (fst q') (snd q') (acc @ [x]))
       else Some (Inr (acc, q)))" for q :: "'a gh_list \<times> 'a lstore" and acc
    by (subst kill_list.simps) (auto simp: gh_list_count_def split: option.splits prod.splits)
  show ?thesis
    using event_list.drain [of "\<lambda>q acc. kill_list (fst q) (snd q) acc" "(l, s)" xs killed, OF step] assms
    by simp
qed

lemma free_loop_ok:
  assumes "is_list l s xs"
  shows "\<exists>l' s'. free_loop l s = Some (l', s') \<and> is_list l' s' [] \<and>
    (\<forall>x. nxt s' x = (if x \<in> set xs then None else nxt s x) \<and> prv s' x = (if x \<in> set xs then None else prv s x))"
  using assms
proof (induction xs arbitrary: l s)
  case Nil
  then have "lcount l = 0" by (simp add: is_list_def)
  then show ?case using Nil by (subst free_loop.simps) simp
next
  case (Cons x xs)
  obtain e l' s' where p: "gh_list_pop l s = (e, l', s')" by (cases "gh_list_pop l s") auto
  note pc = pop_Cons [OF Cons.prems p]
  have x: "x \<notin> set xs" using Cons.prems by (simp add: is_list_def)
  have "0 < lcount l" using pc(6) by (metis order_less_le_trans word_zero_le le_less_trans)
  then have "free_loop l s = free_loop l' s'" by (subst free_loop.simps) (simp add: p)
  then show ?case
    using Cons.IH [OF pc(2)] pc(3-5) x unfolding same_links_def by auto
qed

section \<open>What the code promises of its lists\<close>

text \<open>
  C18. Each operation of the linked list is the operation on sequences that its name says: append,
  prepend, insertion before a node, removal of a member and the move of a member to the front keep
  the links, the header and the count of a list consistent, fail no assertion, dereference no null
  pointer, and touch the links of no node outside the list.
\<close>

theorem gh_list_refines:
  assumes "is_list l s (ys @ x # zs)" and "w \<notin> set (ys @ x # zs)" and "length (ys @ x # zs) + 1 < 2 ^ 32"
  shows "(case gh_list_append l s w of (l', s') \<Rightarrow>
            is_list l' s' (ys @ x # zs @ [w]) \<and> same_links (insert w (set (ys @ x # zs))) s s') \<and>
    (case gh_list_prepend l s w of (l', s') \<Rightarrow>
            is_list l' s' (w # ys @ x # zs) \<and> same_links (insert w (set (ys @ x # zs))) s s') \<and>
    (case gh_list_insert_before l s x w of (l', s') \<Rightarrow>
            is_list l' s' (ys @ w # x # zs) \<and> same_links (insert w (set (ys @ x # zs))) s s') \<and>
    (\<exists>l' s'. gh_list_remove l s x = Inr (l', s') \<and> is_list l' s' (ys @ zs) \<and>
       same_links (set (ys @ x # zs)) s s') \<and>
    (\<exists>l' s'. gh_list_move_front l s x = Inr (l', s') \<and> is_list l' s' (x # ys @ zs) \<and>
       same_links (set (ys @ x # zs)) s s')"
proof -
  obtain la sa where a: "gh_list_append l s w = (la, sa)" by (cases "gh_list_append l s w")
  obtain lp sp where p: "gh_list_prepend l s w = (lp, sp)" by (cases "gh_list_prepend l s w")
  obtain lb sb where b: "gh_list_insert_before l s x w = (lb, sb)" by (cases "gh_list_insert_before l s x w")
  show ?thesis
    using append_ok [OF assms a] prepend_ok [OF assms p] insert_before_ok [OF assms b]
      list_remove_ok [OF assms(1)] move_front_ok [OF assms(1)] a p b
    by auto
qed

definition two_nodes :: "nat lstore" where
  "two_nodes = \<lparr>nxt = (\<lambda>_. None)(1 := Some 2), prv = (\<lambda>_. None)(2 := Some 1)\<rparr>"

theorem gh_list_refines_witness:
  "\<exists>l' s'. gh_list_move_front \<lparr>lcount = 2, lfirst = Some 1, llast = Some 2\<rparr> two_nodes 2 = Inr (l', s') \<and>
    is_list l' s' [2, 1]"
proof -
  have "is_list \<lparr>lcount = 2, lfirst = Some 1, llast = Some 2\<rparr> two_nodes ([1] @ 2 # [])"
    by (simp add: is_list_def two_nodes_def)
  from gh_list_refines [OF this, of 3] show ?thesis by auto
qed

text \<open>
  The loops that empty a list end, although their counter and their pointer are separate:
  \<open>nsock_pool_delete\<close> kills every event of the list once and in order without meeting a null node,
  and \<open>gh_list_free\<close> leaves every node of the list without links and every other node untouched.
\<close>

theorem gh_list_drains:
  assumes "is_list l s xs"
  shows "(\<exists>l' s'. kill_list l s [] = Some (Inr (xs, l', s')) \<and> is_list l' s' []) \<and>
    (\<exists>l' s'. gh_list_free l s = Some (l', s') \<and> is_list l' s' [] \<and> paranoid_list_check l' \<and>
       (\<forall>x. nxt s' x = (if x \<in> set xs then None else nxt s x) \<and>
            prv s' x = (if x \<in> set xs then None else prv s x)))"
proof -
  obtain l' s' where f: "free_loop l s = Some (l', s')" "is_list l' s' []"
      "\<forall>x. nxt s' x = (if x \<in> set xs then None else nxt s x) \<and> prv s' x = (if x \<in> set xs then None else prv s x)"
    using free_loop_ok [OF assms] by blast
  then show ?thesis
    using kill_list_ok [OF assms, of "[]"]
    by (auto simp: gh_list_free_def is_list_def paranoid_list_check_def)
qed

theorem gh_list_drains_witness:
  "\<exists>l' s'. gh_list_free \<lparr>lcount = 2, lfirst = Some 1, llast = Some 2\<rparr> two_nodes = Some (l', s')"
proof -
  have "is_list \<lparr>lcount = 2, lfirst = Some 1, llast = Some 2\<rparr> two_nodes [1, 2]"
    by (simp add: is_list_def two_nodes_def)
  from gh_list_drains [OF this] show ?thesis by blast
qed

end
