(* ===== verification/Buffers.thy ===== *)
theory Buffers
  imports Prelude "HOL-Library.Log_Nat"
begin

text \<open>
  The growing byte buffers: the filespace of nsock/src/filespace.c that collects what was read
  for an event, and the \<open>strbuf\<close> functions of ncat/util.c.  Both keep an allocation, the length in
  use and a terminating NUL.  What a client may assume of a buffer is the locale \<open>byte_buffer\<close>;
  both implementations provide it.

  Storage is a list of cells, \<open>None\<close> for a byte that was allocated and never written.  A write
  outside the list is the fault \<open>Out_of_bounds\<close>.
\<close>

section \<open>Storage\<close>

type_synonym cells = "char option list"

text \<open>\<open>memcpy(p + off, s, n)\<close> and \<open>p[off] = c\<close>.\<close>

definition write_at :: "cells \<Rightarrow> nat \<Rightarrow> cstr \<Rightarrow> cells outcome" where
  "write_at mem off s =
     (if off + length s \<le> length mem
      then Inr (take off mem @ map Some s @ drop (off + length s) mem)
      else Inl Out_of_bounds)"

definition holds :: "cells \<Rightarrow> cstr \<Rightarrow> bool" where
  "holds mem s \<longleftrightarrow> length s < length mem \<and> take (length s) mem = map Some s \<and> mem ! length s = Some NUL"

lemma length_write_at: "write_at mem off s = Inr mem' \<Longrightarrow> length mem' = length mem"
  by (auto simp: write_at_def split: if_splits)

lemma write_at_next:
  "length t \<le> length rest \<Longrightarrow>
    write_at (map Some s @ rest) (length s) t = Inr (map Some (s @ t) @ drop (length t) rest)"
  by (simp add: write_at_def)

text \<open>Appending to the text a buffer holds, with its new terminator.\<close>

lemma append_holds:
  assumes "take (length s) mem = map Some s" and "length s + length t < length mem"
  shows "\<exists>mem' mem''. write_at mem (length s) t = Inr mem' \<and>
    write_at mem' (length s + length t) [NUL] = Inr mem'' \<and> holds mem'' (s @ t) \<and> length mem'' = length mem"
proof -
  let ?m = "take (length s) mem @ map Some t @ drop (length s + length t) mem"
  let ?m' = "take (length s + length t) ?m @ [Some NUL] @ drop (length s + length t + 1) ?m"
  have w: "write_at mem (length s) t = Inr ?m" using assms(2) by (simp add: write_at_def)
  have l: "length ?m = length mem" using assms(2) by simp
  have w': "write_at ?m (length s + length t) [NUL] = Inr ?m'"
    using assms(2) l by (simp add: write_at_def)
  have p: "take (length s + length t) ?m = map Some (s @ t)"
    using assms by simp
  have "?m' = map Some (s @ t) @ Some NUL # drop (length s + length t + 1) ?m" unfolding p by simp
  moreover have "length s + length t < length ?m'" using l assms(2) by simp
  ultimately have "holds ?m' (s @ t)"
    by (simp add: holds_def nth_append)
  then show ?thesis using w w' trans [OF length_write_at [OF w'] l] by (intro exI conjI)
qed

section \<open>The filespace\<close>

record filespace =
  current_size :: int
  current_alloc :: int
  pos :: int
  str :: "cells option"

text \<open>Signed 32-bit arithmetic as the compiled code does it.\<close>

definition wrap_int :: "int \<Rightarrow> int" where
  "wrap_int x = sint (word_of_int x :: u32)"

definition safe_malloc :: "int \<Rightarrow> cells outcome" where
  "safe_malloc n = (if n < 0 then Inl Fatal_exit else Inr (replicate (nat n) None))"

definition FS_INITSIZE_DEFAULT :: int where "FS_INITSIZE_DEFAULT = 1024"

definition filespace_init :: "int \<Rightarrow> filespace outcome" where
  "filespace_init initial_size =
     (let n = (if initial_size = 0 then FS_INITSIZE_DEFAULT else initial_size)
      in case safe_malloc n of
           Inl e \<Rightarrow> Inl e
         | Inr mem \<Rightarrow>
             (case write_at mem 0 [NUL] of
                Inl e \<Rightarrow> Inl e
              | Inr mem' \<Rightarrow> Inr \<lparr>current_size = 0, current_alloc = n, pos = 0, str = Some mem'\<rparr>))"

definition fs_free :: "filespace \<Rightarrow> filespace" where
  "fs_free fs = fs\<lparr>current_alloc := 0, current_size := 0, pos := 0, str := None\<rparr>"

definition fs_length :: "filespace \<Rightarrow> int" where "fs_length fs = current_size fs"
definition fs_str :: "filespace \<Rightarrow> cells option" where "fs_str fs = str fs"

text \<open>
  \<open>(int)(current_alloc * 1.4 + 1)\<close> is computed with IEEE doubles: the constant is
  6305039478318694 / 2^52, and the product and the sum are rounded to 53 significant bits, ties to
  even.  All numbers below are scaled by 2^52.  A value that does not fit an \<open>int\<close> converts to
  the integer indefinite value of the x86-64 targets.
\<close>

definition round53 :: "int \<Rightarrow> int" where
  "round53 m =
     (let k = nat (bitlen m - 53); q = m div 2 ^ k; r = m mod 2 ^ k
      in (if 2 * r > 2 ^ k \<or> (2 * r = 2 ^ k \<and> odd q) then q + 1 else q) * 2 ^ k)"

definition scale_alloc :: "int \<Rightarrow> int" where
  "scale_alloc a =
     (let v = round53 (round53 (a * 6305039478318694) + 2 ^ 52) div 2 ^ 52
      in if v \<le> INT_MAX then v else - (2 ^ 31))"

text \<open>The body of the first conditional of \<open>fs_cat\<close>.\<close>

definition realloc_fs :: "filespace \<Rightarrow> int \<Rightarrow> filespace outcome" where
  "realloc_fs fs len =
     (let n = wrap_int (scale_alloc (current_alloc fs) + (100 + len))
      in case safe_malloc n of
           Inl e \<Rightarrow> Inl e
         | Inr tmp \<Rightarrow>
             (case str fs of
                None \<Rightarrow> Inl Null_deref
              | Some old \<Rightarrow>
                  if nat (current_size fs) \<le> length tmp \<and> nat (current_size fs) \<le> length old
                  then Inr (fs\<lparr>current_alloc := n,
                        str := Some (take (nat (current_size fs)) old @ drop (nat (current_size fs)) tmp)\<rparr>)
                  else Inl Out_of_bounds))"

text \<open>\<open>s\<close> is the object the source pointer points into; copying more than it holds is a fault.\<close>

definition fs_cat :: "filespace \<Rightarrow> cstr \<Rightarrow> int \<Rightarrow> (int \<times> filespace) outcome" where
  "fs_cat fs s len =
     (if len < 0 then Inr (-1, fs)
      else if len = 0 then Inr (0, fs)
      else case (if current_alloc fs - current_size fs < wrap_int (len + 2) then realloc_fs fs len else Inr fs) of
             Inl e \<Rightarrow> Inl e
           | Inr fs \<Rightarrow>
               (case str fs of
                  None \<Rightarrow> Inl Null_deref
                | Some mem \<Rightarrow>
                    if length s < nat len then Inl Out_of_bounds
                    else (case write_at mem (nat (current_size fs)) (take (nat len) s) of
                       Inl e \<Rightarrow> Inl e
                     | Inr mem' \<Rightarrow>
                         (case write_at mem' (nat (current_size fs + len)) [NUL] of
                            Inl e \<Rightarrow> Inl e
                          | Inr mem'' \<Rightarrow> Inr (0, fs\<lparr>current_size := current_size fs + len, str := Some mem''\<rparr>)))))"

section \<open>The string buffers of ncat\<close>

record strbuf =
  sb_buf :: "cells option"
  sb_size :: nat
  sb_offset :: nat

text \<open>\<open>size_t\<close> addition, which wraps at 64 bits.\<close>

definition size_add :: "nat \<Rightarrow> nat \<Rightarrow> nat" where "size_add m n = (m + n) mod 2 ^ 64"

text \<open>\<open>safe_realloc\<close> keeps the bytes and allocates the rest; a size that is negative as an \<open>int\<close> exits.\<close>

definition safe_realloc :: "cells option \<Rightarrow> nat \<Rightarrow> cells outcome" where
  "safe_realloc p n =
     (if safe_alloc_ok n
      then let old = (case p of None \<Rightarrow> [] | Some mem \<Rightarrow> mem)
           in Inr (take n old @ replicate (n - length old) None)
      else Inl Fatal_exit)"

definition strbuf_append :: "strbuf \<Rightarrow> cstr \<Rightarrow> strbuf outcome" where
  "strbuf_append b s =
     (if \<not> sb_offset b \<le> sb_size b then Inl Assert_failed
      else case (if length s \<ge> sb_size b - sb_offset b
                 then let n = size_add (sb_size b) (length s + 1)
                      in map_sum id (\<lambda>mem. b\<lparr>sb_size := n, sb_buf := Some mem\<rparr>) (safe_realloc (sb_buf b) n)
                 else Inr b) of
             Inl e \<Rightarrow> Inl e
           | Inr b \<Rightarrow>
               (case sb_buf b of
                  None \<Rightarrow> Inl Null_deref
                | Some mem \<Rightarrow>
                    (case write_at mem (sb_offset b) s of
                       Inl e \<Rightarrow> Inl e
                     | Inr mem' \<Rightarrow>
                         (case write_at mem' (sb_offset b + length s) [NUL] of
                            Inl e \<Rightarrow> Inl e
                          | Inr mem'' \<Rightarrow>
                              Inr (b\<lparr>sb_offset := sb_offset b + length s, sb_buf := Some mem''\<rparr>)))))"

definition strbuf_append_str :: "strbuf \<Rightarrow> cstr \<Rightarrow> strbuf outcome" where
  "strbuf_append_str b s = strbuf_append b (takeWhile (\<lambda>c. c \<noteq> NUL) s)"

text \<open>
  \<open>strbuf_sprintf\<close>, where \<open>out\<close> is the complete output of the format.  \<open>Vsnprintf\<close> writes as much
  of it as fits, with a terminator, and returns the full length.
\<close>

definition vsnprintf_at :: "cells \<Rightarrow> nat \<Rightarrow> nat \<Rightarrow> cstr \<Rightarrow> cells outcome" where
  "vsnprintf_at mem off n out = (if n = 0 then Inr mem else write_at mem off (take (n - 1) out @ [NUL]))"

text \<open>
  \<open>Vsnprintf(buf + off, n, ...)\<close> of nbase_str.c.  After a truncation it writes \<open>s[n - 1]\<close> again, also
  when \<open>n\<close> is 0; the index is then -1.
\<close>

definition Vsnprintf :: "cells \<Rightarrow> nat \<Rightarrow> nat \<Rightarrow> cstr \<Rightarrow> (nat \<times> cells) outcome" where
  "Vsnprintf mem off n out =
     bind_out (vsnprintf_at mem off n out) (\<lambda>mem.
       if n \<le> length out
       then (if off + n = 0 then Inl Out_of_bounds
             else map_sum id (Pair (length out)) (write_at mem (off + n - 1) [NUL]))
       else Inr (length out, mem))"

text \<open>
  One turn of the loop: \<open>Inr (Inl b)\<close> goes round again with a larger allocation, \<open>Inr (Inr b)\<close>
  is the finished buffer.
\<close>

definition sprintf_step :: "strbuf \<Rightarrow> cstr \<Rightarrow> (strbuf + strbuf) outcome" where
  "sprintf_step b out =
     (case sb_buf b of
        None \<Rightarrow> Inl Null_deref
      | Some mem \<Rightarrow>
          bind_out (Vsnprintf mem (sb_offset b) (sb_size b - sb_offset b) out) (\<lambda>(n, mem').
            if n \<ge> sb_size b - sb_offset b
            then let size' = size_add (sb_size b) (n + 1)
                 in bind_out (safe_realloc (Some mem') size') (\<lambda>mem''.
                      Inr (Inl (b\<lparr>sb_size := size', sb_buf := Some mem''\<rparr>)))
            else Inr (Inr (b\<lparr>sb_offset := sb_offset b + n, sb_buf := Some mem'\<rparr>))))"

partial_function (option) sprintf_loop :: "strbuf \<Rightarrow> cstr \<Rightarrow> strbuf outcome option" where
  "sprintf_loop b out =
     (case sprintf_step b out of
        Inl e \<Rightarrow> Some (Inl e)
      | Inr (Inl b') \<Rightarrow> sprintf_loop b' out
      | Inr (Inr b') \<Rightarrow> Some (Inr b'))"

definition strbuf_sprintf :: "strbuf \<Rightarrow> cstr \<Rightarrow> strbuf outcome option" where
  "strbuf_sprintf b out =
     (if \<not> sb_offset b \<le> sb_size b then Some (Inl Assert_failed)
      else case sb_buf b of
             None \<Rightarrow>
               (case safe_malloc 1 of
                  Inl e \<Rightarrow> Some (Inl e)
                | Inr mem \<Rightarrow> sprintf_loop (b\<lparr>sb_size := 1, sb_buf := Some mem\<rparr>) out)
           | Some mem \<Rightarrow> sprintf_loop b out)"

text \<open>\<open>*size - *offset\<close> is unsigned; the assertion on entry is what keeps it from wrapping.\<close>

section \<open>What a client may assume of a buffer\<close>

primrec append_list :: "('b \<Rightarrow> cstr \<Rightarrow> 'b outcome) \<Rightarrow> 'b \<Rightarrow> cstr list \<Rightarrow> 'b outcome" where
  "append_list app b [] = Inr b"
| "append_list app b (t # ts) = (case app b t of Inl e \<Rightarrow> Inl e | Inr b' \<Rightarrow> append_list app b' ts)"

locale byte_buffer =
  fixes wf :: "'b \<Rightarrow> cstr \<Rightarrow> bool"
    and append_to :: "'b \<Rightarrow> cstr \<Rightarrow> 'b outcome"
    and limit :: nat
  assumes append_law: "wf b s \<Longrightarrow> length (s @ t) < limit \<Longrightarrow> \<exists>b'. append_to b t = Inr b' \<and> wf b' (s @ t)"
begin

lemma append_list_ok:
  "wf b s \<Longrightarrow> length (s @ concat ts) < limit \<Longrightarrow>
    \<exists>b'. append_list append_to b ts = Inr b' \<and> wf b' (s @ concat ts)"
proof (induction ts arbitrary: b s)
  case (Cons t ts)
  obtain b' where "append_to b t = Inr b'" "wf b' (s @ t)"
    using append_law [OF Cons.prems(1), of t] Cons.prems(2) by auto
  then show ?case using Cons.IH [of b' "s @ t"] Cons.prems(2) by auto
qed simp

end

section \<open>The filespace is a buffer\<close>

lemma wrap_int_mod: "wrap_int x = (x + 2 ^ 31) mod 2 ^ 32 - 2 ^ 31"
  unfolding wrap_int_def int_word_sint by simp

lemma wrap_int_id: "- (2 ^ 31) \<le> x \<Longrightarrow> x \<le> INT_MAX \<Longrightarrow> wrap_int x = x"
  by (simp add: wrap_int_mod)

lemma wrap_int_over: "2 ^ 31 \<le> x \<Longrightarrow> x < 2 ^ 32 \<Longrightarrow> wrap_int x < 0"
proof -
  assume a: "2 ^ 31 \<le> x" "x < 2 ^ 32"
  have "x + 2 ^ 31 = (x - 2 ^ 31) + 1 * 2 ^ 32" by simp
  then have "(x + 2 ^ 31) mod 2 ^ 32 = ((x - 2 ^ 31) + 1 * 2 ^ 32) mod 2 ^ 32" by (simp only:)
  also have "\<dots> = x - 2 ^ 31" using a by (subst mod_mult_self1) simp
  finally show ?thesis using a by (simp add: wrap_int_mod)
qed

lemma bitlen_pow: "0 < m \<Longrightarrow> 2 ^ nat (bitlen m - 53) * 2 ^ 52 \<le> m \<or> bitlen m \<le> 53"
proof -
  assume m: "0 < m"
  show ?thesis
  proof (cases "bitlen m \<le> 53")
    case False
    have "2 ^ nat (bitlen m - 1) \<le> m" using bitlen_bounds [OF m] by simp
    moreover have "nat (bitlen m - 1) = nat (bitlen m - 53) + 52" using False by simp
    ultimately show ?thesis by (metis power_add)
  qed simp
qed

lemma round53_close:
  assumes "0 < m"
  shows "m * (2 ^ 52 - 1) \<le> round53 m * 2 ^ 52 \<and> round53 m * 2 ^ 52 \<le> m * (2 ^ 52 + 1)"
proof -
  define k where "k = nat (bitlen m - 53)"
  define p :: int where "p = 2 ^ k"
  have p: "0 < p" by (simp add: p_def)
  have q: "m div p * p = m - m mod p" by (simp add: minus_mod_eq_div_mult)
  show ?thesis
  proof (cases "bitlen m \<le> 53")
    case True
    then have "round53 m = m" by (simp add: round53_def)
    then show ?thesis using assms by simp
  next
    case False
    then have pm: "p * 2 ^ 52 \<le> m" using bitlen_pow [OF assms] by (simp add: p_def k_def)
    have "m mod p < p" "0 \<le> m mod p" using p by simp_all
    moreover have "round53 m = m - m mod p \<or> round53 m = m - m mod p + p"
      unfolding q [symmetric] by (simp add: round53_def Let_def distrib_right flip: k_def p_def)
    ultimately have "m - p \<le> round53 m \<and> round53 m \<le> m + p" by auto
    then show ?thesis using pm by auto
  qed
qed

lemma scale_alloc_bounds:
  assumes "0 < a" "a \<le> 1300000000"
  shows "a \<le> scale_alloc a \<and> scale_alloc a \<le> a + a div 2 + 2"
proof -
  define u where "u = round53 (a * 6305039478318694)"
  define v where "v = round53 (u + 2 ^ 52)"
  have u: "a * 6305039478318694 * (2 ^ 52 - 1) \<le> u * 2 ^ 52 \<and> u * 2 ^ 52 \<le> a * 6305039478318694 * (2 ^ 52 + 1)"
    unfolding u_def by (rule round53_close) (use assms in simp)
  then have u': "a * 6000000000000000 \<le> u" "u \<le> a * 6400000000000000" using assms by simp_all
  have v: "(u + 2 ^ 52) * (2 ^ 52 - 1) \<le> v * 2 ^ 52 \<and> v * 2 ^ 52 \<le> (u + 2 ^ 52) * (2 ^ 52 + 1)"
    unfolding v_def by (rule round53_close) (use u' assms in simp)
  then have "a * 2 ^ 52 \<le> v" "v \<le> a * 6600000000000000 + 2 * 2 ^ 52" using u' assms by simp_all
  then have d: "a \<le> v div 2 ^ 52" "v div 2 ^ 52 \<le> a + a div 2 + 2"
    using zdiv_mono1 [of "a * 2 ^ 52" v "2 ^ 52"] by simp_all
  have "v div 2 ^ 52 \<le> INT_MAX" using d(2) assms by linarith
  then show ?thesis using d unfolding scale_alloc_def u_def [symmetric] v_def [symmetric] by (simp add: Let_def)
qed

text \<open>The invariant of a filespace that holds the text \<open>s\<close>.\<close>

definition fs_wf :: "filespace \<Rightarrow> cstr \<Rightarrow> bool" where
  "fs_wf fs s \<longleftrightarrow> 0 < current_alloc fs \<and> current_alloc fs \<le> 3 * int (length s) + 2 ^ 16 \<and> current_size fs = int (length s) \<and>
     (case str fs of None \<Rightarrow> False | Some mem \<Rightarrow> length mem = nat (current_alloc fs) \<and> holds mem s)"

definition fs_put :: "filespace \<Rightarrow> cstr \<Rightarrow> filespace outcome" where
  "fs_put fs s = map_sum id snd (fs_cat fs s (int (length s)))"

lemma realloc_fs_ok:
  assumes "fs_wf fs s" "length s + length t < 2 ^ 29" "current_alloc fs - current_size fs < int (length t) + 2"
  shows "\<exists>fs' mem. realloc_fs fs (int (length t)) = Inr fs' \<and> str fs' = Some mem \<and>
       current_size fs' = current_size fs \<and> length mem = nat (current_alloc fs') \<and>
       take (length s) mem = map Some s \<and> length s + length t < length mem \<and>
       0 < current_alloc fs' \<and> current_alloc fs' \<le> 3 * int (length (s @ t)) + 2 ^ 16"
proof -
  let ?x = "scale_alloc (current_alloc fs) + (100 + int (length t))"
  obtain old where old: "str fs = Some old" "length old = nat (current_alloc fs)" "holds old s"
    using assms(1) by (auto simp: fs_wf_def split: option.splits)
  have a: "0 < current_alloc fs" and sz: "current_size fs = int (length s)"
    using assms(1) by (auto simp: fs_wf_def)
  have al: "current_alloc fs \<le> int (length s) + int (length t) + 1" using assms(3) sz by simp
  have sc: "current_alloc fs \<le> scale_alloc (current_alloc fs)"
      "scale_alloc (current_alloc fs) \<le> current_alloc fs + current_alloc fs div 2 + 2"
    using scale_alloc_bounds [OF a] al assms(2) by simp_all
  have x: "current_alloc fs + int (length t) < ?x" "?x \<le> 3 * int (length (s @ t)) + 2 ^ 16"
    using sc al by simp_all
  have w: "wrap_int ?x = ?x" using x a assms(2) by (intro wrap_int_id) simp_all
  have sa: "length s < length old" and ts: "take (length s) old = map Some s"
    using old(3) by (auto simp: holds_def)
  let ?mem = "take (length s) old @ drop (length s) (replicate (nat ?x) None)"
  have l: "length s \<le> nat ?x" "length s + length t < nat ?x" "0 \<le> ?x"
    using x sa old(2) a by simp_all
  have r: "realloc_fs fs (int (length t)) = Inr (fs\<lparr>current_alloc := ?x, str := Some ?mem\<rparr>)"
    using l sa old(1) sz by (simp add: realloc_fs_def safe_malloc_def w Let_def)
  moreover have "length ?mem = nat ?x" using l sa by simp
  ultimately show ?thesis using l ts sa x a sz by auto
qed

lemma fs_put_law:
  assumes "fs_wf fs s" "length (s @ t) < 2 ^ 29"
  shows "\<exists>fs'. fs_put fs t = Inr fs' \<and> fs_wf fs' (s @ t)"
proof (cases "t = []")
  case True
  then show ?thesis using assms by (simp add: fs_put_def fs_cat_def)
next
  case False
  define grown where "grown = (if current_alloc fs - current_size fs < wrap_int (int (length t) + 2)
      then realloc_fs fs (int (length t)) else Inr fs)"
  have wi: "wrap_int (int (length t) + 2) = int (length t) + 2"
    by (rule wrap_int_id) (use assms(2) in auto)
  have sz: "current_size fs = int (length s)" using assms(1) by (simp add: fs_wf_def)
  have "\<exists>fs' mem. grown = Inr fs' \<and> str fs' = Some mem \<and>
       current_size fs' = current_size fs \<and> length mem = nat (current_alloc fs') \<and>
       take (length s) mem = map Some s \<and> length s + length t < length mem \<and>
       0 < current_alloc fs' \<and> current_alloc fs' \<le> 3 * int (length (s @ t)) + 2 ^ 16"
  proof (cases "current_alloc fs - current_size fs < int (length t) + 2")
    case True
    then show ?thesis using realloc_fs_ok [OF assms(1) _ True] assms(2) by (simp add: grown_def wi)
  next
    case False
    then show ?thesis using assms(1) by (auto simp: grown_def wi fs_wf_def holds_def split: option.splits)
  qed
  then obtain fs' mem where 2: "grown = Inr fs'" "str fs' = Some mem"
      "current_size fs' = current_size fs" "length mem = nat (current_alloc fs')"
      "take (length s) mem = map Some s" "length s + length t < length mem"
      "0 < current_alloc fs'" "current_alloc fs' \<le> 3 * int (length (s @ t)) + 2 ^ 16"
    by blast
  obtain m1 m2 where m: "write_at mem (length s) t = Inr m1"
      "write_at m1 (length s + length t) [NUL] = Inr m2" "holds m2 (s @ t)" "length m2 = length mem"
    using append_holds [OF 2(5,6)] by blast
  have "fs_put fs t = Inr (fs'\<lparr>current_size := current_size fs + int (length t), str := Some m2\<rparr>)"
    unfolding fs_put_def fs_cat_def grown_def [symmetric] using False 2 m sz
    by (simp add: nat_add_distrib)
  then show ?thesis using 2 m sz by (simp add: fs_wf_def)
qed

interpretation filespace_buffer: byte_buffer fs_wf fs_put "2 ^ 29"
  by unfold_locales (rule fs_put_law)

lemma filespace_init_wf:
  assumes "0 \<le> n" "n \<le> 2 ^ 16"
  shows "\<exists>fs. filespace_init n = Inr fs \<and> fs_wf fs []"
  using assms
  by (cases "n = 0") (simp_all add: filespace_init_def FS_INITSIZE_DEFAULT_def safe_malloc_def write_at_def fs_wf_def holds_def Let_def)

section \<open>The string buffers are buffers\<close>

definition sb_wf :: "strbuf \<Rightarrow> cstr \<Rightarrow> bool" where
  "sb_wf b s \<longleftrightarrow> sb_offset b = length s \<and> sb_size b \<le> 2 * length s + 1 \<and>
     (case sb_buf b of None \<Rightarrow> sb_size b = 0 \<and> s = [] | Some mem \<Rightarrow> length mem = sb_size b \<and> holds mem s)"

lemma sb_wf_offset: "sb_wf b s \<Longrightarrow> sb_offset b \<le> sb_size b"
  by (auto simp: sb_wf_def holds_def split: option.splits)

lemma grow_ok:
  assumes "length (s @ t) < 2 ^ 29" "length s \<le> m" "m - length s \<le> length t"
    and "case p of None \<Rightarrow> m = 0 | Some mem \<Rightarrow> length mem = m \<and> take (length s) mem = map Some s"
  shows "\<exists>mem. safe_realloc p (size_add m (length t + 1)) = Inr mem \<and>
       size_add m (length t + 1) = m + length t + 1 \<and> m + length t + 1 \<le> 2 * length (s @ t) + 1 \<and>
       length mem = m + length t + 1 \<and> take (length s) mem = map Some s"
proof -
  have sz: "size_add m (length t + 1) = m + length t + 1" using assms by (simp add: size_add_def)
  have "safe_alloc_ok (m + length t + 1) \<longleftrightarrow> m + length t + 1 < 2 ^ 31"
    by (rule safe_alloc_ok_iff) (use assms in simp)
  then have ok: "safe_alloc_ok (m + length t + 1)" using assms by simp
  show ?thesis unfolding sz
    using assms ok by (auto simp: safe_realloc_def Let_def split: option.splits)
qed

lemma strbuf_append_law:
  assumes "sb_wf b s" "length (s @ t) < 2 ^ 29"
  shows "\<exists>b'. strbuf_append b t = Inr b' \<and> sb_wf b' (s @ t)"
proof -
  define grown where "grown = (if length t \<ge> sb_size b - sb_offset b
      then let n = size_add (sb_size b) (length t + 1)
           in map_sum id (\<lambda>mem. b\<lparr>sb_size := n, sb_buf := Some mem\<rparr>) (safe_realloc (sb_buf b) n)
      else Inr b)"
  note w = assms(1) [unfolded sb_wf_def]
  have "\<exists>b' mem. grown = Inr b' \<and> sb_buf b' = Some mem \<and>
      sb_offset b' = sb_offset b \<and> length mem = sb_size b' \<and> sb_size b' \<le> 2 * length (s @ t) + 1 \<and>
      take (length s) mem = map Some s \<and> length s + length t < length mem"
  proof (cases "length t \<ge> sb_size b - sb_offset b")
    case True
    have "\<exists>mem. safe_realloc (sb_buf b) (size_add (sb_size b) (length t + 1)) = Inr mem \<and>
         size_add (sb_size b) (length t + 1) = sb_size b + length t + 1 \<and>
         sb_size b + length t + 1 \<le> 2 * length (s @ t) + 1 \<and>
         length mem = sb_size b + length t + 1 \<and> take (length s) mem = map Some s"
      using w sb_wf_offset [OF assms(1)] assms(2) True
      by (intro grow_ok) (auto simp: holds_def split: option.splits)
    then show ?thesis
      using True w sb_wf_offset [OF assms(1)] by (auto simp: grown_def Let_def)
  next
    case False
    then have "sb_buf b \<noteq> None" using w by (auto split: option.splits)
    then show ?thesis using False w by (auto simp: grown_def holds_def split: option.splits)
  qed
  then obtain b' mem where 2: "grown = Inr b'" "sb_buf b' = Some mem"
      "sb_offset b' = sb_offset b" "length mem = sb_size b'" "sb_size b' \<le> 2 * length (s @ t) + 1"
      "take (length s) mem = map Some s" "length s + length t < length mem"
    by blast
  obtain m1 m2 where m: "write_at mem (length s) t = Inr m1"
      "write_at m1 (length s + length t) [NUL] = Inr m2" "holds m2 (s @ t)" "length m2 = length mem"
    using append_holds [OF 2(6,7)] by blast
  have "strbuf_append b t = Inr (b'\<lparr>sb_offset := sb_offset b' + length t, sb_buf := Some m2\<rparr>)"
    unfolding strbuf_append_def grown_def [symmetric] using sb_wf_offset [OF assms(1)] 2 m w by simp
  then show ?thesis using 2 m w by (simp add: sb_wf_def)
qed

interpretation string_buffer: byte_buffer sb_wf strbuf_append "2 ^ 29"
  by unfold_locales (rule strbuf_append_law)

lemma sprintf_turn:
  assumes "sb_buf b = Some mem" "length mem = sb_size b" "sb_size b \<le> 2 * length (s @ out) + 1" "sb_offset b = length s"
    and "take (length s) mem = map Some s" "length s < sb_size b" "length (s @ out) < 2 ^ 29"
  shows "(\<exists>b'. sprintf_step b out = Inr (Inr b') \<and> sb_wf b' (s @ out)) \<or>
    (\<exists>b' mem'. sprintf_step b out = Inr (Inl b') \<and> sb_size b - sb_offset b \<le> length out \<and>
       sb_buf b' = Some mem' \<and> length mem' = sb_size b' \<and> sb_size b' \<le> 2 * length (s @ out) + 1 \<and>
       sb_offset b' = length s \<and> take (length s) mem' = map Some s \<and> length s + length out < sb_size b')"
proof (cases "length out \<ge> sb_size b - sb_offset b")
  case True
  then have "length (take (sb_size b - length s - 1) out) = sb_size b - length s - 1"
    using assms by simp
  then have "length s + length (take (sb_size b - length s - 1) out @ [NUL]) \<le> length mem"
    using assms by simp
  then obtain m0 where m0: "write_at mem (length s) (take (sb_size b - length s - 1) out @ [NUL]) = Inr m0"
      "length m0 = length mem" "take (length s) m0 = map Some s"
    unfolding write_at_def using assms by simp
  then obtain m1 where m1: "write_at m0 (sb_size b - 1) [NUL] = Inr m1" "length m1 = length mem"
      "take (length s) m1 = map Some s"
    unfolding write_at_def using assms by simp
  have v: "Vsnprintf mem (length s) (sb_size b - length s) out = Inr (length out, m1)"
    using m0(1) m1(1) True assms by (simp add: Vsnprintf_def vsnprintf_at_def)
  have "\<exists>mem. safe_realloc (Some m1) (size_add (sb_size b) (length out + 1)) = Inr mem \<and>
         size_add (sb_size b) (length out + 1) = sb_size b + length out + 1 \<and>
         sb_size b + length out + 1 \<le> 2 * length (s @ out) + 1 \<and>
         length mem = sb_size b + length out + 1 \<and> take (length s) mem = map Some s"
    using assms m1 True by (intro grow_ok) auto
  then show ?thesis
    using True assms v by (auto simp: sprintf_step_def Let_def)
next
  case False
  then have fits: "length s + length out < length mem" using assms by simp
  let ?m = "take (length s) mem @ map Some (out @ [NUL]) @ drop (length s + length out + 1) mem"
  have t: "take (sb_size b - length s - 1) out = out" using fits assms(2) by simp
  have "vsnprintf_at mem (length s) (sb_size b - length s) out = Inr ?m"
    using fits assms(2) unfolding vsnprintf_at_def t by (simp add: write_at_def)
  then have w: "Vsnprintf mem (length s) (sb_size b - length s) out = Inr (length out, ?m)"
    using False assms(4) by (simp add: Vsnprintf_def)
  have "?m = map Some (s @ out) @ Some NUL # drop (length s + length out + 1) mem" using assms(5) by simp
  then have "holds ?m (s @ out)" using fits by (simp add: holds_def nth_append)
  moreover have "length ?m = length mem" using fits by simp
  ultimately show ?thesis
    using False assms w by (auto simp: sprintf_step_def sb_wf_def)
qed

lemma strbuf_sprintf_ok:
  assumes "sb_wf b s" "length (s @ out) < 2 ^ 29"
  shows "\<exists>b'. strbuf_sprintf b out = Some (Inr b') \<and> sb_wf b' (s @ out)"
proof -
  have any: "\<exists>b'. sprintf_loop b out = Some (Inr b') \<and> sb_wf b' (s @ out)"
    if t: "sb_buf b = Some mem" "length mem = sb_size b" "sb_size b \<le> 2 * length (s @ out) + 1"
      "sb_offset b = length s" "take (length s) mem = map Some s" "length s < sb_size b" for b mem
    using sprintf_turn [OF t assms(2)]
  proof (elim disjE exE conjE)
    fix b' mem'
    assume *: "sprintf_step b out = Inr (Inl b')" "sb_buf b' = Some mem'" "length mem' = sb_size b'"
      "sb_size b' \<le> 2 * length (s @ out) + 1" "sb_offset b' = length s" "take (length s) mem' = map Some s"
      "length s + length out < sb_size b'"
    have "\<exists>b''. sprintf_loop b' out = Some (Inr b'') \<and> sb_wf b'' (s @ out)"
      using sprintf_turn [OF *(2-6) _ assms(2)] *(5,7) by (subst sprintf_loop.simps) auto
    then show ?thesis by (subst sprintf_loop.simps) (simp add: *(1))
  qed (subst sprintf_loop.simps, simp)
  show ?thesis
  proof (cases "sb_buf b")
    case None
    have "\<exists>b'. sprintf_loop (b\<lparr>sb_size := 1, sb_buf := Some [None]\<rparr>) out = Some (Inr b') \<and> sb_wf b' (s @ out)"
      using None assms(1) by (intro any [of _ "[None]"]) (auto simp: sb_wf_def)
    then show ?thesis
      using None sb_wf_offset [OF assms(1)] by (simp add: strbuf_sprintf_def safe_malloc_def)
  next
    case (Some mem)
    then have "\<exists>b'. sprintf_loop b out = Some (Inr b') \<and> sb_wf b' (s @ out)"
      using assms(1) by (intro any [of b mem]) (auto simp: sb_wf_def holds_def)
    then show ?thesis using Some sb_wf_offset [OF assms(1)] by (simp add: strbuf_sprintf_def)
  qed
qed

section \<open>What the code promises of its buffers\<close>



text \<open>
  The loop of \<open>strbuf_sprintf\<close> ends, after at most one enlargement, and the buffer then holds
  the old text followed by the whole formatted output, however small the allocation was.
\<close>

theorem strbuf_sprintf_complete:
  assumes "sb_wf b s" and "length (s @ out) < 2 ^ 29"
  shows "\<exists>b'. strbuf_sprintf b out = Some (Inr b') \<and> sb_wf b' (s @ out)"
  using assms by (rule strbuf_sprintf_ok)

theorem strbuf_sprintf_complete_witness:
  "\<exists>b'. strbuf_sprintf \<lparr>sb_buf = None, sb_size = 0, sb_offset = 0\<rparr> ''Host: a'' = Some (Inr b') \<and>
    sb_wf b' ''Host: a''"
  using strbuf_sprintf_complete [of "\<lparr>sb_buf = None, sb_size = 0, sb_offset = 0\<rparr>" "[]" "''Host: a''"]
  by (simp add: sb_wf_def)

end
