(* ===== verification/Nbase_Str.thy ===== *)
theory Nbase_Str
  imports Buffers
begin

text \<open>
  The string helpers of nbase/nbase_str.c: bounded copies, case-insensitive search, the escaping of
  a Windows command-line argument, the replacement of unprintable bytes and the splitting of paths.
\<close>

section \<open>Copies and searches\<close>

text \<open>\<open>strncpy\<close> fills \<open>n\<close> bytes, padding with NUL; \<open>Strncpy\<close> then terminates the copy.\<close>

definition strncpy :: "cells \<Rightarrow> cstr \<Rightarrow> nat \<Rightarrow> cells outcome" where
  "strncpy dest src n = write_at dest 0 (take n (src @ replicate n NUL))"

definition Strncpy :: "cells \<Rightarrow> cstr \<Rightarrow> nat \<Rightarrow> (int \<times> cells) outcome" where
  "Strncpy dest src n =
     bind_out (strncpy dest src n) (\<lambda>dest.
       if n = 0 \<or> length dest < n then Inl Out_of_bounds
       else if dest ! (n - 1) = Some NUL then Inr (0, dest)
       else Inr (-1, dest[n - 1 := Some NUL]))"

definition Snprintf :: "cells \<Rightarrow> nat \<Rightarrow> cstr \<Rightarrow> (nat \<times> cells) outcome" where
  "Snprintf s n out = Vsnprintf s 0 n out"

text \<open>The two pointers of \<open>mkstr\<close> and of \<open>strchr_p\<close> are offsets into one object.\<close>

definition mkstr :: "cstr \<Rightarrow> nat \<Rightarrow> nat \<Rightarrow> cells outcome" where
  "mkstr mem start finish =
     (if \<not> start \<le> finish then Inl Assert_failed
      else bind_out (safe_malloc (int (finish - start + 1))) (\<lambda>s.
        if length mem < finish then Inl Out_of_bounds
        else bind_out (write_at s 0 (take (finish - start) (drop start mem))) (\<lambda>s.
          write_at s (finish - start) [NUL])))"

function strchr_p_loop :: "cstr \<Rightarrow> nat \<Rightarrow> nat \<Rightarrow> char \<Rightarrow> nat option" where
  "strchr_p_loop mem q finish c =
     (if q < finish then (if mem ! q = c then Some q else strchr_p_loop mem (q + 1) finish c) else None)"
  by pat_completeness auto
termination by (relation "measure (\<lambda>(mem, q, finish, c). finish - q)") auto

declare strchr_p_loop.simps [simp del]

definition strchr_p :: "cstr \<Rightarrow> nat \<Rightarrow> nat \<Rightarrow> char \<Rightarrow> nat option outcome" where
  "strchr_p mem s finish c =
     (if \<not> s \<le> finish then Inl Assert_failed
      else if length mem < finish then Inl Out_of_bounds
      else Inr (strchr_p_loop mem s finish c))"

text \<open>
  \<open>strcasestr\<close>.  The needle is copied in lower case into an array of \<open>char\<close>, which is signed on
  the targets: \<open>tolower((unsigned char)*p) == *foundto\<close> compares a value of 0 to 255 with one
  of -128 to 127.
\<close>

definition char_eq :: "char \<Rightarrow> char \<Rightarrow> bool" where
  "char_eq c d \<longleftrightarrow> int (code_of (to_lower c)) = sint (word_of_nat (code_of d) :: u8)"

function casestr_loop :: "cstr \<Rightarrow> cstr \<Rightarrow> nat \<Rightarrow> nat \<Rightarrow> nat option" where
  "casestr_loop haystack needle p foundto =
     (if p < length haystack
      then (if char_eq (haystack ! p) (deref (drop foundto needle))
            then (if deref (drop (foundto + 1) needle) = NUL
                  then Some (p + 1 - length needle)
                  else casestr_loop haystack needle (p + 1) (foundto + 1))
            else casestr_loop haystack needle (p - foundto + 1) 0)
      else None)"
  by pat_completeness auto
termination
  by (relation "measures [\<lambda>(h, n, p, k). length h - (p - k), \<lambda>(h, n, p, k). length h - p]") auto

declare casestr_loop.simps [simp del]

definition strcasestr :: "cstr \<Rightarrow> cstr \<Rightarrow> nat option" where
  "strcasestr haystack pneedle =
     (if pneedle = [] then Some 0 else casestr_loop haystack (map to_lower pneedle) 0 0)"

text \<open>\<open>alloc_vsprintf\<close> with the complete output \<open>out\<close>; the loop goes round at most twice.\<close>

function alloc_loop :: "cells option \<Rightarrow> nat \<Rightarrow> cstr \<Rightarrow> (nat \<times> cells) outcome" where
  "alloc_loop s n out =
     bind_out (safe_realloc s n) (\<lambda>mem.
       bind_out (vsnprintf_at mem 0 n out) (\<lambda>mem.
         if n \<le> length out then alloc_loop (Some mem) (length out + 1) out else Inr (length out, mem)))"
  by pat_completeness auto
termination by (relation "measure (\<lambda>(s, n, out). length out + 1 - n)") auto

declare alloc_loop.simps [simp del]

definition alloc_vsprintf :: "cstr \<Rightarrow> (nat \<times> cells) outcome" where
  "alloc_vsprintf out = alloc_loop None 32 out"

section \<open>Arguments of a Windows command line\<close>

record wbuf =
  wb_buf :: cells
  rpos :: nat
  rsize :: nat

definition safe_append_char :: "wbuf \<Rightarrow> char \<Rightarrow> wbuf outcome" where
  "safe_append_char w byte =
     bind_out (if rpos w \<ge> rsize w
               then map_sum id (\<lambda>mem. w\<lparr>rsize := rsize w + 512, wb_buf := mem\<rparr>)
                      (safe_realloc (Some (wb_buf w)) (rsize w + 512))
               else Inr w) (\<lambda>w.
       map_sum id (\<lambda>mem. w\<lparr>wb_buf := mem, rpos := rpos w + 1\<rparr>) (write_at (wb_buf w) (rpos w) [byte]))"

primrec append_chars :: "wbuf \<Rightarrow> cstr \<Rightarrow> wbuf outcome" where
  "append_chars w [] = Inr w"
| "append_chars w (c # cs) = bind_out (safe_append_char w c) (\<lambda>w. append_chars w cs)"

abbreviation BACKSLASH :: char where "BACKSLASH \<equiv> CHR 0x5C"
abbreviation QUOTE :: char where "QUOTE \<equiv> CHR 0x22"

definition slashes :: "cstr \<Rightarrow> nat" where "slashes p = length (takeWhile (\<lambda>c. c = BACKSLASH) p)"
definition after_slashes :: "cstr \<Rightarrow> cstr" where "after_slashes p = dropWhile (\<lambda>c. c = BACKSLASH) p"

lemma after_slashes_length: "length (after_slashes p) \<le> length p"
  by (simp add: after_slashes_def)

function escape_loop :: "cstr \<Rightarrow> wbuf \<Rightarrow> wbuf outcome" where
  "escape_loop p w =
     (if p = [] then Inr w
      else case after_slashes p of
        [] \<Rightarrow> append_chars w (replicate (slashes p * 2) BACKSLASH)
      | c # q \<Rightarrow>
          if c = QUOTE
          then bind_out (append_chars w (replicate (slashes p * 2 + 1) BACKSLASH)) (\<lambda>w.
                 bind_out (map_sum id (\<lambda>mem. w\<lparr>wb_buf := mem, rpos := rpos w + 1\<rparr>)
                             (write_at (wb_buf w) (rpos w) [c])) (\<lambda>w.
                   escape_loop q w))
          else bind_out (append_chars w (replicate (slashes p) BACKSLASH)) (\<lambda>w.
                 bind_out (safe_append_char w c) (\<lambda>w. escape_loop q w)))"
  by pat_completeness auto
termination
proof (relation "measure (\<lambda>(p, w). length p)", goal_cases)
  case 1 then show ?case by simp
next
  case (2 p w c q)
  then show ?case using after_slashes_length [of p] by simp
next
  case (3 p w c q)
  then show ?case using after_slashes_length [of p] by simp
qed

declare escape_loop.simps [simp del]

definition escape_windows_command_arg :: "cstr \<Rightarrow> wbuf outcome" where
  "escape_windows_command_arg arg =
     bind_out (safe_malloc 1) (\<lambda>mem.
       bind_out (safe_append_char \<lparr>wb_buf = mem, rpos = 0, rsize = 1\<rparr> QUOTE) (\<lambda>w.
         bind_out (escape_loop arg w) (\<lambda>w.
           bind_out (safe_append_char w QUOTE) (\<lambda>w. safe_append_char w NUL))))"

section \<open>Printable text and paths\<close>

function replace_loop :: "cstr \<Rightarrow> nat \<Rightarrow> nat \<Rightarrow> char \<Rightarrow> cstr" where
  "replace_loop s i n replchar =
     (if i < n then replace_loop (if is_print (s ! i) then s else s[i := replchar]) (i + 1) n replchar else s)"
  by pat_completeness auto
termination by (relation "measure (\<lambda>(s, i, n, c). n - i)") auto

declare replace_loop.simps [simp del]

definition replacenonprintable :: "cstr \<Rightarrow> int \<Rightarrow> char \<Rightarrow> cstr outcome" where
  "replacenonprintable s strlength replchar =
     (if int (length s) < strlength then Inl Out_of_bounds else Inr (replace_loop s 0 (nat strlength) replchar))"

function separator_loop :: "cstr \<Rightarrow> int \<Rightarrow> int" where
  "separator_loop path p =
     (if p \<ge> 0 then (if path ! nat p = CHR ''/'' then p else separator_loop path (p - 1)) else -1)"
  by pat_completeness auto
termination by (relation "measure (\<lambda>(path, p). nat (p + 1))") auto

declare separator_loop.simps [simp del]

definition find_last_path_separator :: "cstr \<Rightarrow> int" where
  "find_last_path_separator path = separator_loop path (int (length path) - 1)"

definition path_get_dirname :: "cstr \<Rightarrow> cstr" where
  "path_get_dirname path =
     (let i = find_last_path_separator path
      in if i = -1 then ''.'' else if i = 0 then ''/'' else take (nat i) path)"

definition path_get_basename :: "cstr \<Rightarrow> cstr" where
  "path_get_basename path = drop (nat (find_last_path_separator path + 1)) path"

section \<open>Search\<close>

definition ascii :: "cstr \<Rightarrow> bool" where
  "ascii s \<longleftrightarrow> (\<forall>c\<in>set s. code_of c < 128)"

definition match_at :: "cstr \<Rightarrow> cstr \<Rightarrow> nat \<Rightarrow> bool" where
  "match_at h n p \<longleftrightarrow> map to_lower (take (length n) (drop p h)) = map to_lower n"

lemma code_to_lower_256: "code_of (to_lower c) < 256" by (rule code_of_less)

lemma to_lower_ascii: "code_of (to_lower c) < 128 \<longleftrightarrow> code_of c < 128"
  by (auto simp: code_to_lower)

lemma char_eq_ascii: "code_of d < 128 \<Longrightarrow> char_eq c d \<longleftrightarrow> to_lower c = d"
proof -
  assume d: "code_of d < 128"
  have "sint (word_of_nat (code_of d) :: u8) = int (code_of d)"
    using d int_word_sint [of "int (code_of d)", where ?'a = 8] by simp
  then show ?thesis by (simp add: char_eq_def)
qed

lemma match_nth:
  assumes "n \<noteq> []"
  shows "match_at h n p \<longleftrightarrow> p + length n \<le> length h \<and> (\<forall>i<length n. to_lower (h ! (p + i)) = to_lower (n ! i))"
proof
  assume m: "match_at h n p"
  then have "length (take (length n) (drop p h)) = length n"
    unfolding match_at_def by (metis length_map)
  then have "p + length n \<le> length h" using assms by (cases n) (auto simp: min_def split: if_splits)
  moreover have "to_lower (h ! (p + i)) = to_lower (n ! i)" if "i < length n" for i
  proof -
    have "map to_lower (take (length n) (drop p h)) ! i = map to_lower n ! i"
      using m by (simp add: match_at_def)
    then show ?thesis using that calculation by simp
  qed
  ultimately show "p + length n \<le> length h \<and> (\<forall>i<length n. to_lower (h ! (p + i)) = to_lower (n ! i))" by simp
next
  assume "p + length n \<le> length h \<and> (\<forall>i<length n. to_lower (h ! (p + i)) = to_lower (n ! i))"
  then show "match_at h n p" unfolding match_at_def by (intro nth_equalityI) auto
qed

lemma casestr_loop_first:
  assumes n: "n \<noteq> []" "is_cstr n" "ascii n"
    and "k < length n" "k \<le> p" "\<forall>i<k. to_lower (h ! (p - k + i)) = to_lower (n ! i)"
    and "\<forall>q<p - k. \<not> match_at h n q" "p \<le> length h"
  shows "casestr_loop h (map to_lower n) p k = Some r \<longleftrightarrow> match_at h n r \<and> (\<forall>q<r. \<not> match_at h n q)"
  using assms(4-)
proof (induction h "map to_lower n" p k rule: casestr_loop.induct)
  case (1 h p k)
  have nk: "deref (drop k (map to_lower n)) = to_lower (n ! k)"
    using 1(3) by (metis Cons_nth_drop_Suc deref_simps(2) drop_map length_map nth_map)
  have asc: "code_of (to_lower (n ! k)) < 128" using n(3) 1(3) by (simp add: ascii_def to_lower_ascii)
  show ?case
  proof (cases "p < length h")
    case False
    then have ph: "p = length h" using 1(7) by simp
    have "\<not> match_at h n q" for q
    proof (cases "q < p - k")
      case True then show ?thesis using 1(6) by simp
    next
      case False
      then have "length h < q + length n" using ph 1(3,4) by simp
      then show ?thesis using n(1) by (simp add: match_nth)
    qed
    then show ?thesis using False by (subst casestr_loop.simps) simp
  next
    case True
    note eqn = casestr_loop.simps [of h "map to_lower n" p k]
    show ?thesis
    proof (cases "to_lower (h ! p) = to_lower (n ! k)")
      case eq: True
      have pre: "\<forall>i<k + 1. to_lower (h ! (p - k + i)) = to_lower (n ! i)"
      proof (intro allI impI)
        fix i assume "i < k + 1"
        then show "to_lower (h ! (p - k + i)) = to_lower (n ! i)"
          using 1(5) eq 1(4) by (cases "i = k") auto
      qed
      have e: "char_eq (h ! p) (deref (drop k (map to_lower n)))"
        unfolding nk using asc by (simp add: char_eq_ascii eq)
      show ?thesis
      proof (cases "k + 1 = length n")
        case fin: True
        then have "casestr_loop h (map to_lower n) p k = Some (p + 1 - length n)"
          using True e by (subst eqn) simp
        moreover have m: "match_at h n (p - k)"
          using n(1) fin pre True 1(4) by (simp add: match_nth)
        moreover have "p + 1 - length n = p - k" using fin by simp
        ultimately show ?thesis using 1(6) by (metis linorder_neqE_nat option.inject)
      next
        case False
        then have k1: "k + 1 < length n" using 1(3) by simp
        then have "deref (drop (k + 1) (map to_lower n)) = to_lower (n ! (k + 1))"
          by (metis Cons_nth_drop_Suc deref_simps(2) drop_map length_map nth_map)
        moreover have "n ! (k + 1) \<noteq> NUL" using n(2) k1 by (metis is_cstr_def nth_mem)
        ultimately have ne: "deref (drop (k + 1) (map to_lower n)) \<noteq> NUL" by simp
        then have "casestr_loop h (map to_lower n) p k = casestr_loop h (map to_lower n) (p + 1) (k + 1)"
          using True e by (subst eqn) simp
        moreover have "casestr_loop h (map to_lower n) (p + 1) (k + 1) = Some r \<longleftrightarrow>
            match_at h n r \<and> (\<forall>q<r. \<not> match_at h n q)"
          using True e ne k1 1(4,6) pre by (intro 1(1)) simp_all
        ultimately show ?thesis by simp
      qed
    next
      case ne: False
      have e: "\<not> char_eq (h ! p) (deref (drop k (map to_lower n)))"
        unfolding nk using asc by (simp add: char_eq_ascii ne)
      then have "casestr_loop h (map to_lower n) p k = casestr_loop h (map to_lower n) (p - k + 1) 0"
        using True by (subst eqn) simp
      moreover have "casestr_loop h (map to_lower n) (p - k + 1) 0 = Some r \<longleftrightarrow>
          match_at h n r \<and> (\<forall>q<r. \<not> match_at h n q)"
      proof (rule 1(2))
        have "\<not> match_at h n (p - k)"
          using ne 1(3,4) n(1) by (auto simp: match_nth intro!: exI [of _ k])
        then show "\<forall>q<p - k + 1 - 0. \<not> match_at h n q" using 1(6) less_Suc_eq by auto
      qed (use True e n(1) in simp_all)
      ultimately show ?thesis by simp
    qed
  qed
qed

lemma strcasestr_first:
  assumes "is_cstr n" "ascii n"
  shows "strcasestr h n = Some r \<longleftrightarrow> match_at h n r \<and> (\<forall>q<r. \<not> match_at h n q)"
proof (cases "n = []")
  case True
  then have "match_at h n q" for q by (simp add: match_at_def)
  then show ?thesis using True by (auto simp: strcasestr_def)
next
  case False
  then show ?thesis
    using casestr_loop_first [OF False assms, of 0 0 h r] by (simp add: strcasestr_def)
qed

section \<open>Paths\<close>

lemma separator_loop_spec:
  assumes "p < int (length path)" "-1 \<le> p"
  shows "(separator_loop path p = -1 \<and> (\<forall>i. int i \<le> p \<longrightarrow> path ! i \<noteq> CHR ''/'')) \<or>
    (\<exists>k. separator_loop path p = int k \<and> int k \<le> p \<and> path ! k = CHR ''/'' \<and>
      (\<forall>i. k < i \<and> int i \<le> p \<longrightarrow> path ! i \<noteq> CHR ''/''))"
  using assms
proof (induction path p rule: separator_loop.induct)
  case (1 path p)
  show ?case
  proof (cases "p \<ge> 0")
    case False
    then show ?thesis using 1(3) by (subst (1 2) separator_loop.simps) simp
  next
    case True
    show ?thesis
    proof (cases "path ! nat p = CHR ''/''")
      case eq: True
      then show ?thesis using True
        by (intro disjI2 exI [of _ "nat p"]) (subst separator_loop.simps, auto)
    next
      case False
      have s: "separator_loop path p = separator_loop path (p - 1)"
        using True False by (subst separator_loop.simps) simp
      have less: "int i \<le> p \<longleftrightarrow> int i \<le> p - 1 \<or> i = nat p" for i using True by auto
      show ?thesis unfolding s less using 1(1) [OF True False] 1(2,3) True False by fastforce
    qed
  qed
qed

lemma last_separator:
  obtains (none) "find_last_path_separator path = -1" "CHR ''/'' \<notin> set path"
  | (some) dir base where "path = dir @ CHR ''/'' # base" "CHR ''/'' \<notin> set base"
      "find_last_path_separator path = int (length dir)"
proof -
  from separator_loop_spec [of "int (length path) - 1" path]
  consider "find_last_path_separator path = -1" "\<forall>i<length path. path ! i \<noteq> CHR ''/''"
    | k where "find_last_path_separator path = int k" "k < length path" "path ! k = CHR ''/''"
        "\<forall>i. k < i \<and> i < length path \<longrightarrow> path ! i \<noteq> CHR ''/''"
    unfolding find_last_path_separator_def by fastforce
  then show thesis
  proof cases
    case 1
    then show ?thesis using none by (auto simp: in_set_conv_nth)
  next
    case 2
    show ?thesis
    proof (rule some [of "take k path" "drop (k + 1) path"])
      show "path = take k path @ CHR ''/'' # drop (k + 1) path"
        using id_take_nth_drop [OF 2(2)] 2(3) by simp
      show "CHR ''/'' \<notin> set (drop (k + 1) path)"
        using 2(4) by (auto simp: in_set_conv_nth)
      show "find_last_path_separator path = int (length (take k path))" using 2 by simp
    qed
  qed
qed

lemma replace_loop_map:
  "i \<le> n \<Longrightarrow> n \<le> length s \<Longrightarrow> replace_loop s i n r =
    take i s @ map (\<lambda>c. if is_print c then c else r) (take (n - i) (drop i s)) @ drop n s"
proof (induction s i n r rule: replace_loop.induct)
  case (1 s i n r)
  let ?f = "\<lambda>c. if is_print c then c else r"
  show ?case
  proof (cases "i < n")
    case True
    let ?s = "if is_print (s ! i) then s else s[i := r]"
    have il: "i < length s" using True 1(3) by simp
    have s: "?s = take i s @ ?f (s ! i) # drop (i + 1) s"
      using id_take_nth_drop [OF il] upd_conv_take_nth_drop [OF il] by simp
    have d: "take (n - i) (drop i s) = s ! i # take (n - (i + 1)) (drop (i + 1) s)"
      using True il by (metis Cons_nth_drop_Suc Suc_diff_Suc Suc_eq_plus1 take_Suc_Cons)
    have dn: "drop (n - i) (x # drop (Suc i) s) = drop n s" for x
    proof -
      obtain m where "n = Suc (i + m)" using True less_imp_Suc_add by blast
      then show ?thesis by (simp add: Suc_diff_le add.commute)
    qed
    have "replace_loop s i n r = replace_loop ?s (i + 1) n r"
      using True by (subst replace_loop.simps) simp
    also have "\<dots> = take (i + 1) ?s @ map ?f (take (n - (i + 1)) (drop (i + 1) ?s)) @ drop n ?s"
      using 1(1) [OF True] 1(3) True by simp
    also have "\<dots> = take i s @ map ?f (take (n - i) (drop i s)) @ drop n s"
      unfolding d unfolding s using True il dn by (simp add: min_def)
    finally show ?thesis .
  qed (use 1 in \<open>subst replace_loop.simps, simp\<close>)
qed

section \<open>Escaped arguments\<close>

text \<open>The text the loop produces, and the invariant of the buffer it is written to.\<close>

function esc :: "cstr \<Rightarrow> cstr" where
  "esc p =
     (if p = [] then []
      else case after_slashes p of
        [] \<Rightarrow> replicate (slashes p * 2) BACKSLASH
      | c # q \<Rightarrow>
          (if c = QUOTE then replicate (slashes p * 2 + 1) BACKSLASH else replicate (slashes p) BACKSLASH) @ c # esc q)"
  by pat_completeness auto
termination
proof (relation "measure length", goal_cases)
  case (2 p c q)
  then show ?case using after_slashes_length [of p] by simp
qed simp

declare esc.simps [simp del]

definition wb_wf :: "wbuf \<Rightarrow> cstr \<Rightarrow> bool" where
  "wb_wf w s \<longleftrightarrow> rpos w = length s \<and> rpos w \<le> rsize w \<and> length (wb_buf w) = rsize w \<and>
     take (length s) (wb_buf w) = map Some s \<and>
     rsize w = 1 + 512 * ((length s + 510) div 512)"

lemma write_next:
  assumes "take (length s) mem = map Some s" "length s < length mem"
  shows "\<exists>mem'. write_at mem (length s) [c] = Inr mem' \<and> length mem' = length mem \<and>
    take (length s + 1) mem' = map Some (s @ [c])"
  using assms by (simp add: write_at_def)

text \<open>The sizes the buffer takes are one more than the multiples of 512.\<close>

lemma bucket_full: "(n::nat) = 1 + 512 * ((n + 510) div 512) \<Longrightarrow> n + 512 = 1 + 512 * ((n + 1 + 510) div 512)"
proof -
  define k where "k = (n + 510) div 512"
  assume "n = 1 + 512 * ((n + 510) div 512)"
  then have n: "n = 1 + 512 * k" by (simp add: k_def)
  have "(n + 1 + 510) div 512 = k + 1" by (rule div_nat_eqI) (simp_all add: n)
  then show ?thesis by (simp add: n)
qed

lemma bucket_keep: "(n::nat) < 1 + 512 * ((n + 510) div 512) \<Longrightarrow> (n + 1 + 510) div 512 = (n + 510) div 512"
proof -
  define k where "k = (n + 510) div 512"
  assume "n < 1 + 512 * ((n + 510) div 512)"
  then have n: "n < 1 + 512 * k" by (simp add: k_def)
  have "512 * k \<le> n + 510" unfolding k_def by (rule times_div_less_eq_dividend)
  then have "(n + 1 + 510) div 512 = k" by (intro div_nat_eqI) (use n in simp_all)
  then show ?thesis by (simp add: k_def)
qed

lemma bucket_edge: "2 \<le> (n::nat) \<Longrightarrow> n = 1 + 512 * ((n + 510) div 512) \<longleftrightarrow> n mod 512 = 1"
proof
  assume "n = 1 + 512 * ((n + 510) div 512)"
  then show "n mod 512 = 1" by (metis mod_mult_self2 numeral_One mod_less one_less_numeral_iff semiring_norm(76))
next
  assume m: "n mod 512 = 1"
  have n: "n = 512 * (n div 512) + 1" using m by (metis mult_div_mod_eq)
  have "(n + 510) div 512 = n div 512" by (rule div_nat_eqI) (use n in simp_all)
  then show "n = 1 + 512 * ((n + 510) div 512)" using n by simp
qed

lemma safe_append_char_ok:
  assumes "wb_wf w s" "length s < 2 ^ 29"
  shows "\<exists>w'. safe_append_char w c = Inr w' \<and> wb_wf w' (s @ [c])"
proof (cases "rpos w \<ge> rsize w")
  case True
  let ?mem = "take (rsize w + 512) (wb_buf w) @ replicate (rsize w + 512 - length (wb_buf w)) None"
  have w: "rpos w = length s" "rsize w = length s" "length (wb_buf w) = length s" "wb_buf w = map Some s"
    using True assms(1) by (auto simp: wb_wf_def)
  have "safe_alloc_ok (rsize w + 512)"
    using safe_alloc_ok_iff [of "rsize w + 512"] assms(2) w by simp
  then have r: "safe_realloc (Some (wb_buf w)) (rsize w + 512) = Inr ?mem" by (simp add: safe_realloc_def Let_def)
  have l: "take (length s) ?mem = map Some s" "length s < length ?mem" "length ?mem = rsize w + 512"
    using w by simp_all
  from write_next [OF l(1,2)] obtain mem' where "write_at ?mem (length s) [c] = Inr mem'"
      "length mem' = rsize w + 512" "take (length s + 1) mem' = map Some (s @ [c])"
    using l(3) by auto
  moreover have "rsize w + 512 = 1 + 512 * ((length s + 1 + 510) div 512)"
    using bucket_full [of "length s"] assms(1) w(2) by (simp only: wb_wf_def)
  ultimately show ?thesis using True r w by (simp add: safe_append_char_def wb_wf_def)
next
  case False
  note w = assms(1) [unfolded wb_wf_def]
  from write_next [of s "wb_buf w" c] obtain mem' where "write_at (wb_buf w) (length s) [c] = Inr mem'"
      "length mem' = length (wb_buf w)" "take (length s + 1) mem' = map Some (s @ [c])"
    using w False by auto
  moreover have "rsize w = 1 + 512 * ((length s + 1 + 510) div 512)"
    using False w bucket_keep [of "length s"] by simp
  ultimately show ?thesis using False w by (simp add: safe_append_char_def wb_wf_def)
qed

lemma append_chars_ok:
  "wb_wf w s \<Longrightarrow> length (s @ t) \<le> 2 ^ 29 \<Longrightarrow> \<exists>w'. append_chars w t = Inr w' \<and> wb_wf w' (s @ t)"
proof (induction t arbitrary: w s)
  case (Cons c t)
  obtain w' where "safe_append_char w c = Inr w'" "wb_wf w' (s @ [c])"
    using safe_append_char_ok [OF Cons.prems(1), of c] Cons.prems(2) by auto
  then show ?case using Cons.IH [of w' "s @ [c]"] Cons.prems(2) by auto
qed simp

interpretation argument_buffer: byte_buffer wb_wf append_chars "2 ^ 29"
  by unfold_locales (use append_chars_ok in \<open>auto simp: less_imp_le\<close>)

text \<open>
  The store after a double quote does not enlarge the buffer: it is out of bounds exactly when the
  buffer is full, that is, when the bytes written so far are one more than a multiple of 512.
\<close>

function quote_at_end :: "nat \<Rightarrow> cstr \<Rightarrow> bool" where
  "quote_at_end n p =
     (if p = [] then False
      else case after_slashes p of
        [] \<Rightarrow> False
      | c # q \<Rightarrow>
          if c = QUOTE then (n + slashes p * 2 + 1) mod 512 = 1 \<or> quote_at_end (n + slashes p * 2 + 2) q
          else quote_at_end (n + slashes p + 1) q)"
  by pat_completeness auto
termination
proof (relation "measure (\<lambda>(n, p). length p)", goal_cases)
  case (2 n p c q)
  then show ?case using after_slashes_length [of p] by simp
next
  case (3 n p c q)
  then show ?case using after_slashes_length [of p] by simp
qed simp

declare quote_at_end.simps [simp del]

lemma escape_loop_ok:
  assumes "wb_wf w s" "length (s @ esc p) < 2 ^ 29" "s \<noteq> []"
  shows "if quote_at_end (length s) p then escape_loop p w = Inl Out_of_bounds
    else \<exists>w'. escape_loop p w = Inr w' \<and> wb_wf w' (s @ esc p)"
  using assms
proof (induction p arbitrary: w s rule: length_induct)
  case (1 p)
  note loop = escape_loop.simps [of p w] and etext = esc.simps [of p]
    and full = quote_at_end.simps [of "length s" p]
  show ?case
  proof (cases "p = []")
    case True
    then show ?thesis using 1(2) loop etext full by simp
  next
    case ne: False
    show ?thesis
    proof (cases "after_slashes p")
      case Nil
      then have e: "esc p = replicate (slashes p * 2) BACKSLASH" using ne etext by simp
      then show ?thesis
        using append_chars_ok [OF 1(2), of "replicate (slashes p * 2) BACKSLASH"] 1(3) ne Nil loop full by simp
    next
      case (Cons c q)
      have q: "length q < length p" using Cons after_slashes_length [of p] by simp
      define b where "b = (if c = QUOTE then replicate (slashes p * 2 + 1) BACKSLASH else replicate (slashes p) BACKSLASH)"
      have e: "esc p = b @ c # esc q" using ne etext Cons by (simp add: b_def)
      obtain w1 where w1: "append_chars w b = Inr w1" "wb_wf w1 (s @ b)"
        using append_chars_ok [OF 1(2), of b] 1(3) e by auto
      have len: "length (s @ b) < 2 ^ 29" "length ((s @ b @ [c]) @ esc q) < 2 ^ 29" using 1(3) e by auto
      show ?thesis
      proof (cases "c = QUOTE")
        case False
        obtain w2 where w2: "safe_append_char w1 c = Inr w2" "wb_wf w2 (s @ b @ [c])"
          using safe_append_char_ok [OF w1(2) len(1), of c] by auto
        have f: "quote_at_end (length s) p = quote_at_end (length (s @ b @ [c])) q"
          using full ne Cons False by (simp add: b_def)
        have l: "escape_loop p w = escape_loop q w2"
          using loop ne Cons False w1(1) w2(1) by (simp add: b_def)
        show ?thesis
          using 1(1) [rule_format, OF q w2(2) len(2)] unfolding f l e by (auto split: if_splits)
      next
        case True
        note wf = w1(2) [unfolded wb_wf_def]
        have f: "quote_at_end (length s) p \<longleftrightarrow>
            length (s @ b) mod 512 = 1 \<or> quote_at_end (length (s @ b @ [c])) q"
          using full ne Cons True by (simp add: b_def)
        have n2: "2 \<le> length (s @ b)" using 1(4) True by (cases s) (auto simp: b_def)
        have edge: "length (s @ b) = rsize w1 \<longleftrightarrow> length (s @ b) mod 512 = 1"
          using bucket_edge [OF n2] wf by simp
        show ?thesis
        proof (cases "length (s @ b) mod 512 = 1")
          case full': True
          then have "escape_loop p w = Inl Out_of_bounds"
            using loop ne Cons True w1(1) wf edge full' by (simp add: b_def write_at_def)
          then show ?thesis using f full' by simp
        next
          case False
          then have "length (s @ b) < length (wb_buf w1)" using edge wf by simp
          from write_next [OF _ this, of c] wf obtain mem where mem:
              "write_at (wb_buf w1) (length (s @ b)) [c] = Inr mem" "length mem = rsize w1"
              "take (length (s @ b) + 1) mem = map Some ((s @ b) @ [c])"
            by auto
          let ?w2 = "w1\<lparr>wb_buf := mem, rpos := rpos w1 + 1\<rparr>"
          have "rsize w1 = 1 + 512 * ((length (s @ b) + 1 + 510) div 512)"
            using bucket_keep [of "length (s @ b)"] wf edge False by simp
          then have w2: "wb_wf ?w2 (s @ b @ [c])" using mem wf edge False by (simp add: wb_wf_def)
          have l: "escape_loop p w = escape_loop q ?w2"
            using loop ne Cons True w1(1) mem(1) wf by (simp add: b_def)
          show ?thesis
            using 1(1) [rule_format, OF q w2 len(2)] False unfolding f l e by (auto split: if_splits)
        qed
      qed
    qed
  qed
qed

text \<open>
  The rules of the C runtime for reading one argument of a command line: within a pair of double
  quotes white space is text; a quote after an even number of backslashes opens or closes the pair,
  one after an odd number is text, and half the backslashes are; backslashes elsewhere are text.
\<close>

function argv_one :: "bool \<Rightarrow> cstr \<Rightarrow> cstr \<times> cstr" where
  "argv_one quoted p =
     (let n = slashes p
      in case after_slashes p of
           [] \<Rightarrow> (replicate n BACKSLASH, [])
         | c # q \<Rightarrow>
             if c = QUOTE
             then (if even n then apfst (\<lambda>a. replicate (n div 2) BACKSLASH @ a) (argv_one (\<not> quoted) q)
                   else apfst (\<lambda>a. replicate (n div 2) BACKSLASH @ QUOTE # a) (argv_one quoted q))
             else if \<not> quoted \<and> (c = CHR '' '' \<or> c = TAB) then (replicate n BACKSLASH, c # q)
             else apfst (\<lambda>a. replicate n BACKSLASH @ c # a) (argv_one quoted q))"
  by pat_completeness auto
termination
proof (relation "measure (\<lambda>(b, p). length p)", goal_cases)
  case (2 quoted p n c q)
  then show ?case using after_slashes_length [of p] by simp
next
  case (3 quoted p n c q)
  then show ?case using after_slashes_length [of p] by simp
next
  case (4 quoted p n c q)
  then show ?case using after_slashes_length [of p] by simp
qed simp

declare argv_one.simps [simp del]

lemma slashes_replicate: "c \<noteq> BACKSLASH \<Longrightarrow> slashes (replicate n BACKSLASH @ c # p) = n"
  by (induction n) (simp_all add: slashes_def)

lemma after_slashes_replicate: "c \<noteq> BACKSLASH \<Longrightarrow> after_slashes (replicate n BACKSLASH @ c # p) = c # p"
  by (induction n) (simp_all add: after_slashes_def)

lemma slashes_split: "p = replicate (slashes p) BACKSLASH @ after_slashes p"
  by (induction p) (auto simp: slashes_def after_slashes_def)

lemma after_slashes_hd: "after_slashes p = c # q \<Longrightarrow> c \<noteq> BACKSLASH"
  using dropWhile_hd_not [of "\<lambda>c. c = BACKSLASH" p c q] by (simp add: after_slashes_def)

lemma argv_esc: "argv_one True (esc p @ QUOTE # rest) = apfst (\<lambda>a. p @ a) (argv_one False rest)"
proof (induction p rule: length_induct)
  case (1 p)
  note etext = esc.simps [of p]
  show ?case
  proof (cases "p = []")
    case True
    then show ?thesis
      using etext by (subst argv_one.simps) (simp add: slashes_def after_slashes_def)
  next
    case ne: False
    show ?thesis
    proof (cases "after_slashes p")
      case Nil
      have e: "esc p = replicate (slashes p * 2) BACKSLASH" using ne etext Nil by simp
      have p: "replicate (slashes p) BACKSLASH = p"
        using slashes_split [of p, symmetric] unfolding Nil append_Nil2 .
      have "argv_one True (replicate (n * 2) BACKSLASH @ QUOTE # rest) =
          apfst (\<lambda>a. replicate n BACKSLASH @ a) (argv_one False rest)" for n
        by (subst argv_one.simps) (simp add: slashes_replicate after_slashes_replicate)
      from this [of "slashes p"] show ?thesis unfolding e p .
    next
      case (Cons c q)
      have q: "length q < length p" using Cons after_slashes_length [of p] by simp
      have c: "c \<noteq> BACKSLASH" by (rule after_slashes_hd [OF Cons])
      have p: "p = replicate (slashes p) BACKSLASH @ c # q"
        using slashes_split [of p] unfolding Cons .
      note IH = 1 [rule_format, OF q]
      define b where "b = (if c = QUOTE then slashes p * 2 + 1 else slashes p)"
      have e: "esc p @ QUOTE # rest = replicate b BACKSLASH @ c # esc q @ QUOTE # rest"
        using ne etext Cons by (simp add: b_def)
      have "argv_one True (esc p @ QUOTE # rest) =
          apfst (\<lambda>a. replicate (slashes p) BACKSLASH @ c # a) (argv_one True (esc q @ QUOTE # rest))"
        unfolding e by (subst argv_one.simps)
          (simp add: slashes_replicate after_slashes_replicate c Let_def b_def)
      also have "\<dots> = apfst (\<lambda>a. (replicate (slashes p) BACKSLASH @ c # q) @ a) (argv_one False rest)"
        unfolding IH by (cases "argv_one False rest") simp
      finally show ?thesis unfolding p [symmetric] .
    qed
  qed
qed

lemma argv_open: "argv_one False (QUOTE # p) = argv_one True p"
  by (subst argv_one.simps) (simp add: slashes_def after_slashes_def apfst_def map_prod_def split: prod.split)

lemma argv_space: "argv_one False (CHR '' '' # p) = ([], CHR '' '' # p)"
  by (subst argv_one.simps) (simp add: slashes_def after_slashes_def)

lemma argv_end: "argv_one False [] = ([], [])"
  by (subst argv_one.simps) (simp add: slashes_def after_slashes_def)

section \<open>What the code promises of its string helpers\<close>

text \<open>
  The case-insensitive search, with its single cursor that is moved back on a mismatch, always
  ends, and for an ASCII needle finds exactly the first position at which the needle occurs in the
  haystack when case is ignored; it finds nothing when there is no such position.
\<close>

theorem strcasestr_finds_first:
  assumes "is_cstr needle" and "ascii needle"
  shows "(strcasestr haystack needle = Some r \<longleftrightarrow>
      match_at haystack needle r \<and> (\<forall>q<r. \<not> match_at haystack needle q)) \<and>
    (strcasestr haystack needle = None \<longleftrightarrow> (\<forall>q. \<not> match_at haystack needle q))"
proof -
  have "strcasestr haystack needle \<noteq> None" if "match_at haystack needle q" for q
  proof -
    have "match_at haystack needle (LEAST q. match_at haystack needle q)" using that by (rule LeastI)
    then have "strcasestr haystack needle = Some (LEAST q. match_at haystack needle q)"
      unfolding strcasestr_first [OF assms] using not_less_Least by blast
    then show ?thesis by simp
  qed
  then show ?thesis using strcasestr_first [OF assms] by (metis not_None_eq)
qed

theorem strcasestr_finds_first_witness: "strcasestr ''aAab'' ''aab'' = Some 1"
proof -
  have *: "to_lower CHR ''A'' = CHR ''a''" "to_lower CHR ''a'' = CHR ''a''" "to_lower CHR ''b'' = CHR ''b''"
    by code_simp+
  have "is_cstr ''aab''" "ascii ''aab''" by code_simp+
  from strcasestr_finds_first [OF this, of "''aAab''" 1] show ?thesis
    using * by (simp add: match_at_def less_Suc_eq)
qed

text \<open>
  C20. Escaping an argument for a Windows command line and reading it back by the documented rules of
  the C runtime gives the argument, whatever quotes and backslashes it holds and whatever follows it
  on the line.  The escaped text is produced exactly, with its terminator, unless an embedded quote
  falls on the end of the buffer; then, and only then, the store of the quote is out of bounds.
\<close>

theorem escape_arg_roundtrip:
  assumes "length (esc arg) < 2 ^ 28"
  shows "(if quote_at_end 1 arg then escape_windows_command_arg arg = Inl Out_of_bounds
     else \<exists>w. escape_windows_command_arg arg = Inr w \<and> holds (wb_buf w) (QUOTE # esc arg @ [QUOTE])) \<and>
    argv_one False (QUOTE # esc arg @ [QUOTE] @ CHR '' '' # rest) = (arg, CHR '' '' # rest) \<and>
    argv_one False (QUOTE # esc arg @ [QUOTE]) = (arg, [])"
proof -
  have "wb_wf \<lparr>wb_buf = [None], rpos = 0, rsize = 1\<rparr> []" by (simp add: wb_wf_def)
  then obtain w0 where w0: "safe_append_char \<lparr>wb_buf = [None], rpos = 0, rsize = 1\<rparr> QUOTE = Inr w0" "wb_wf w0 [QUOTE]"
    using safe_append_char_ok [of _ "[]" QUOTE] by fastforce
  have l: "length ([QUOTE] @ esc arg) < 2 ^ 29" using assms by simp
  have "if quote_at_end 1 arg then escape_windows_command_arg arg = Inl Out_of_bounds
     else \<exists>w. escape_windows_command_arg arg = Inr w \<and> holds (wb_buf w) (QUOTE # esc arg @ [QUOTE])"
  proof (cases "quote_at_end 1 arg")
    case True
    then have "escape_loop arg w0 = Inl Out_of_bounds"
      using escape_loop_ok [OF w0(2) l] by simp
    then show ?thesis using True w0(1) by (simp add: escape_windows_command_arg_def safe_malloc_def)
  next
    case False
    then obtain w1 where w1: "escape_loop arg w0 = Inr w1" "wb_wf w1 (QUOTE # esc arg)"
      using escape_loop_ok [OF w0(2) l] by auto
    obtain w2 where w2: "safe_append_char w1 QUOTE = Inr w2" "wb_wf w2 (QUOTE # esc arg @ [QUOTE])"
      using safe_append_char_ok [OF w1(2), of QUOTE] assms by auto
    obtain w3 where w3: "safe_append_char w2 NUL = Inr w3" "wb_wf w3 ((QUOTE # esc arg @ [QUOTE]) @ [NUL])"
      using safe_append_char_ok [OF w2(2), of NUL] assms by auto
    let ?t = "QUOTE # esc arg @ [QUOTE]"
    have t: "take (length ?t + 1) (wb_buf w3) = map Some (?t @ [NUL])" and lt: "length ?t < length (wb_buf w3)"
      using w3(2) by (auto simp: wb_wf_def)
    have "take (length ?t) (wb_buf w3) = map Some ?t"
      using arg_cong [OF t, of "take (length ?t)"] by (simp add: min_def)
    moreover have "wb_buf w3 ! length ?t = Some NUL"
      using arg_cong [OF t, of "\<lambda>x. x ! length ?t"] lt by (simp add: nth_append)
    ultimately have "holds (wb_buf w3) ?t"
      using lt by (simp add: holds_def nth_append)
    then show ?thesis
      using False w0(1) w1(1) w2(1) w3(1) by (simp add: escape_windows_command_arg_def safe_malloc_def)
  qed
  then show ?thesis
    by (simp add: argv_open argv_esc argv_space argv_end)
qed

theorem escape_arg_roundtrip_witness:
  "\<exists>w. escape_windows_command_arg ''a b'' = Inr w \<and> holds (wb_buf w) (QUOTE # ''a b'' @ [QUOTE])"
proof -
  have e: "esc ''a b'' = ''a b''" "\<not> quote_at_end 1 ''a b''" by code_simp+
  from escape_arg_roundtrip [of "''a b''" "[]"] show ?thesis unfolding e(1) using e(2) by simp
qed

text \<open>
  A path is its directory part, a slash and its file part: joining what \<open>path_get_dirname\<close> and
  \<open>path_get_basename\<close> return gives the path back, a path without a slash lies in the current
  directory, and a path whose only slash comes first lies in the root.
\<close>

theorem path_split_roundtrip:
  "CHR ''/'' \<notin> set (path_get_basename path) \<and>
   (CHR ''/'' \<notin> set path \<longrightarrow> path_get_dirname path = ''.'' \<and> path_get_basename path = path) \<and>
   (CHR ''/'' \<in> set path \<longrightarrow>
      path = (if find_last_path_separator path = 0 then [] else path_get_dirname path) @ CHR ''/'' # path_get_basename path \<and>
      (find_last_path_separator path = 0 \<longrightarrow> path_get_dirname path = ''/''))"
  by (rule last_separator [of path])
    (auto simp: path_get_dirname_def path_get_basename_def Let_def nat_add_distrib)

theorem path_split_roundtrip_witness:
  "path_get_dirname ''/usr/lib/ncat'' = ''/usr/lib'' \<and> path_get_basename ''/usr/lib/ncat'' = ''ncat'' \<and>
   ''/usr/lib/ncat'' = path_get_dirname ''/usr/lib/ncat'' @ CHR ''/'' # path_get_basename ''/usr/lib/ncat''"
proof -
  have "CHR ''/'' \<in> set ''/usr/lib/ncat''" "find_last_path_separator ''/usr/lib/ncat'' = 8" by simp code_simp
  moreover have "path_get_dirname ''/usr/lib/ncat'' = ''/usr/lib''" "path_get_basename ''/usr/lib/ncat'' = ''ncat''"
    by code_simp+
  ultimately show ?thesis using path_split_roundtrip [of "''/usr/lib/ncat''"] by simp
qed

end
