(* ===== verification/Fd_List.thy ===== *)
theory Fd_List
  imports Addr_Trie
begin

text \<open>
  The list of descriptors that ncat's listening mode selects on (ncat/util.c): an array of
  \<open>struct fdinfo\<close> of fixed capacity, whose first \<open>nfds\<close> entries are in use, with the largest
  descriptor cached in \<open>fdmax\<close>.
\<close>

section \<open>Data and operations\<close>

record fdinfo =
  fd :: int
  lasterr :: int
  remoteaddr :: sockaddr
  ss_len :: nat
  ssl :: "nat option"

record fd_list =
  fds :: "fdinfo list"
  nfds :: int
  maxfds :: int
  fdmax :: int
  fdl_state :: int

definition zero_fdinfo :: fdinfo where
  "zero_fdinfo = \<lparr>fd = 0, lasterr = 0, remoteaddr = AF_other, ss_len = 0, ssl = None\<rparr>"

definition add_fdinfo :: "fd_list \<Rightarrow> fdinfo \<Rightarrow> (int \<times> fd_list) outcome" where
  "add_fdinfo fdl s =
     (if nfds fdl \<ge> maxfds fdl then Inr (-1, fdl)
      else if nfds fdl < 0 \<or> int (length (fds fdl)) \<le> nfds fdl then Inl Out_of_bounds
      else Inr (0, fdl\<lparr>fds := (fds fdl)[nat (nfds fdl) := s], nfds := nfds fdl + 1,
                       fdmax := (if fd s > fdmax fdl then fd s else fdmax fdl)\<rparr>))"

definition add_fd :: "fd_list \<Rightarrow> int \<Rightarrow> (int \<times> fd_list) outcome" where
  "add_fd fdl d = add_fdinfo fdl (zero_fdinfo\<lparr>fd := d\<rparr>)"

text \<open>The scan of \<open>rm_fd\<close> from index \<open>x\<close>: the index found and the new maximum.\<close>

function rm_scan :: "fd_list \<Rightarrow> int \<Rightarrow> int \<Rightarrow> int \<Rightarrow> int \<Rightarrow> int \<Rightarrow> int \<times> int" where
  "rm_scan fdl d n x found newfdmax =
     (if x < n
      then (let fdi = fds fdl ! nat x
            in if fd fdi = d
               then (if d < fdmax fdl then (x, fdmax fdl) else rm_scan fdl d n (x + 1) x newfdmax)
               else rm_scan fdl d n (x + 1) found (if fd fdi > newfdmax then fd fdi else newfdmax))
      else (found, newfdmax))"
  by pat_completeness auto
termination by (relation "measure (\<lambda>(fdl, d, n, x, f, m). nat (n - x))") auto

declare rm_scan.simps [simp del]

definition rm_fd :: "fd_list \<Rightarrow> int \<Rightarrow> fd_list outcome" where
  "rm_fd fdl d =
     (let n = nfds fdl
      in if n = 0 then Inl Fatal_exit
         else if int (length (fds fdl)) < n then Inl Out_of_bounds
         else (case rm_scan fdl d n 0 (-1) 0 of
           (found, newfdmax) \<Rightarrow>
             if found < 0 then Inl Fatal_exit
             else Inr (fdl\<lparr>fdmax := newfdmax, fds := (fds fdl)[nat found := fds fdl ! nat (n - 1)],
                           fdl_state := fdl_state fdl + 1, nfds := nfds fdl - 1\<rparr>)))"

text \<open>The loops of \<open>get_maxfd\<close> and \<open>get_fdinfo\<close> read the entries in order.\<close>

definition get_maxfd :: "fd_list \<Rightarrow> int" where
  "get_maxfd fdl = fold (\<lambda>s m. if fd s > m then fd s else m) (take (nat (nfds fdl)) (fds fdl)) (-1)"

definition get_fdinfo :: "fd_list \<Rightarrow> int \<Rightarrow> fdinfo option" where
  "get_fdinfo fdl d = find (\<lambda>s. fd s = d) (take (nat (nfds fdl)) (fds fdl))"

definition init_fdlist :: "int \<Rightarrow> fd_list" where
  "init_fdlist n =
     \<lparr>fds = replicate (nat n) zero_fdinfo, nfds = 0, maxfds = n, fdmax = -1, fdl_state = 0\<rparr>"

definition free_fdlist :: "fd_list \<Rightarrow> fd_list" where
  "free_fdlist fdl = fdl\<lparr>fds := [], nfds := 0, fdmax := -1, fdl_state := 0\<rparr>"

section \<open>The invariant\<close>

text \<open>
  The list holds the entries \<open>xs\<close>, with different non-negative descriptors, and \<open>fdmax\<close> is the
  largest of them.  An empty list has -1 there when new and 0 after a removal.
\<close>

definition fdl_holds :: "fd_list \<Rightarrow> fdinfo list \<Rightarrow> bool" where
  "fdl_holds fdl xs \<longleftrightarrow> int (length (fds fdl)) = maxfds fdl \<and> nfds fdl = int (length xs) \<and>
     length xs \<le> length (fds fdl) \<and> take (length xs) (fds fdl) = xs \<and>
     distinct (map fd xs) \<and> (\<forall>s\<in>set xs. 0 \<le> fd s \<and> fd s \<le> fdmax fdl) \<and>
     (if xs = [] then fdmax fdl \<in> {-1, 0} else fdmax fdl \<in> fd ` set xs)"

lemma init_holds: "0 \<le> n \<Longrightarrow> fdl_holds (init_fdlist n) []"
  by (simp add: fdl_holds_def init_fdlist_def)

lemma add_fdinfo_ok:
  assumes "fdl_holds fdl xs" "0 \<le> fd s" "fd s \<notin> fd ` set xs"
  shows "if int (length xs) < maxfds fdl
    then \<exists>fdl'. add_fdinfo fdl s = Inr (0, fdl') \<and> fdl_holds fdl' (xs @ [s]) \<and> maxfds fdl' = maxfds fdl
    else add_fdinfo fdl s = Inr (-1, fdl)"
proof (cases "int (length xs) < maxfds fdl")
  case True
  note h = assms(1) [unfolded fdl_holds_def]
  have l: "length xs < length (fds fdl)" using True h by simp
  then have "take (length xs + 1) ((fds fdl)[length xs := s]) = xs @ [s]"
    using h by (simp add: take_Suc_conv_app_nth)
  then show ?thesis using True h l assms(2,3) unfolding add_fdinfo_def
    by (auto simp: fdl_holds_def split: if_splits)
qed (use assms(1) in \<open>simp add: add_fdinfo_def fdl_holds_def\<close>)

lemma take_nth: "take k ys = xs \<Longrightarrow> i < length xs \<Longrightarrow> ys ! i = xs ! i"
  by (metis length_take min_less_iff_conj nth_take)

text \<open>The scan over the remaining entries, when the descriptor is not among those already read.\<close>

lemma rm_scan_tail:
  assumes "\<forall>j. k \<le> j \<and> j < length xs \<longrightarrow> fd (xs ! j) \<noteq> d" "k \<le> length xs" "\<forall>i<length xs. fds fdl ! i = xs ! i"
  shows "\<exists>m'. rm_scan fdl d (int (length xs)) (int k) found m = (found, m') \<and>
    m \<le> m' \<and> (\<forall>s\<in>set (drop k xs). fd s \<le> m') \<and> (m' = m \<or> m' \<in> fd ` set (drop k xs))"
  using assms(1,2)
proof (induction "length xs - k" arbitrary: k m)
  case 0
  then show ?case by (subst rm_scan.simps) simp
next
  case (Suc n)
  then have k: "k < length xs" and n: "n = length xs - (k + 1)" and kk: "k + 1 \<le> length xs" by simp_all
  have p: "\<forall>j. k + 1 \<le> j \<and> j < length xs \<longrightarrow> fd (xs ! j) \<noteq> d" using Suc.prems(1) by simp
  let ?m = "if fd (xs ! k) > m then fd (xs ! k) else m"
  obtain m' where m': "rm_scan fdl d (int (length xs)) (int (k + 1)) found ?m = (found, m')" "?m \<le> m'"
      "\<forall>s\<in>set (drop (k + 1) xs). fd s \<le> m'" "m' = ?m \<or> m' \<in> fd ` set (drop (k + 1) xs)"
    using Suc.hyps(1) [OF n p kk, of ?m] by blast
  have "rm_scan fdl d (int (length xs)) (int k) found m = rm_scan fdl d (int (length xs)) (int (k + 1)) found ?m"
    using k Suc.prems(1) assms(3) by (subst rm_scan.simps) (simp add: add.commute)
  moreover have "set (drop k xs) = insert (xs ! k) (set (drop (k + 1) xs))"
    using Cons_nth_drop_Suc [OF k] by (metis Suc_eq_plus1 list.simps(15))
  ultimately show ?case using m' by (intro exI [of _ m']) (auto split: if_splits)
qed

lemma rm_scan_find:
  assumes "distinct (map fd xs)" "p < length xs" "fd (xs ! p) = d" "k \<le> p" "\<forall>i<length xs. fds fdl ! i = xs ! i"
    and "\<forall>s\<in>set (take k xs). fd s \<le> m" "m = 0 \<or> m \<in> fd ` set (take k xs)" "0 \<le> m"
    and "\<forall>s\<in>set xs. 0 \<le> fd s \<and> fd s \<le> fdmax fdl" "fdmax fdl \<in> fd ` set xs"
  shows "\<exists>m'. rm_scan fdl d (int (length xs)) (int k) found m = (int p, m') \<and>
    (\<forall>s\<in>set xs. fd s \<noteq> d \<longrightarrow> fd s \<le> m') \<and> (m' = 0 \<or> m' \<in> fd ` (set xs - {xs ! p}))"
  using assms(4,6-8)
proof (induction "p - k" arbitrary: k m found)
  case 0
  then have kp: "k = p" by simp
  have others: "fd (xs ! j) \<noteq> d" if "j < length xs" "j \<noteq> p" for j
    using assms(1,2,3) that by (metis length_map nth_eq_iff_index_eq nth_map)
  show ?case
  proof (cases "d < fdmax fdl")
    case True
    then have "rm_scan fdl d (int (length xs)) (int k) found m = (int p, fdmax fdl)"
      using kp assms(2,3,5) by (subst rm_scan.simps) simp
    moreover have "fdmax fdl \<in> fd ` (set xs - {xs ! p})" using assms(3,10) True by auto
    ultimately show ?thesis using assms(9) by auto
  next
    case False
    have "rm_scan fdl d (int (length xs)) (int k) found m =
        rm_scan fdl d (int (length xs)) (int (p + 1)) (int p) m"
      using kp assms(2,3,5) False by (subst rm_scan.simps) (simp add: add.commute)
    moreover obtain m' where m': "rm_scan fdl d (int (length xs)) (int (p + 1)) (int p) m = (int p, m')"
        "m \<le> m'" "\<forall>s\<in>set (drop (p + 1) xs). fd s \<le> m'" "m' = m \<or> m' \<in> fd ` set (drop (p + 1) xs)"
      using rm_scan_tail [of "p + 1" xs d fdl "int p" m] others assms(2,5) by auto
    moreover have sx: "set xs = set (take p xs) \<union> {xs ! p} \<union> set (drop (p + 1) xs)"
      using id_take_nth_drop [OF assms(2)] by (metis Suc_eq_plus1 Un_insert_right list.simps(15) set_append sup_bot_right Un_insert_left)
    moreover have "xs ! p \<notin> set (take p xs) \<union> set (drop (p + 1) xs)"
    proof
      assume "xs ! p \<in> set (take p xs) \<union> set (drop (p + 1) xs)"
      then obtain j where "j < length xs" "j \<noteq> p" "xs ! j = xs ! p"
      proof
        assume "xs ! p \<in> set (take p xs)"
        then obtain i where "i < p" "take p xs ! i = xs ! p" using assms(2) by (auto simp: in_set_conv_nth)
        then show thesis using that [of i] assms(2) by simp
      next
        assume "xs ! p \<in> set (drop (p + 1) xs)"
        then obtain i where "i < length xs - (p + 1)" "drop (p + 1) xs ! i = xs ! p"
          by (auto simp: in_set_conv_nth)
        then show thesis using that [of "p + 1 + i"] by simp
      qed
      then show False using others assms(3) by metis
    qed
    ultimately show ?thesis using 0(3-5) kp assms(3) by (intro exI [of _ m']) (auto 4 4)
  qed
next
  case (Suc n)
  then have k: "k < p" "k < length xs" using assms(2) by auto
  have ne: "fd (xs ! k) \<noteq> d"
    using assms(1,2,3) k by (metis length_map nat_neq_iff nth_eq_iff_index_eq nth_map)
  let ?m = "if fd (xs ! k) > m then fd (xs ! k) else m"
  have "rm_scan fdl d (int (length xs)) (int k) found m = rm_scan fdl d (int (length xs)) (int (k + 1)) found ?m"
    using k ne assms(5) by (subst rm_scan.simps) (simp add: add.commute)
  moreover have "set (take (k + 1) xs) = insert (xs ! k) (set (take k xs))"
    using take_Suc_conv_app_nth [OF k(2)] by simp
  moreover have "n = p - (k + 1)" "k + 1 \<le> p" "\<forall>s\<in>set (take (k + 1) xs). fd s \<le> ?m"
      "?m = 0 \<or> ?m \<in> fd ` set (take (k + 1) xs)" "0 \<le> ?m"
    using Suc.hyps(2) Suc.prems k calculation(2) by force+
  ultimately show ?case using Suc.hyps(1) [of "k + 1" ?m found] by metis
qed

lemma rm_fd_ok:
  assumes "fdl_holds fdl xs" "p < length xs" "fd (xs ! p) = d"
  shows "\<exists>fdl'. rm_fd fdl d = Inr fdl' \<and> fdl_holds fdl' (butlast (xs[p := last xs])) \<and>
    maxfds fdl' = maxfds fdl \<and> fdl_state fdl' = fdl_state fdl + 1"
proof -
  note h = assms(1) [unfolded fdl_holds_def]
  have ne: "xs \<noteq> []" using assms(2) by auto
  have nth: "\<forall>i<length xs. fds fdl ! i = xs ! i" using h take_nth by blast
  obtain m' where m': "rm_scan fdl d (int (length xs)) 0 (-1) 0 = (int p, m')"
      "\<forall>s\<in>set xs. fd s \<noteq> d \<longrightarrow> fd s \<le> m'" "m' = 0 \<or> m' \<in> fd ` (set xs - {xs ! p})"
    using rm_scan_find [of xs p d 0 fdl 0 "-1"] h ne nth assms(2,3) by (auto split: if_splits)
  define ys where "ys = butlast (xs[p := last xs])"
  let ?fdl = "fdl\<lparr>fdmax := m', fds := (fds fdl)[p := fds fdl ! (length xs - 1)],
      fdl_state := fdl_state fdl + 1, nfds := nfds fdl - 1\<rparr>"
  have nat1: "nat (int (length xs) - 1) = length xs - 1" by simp
  have r: "rm_fd fdl d = Inr ?fdl"
    using m'(1) h ne nat1 by (simp add: rm_fd_def Let_def)
  have lst: "fds fdl ! (length xs - 1) = last xs" using nth ne by (simp add: last_conv_nth)
  have ly: "length ys = length xs - 1" by (simp add: ys_def)
  have t: "take (length ys) ((fds fdl)[p := last xs]) = ys"
  proof -
    have "take (length xs) ((fds fdl)[p := last xs]) = xs[p := last xs]"
      using h by (simp add: take_update_swap)
    then have "take (length xs - 1) (take (length xs) ((fds fdl)[p := last xs])) = ys"
      by (simp add: ys_def butlast_conv_take)
    then show ?thesis by (simp add: ly min_def)
  qed
  have ms: "mset (xs[p := last xs]) = add_mset (last xs) (mset xs - {#xs ! p#})"
    using assms(2) by (simp add: mset_update)
  have "xs[p := last xs] = ys @ [last xs]"
  proof -
    have "last (xs[p := last xs]) = last xs"
      using ne by (cases "p = length xs - 1") (simp_all add: last_conv_nth)
    then show ?thesis using append_butlast_last_id [of "xs[p := last xs]"] ne by (simp add: ys_def)
  qed
  then have msy: "mset ys = mset xs - {#xs ! p#}" using ms by simp
  have dx: "distinct xs" and inj: "inj_on fd (set xs)" using h distinct_map by blast+
  have eq: "mset ys = mset (remove1 (xs ! p) xs)" unfolding msy by simp
  have sy: "set ys = set xs - {xs ! p}"
    using mset_eq_setD [OF eq] dx by simp
  have "distinct ys" using mset_eq_imp_distinct_iff [OF eq] dx by simp
  moreover have "inj_on fd (set ys)" by (rule inj_on_subset [OF inj]) (simp add: sy Diff_subset)
  ultimately have dy: "distinct (map fd ys)" by (simp add: distinct_map)
  have other: "fd s \<noteq> d" if "s \<in> set ys" for s
    using inj_onD [OF inj, of s "xs ! p"] that sy assms(2,3) by auto
  have bounds: "\<forall>s\<in>set ys. 0 \<le> fd s \<and> fd s \<le> m'" using m'(2) h sy other by auto
  have "if ys = [] then m' \<in> {-1, 0} else m' \<in> fd ` set ys"
    using m'(3)
  proof
    assume z: "m' = 0"
    show ?thesis
    proof (cases ys)
      case (Cons s zs)
      then have "fd s = m'" using bounds z by force
      then show ?thesis using Cons by simp
    qed (simp add: z)
  next
    assume "m' \<in> fd ` (set xs - {xs ! p})"
    then have "m' \<in> fd ` set ys" by (simp add: sy)
    then show ?thesis by (cases ys) simp_all
  qed
  then have "fdl_holds ?fdl ys"
    using h t ly lst ne dy bounds by (auto simp: fdl_holds_def of_nat_diff Suc_le_eq)
  then show ?thesis using r unfolding ys_def by auto
qed

lemma rm_fd_missing:
  assumes "fdl_holds fdl xs" "d \<notin> fd ` set xs"
  shows "rm_fd fdl d = Inl Fatal_exit"
proof (cases "xs = []")
  case True
  then show ?thesis using assms by (simp add: rm_fd_def fdl_holds_def)
next
  case False
  note h = assms(1) [unfolded fdl_holds_def]
  have nth: "\<forall>i<length xs. fds fdl ! i = xs ! i" using h take_nth by blast
  have no: "\<forall>j. 0 \<le> j \<and> j < length xs \<longrightarrow> fd (xs ! j) \<noteq> d"
    using assms(2) by (metis image_eqI nth_mem)
  obtain m' where "rm_scan fdl d (int (length xs)) (int 0) (-1) 0 = (-1, m')"
    using rm_scan_tail [OF no _ nth, of "-1" 0] by blast
  then show ?thesis using h False by (simp add: rm_fd_def Let_def)
qed

lemma get_maxfd_ok:
  assumes "fdl_holds fdl xs"
  shows "get_maxfd fdl = (if xs = [] then -1 else fdmax fdl)"
proof -
  have fold: "fold (\<lambda>s m. if fd s > m then fd s else m) ys m = Max (insert m (fd ` set ys))" for ys m
  proof (induction ys arbitrary: m)
    case (Cons y ys)
    have "Max (insert m (insert (fd y) (fd ` set ys))) = Max (insert (max m (fd y)) (fd ` set ys))"
      by (cases "ys = []") (simp_all add: max.assoc [symmetric] max.left_commute max.commute)
    then show ?case using Cons by (simp add: max_def)
  qed simp
  note h = assms [unfolded fdl_holds_def]
  have "get_maxfd fdl = Max (insert (-1) (fd ` set xs))"
    using h fold by (simp add: get_maxfd_def)
  also have "\<dots> = (if xs = [] then -1 else fdmax fdl)"
  proof (cases "xs = []")
    case False
    then have m: "fdmax fdl \<in> fd ` set xs" "\<forall>s\<in>set xs. 0 \<le> fd s \<and> fd s \<le> fdmax fdl" using h by auto
    then have "Max (insert (-1) (fd ` set xs)) = fdmax fdl"
      by (intro Max_eqI) auto
    then show ?thesis using False by simp
  qed simp
  finally show ?thesis .
qed

lemma get_fdinfo_ok:
  assumes "fdl_holds fdl xs"
  shows "(\<forall>s\<in>set xs. get_fdinfo fdl (fd s) = Some s) \<and> (\<forall>d. d \<notin> fd ` set xs \<longrightarrow> get_fdinfo fdl d = None)"
proof -
  note h = assms [unfolded fdl_holds_def]
  have g: "get_fdinfo fdl d = find (\<lambda>s. fd s = d) xs" for d using h by (simp add: get_fdinfo_def)
  have "find (\<lambda>t. fd t = fd s) xs = Some s" if "s \<in> set xs" for s
  proof -
    have inj: "inj_on fd (set xs)" using h by (simp add: distinct_map)
    show ?thesis
    proof (cases "find (\<lambda>t. fd t = fd s) xs")
      case None
      then show ?thesis using that by (auto simp: find_None_iff)
    next
      case (Some t)
      then have "t \<in> set xs" "fd t = fd s" by (auto simp: find_Some_iff)
      then show ?thesis using Some inj_onD [OF inj, of t s] that by simp
    qed
  qed
  moreover have "find (\<lambda>s. fd s = d) xs = None" if "d \<notin> fd ` set xs" for d
    using that by (auto simp: find_None_iff)
  ultimately show ?thesis by (simp add: g)
qed

section \<open>What the code promises of the list\<close>

text \<open>
  The list of descriptors is a finite map with its maximum: starting from an empty list, adding
  a new descriptor appends it or reports a full list without change; removing a member replaces it by
  the last entry and finds the new maximum although the scan may stop early; a descriptor that is not
  in the list ends the process; lookup finds exactly the members; and the cached maximum always
  equals the one \<open>get_maxfd\<close> computes, except that it is 0 instead of -1 once the list has become empty.
\<close>

theorem fd_list_is_map:
  assumes "fdl_holds fdl xs"
  shows "(0 \<le> n \<longrightarrow> fdl_holds (init_fdlist n) []) \<and>
    (0 \<le> fd s \<and> fd s \<notin> fd ` set xs \<longrightarrow>
       (if int (length xs) < maxfds fdl
        then \<exists>fdl'. add_fdinfo fdl s = Inr (0, fdl') \<and> fdl_holds fdl' (xs @ [s])
        else add_fdinfo fdl s = Inr (-1, fdl))) \<and>
    (p < length xs \<longrightarrow>
       (\<exists>fdl'. rm_fd fdl (fd (xs ! p)) = Inr fdl' \<and> fdl_holds fdl' (butlast (xs[p := last xs])))) \<and>
    (d \<notin> fd ` set xs \<longrightarrow> rm_fd fdl d = Inl Fatal_exit \<and> get_fdinfo fdl d = None) \<and>
    (\<forall>s\<in>set xs. get_fdinfo fdl (fd s) = Some s) \<and>
    get_maxfd fdl = (if xs = [] then -1 else fdmax fdl)"
  using init_holds [of n] add_fdinfo_ok [OF assms, of s] rm_fd_ok [OF assms, of p "fd (xs ! p)"]
    rm_fd_missing [OF assms] get_fdinfo_ok [OF assms] get_maxfd_ok [OF assms]
  by auto

theorem fd_list_is_map_witness:
  "\<exists>fdl fdl'. add_fd (init_fdlist 2) 5 = Inr (0, fdl) \<and> rm_fd fdl 5 = Inr fdl' \<and>
    fdl_holds fdl' [] \<and> fdmax fdl' = 0 \<and> get_maxfd fdl' = -1"
proof -
  let ?s = "zero_fdinfo\<lparr>fd := 5\<rparr>"
  have "fdl_holds (init_fdlist 2) []" by (rule init_holds) simp
  from fd_list_is_map [OF this, of 2 ?s 0 0] obtain fdl where a:
      "add_fd (init_fdlist 2) 5 = Inr (0, fdl)" "fdl_holds fdl [?s]"
    by (auto simp: add_fd_def init_fdlist_def)
  from fd_list_is_map [OF a(2), of 2 ?s 0 0] obtain fdl' where r: "rm_fd fdl 5 = Inr fdl'" "fdl_holds fdl' []"
    by auto
  have "fdl = (init_fdlist 2)\<lparr>fds := (fds (init_fdlist 2))[0 := ?s], nfds := 1, fdmax := 5\<rparr>"
    using a(1) by (simp add: add_fd_def add_fdinfo_def init_fdlist_def)
  then have "rm_fd fdl 5 = Inr (fdl\<lparr>fdmax := 0, fds := (fds fdl)[0 := ?s], fdl_state := 1, nfds := 0\<rparr>)"
    by (simp add: rm_fd_def rm_scan.simps init_fdlist_def numeral_2_eq_2)
  then have "fdmax fdl' = 0" using r(1) by auto
  then show ?thesis using a(1) r fd_list_is_map [OF r(2), of 2 ?s 0 0] by auto
qed

end
