(* ===== verification/Ncat_Util.thy ===== *)
theory Ncat_Util
  imports Nbase_Str Addrset Expirables
begin

text \<open>
  The helpers of ncat/util.c that compute: checked size arithmetic, the test for local addresses,
  the text of a Unix-domain address, the source-route option, the access decision of the listening
  modes, the conversion of line endings across blocks, and the encoding of ALPN protocol lists.
\<close>

section \<open>Arithmetic\<close>

definition sadd :: "u64 \<Rightarrow> u64 \<Rightarrow> u64 outcome" where
  "sadd l r = (let t = l + r in if t < l then Inl Fatal_exit else Inr t)"

definition smul :: "u64 \<Rightarrow> u64 \<Rightarrow> u64 outcome" where
  "smul l r = (let t = l * r in if l \<noteq> 0 \<and> t div l \<noteq> r then Inl Fatal_exit else Inr t)"

text \<open>C division of a \<open>long\<close> truncates towards zero.\<close>

definition c_div :: "int \<Rightarrow> int \<Rightarrow> int" where
  "c_div a b = (if a < 0 then - (- a div b) else a div b)"

definition ms_to_timeval :: "int \<Rightarrow> timeval" where
  "ms_to_timeval ms = (let sec = c_div ms 1000 in Timeval sec ((ms - sec * 1000) * 1000))"

section \<open>Addresses\<close>

text \<open>
  \<open>gethostname\<close> (\<open>None\<close> on failure) and \<open>getaddrinfo\<close> for the host name with the family of the
  address in its hints are parameters; each result is an address and its \<open>ai_addrlen\<close>.
\<close>

definition same_family :: "sockaddr \<Rightarrow> sockaddr \<Rightarrow> bool" where
  "same_family a b \<longleftrightarrow>
     (case (a, b) of (AF_INET _, AF_INET _) \<Rightarrow> True | (AF_INET6 _, AF_INET6 _) \<Rightarrow> True
      | (AF_other, AF_other) \<Rightarrow> True | _ \<Rightarrow> False)"

definition same_address :: "sockaddr \<Rightarrow> sockaddr \<Rightarrow> bool" where
  "same_address a b \<longleftrightarrow>
     (case (a, b) of (AF_INET x, AF_INET y) \<Rightarrow> x = y | (AF_INET6 x, AF_INET6 y) \<Rightarrow> x = y | _ \<Rightarrow> False)"

fun local_scan :: "sockaddr \<Rightarrow> (sockaddr \<times> nat) list \<Rightarrow> bool outcome" where
  "local_scan su [] = Inr False"
| "local_scan su ((a, addrlen) # addrs) =
     (if \<not> same_family a su then local_scan su addrs
      else if addrlen > 128 then Inl Fatal_exit
      else if same_address su a then Inr True
      else local_scan su addrs)"

fun loopback :: "sockaddr \<Rightarrow> bool" where
  "loopback (AF_INET a) = (and a 0xFF000000 = 0x7F000000 \<or> a = 0)"
| "loopback (AF_INET6 a) = (a = replicate 16 0 \<or> a = replicate 15 0 @ [1])"
| "loopback AF_other = False"

definition addr_is_local ::
  "cstr option \<Rightarrow> (cstr \<Rightarrow> sockaddr \<Rightarrow> (sockaddr \<times> nat) list option) \<Rightarrow> sockaddr \<Rightarrow> bool outcome" where
  "addr_is_local hostname gai su =
     (if loopback su then Inr True
      else case hostname of
             None \<Rightarrow> Inr False
           | Some h \<Rightarrow> (case gai h su of None \<Rightarrow> Inr False | Some addrs \<Rightarrow> local_scan su addrs))"

text \<open>
  The branch of \<open>socktop\<close> for Unix-domain addresses, with the static buffer passed in and out.
  \<open>sun_path\<close> has 108 bytes and starts at offset 2.
\<close>

definition SOCKTOP_BUF :: nat where "SOCKTOP_BUF = 46 + 128"

definition put :: "cstr \<Rightarrow> nat \<Rightarrow> cstr \<Rightarrow> cstr outcome" where
  "put buf off s =
     (if off + length s \<le> length buf then Inr (take off buf @ s @ drop (off + length s) buf) else Inl Out_of_bounds)"

definition put_str :: "cstr \<Rightarrow> nat \<Rightarrow> cstr \<Rightarrow> nat \<Rightarrow> cstr outcome" where
  "put_str buf off s n =
     (if n = 0 then Inl Out_of_bounds else put buf off (take (n - 1) (s @ replicate n NUL) @ [NUL]))"

definition socktop_unix :: "cstr \<Rightarrow> nat \<Rightarrow> cstr \<Rightarrow> cstr outcome" where
  "socktop_unix sun_path sslen buf =
     (if \<not> sslen \<le> 110 then Inl Assert_failed
      else if sslen = 2 then put_str buf 0 ''(unnamed socket)'' SOCKTOP_BUF
      else let n = (if sslen < 2 then 108 else min (SOCKTOP_BUF - 1) (sslen - 2))
           in bind_out (if sun_path ! 0 = NUL
                        then bind_out (put buf 0 (take (n - 1) (drop 1 sun_path)))
                               (\<lambda>buf. put_str buf n '' (abstract socket)'' (SOCKTOP_BUF - n))
                        else bind_out (put buf 0 (take n sun_path)) (\<lambda>buf. put buf (n + 1) [NUL]))
                (\<lambda>buf. let l = length (takeWhile (\<lambda>c. c \<noteq> NUL) buf)
                       in if l = length buf then Inl Out_of_bounds
                          else replacenonprintable buf (int l) (CHR ''?'')))"

definition c_str :: "cstr \<Rightarrow> cstr" where "c_str buf = takeWhile (\<lambda>c. c \<noteq> NUL) buf"

section \<open>The source-route option\<close>

text \<open>Addresses are their four bytes in network order.\<close>

fun copy_routes :: "cells \<Rightarrow> nat \<Rightarrow> cstr list \<Rightarrow> int \<Rightarrow> (nat \<times> cells) outcome" where
  "copy_routes opts p routes n =
     (if n \<le> 0 then Inr (p, opts)
      else case routes of
             [] \<Rightarrow> Inl Out_of_bounds
           | r # rs \<Rightarrow> bind_out (write_at opts p r) (\<lambda>opts. copy_routes opts (p + length r) rs (n - 1)))"

definition buildsrcrte :: "cstr \<Rightarrow> cstr list \<Rightarrow> int \<Rightarrow> int \<Rightarrow> (int \<times> cells) outcome" where
  "buildsrcrte dstaddr routes numroutes ptr =
     (let len = (numroutes + 1) * 4 + 4
      in if numroutes > 8 then Inl Fatal_exit
         else bind_out (safe_malloc len) (\<lambda>_.
           let opts = replicate (nat len) (Some NUL)
           in bind_out (write_at opts 0 [CHR 0x01, CHR 0x83, char_of (nat ((len - 1) mod 256)), char_of (nat (ptr mod 256))])
                (\<lambda>opts. bind_out (copy_routes opts 4 routes numroutes)
                   (\<lambda>(p, opts). bind_out (write_at opts p dstaddr) (\<lambda>opts. Inr (len, opts))))))"

section \<open>The access decision\<close>

definition allow_access :: "bool \<Rightarrow> addrset \<Rightarrow> addrset \<Rightarrow> sockaddr \<Rightarrow> bool" where
  "allow_access allow allowset denyset su =
     (if allow \<and> \<not> addrset_contains allowset su then False
      else if addrset_contains denyset su then False
      else True)"

section \<open>Line endings\<close>

text \<open>\<open>src[i] == '\n' && ((i == 0) ? !prev_state : src[i - 1] != '\r')\<close>\<close>

definition bare_lf :: "cstr \<Rightarrow> bool \<Rightarrow> nat \<Rightarrow> bool" where
  "bare_lf src prev_state i \<longleftrightarrow>
     src ! i = LF \<and> (if i = 0 then \<not> prev_state else src ! (i - 1) \<noteq> CR)"

function count_bare :: "cstr \<Rightarrow> bool \<Rightarrow> nat \<Rightarrow> int \<Rightarrow> int" where
  "count_bare src prev_state i fix_count =
     (if i < length src
      then count_bare src prev_state (i + 1) (if bare_lf src prev_state i then fix_count + 1 else fix_count)
      else fix_count)"
  by pat_completeness auto
termination by (relation "measure (\<lambda>(src, p, i, f). length src - i)") auto

function insert_crs :: "cstr \<Rightarrow> bool \<Rightarrow> nat \<Rightarrow> nat \<Rightarrow> cells \<Rightarrow> cells outcome" where
  "insert_crs src prev_state i j dst =
     (if i < length src
      then (if bare_lf src prev_state i
            then bind_out (write_at dst j [CR, LF]) (\<lambda>dst. insert_crs src prev_state (i + 1) (j + 2) dst)
            else bind_out (write_at dst j [src ! i]) (\<lambda>dst. insert_crs src prev_state (i + 1) (j + 1) dst))
      else Inr dst)"
  by pat_completeness auto
termination by (relation "measure (\<lambda>(src, p, i, j, d). length src - i)") auto

declare count_bare.simps [simp del] insert_crs.simps [simp del]

text \<open>
  The result is the return value, the new length, the buffer (\<open>None\<close> when \<open>*dst\<close> is untouched)
  and the new state.
\<close>

definition fix_line_endings :: "cstr \<Rightarrow> bool \<Rightarrow> (bool \<times> int \<times> cells option \<times> bool) outcome" where
  "fix_line_endings src st =
     (let num_bytes = int (length src);
          state' = (if num_bytes > 0 then src ! (length src - 1) = CR else st);
          fix_count = count_bare src st 0 0
      in if fix_count \<le> 0 then Inr (False, num_bytes, None, state')
         else bind_out (safe_malloc (wrap_int (num_bytes + fix_count))) (\<lambda>dst.
                bind_out (insert_crs src st 0 0 dst) (\<lambda>dst.
                  Inr (True, num_bytes + fix_count, Some dst, state'))))"

section \<open>Protocol lists\<close>

function protos_loop :: "cstr \<Rightarrow> nat \<Rightarrow> nat \<Rightarrow> cells \<Rightarrow> cells option outcome" where
  "protos_loop inp i start out =
     (if i \<le> length inp
      then (if i = length inp \<or> inp ! i = CHR '',''
            then (if i - start > 255 then Inr None
                  else bind_out (write_at out start [char_of (i - start)]) (\<lambda>out.
                         protos_loop inp (i + 1) (i + 1) out))
            else bind_out (write_at out (i + 1) [inp ! i]) (\<lambda>out. protos_loop inp (i + 1) start out))
      else Inr (Some out))"
  by pat_completeness auto
termination by (relation "measure (\<lambda>(inp, i, s, out). length inp + 1 - i)") auto

declare protos_loop.simps [simp del]

text \<open>The result is \<open>None\<close> for NULL, and otherwise the output length and the buffer.\<close>

definition next_protos_parse :: "cstr \<Rightarrow> (nat \<times> cells) option outcome" where
  "next_protos_parse inp =
     (if length inp \<ge> 65535 then Inr None
      else bind_out (safe_malloc (int (length inp + 1))) (\<lambda>out.
             map_sum id (map_option (Pair (length inp + 1))) (protos_loop inp 0 0 out)))"

section \<open>Line endings across blocks\<close>

text \<open>
  The conversion as a function of the stream: a line feed that does not follow a carriage return
  gets one.  The flag says whether the last byte before the text was a carriage return.
\<close>

fun crlf :: "bool \<Rightarrow> cstr \<Rightarrow> cstr" where
  "crlf after_cr [] = []"
| "crlf after_cr (c # s) = (if c = LF \<and> \<not> after_cr then [CR, LF] else [c]) @ crlf (c = CR) s"

definition cr_state :: "bool \<Rightarrow> cstr \<Rightarrow> bool" where
  "cr_state st s = (if s = [] then st else last s = CR)"

lemma crlf_append: "crlf st (s @ t) = crlf st s @ crlf (cr_state st s) t"
  by (induction s arbitrary: st) (auto simp: cr_state_def)

lemma crlf_length: "length s \<le> length (crlf st s)"
  by (induction s arbitrary: st) (simp_all add: le_SucI)

lemma crlf_same: "length (crlf st s) = length s \<Longrightarrow> crlf st s = s"
proof (induction s arbitrary: st)
  case (Cons c s)
  then show ?case using crlf_length [of s "c = CR"] by (auto split: if_splits)
qed simp

lemma crlf_idem: "crlf st (crlf st s) = crlf st s"
  by (induction s arbitrary: st) auto

lemma crlf_length_2: "length (crlf st s) \<le> 2 * length s"
  by (induction s arbitrary: st) (simp_all add: le_SucI)

definition cr_before :: "cstr \<Rightarrow> bool \<Rightarrow> nat \<Rightarrow> bool" where
  "cr_before src st i \<longleftrightarrow> (if i = 0 then st else src ! (i - 1) = CR)"

lemma crlf_step:
  assumes "i < length src"
  shows "crlf (cr_before src st i) (drop i src) =
    (if bare_lf src st i then [CR, LF] else [src ! i]) @ crlf (cr_before src st (i + 1)) (drop (i + 1) src)"
proof -
  have "drop i src = src ! i # drop (i + 1) src" using Cons_nth_drop_Suc [OF assms] by simp
  then show ?thesis by (auto simp: bare_lf_def cr_before_def)
qed

lemma count_bare_length:
  "i \<le> length src \<Longrightarrow> count_bare src st i f =
    f + (int (length (crlf (cr_before src st i) (drop i src))) - int (length src - i))"
proof (induction src st i f rule: count_bare.induct)
  case (1 src st i f)
  show ?case
  proof (cases "i < length src")
    case True
    show ?thesis
      using 1(1) [OF True] True crlf_step [OF True, of st]
      by (subst count_bare.simps) (auto simp: of_nat_diff)
  next
    case False
    then show ?thesis using 1(2) by (subst count_bare.simps) simp
  qed
qed

lemma insert_crs_ok:
  assumes "i \<le> length src" "length (crlf (cr_before src st i) (drop i src)) \<le> length rest"
  shows "insert_crs src st i (length s) (map Some s @ rest) =
    Inr (map Some (s @ crlf (cr_before src st i) (drop i src)) @ drop (length (crlf (cr_before src st i) (drop i src))) rest)"
  using assms
proof (induction "length src - i" arbitrary: i s rest)
  case 0
  then show ?case by (subst insert_crs.simps) simp
next
  case (Suc n)
  then have i: "i < length src" by simp
  let ?t = "if bare_lf src st i then [CR, LF] else [src ! i]"
  let ?r = "crlf (cr_before src st (i + 1)) (drop (i + 1) src)"
  note step = crlf_step [OF i, of st]
  have l: "length ?t \<le> length rest" "length ?r \<le> length (drop (length ?t) rest)"
    using Suc.prems(2) unfolding step by auto
  have "insert_crs src st i (length s) (map Some s @ rest) =
      insert_crs src st (i + 1) (length (s @ ?t)) (map Some (s @ ?t) @ drop (length ?t) rest)"
    using i write_at_next [OF l(1), of s] by (subst insert_crs.simps) (auto split: if_splits)
  also have "\<dots> = Inr (map Some ((s @ ?t) @ ?r) @ drop (length ?r) (drop (length ?t) rest))"
    using Suc.hyps(2) i l(2) by (intro Suc.hyps(1)) auto
  finally show ?case unfolding step by (simp add: add.commute)
qed

lemma fix_line_endings_ok:
  assumes "length src < 2 ^ 30"
  shows "fix_line_endings src st =
    Inr (if crlf st src = src then (False, int (length src), None, cr_state st src)
         else (True, int (length (crlf st src)), Some (map Some (crlf st src)), cr_state st src))"
proof -
  have before: "cr_before src st 0 = st" by (simp add: cr_before_def)
  have c: "count_bare src st 0 0 = int (length (crlf st src)) - int (length src)"
    using count_bare_length [of 0 src st 0] by (simp add: before)
  have state: "(if int (length src) > 0 then src ! (length src - 1) = CR else st) = cr_state st src"
    by (auto simp: cr_state_def last_conv_nth)
  have ge: "length src \<le> length (crlf st src)" by (rule crlf_length)
  show ?thesis
  proof (cases "crlf st src = src")
    case True
    then show ?thesis unfolding fix_line_endings_def c
      by (simp add: Let_def cr_state_def last_conv_nth)
  next
    case False
    then have gt: "length src < length (crlf st src)" using ge crlf_same [of st src] by (metis le_neq_implies_less)
    have w: "wrap_int (int (length src) + (int (length (crlf st src)) - int (length src))) = int (length (crlf st src))"
      using crlf_length_2 [of st src] assms by (subst wrap_int_id) auto
    have "insert_crs src st 0 0 (replicate (length (crlf st src)) None) = Inr (map Some (crlf st src))"
      using insert_crs_ok [of 0 src st "replicate (length (crlf st src)) None" "[]"] by (simp add: before)
    then show ?thesis
      using False gt unfolding fix_line_endings_def state c Let_def w by (simp add: safe_malloc_def)
  qed
qed

text \<open>The bytes sent for a block, and for a sequence of blocks with the state threaded through.\<close>

definition sent :: "cstr \<Rightarrow> bool \<times> int \<times> cells option \<times> bool \<Rightarrow> cells" where
  "sent src r = (case r of (changed, len, dst, st) \<Rightarrow>
     take (nat len) (if changed then (case dst of Some d \<Rightarrow> d | None \<Rightarrow> []) else map Some src))"

primrec send_blocks :: "bool \<Rightarrow> cstr list \<Rightarrow> cells outcome" where
  "send_blocks st [] = Inr []"
| "send_blocks st (b # bs) =
     bind_out (fix_line_endings b st) (\<lambda>r.
       map_sum id (\<lambda>rest. sent b r @ rest) (send_blocks (snd (snd (snd r))) bs))"

lemma send_blocks_crlf:
  "\<forall>b\<in>set bs. length b < 2 ^ 30 \<Longrightarrow> send_blocks st bs = Inr (map Some (crlf st (concat bs)))"
proof (induction bs arbitrary: st)
  case (Cons b bs)
  have "fix_line_endings b st =
    Inr (if crlf st b = b then (False, int (length b), None, cr_state st b)
         else (True, int (length (crlf st b)), Some (map Some (crlf st b)), cr_state st b))"
    by (rule fix_line_endings_ok) (use Cons.prems in simp)
  then show ?case using Cons by (simp add: sent_def crlf_append)
qed simp

section \<open>Protocol lists\<close>

fun join :: "cstr list \<Rightarrow> cstr" where
  "join [] = []"
| "join [p] = p"
| "join (p # ps) = p @ CHR '','' # join ps"

definition wire :: "cstr list \<Rightarrow> cstr" where
  "wire ps = concat (map (\<lambda>p. char_of (length p) # p) ps)"

text \<open>Reading the wire format of RFC 7301: a length byte, then that many bytes.\<close>

function read_wire :: "cstr \<Rightarrow> cstr list option" where
  "read_wire [] = Some []"
| "read_wire (c # s) =
     (if code_of c \<le> length s
      then map_option (Cons (take (code_of c) s)) (read_wire (drop (code_of c) s)) else None)"
  by pat_completeness auto
termination by (relation "measure length") auto

lemma read_wire_wire: "\<forall>p\<in>set ps. length p \<le> 255 \<Longrightarrow> read_wire (wire ps) = Some ps"
  by (induction ps) (auto simp: wire_def)

lemma write_at_cells:
  "length t \<le> length rest \<Longrightarrow> length pre = n \<Longrightarrow>
    write_at (pre @ rest) n t = Inr (pre @ map Some t @ drop (length t) rest)"
  by (auto simp: write_at_def)

lemma protos_chars:
  assumes "inp = pre @ p @ post" "length pre = start" "CHR '','' \<notin> set p" "length d = start"
    and "k \<le> length p" "length p - k \<le> length rest"
  shows "protos_loop inp (start + k) start (d @ x # map Some (take k p) @ rest) =
    protos_loop inp (start + length p) start (d @ x # map Some p @ drop (length p - k) rest)"
  using assms(5,6)
proof (induction "length p - k" arbitrary: k rest)
  case 0
  then show ?case by simp
next
  case (Suc n)
  then have k: "k < length p" by simp
  have c: "inp ! (start + k) = p ! k" using assms(1,2) k by (simp add: nth_append)
  have ne: "p ! k \<noteq> CHR '',''" using assms(3) k by (metis nth_mem)
  let ?pre = "d @ x # map Some (take k p)"
  have w: "write_at (?pre @ rest) (start + k + 1) [p ! k] = Inr (?pre @ map Some [p ! k] @ drop 1 rest)"
    using write_at_cells [of "[p ! k]" rest ?pre "start + k + 1"] Suc.prems k assms(4) by simp
  have t: "take (k + 1) p = take k p @ [p ! k]" using take_Suc_conv_app_nth [OF k] by simp
  have len: "start + k < length inp" using assms(1,2) k by simp
  have "protos_loop inp (start + k) start (?pre @ rest) =
      protos_loop inp (start + (k + 1)) start (?pre @ map Some [p ! k] @ drop 1 rest)"
    using len c ne w by (subst protos_loop.simps) simp
  also have "?pre @ map Some [p ! k] @ drop 1 rest = d @ x # map Some (take (k + 1) p) @ drop 1 rest"
    unfolding t by simp
  also have "protos_loop inp (start + (k + 1)) start \<dots> =
      protos_loop inp (start + length p) start (d @ x # map Some p @ drop (length p - (k + 1)) (drop 1 rest))"
    using Suc.hyps(2) Suc.prems k by (intro Suc.hyps(1)) auto
  finally show ?case using k by (simp add: Suc_diff_Suc)
qed

lemma protos_loop_ok:
  assumes "inp = pre @ join ps" "length pre = start" "ps \<noteq> []" "\<forall>p\<in>set ps. CHR '','' \<notin> set p"
    and "length d = start" "length rest = length (join ps) + 1"
  shows "protos_loop inp start start (map Some d @ rest) =
    Inr (if \<forall>p\<in>set ps. length p \<le> 255 then Some (map Some (d @ wire ps)) else None)"
  using assms
proof (induction ps arbitrary: pre start d rest rule: join.induct)
  case (2 p)
  obtain x r where r: "rest = x # r" using 2(6) by (cases rest) auto
  let ?mem = "map Some d @ x # map Some p"
  have "protos_loop inp (start + 0) start (map Some d @ x # map Some (take 0 p) @ r) =
      protos_loop inp (start + length p) start (map Some d @ x # map Some p @ drop (length p - 0) r)"
    by (rule protos_chars [where pre = pre and post = "[]"]) (use 2 r in auto)
  then have "protos_loop inp start start (map Some d @ rest) = protos_loop inp (length inp) start ?mem"
    using 2 r by simp
  moreover have "write_at ?mem start [char_of (length p)] = Inr (map Some d @ Some (char_of (length p)) # map Some p)"
    using write_at_cells [of "[char_of (length p)]" "x # map Some p" "map Some d" start] 2(5) by simp
  ultimately show ?case
    using 2(1,2) by (subst (asm) (2) protos_loop.simps) (simp add: protos_loop.simps wire_def)
next
  case (3 p q ps)
  obtain x r where r: "rest = x # r" using 3(7) by (cases rest) auto
  let ?tl = "drop (length p) r"
  let ?mem = "map Some d @ x # map Some p @ ?tl"
  have "protos_loop inp (start + 0) start (map Some d @ x # map Some (take 0 p) @ r) =
      protos_loop inp (start + length p) start (map Some d @ x # map Some p @ drop (length p - 0) r)"
    by (rule protos_chars [where pre = pre and post = "CHR '','' # join (q # ps)"]) (use 3 r in auto)
  then have e: "protos_loop inp start start (map Some d @ rest) = protos_loop inp (start + length p) start ?mem"
    using r by simp
  have w: "write_at ?mem start [char_of (length p)] = Inr (map Some (d @ char_of (length p) # p) @ ?tl)"
    using write_at_cells [of "[char_of (length p)]" "x # map Some p @ ?tl" "map Some d" start] 3(6) by simp
  have at: "inp ! (start + length p) = CHR '',''" "start + length p < length inp"
    using 3(2,3) by (auto simp: nth_append)
  show ?case
  proof (cases "length p \<le> 255")
    case False
    then show ?thesis unfolding e using at by (subst protos_loop.simps) auto
  next
    case True
    have "protos_loop inp (start + length p) start ?mem =
        protos_loop inp (start + length p + 1) (start + length p + 1) (map Some (d @ char_of (length p) # p) @ ?tl)"
      using at w True by (subst protos_loop.simps) simp
    also have "\<dots> = Inr (if \<forall>p\<in>set (q # ps). length p \<le> 255
        then Some (map Some ((d @ char_of (length p) # p) @ wire (q # ps))) else None)"
      using 3(2,3,5,6,7) r by (intro 3(1) [of "pre @ p @ '',''"]) auto
    finally show ?thesis unfolding e using True by (simp add: wire_def)
  qed
qed simp

section \<open>Source routes\<close>

lemma copy_routes_ok:
  "\<forall>r\<in>set routes. length r = 4 \<Longrightarrow> 4 * length routes \<le> length rest \<Longrightarrow>
    copy_routes (map Some s @ rest) (length s) routes (int (length routes)) =
      Inr (length s + 4 * length routes, map Some (s @ concat routes) @ drop (4 * length routes) rest)"
proof (induction routes arbitrary: s rest)
  case (Cons r rs)
  have "write_at (map Some s @ rest) (length s) r = Inr (map Some (s @ r) @ drop 4 rest)"
    using write_at_next [of r rest s] Cons.prems by simp
  then show ?case
    using Cons.IH [of "drop 4 rest" "s @ r"] Cons.prems by (simp add: add.commute)
qed simp

declare copy_routes.simps [simp del]

section \<open>Sizes\<close>

lemma sadd_exact:
  "sadd l r = (if unat l + unat r < 2 ^ 64 then Inr (l + r) else Inl Fatal_exit)"
proof -
  have u: "unat (l + r) = (unat l + unat r) mod 2 ^ 64" by (simp add: unat_word_ariths)
  have "l + r < l \<longleftrightarrow> \<not> unat l + unat r < 2 ^ 64"
  proof (cases "unat l + unat r < 2 ^ 64")
    case True
    then show ?thesis unfolding word_less_nat_alt u by simp
  next
    case False
    have "unat l < 2 ^ 64" "unat r < 2 ^ 64" using unsigned_less [of l] unsigned_less [of r] by simp_all
    then have "(unat l + unat r) mod 2 ^ 64 = unat l + unat r - 2 ^ 64"
      using False by (simp add: le_mod_geq)
    then show ?thesis unfolding word_less_nat_alt u using \<open>unat r < 2 ^ 64\<close> False by simp
  qed
  then show ?thesis by (simp add: sadd_def Let_def)
qed

lemma smul_exact:
  "smul l r = (if unat l * unat r < 2 ^ 64 then Inr (l * r) else Inl Fatal_exit)"
proof (cases "l = 0")
  case True
  then show ?thesis by (simp add: smul_def)
next
  case False
  then have l: "0 < unat l" by (simp add: unat_gt_0)
  have u: "unat (l * r) = (unat l * unat r) mod 2 ^ 64" by (simp add: unat_word_ariths)
  have "(l * r) div l = r \<longleftrightarrow> unat l * unat r < 2 ^ 64"
  proof
    assume less: "unat l * unat r < 2 ^ 64"
    then have "unat ((l * r) div l) = unat r" unfolding unat_div u using l by simp
    then show "(l * r) div l = r" by (rule unsigned_word_eqI)
  next
    assume "(l * r) div l = r"
    then have "unat r = (unat l * unat r) mod 2 ^ 64 div unat l" by (metis unat_div u)
    then have "unat l * unat r \<le> (unat l * unat r) mod 2 ^ 64"
      by (metis times_div_less_eq_dividend)
    then show "unat l * unat r < 2 ^ 64" by (rule le_less_trans) (rule mod_less_divisor, simp)
  qed
  then show ?thesis using False by (simp add: smul_def Let_def)
qed

lemma ms_to_timeval_exact:
  "ms_to_timeval ms = Timeval sec usec \<Longrightarrow>
    sec * 1000000 + usec = ms * 1000 \<and> \<bar>usec\<bar> < 1000000 \<and> (0 \<le> ms \<longrightarrow> 0 \<le> sec \<and> 0 \<le> usec)"
  by (auto simp: ms_to_timeval_def c_div_def Let_def split: if_splits)

section \<open>Abstract socket names\<close>

lemma takeWhile_name: "is_cstr name \<Longrightarrow> takeWhile (\<lambda>c. c \<noteq> NUL) (name @ NUL # rest) = name"
  by (induction name) auto

lemma socktop_abstract:
  assumes "is_cstr name" "\<forall>c\<in>set name. is_print c" "length name + length pad = 107"
  shows "\<exists>buf. socktop_unix (NUL # name @ pad) (length name + 3) (replicate SOCKTOP_BUF NUL) = Inr buf \<and>
    c_str buf = name"
proof -
  let ?n = "length name"
  have n: "?n \<le> 107" using assms(3) by simp
  let ?b1 = "name @ replicate (174 - ?n) NUL"
  have p1: "put (replicate SOCKTOP_BUF NUL) 0 name = Inr ?b1"
    using n by (simp add: put_def SOCKTOP_BUF_def)
  define t where "t = take (174 - (?n + 1) - 1) ('' (abstract socket)'' @ replicate (174 - (?n + 1)) NUL) @ [NUL]"
  have tl: "length t = 173 - ?n" using n by (simp add: t_def)
  have nz: "173 - ?n \<noteq> 0" using n by simp
  have r1: "take (?n + 1) ?b1 = name @ [NUL]"
    using n by (cases "174 - ?n") auto
  have "put_str ?b1 (?n + 1) '' (abstract socket)'' (SOCKTOP_BUF - (?n + 1)) = put ?b1 (?n + 1) t"
    using nz by (simp add: put_str_def SOCKTOP_BUF_def t_def)
  also have "\<dots> = Inr ((name @ [NUL]) @ t)"
    using n tl r1 by (simp add: put_def)
  finally have p2: "put_str ?b1 (?n + 1) '' (abstract socket)'' (SOCKTOP_BUF - (?n + 1)) = Inr (name @ NUL # t)"
    by simp
  have tw: "takeWhile (\<lambda>c. c \<noteq> NUL) (name @ NUL # t) = name" by (rule takeWhile_name [OF assms(1)])
  have "map (\<lambda>c. if is_print c then c else CHR ''?'') name = name" using assms(2) by (simp add: map_idI)
  then have rep: "replacenonprintable (name @ NUL # t) (int ?n) (CHR ''?'') = Inr (name @ NUL # t)"
    using replace_loop_map [of 0 ?n "name @ NUL # t" "CHR ''?''"] by (simp add: replacenonprintable_def)
  have size: "min (SOCKTOP_BUF - 1) (?n + 3 - 2) = ?n + 1" using n by (simp add: SOCKTOP_BUF_def)
  have tk: "take (?n + 1 - 1) (drop 1 (NUL # name @ pad)) = name" by simp
  have "socktop_unix (NUL # name @ pad) (?n + 3) (replicate SOCKTOP_BUF NUL) = Inr (name @ NUL # t)"
    unfolding socktop_unix_def size using n p1 p2 tw rep by (simp add: Let_def)
  then show ?thesis by (simp add: c_str_def tw)
qed

section \<open>What the code promises of its helpers\<close>

text \<open>
  C21. Converting the blocks of a stream one after the other, with the state kept between them, gives
  exactly the conversion of the whole stream: a line feed gets a carriage return precisely when the
  byte before it, possibly in an earlier block, is none, however the stream is cut into blocks; no
  write leaves the output buffer, and the converted stream needs no further conversion.
\<close>

theorem line_endings_streaming:
  assumes "\<forall>b\<in>set bs. length b < 2 ^ 30"
  shows "send_blocks st bs = Inr (map Some (crlf st (concat bs))) \<and>
    crlf st (crlf st (concat bs)) = crlf st (concat bs)"
  using send_blocks_crlf [OF assms] crlf_idem by blast

theorem line_endings_streaming_witness:
  "send_blocks False [[CHR ''a'', CR], [LF, LF], []] = Inr (map Some [CHR ''a'', CR, LF, CR, LF])"
  using line_endings_streaming [of "[[CHR ''a'', CR], [LF, LF], []]" False] by simp

text \<open>
  A comma-separated list of protocol names is encoded as the length-prefixed list that ALPN
  sends: the encoding stays within its buffer and reads back as exactly the names; NULL is returned
  precisely when the text has 65535 bytes or more or a name has more than 255.
\<close>

theorem next_protos_roundtrip:
  assumes "ps \<noteq> []" and "\<forall>p\<in>set ps. CHR '','' \<notin> set p"
  shows "next_protos_parse (join ps) =
      Inr (if length (join ps) < 65535 \<and> (\<forall>p\<in>set ps. length p \<le> 255)
           then Some (length (join ps) + 1, map Some (wire ps)) else None) \<and>
    ((\<forall>p\<in>set ps. length p \<le> 255) \<longrightarrow> read_wire (wire ps) = Some ps)"
proof -
  have "protos_loop (join ps) 0 0 (replicate (length (join ps) + 1) None) =
      Inr (if \<forall>p\<in>set ps. length p \<le> 255 then Some (map Some (wire ps)) else None)"
    using protos_loop_ok [of "join ps" "[]" ps 0 "[]" "replicate (length (join ps) + 1) None"] assms by simp
  moreover have "safe_malloc (int (length (join ps) + 1)) = Inr (replicate (length (join ps) + 1) None)"
    by (simp add: safe_malloc_def nat_add_distrib)
  ultimately show ?thesis
    using read_wire_wire by (auto simp: next_protos_parse_def)
qed

theorem next_protos_roundtrip_witness:
  "next_protos_parse ''h2,http/1.1'' = Inr (Some (12, map Some (CHR 0x02 # ''h2'' @ CHR 0x08 # ''http/1.1'')))"
proof -
  let ?ps = "[''h2'', ''http/1.1'']"
  have j: "join ?ps = ''h2,http/1.1''" by simp
  have "length (join ?ps) + 1 = 12" "length (join ?ps) < 65535" "\<forall>p\<in>set ?ps. length p \<le> 255" by simp_all
  moreover have "map Some (wire ?ps) = map Some (CHR 0x02 # ''h2'' @ CHR 0x08 # ''http/1.1'')" by code_simp
  ultimately show ?thesis using next_protos_roundtrip [of ?ps] unfolding j by simp
qed

text \<open>
  The checked additions and multiplications of sizes return the mathematical result or end the
  process: they exit exactly when the result does not fit 64 bits.  A number of milliseconds becomes a
  time value of exactly that length, normalised and with the sign of the number.
\<close>

theorem checked_sizes_exact:
  "sadd l r = (if unat l + unat r < 2 ^ 64 then Inr (l + r) else Inl Fatal_exit) \<and>
   smul l r = (if unat l * unat r < 2 ^ 64 then Inr (l * r) else Inl Fatal_exit) \<and>
   tv_sec (ms_to_timeval ms) * 1000000 + tv_usec (ms_to_timeval ms) = ms * 1000 \<and>
   \<bar>tv_usec (ms_to_timeval ms)\<bar> < 1000000"
  using sadd_exact smul_exact ms_to_timeval_exact [of ms "tv_sec (ms_to_timeval ms)" "tv_usec (ms_to_timeval ms)"]
  by simp

text \<open>
  The source-route option holds a no-operation byte, the loose-source-route code, its own
  length, the pointer, the hops in order and the destination; it is exactly as long as reported, and
  more than eight hops end the process.
\<close>

theorem buildsrcrte_layout:
  assumes "\<forall>r\<in>set routes. length r = 4" and "length dst = 4"
  shows "buildsrcrte dst routes (int (length routes)) ptr =
    (if length routes \<le> 8
     then Inr (int (4 * length routes + 8),
       map Some ([CHR 0x01, CHR 0x83, char_of (4 * length routes + 7), char_of (nat (ptr mod 256))] @ concat routes @ dst))
     else Inl Fatal_exit)"
proof (cases "length routes \<le> 8")
  case True
  let ?n = "length routes"
  define h where "h = [CHR 0x01, CHR 0x83, char_of (4 * ?n + 7), char_of (nat (ptr mod 256))]"
  define z where "z = replicate (4 * ?n + 8) (Some NUL)"
  have lh: "length h = 4" by (simp add: h_def)
  have len: "(int ?n + 1) * 4 + 4 = int (4 * ?n + 8)" by simp
  have l1: "nat ((int (4 * ?n + 8) - 1) mod 256) = 4 * ?n + 7" using True by simp
  have w1: "write_at z 0 h = Inr (map Some h @ drop 4 z)"
    using write_at_next [of h z "[]"] lh by (simp add: z_def)
  have w2: "copy_routes (map Some h @ drop 4 z) 4 routes (int ?n) =
      Inr (4 + 4 * ?n, map Some (h @ concat routes) @ drop (4 + 4 * ?n) z)"
    using copy_routes_ok [OF assms(1), of "drop 4 z" h] lh by (simp add: z_def add.commute)
  have cl: "length (concat routes) = 4 * ?n"
    using assms(1) by (induction routes) auto
  have w3: "write_at (map Some (h @ concat routes) @ drop (4 + 4 * ?n) z) (4 + 4 * ?n) dst =
      Inr (map Some ((h @ concat routes) @ dst))"
    using write_at_next [of dst "drop (4 + 4 * ?n) z" "h @ concat routes"] cl assms(2) lh by (simp add: z_def)
  have "buildsrcrte dst routes (int ?n) ptr = Inr (int (4 * ?n + 8), map Some ((h @ concat routes) @ dst))"
    using True w1 w2 w3 unfolding buildsrcrte_def len l1 Let_def nat_int z_def [symmetric] h_def [symmetric]
    by (simp add: safe_malloc_def)
  then show ?thesis using True by (simp add: h_def)
qed (simp add: buildsrcrte_def Let_def)

theorem buildsrcrte_layout_witness:
  "buildsrcrte ''abcd'' [''wxyz''] 1 4 =
    Inr (12, map Some ([CHR 0x01, CHR 0x83, CHR 0x0B, CHR 0x04] @ ''wxyz'' @ ''abcd''))"
proof -
  have "char_of (11::nat) = CHR 0x0B" "char_of (4::nat) = CHR 0x04" by code_simp+
  then show ?thesis using buildsrcrte_layout [of "[''wxyz'']" "''abcd''" 4] by simp
qed

text \<open>
  With an allow list that was given one numeric address, and no deny list, the listening modes
  admit that address and no other, whatever the peer's address is.
\<close>

theorem allow_list_admits_one_host:
  assumes "resolver_ok gai" and "CHR ''/'' \<notin> set spec" and "gai spec True 0 = (0, [sa])" and "sa \<noteq> AF_other"
  shows "\<exists>allowset. addrset_add_spec gai addrset_new spec af dns = Inr (allowset, True) \<and>
    (\<forall>su. sa_ok su \<longrightarrow> allow_access True allowset addrset_new su =
       (su \<noteq> AF_other \<and> (\<forall>j < 128. abit (sa_addr su) j = abit (sa_addr sa) j)))"
  using add_host_ok [OF access_set.access_new assms(1,2,3,4)] addrset_new_ok(2)
  by (fastforce simp: allow_access_def)

theorem allow_list_admits_one_host_witness:
  "\<exists>allowset. addrset_add_spec (table_gai [(''h'', AF_INET 7)]) addrset_new ''h'' 0 False = Inr (allowset, True) \<and>
    allow_access True allowset addrset_new (AF_INET 7)"
proof -
  have "resolver_ok (table_gai [(''h'', AF_INET 7)])" by (rule table_gai_ok) simp
  moreover have "table_gai [(''h'', AF_INET 7)] ''h'' True 0 = (0, [AF_INET 7])" by (simp add: table_gai_def)
  ultimately obtain allowset where
      "addrset_add_spec (table_gai [(''h'', AF_INET 7)]) addrset_new ''h'' 0 False = Inr (allowset, True)"
      "\<forall>su. sa_ok su \<longrightarrow> allow_access True allowset addrset_new su =
         (su \<noteq> AF_other \<and> (\<forall>j < 128. abit (sa_addr su) j = abit (sa_addr (AF_INET 7)) j))"
    using allow_list_admits_one_host [of "table_gai [(''h'', AF_INET 7)]" "''h''" "AF_INET 7" 0 False] by auto
  then show ?thesis by (intro exI [of _ allowset]) simp
qed

text \<open>
  The address text of an abstract Unix-domain socket is its name alone: the suffix that the code
  appends starts one byte after the terminator, so it is never part of the string.
\<close>

theorem abstract_suffix_lost:
  assumes "is_cstr name" and "\<forall>c\<in>set name. is_print c" and "length name + length pad = 107"
  shows "\<exists>buf. socktop_unix (NUL # name @ pad) (length name + 3) (replicate SOCKTOP_BUF NUL) = Inr buf \<and>
    c_str buf = name"
  using assms by (rule socktop_abstract)

theorem abstract_suffix_lost_witness:
  "\<exists>buf. socktop_unix (NUL # ''x'' @ replicate 106 NUL) 4 (replicate SOCKTOP_BUF NUL) = Inr buf \<and> c_str buf = ''x''"
  using abstract_suffix_lost [of "''x''" "replicate 106 NUL"] by (simp add: is_print_def)

end
