(* ===== verification/Checksums.thy ===== *)
theory Checksums
  imports Prelude
begin

text \<open>
  The checksums of nbase/nbase_misc.c: CRC-32 with its lazily built table, CRC-32C with the table of
  nbase_crc32ct.h, and Adler-32.  \<open>unsigned long\<close> has 64 bits.  The table-driven loops are compared
  with the bit-serial division that defines the codes, and with the closed form of Adler-32; the
  running checksums share the locale \<open>running_checksum\<close>.
\<close>

unbundle bit_operations_syntax

section \<open>CRC-32\<close>

text \<open>One turn of the inner loop of \<open>make_crc_table\<close>.\<close>

definition crc_step :: "u64 \<Rightarrow> u64" where
  "crc_step c = (if c AND 1 \<noteq> 0 then 0xedb88320 XOR drop_bit 1 c else drop_bit 1 c)"

definition make_crc_table :: "u64 list" where
  "make_crc_table = map (\<lambda>n. (crc_step ^^ 8) (word_of_nat n)) [0 ..< 256]"

text \<open>The static table and its flag.\<close>

record crc_state =
  crc_table :: "u64 list"
  crc_table_computed :: bool

definition crc_initial :: crc_state where
  "crc_initial = \<lparr>crc_table = replicate 256 0, crc_table_computed = False\<rparr>"

definition crc_byte :: "u64 list \<Rightarrow> u8 \<Rightarrow> u64 \<Rightarrow> u64" where
  "crc_byte table b c = table ! unat ((c XOR ucast b) AND 0xff) XOR drop_bit 8 c"

definition update_crc :: "crc_state \<Rightarrow> u64 \<Rightarrow> u8 list \<Rightarrow> u64 \<times> crc_state" where
  "update_crc st crc buf =
     (let c = crc XOR 0xffffffff;
          st = (if \<not> crc_table_computed st then st\<lparr>crc_table := make_crc_table, crc_table_computed := True\<rparr> else st)
      in (fold (crc_byte (crc_table st)) buf c XOR 0xffffffff, st))"

definition nbase_crc32 :: "crc_state \<Rightarrow> u8 list \<Rightarrow> u64 \<times> crc_state" where
  "nbase_crc32 st buf = update_crc st 0 buf"

section \<open>CRC-32C\<close>

definition crc_c :: "u64 list" where
  "crc_c = [
   0x00000000, 0xF26B8303, 0xE13B70F7, 0x1350F3F4, 0xC79A971F, 0x35F1141C,
   0x26A1E7E8, 0xD4CA64EB, 0x8AD958CF, 0x78B2DBCC, 0x6BE22838, 0x9989AB3B,
   0x4D43CFD0, 0xBF284CD3, 0xAC78BF27, 0x5E133C24, 0x105EC76F, 0xE235446C,
   0xF165B798, 0x030E349B, 0xD7C45070, 0x25AFD373, 0x36FF2087, 0xC494A384,
   0x9A879FA0, 0x68EC1CA3, 0x7BBCEF57, 0x89D76C54, 0x5D1D08BF, 0xAF768BBC,
   0xBC267848, 0x4E4DFB4B, 0x20BD8EDE, 0xD2D60DDD, 0xC186FE29, 0x33ED7D2A,
   0xE72719C1, 0x154C9AC2, 0x061C6936, 0xF477EA35, 0xAA64D611, 0x580F5512,
   0x4B5FA6E6, 0xB93425E5, 0x6DFE410E, 0x9F95C20D, 0x8CC531F9, 0x7EAEB2FA,
   0x30E349B1, 0xC288CAB2, 0xD1D83946, 0x23B3BA45, 0xF779DEAE, 0x05125DAD,
   0x1642AE59, 0xE4292D5A, 0xBA3A117E, 0x4851927D, 0x5B016189, 0xA96AE28A,
   0x7DA08661, 0x8FCB0562, 0x9C9BF696, 0x6EF07595, 0x417B1DBC, 0xB3109EBF,
   0xA0406D4B, 0x522BEE48, 0x86E18AA3, 0x748A09A0, 0x67DAFA54, 0x95B17957,
   0xCBA24573, 0x39C9C670, 0x2A993584, 0xD8F2B687, 0x0C38D26C, 0xFE53516F,
   0xED03A29B, 0x1F682198, 0x5125DAD3, 0xA34E59D0, 0xB01EAA24, 0x42752927,
   0x96BF4DCC, 0x64D4CECF, 0x77843D3B, 0x85EFBE38, 0xDBFC821C, 0x2997011F,
   0x3AC7F2EB, 0xC8AC71E8, 0x1C661503, 0xEE0D9600, 0xFD5D65F4, 0x0F36E6F7,
   0x61C69362, 0x93AD1061, 0x80FDE395, 0x72966096, 0xA65C047D, 0x5437877E,
   0x4767748A, 0xB50CF789, 0xEB1FCBAD, 0x197448AE, 0x0A24BB5A, 0xF84F3859,
   0x2C855CB2, 0xDEEEDFB1, 0xCDBE2C45, 0x3FD5AF46, 0x7198540D, 0x83F3D70E,
   0x90A324FA, 0x62C8A7F9, 0xB602C312, 0x44694011, 0x5739B3E5, 0xA55230E6,
   0xFB410CC2, 0x092A8FC1, 0x1A7A7C35, 0xE811FF36, 0x3CDB9BDD, 0xCEB018DE,
   0xDDE0EB2A, 0x2F8B6829, 0x82F63B78, 0x709DB87B, 0x63CD4B8F, 0x91A6C88C,
   0x456CAC67, 0xB7072F64, 0xA457DC90, 0x563C5F93, 0x082F63B7, 0xFA44E0B4,
   0xE9141340, 0x1B7F9043, 0xCFB5F4A8, 0x3DDE77AB, 0x2E8E845F, 0xDCE5075C,
   0x92A8FC17, 0x60C37F14, 0x73938CE0, 0x81F80FE3, 0x55326B08, 0xA759E80B,
   0xB4091BFF, 0x466298FC, 0x1871A4D8, 0xEA1A27DB, 0xF94AD42F, 0x0B21572C,
   0xDFEB33C7, 0x2D80B0C4, 0x3ED04330, 0xCCBBC033, 0xA24BB5A6, 0x502036A5,
   0x4370C551, 0xB11B4652, 0x65D122B9, 0x97BAA1BA, 0x84EA524E, 0x7681D14D,
   0x2892ED69, 0xDAF96E6A, 0xC9A99D9E, 0x3BC21E9D, 0xEF087A76, 0x1D63F975,
   0x0E330A81, 0xFC588982, 0xB21572C9, 0x407EF1CA, 0x532E023E, 0xA145813D,
   0x758FE5D6, 0x87E466D5, 0x94B49521, 0x66DF1622, 0x38CC2A06, 0xCAA7A905,
   0xD9F75AF1, 0x2B9CD9F2, 0xFF56BD19, 0x0D3D3E1A, 0x1E6DCDEE, 0xEC064EED,
   0xC38D26C4, 0x31E6A5C7, 0x22B65633, 0xD0DDD530, 0x0417B1DB, 0xF67C32D8,
   0xE52CC12C, 0x1747422F, 0x49547E0B, 0xBB3FFD08, 0xA86F0EFC, 0x5A048DFF,
   0x8ECEE914, 0x7CA56A17, 0x6FF599E3, 0x9D9E1AE0, 0xD3D3E1AB, 0x21B862A8,
   0x32E8915C, 0xC083125F, 0x144976B4, 0xE622F5B7, 0xF5720643, 0x07198540,
   0x590AB964, 0xAB613A67, 0xB831C993, 0x4A5A4A90, 0x9E902E7B, 0x6CFBAD78,
   0x7FAB5E8C, 0x8DC0DD8F, 0xE330A81A, 0x115B2B19, 0x020BD8ED, 0xF0605BEE,
   0x24AA3F05, 0xD6C1BC06, 0xC5914FF2, 0x37FACCF1, 0x69E9F0D5, 0x9B8273D6,
   0x88D28022, 0x7AB90321, 0xAE7367CA, 0x5C18E4C9, 0x4F48173D, 0xBD23943E,
   0xF36E6F75, 0x0105EC76, 0x12551F82, 0xE03E9C81, 0x34F4F86A, 0xC69F7B69,
   0xD5CF889D, 0x27A40B9E, 0x79B737BA, 0x8BDCB4B9, 0x988C474D, 0x6AE7C44E,
   0xBE2DA0A5, 0x4C4623A6, 0x5F16D052, 0xAD7D5351]"

definition CRC32C :: "u8 \<Rightarrow> u64 \<Rightarrow> u64" where
  "CRC32C d c = drop_bit 8 c XOR crc_c ! unat ((c XOR ucast d) AND 0xff)"

text \<open>
  The bytes of the complement are put together in reverse order.  \<open>byte0 << 24\<close> and the alternatives
  are computed as 32-bit \<open>int\<close>, and converted to \<open>unsigned long\<close> with their sign.
\<close>

definition nbase_crc32c :: "u8 list \<Rightarrow> u64" where
  "nbase_crc32c buf =
     (let result = NOT (fold CRC32C buf 0xffffffff);
          byte0 = ucast result :: u8;
          byte1 = ucast (drop_bit 8 result) :: u8;
          byte2 = ucast (drop_bit 16 result) :: u8;
          byte3 = ucast (drop_bit 24 result) :: u8
      in scast (push_bit 24 (ucast byte0) OR push_bit 16 (ucast byte1) OR push_bit 8 (ucast byte2) OR ucast byte3 :: u32))"

section \<open>Adler-32\<close>

definition ADLER32_BASE :: u64 where "ADLER32_BASE = 65521"

definition adler_byte :: "u8 \<Rightarrow> u64 \<times> u64 \<Rightarrow> u64 \<times> u64" where
  "adler_byte b s = (let s1 = (fst s + ucast b) mod ADLER32_BASE; s2 = (snd s + s1) mod ADLER32_BASE in (s1, s2))"

definition update_adler32 :: "u64 \<Rightarrow> u8 list \<Rightarrow> u64" where
  "update_adler32 adler buf =
     (case fold adler_byte buf (adler AND 0xffff, drop_bit 16 adler AND 0xffff) of
        (s1, s2) \<Rightarrow> push_bit 16 s2 + s1)"

definition nbase_adler32 :: "u8 list \<Rightarrow> u64" where
  "nbase_adler32 buf = update_adler32 1 buf"

section \<open>The bit-serial definition of the codes\<close>

text \<open>Division by the reflected polynomial \<open>p\<close>, one bit at a time.\<close>

definition div_step :: "u64 \<Rightarrow> u64 \<Rightarrow> u64" where
  "div_step p c = (if c AND 1 \<noteq> 0 then p XOR drop_bit 1 c else drop_bit 1 c)"

lemma div_step_odd: "div_step p c = (if odd c then p XOR drop_bit 1 c else drop_bit 1 c)"
  by (simp add: div_step_def and_one_eq odd_iff_mod_2_eq_one)

definition div_byte :: "u64 \<Rightarrow> u8 \<Rightarrow> u64 \<Rightarrow> u64" where
  "div_byte p b c = (div_step p ^^ 8) (c XOR ucast b)"

lemma div_step_xor: "div_step p (x XOR y) = div_step p x XOR div_step p y"
  by (cases "odd x"; cases "odd y") (simp_all add: div_step_odd xor.assoc xor.left_commute even_xor_iff drop_bit_xor)

lemma div_steps_xor: "(div_step p ^^ n) (x XOR y) = (div_step p ^^ n) x XOR (div_step p ^^ n) y"
  by (induction n) (simp_all add: div_step_xor)

lemma div_steps_shift:
  assumes "\<forall>i<n. \<not> bit y i"
  shows "(div_step p ^^ n) y = drop_bit n y"
  using assms
proof (induction n)
  case (Suc n)
  then have "even (drop_bit n y)" by (simp add: even_drop_bit_iff_not_bit)
  then have "div_step p (drop_bit n y) = drop_bit (Suc n) y"
    by (simp add: div_step_odd drop_bit_drop_bit)
  then show ?case using Suc by simp
qed simp

lemma and_ff: "(x :: u64) AND 0xff = take_bit 8 x"
proof -
  have "(0xff :: u64) = mask 8" by (simp add: mask_eq_exp_minus_1)
  then show ?thesis by (simp only: take_bit_eq_mask)
qed

lemma div_byte_table:
  "div_byte p b c = (div_step p ^^ 8) ((c XOR ucast b) AND 0xff) XOR drop_bit 8 c"
proof -
  let ?x = "c XOR ucast b"
  have split: "?x = take_bit 8 ?x XOR push_bit 8 (drop_bit 8 ?x)"
  proof (rule bit_word_eqI)
    fix n assume "n < LENGTH(64)"
    then show "bit ?x n = bit (take_bit 8 ?x XOR push_bit 8 (drop_bit 8 ?x)) n"
      by (cases "n < 8") (auto simp: bit_take_bit_iff bit_xor_iff bit_push_bit_iff bit_drop_bit_eq)
  qed
  have "(div_step p ^^ 8) (push_bit 8 (drop_bit 8 ?x)) = drop_bit 8 (push_bit 8 (drop_bit 8 ?x))"
    by (rule div_steps_shift) (auto simp: bit_push_bit_iff bit_xor_iff)
  also have "\<dots> = drop_bit 8 c"
    by (rule bit_word_eqI)
      (auto simp: bit_push_bit_iff bit_drop_bit_eq bit_xor_iff bit_ucast_iff dest: bit_imp_le_length)
  finally show ?thesis unfolding div_byte_def and_ff by (subst split) (simp add: div_steps_xor)
qed

lemma low_byte_less: "unat ((x :: u64) AND 0xff) < 256"
proof -
  have "unat (x AND 0xff) = take_bit 8 (unat x)" by (simp add: and_ff unsigned_take_bit_eq)
  then show ?thesis using take_bit_nat_less_exp [of 8 "unat x"] by simp
qed

lemma crc_step_div: "crc_step = div_step 0xedb88320"
  by (rule ext) (simp add: crc_step_def div_step_def)

lemma crc_byte_div: "crc_byte make_crc_table b c = div_byte 0xedb88320 b c"
  using low_byte_less [of "c XOR ucast b"]
  by (simp add: crc_byte_def div_byte_table make_crc_table_def crc_step_div)

text \<open>The entries of the literal table, computed over the integers.\<close>

definition div_int :: "int \<Rightarrow> int \<Rightarrow> int" where
  "div_int p c = (if c mod 2 = 1 then p XOR (c div 2) else c div 2)"

lemma uint_div_step: "uint (div_step p c) = div_int (uint p) (uint c)"
proof -
  have "odd c \<longleftrightarrow> odd (uint c)" by (simp add: bit_unsigned_iff flip: bit_0)
  then have "odd c \<longleftrightarrow> uint c mod 2 = 1" by (simp only: odd_iff_mod_2_eq_one)
  then show ?thesis
    by (simp add: div_step_odd div_int_def unsigned_xor_eq unsigned_drop_bit_eq drop_bit_eq_div take_bit_int_eq_self uint_div)
qed

lemma uint_div_steps: "uint ((div_step p ^^ n) c) = (div_int (uint p) ^^ n) (uint c)"
  by (induction n) (simp_all add: uint_div_step)

lemma crc_c_ints: "map uint crc_c = map (div_int 0x82F63B78 ^^ 8) [0 .. 255]"
  by code_simp

lemma crc_c_entry:
  assumes "i < 256"
  shows "crc_c ! i = (div_step 0x82F63B78 ^^ 8) (word_of_nat i)"
proof -
  have l: "length crc_c = 256" using arg_cong [OF crc_c_ints, of length] by simp
  have "uint (crc_c ! i) = map uint crc_c ! i" using assms l by simp
  also have "\<dots> = (div_int 0x82F63B78 ^^ 8) (int i)"
    unfolding crc_c_ints using assms by (simp add: nth_upto)
  also have "\<dots> = uint ((div_step 0x82F63B78 ^^ 8) (word_of_nat i :: u64))"
    using assms by (simp add: uint_div_steps unsigned_of_nat take_bit_nat_eq_self)
  finally show ?thesis by (rule unsigned_word_eqI)
qed

lemma CRC32C_div: "CRC32C b c = div_byte 0x82F63B78 b c"
  using crc_c_entry [OF low_byte_less [of "c XOR ucast b"]]
  by (simp add: CRC32C_def div_byte_table xor.commute)

definition swapped_bytes :: "u64 \<Rightarrow> u32" where
  "swapped_bytes r = push_bit 24 (ucast (ucast r :: u8)) OR push_bit 16 (ucast (ucast (drop_bit 8 r) :: u8)) OR
     push_bit 8 (ucast (ucast (drop_bit 16 r) :: u8)) OR ucast (ucast (drop_bit 24 r) :: u8)"

lemma swapped_bits:
  assumes "i < 8"
  shows "bit (swapped_bytes r) i = bit r (24 + i)" "bit (swapped_bytes r) (8 + i) = bit r (16 + i)"
    "bit (swapped_bytes r) (16 + i) = bit r (8 + i)" "bit (swapped_bytes r) (24 + i) = bit r i"
  using assms
  by (auto simp: swapped_bytes_def bit_or_iff bit_push_bit_iff bit_ucast_iff bit_drop_bit_eq dest: bit_imp_le_length)

section \<open>Running checksums\<close>

text \<open>What a caller who feeds data in pieces relies on.\<close>

locale running_checksum =
  fixes valid :: "'s \<Rightarrow> bool" and upd :: "'s \<Rightarrow> u8 list \<Rightarrow> 's"
  assumes upd_valid: "valid s \<Longrightarrow> valid (upd s xs)"
    and upd_append: "valid s \<Longrightarrow> upd s (xs @ ys) = upd (upd s xs) ys"
    and upd_nil: "valid s \<Longrightarrow> upd s [] = s"
begin

lemma pieces: "valid s \<Longrightarrow> foldl upd s xss = upd s (concat xss)"
  by (induction xss arbitrary: s) (simp_all add: upd_nil upd_append upd_valid)

end

definition crc_ready :: "crc_state \<Rightarrow> bool" where
  "crc_ready st \<longleftrightarrow> crc_table st = make_crc_table \<and> crc_table_computed st"

definition crc_ok :: "crc_state \<Rightarrow> bool" where
  "crc_ok st \<longleftrightarrow> (crc_table_computed st \<longrightarrow> crc_table st = make_crc_table)"

lemma update_crc_div:
  assumes "crc_ok st"
  shows "fst (update_crc st crc buf) = fold (div_byte 0xedb88320) buf (crc XOR 0xffffffff) XOR 0xffffffff"
    and "crc_ready (snd (update_crc st crc buf))"
proof -
  have "crc_byte make_crc_table = div_byte 0xedb88320" by (intro ext) (rule crc_byte_div)
  then show "fst (update_crc st crc buf) = fold (div_byte 0xedb88320) buf (crc XOR 0xffffffff) XOR 0xffffffff"
      "crc_ready (snd (update_crc st crc buf))"
    using assms by (auto simp: update_crc_def crc_ok_def crc_ready_def Let_def)
qed

lemma update_crc_ready:
  assumes "crc_ready st" shows "snd (update_crc st crc buf) = st"
  using assms by (simp add: update_crc_def crc_ready_def Let_def)

definition crc_run :: "u64 \<times> crc_state \<Rightarrow> u8 list \<Rightarrow> u64 \<times> crc_state" where
  "crc_run s buf = update_crc (snd s) (fst s) buf"

interpretation crc32: running_checksum "\<lambda>s. crc_ready (snd s)" crc_run
proof
  fix s :: "u64 \<times> crc_state" and xs ys
  assume r: "crc_ready (snd s)"
  then have ok: "crc_ok (snd s)" by (simp add: crc_ready_def crc_ok_def)
  show "crc_ready (snd (crc_run s xs))" unfolding crc_run_def by (rule update_crc_div(2) [OF ok])
  show "crc_run s (xs @ ys) = crc_run (crc_run s xs) ys"
    using update_crc_ready [OF r] update_crc_div(1) [OF ok]
    by (intro prod_eqI) (simp_all add: crc_run_def xor.assoc)
  show "crc_run s [] = s"
    using update_crc_ready [OF r] update_crc_div(1) [OF ok]
    by (intro prod_eqI) (simp_all add: crc_run_def xor.assoc)
qed

text \<open>Adler-32 over the natural numbers.\<close>

definition adler_nat :: "u8 \<Rightarrow> nat \<times> nat \<Rightarrow> nat \<times> nat" where
  "adler_nat b s = (let s1 = (fst s + unat b) mod 65521 in (s1, (snd s + s1) mod 65521))"

definition adler_word :: "nat \<times> nat \<Rightarrow> u64" where
  "adler_word s = word_of_nat (snd s * 65536 + fst s)"

lemma word_mod_base: "x < 2 ^ 64 \<Longrightarrow> (word_of_nat x :: u64) mod 65521 = word_of_nat (x mod 65521)"
proof (rule unsigned_word_eqI)
  assume x: "x < 2 ^ 64"
  have "x mod 65521 < 2 ^ 64" by (rule le_less_trans [OF _ x]) simp
  then show "unat ((word_of_nat x :: u64) mod 65521) = unat (word_of_nat (x mod 65521) :: u64)"
    using x by (simp add: unat_mod unsigned_of_nat take_bit_nat_eq_self)
qed

lemma adler_byte_nat:
  assumes "fst s < 65536" "snd s < 65536"
  shows "adler_byte b (map_prod word_of_nat word_of_nat s) = map_prod word_of_nat word_of_nat (adler_nat b s)"
proof -
  let ?s1 = "(fst s + unat b) mod 65521"
  have u: "unat b < 256" using unsigned_less [of b] by simp
  have c: "ucast b = (word_of_nat (unat b) :: u64)" by simp
  have 1: "(word_of_nat (fst s) + word_of_nat (unat b) :: u64) mod 65521 = word_of_nat ?s1"
    using word_mod_base [of "fst s + unat b"] assms(1) u by simp
  have "?s1 < 65521" by simp
  then have 2: "(word_of_nat (snd s) + word_of_nat ?s1 :: u64) mod 65521 = word_of_nat ((snd s + ?s1) mod 65521)"
    using word_mod_base [of "snd s + ?s1"] assms(2) by simp
  show ?thesis
    by (cases s) (use 1 2 in \<open>simp add: adler_byte_def adler_nat_def ADLER32_BASE_def Let_def flip: c\<close>)
qed

lemma adler_nat_less: "fst (adler_nat b s) < 65521" "snd (adler_nat b s) < 65521"
  by (simp_all add: adler_nat_def Let_def)

lemma adler_fold_less:
  "fst s < n \<Longrightarrow> snd s < n \<Longrightarrow> 65521 \<le> n \<Longrightarrow> fst (fold adler_nat xs s) < n \<and> snd (fold adler_nat xs s) < n"
proof (induction xs arbitrary: s)
  case (Cons x xs)
  then show ?case using adler_nat_less [of x s] by (auto intro: less_le_trans)
qed simp

lemma adler_fold_nat:
  "fst s < 65536 \<Longrightarrow> snd s < 65536 \<Longrightarrow>
    fold adler_byte xs (map_prod word_of_nat word_of_nat s) = map_prod word_of_nat word_of_nat (fold adler_nat xs s)"
proof (induction xs arbitrary: s)
  case (Cons x xs)
  have "fst (adler_nat x s) < 65536" "snd (adler_nat x s) < 65536" using adler_nat_less [of x s] by auto
  then show ?case using Cons adler_byte_nat by simp
qed simp

lemma update_adler_nat:
  assumes "fst s < 65536" "snd s < 65536"
  shows "update_adler32 (adler_word s) xs = adler_word (fold adler_nat xs s)"
proof -
  have ff: "(x :: u64) AND 0xffff = take_bit 16 x" for x
  proof -
    have "(0xffff :: u64) = mask 16" by (simp add: mask_eq_exp_minus_1)
    then show ?thesis by (simp only: take_bit_eq_mask)
  qed
  have big: "snd s * 65536 + fst s < 2 ^ 64" using assms by simp
  have 1: "adler_word s AND 0xffff = word_of_nat (fst s)"
  proof (rule unsigned_word_eqI)
    show "unat (adler_word s AND 0xffff) = unat (word_of_nat (fst s) :: u64)"
      using assms(1) big unfolding ff adler_word_def
      by (simp add: take_bit_eq_mod unat_mod unsigned_of_nat take_bit_nat_eq_self del: of_nat_add of_nat_mult)
  qed
  have "drop_bit 16 (adler_word s) = word_of_nat (snd s)"
  proof (rule unsigned_word_eqI)
    show "unat (drop_bit 16 (adler_word s)) = unat (word_of_nat (snd s) :: u64)"
      using assms big by (simp add: adler_word_def drop_bit_eq_div unat_div unsigned_of_nat take_bit_nat_eq_self
          del: of_nat_add of_nat_mult)
  qed
  then have 2: "drop_bit 16 (adler_word s) AND 0xffff = word_of_nat (snd s)"
    using assms(2) unfolding ff by (simp add: take_bit_of_nat take_bit_nat_def)
  have "update_adler32 (adler_word s) xs =
      (case map_prod word_of_nat word_of_nat (fold adler_nat xs s) of (s1, s2) \<Rightarrow> push_bit 16 s2 + s1)"
    unfolding update_adler32_def 1 2 adler_fold_nat [OF assms, symmetric] by (cases s) simp
  then show ?thesis
    by (cases "fold adler_nat xs s") (simp add: adler_word_def push_bit_eq_mult)
qed

definition adler_valid :: "u64 \<Rightarrow> bool" where
  "adler_valid w \<longleftrightarrow> (\<exists>s. fst s < 65536 \<and> snd s < 65536 \<and> w = adler_word s)"

interpretation adler32: running_checksum adler_valid update_adler32
proof
  fix w xs ys
  assume "adler_valid w"
  then obtain s where s: "fst s < 65536" "snd s < 65536" "w = adler_word s" by (auto simp: adler_valid_def)
  note less = adler_fold_less [OF s(1,2), of xs, simplified]
  show "adler_valid (update_adler32 w xs)"
    unfolding s(3) update_adler_nat [OF s(1,2)] adler_valid_def using less by blast
  show "update_adler32 w (xs @ ys) = update_adler32 (update_adler32 w xs) ys"
    using update_adler_nat [OF s(1,2)] update_adler_nat [of "fold adler_nat xs s" ys] less unfolding s(3) by simp
  show "update_adler32 w [] = w"
    using update_adler_nat [OF s(1,2)] unfolding s(3) by simp
qed

fun weighted :: "u8 list \<Rightarrow> nat" where
  "weighted [] = 0"
| "weighted (x # xs) = (length xs + 1) * unat x + weighted xs"

lemma adler_closed:
  "a < 65521 \<Longrightarrow> b < 65521 \<Longrightarrow> fold adler_nat xs (a, b) =
    ((a + sum_list (map unat xs)) mod 65521, (b + length xs * a + weighted xs) mod 65521)"
proof (induction xs arbitrary: a b)
  case (Cons x xs)
  let ?a = "(a + unat x) mod 65521"
  have "fold adler_nat (x # xs) (a, b) = fold adler_nat xs (?a, (b + ?a) mod 65521)"
    by (simp add: adler_nat_def Let_def)
  also have "\<dots> = ((?a + sum_list (map unat xs)) mod 65521,
      ((b + ?a) mod 65521 + length xs * ?a + weighted xs) mod 65521)"
    by (rule Cons.IH) simp_all
  also have "(?a + sum_list (map unat xs)) mod 65521 = (a + sum_list (map unat (x # xs))) mod 65521"
    by (simp add: mod_simps add.assoc)
  also have "((b + ?a) mod 65521 + length xs * ?a + weighted xs) mod 65521 =
      ((b + (a + unat x)) + length xs * (a + unat x) + weighted xs) mod 65521"
    by (metis (no_types) mod_add_left_eq mod_add_right_eq mod_mult_right_eq)
  also have "(b + (a + unat x)) + length xs * (a + unat x) + weighted xs =
      b + length (x # xs) * a + weighted (x # xs)"
    by (simp add: algebra_simps)
  finally show ?case .
qed simp

section \<open>What the code promises of its checksums\<close>

text \<open>
  C22. The table-driven CRC-32 is the division by the reflected polynomial, bit by bit, whether or
  not the static table has been built before, and leaves the table built; computing it piece by piece
  gives the checksum of the whole.
\<close>

theorem crc32_bit_serial:
  assumes "crc_ok st"
  shows "fst (nbase_crc32 st buf) = fold (div_byte 0xedb88320) buf 0xffffffff XOR 0xffffffff \<and>
    crc_ready (snd (nbase_crc32 st buf)) \<and>
    foldl crc_run (nbase_crc32 st buf) pieces = nbase_crc32 st (buf @ concat pieces)"
proof -
  have ready: "crc_ready (snd (nbase_crc32 st buf))"
    unfolding nbase_crc32_def by (rule update_crc_div(2) [OF assms])
  have snd: "snd (nbase_crc32 st (buf @ ys)) = snd (nbase_crc32 st buf)" for ys
    by (simp add: nbase_crc32_def update_crc_def Let_def)
  have "crc_run (nbase_crc32 st buf) ys = nbase_crc32 st (buf @ ys)" for ys
    using ready snd [of ys] update_crc_ready [OF ready] update_crc_div(1) [OF assms]
      update_crc_div(1) [of "snd (nbase_crc32 st buf)"]
    by (intro prod_eqI) (simp_all add: crc_run_def nbase_crc32_def crc_ok_def crc_ready_def xor.assoc)
  then have "foldl crc_run (nbase_crc32 st buf) pieces = nbase_crc32 st (buf @ concat pieces)"
    using crc32.pieces [of "nbase_crc32 st buf" pieces] ready by simp
  then show ?thesis
    using ready update_crc_div(1) [OF assms, of 0 buf] by (simp add: nbase_crc32_def)
qed

theorem crc32_bit_serial_witness:
  "fst (nbase_crc32 crc_initial [0x61]) = fold (div_byte 0xedb88320) [0x61] 0xffffffff XOR 0xffffffff"
  using crc32_bit_serial [of crc_initial "[0x61]" "[]"] by (simp add: crc_ok_def crc_initial_def)

text \<open>
  The literal table of CRC-32C is the table of its reflected polynomial, so the loop is the
  bit-serial division; the result is the complement of the remainder with its four bytes reversed,
  but as a sign-extended 32-bit integer: bit 31 of the result is repeated in all higher bits.
\<close>

theorem crc32c_bit_serial:
  "(\<exists>r. r = NOT (fold (div_byte 0x82F63B78) buf 0xffffffff) \<and>
     (\<forall>i < 8. bit (nbase_crc32c buf) i = bit r (24 + i) \<and> bit (nbase_crc32c buf) (8 + i) = bit r (16 + i) \<and>
        bit (nbase_crc32c buf) (16 + i) = bit r (8 + i) \<and> bit (nbase_crc32c buf) (24 + i) = bit r i)) \<and>
   (\<forall>i. 32 \<le> i \<and> i < 64 \<longrightarrow> bit (nbase_crc32c buf) i = bit (nbase_crc32c buf) 31)"
proof -
  have "CRC32C = div_byte 0x82F63B78" by (intro ext) (rule CRC32C_div)
  then have c: "nbase_crc32c buf = scast (swapped_bytes (NOT (fold (div_byte 0x82F63B78) buf 0xffffffff)))"
    by (simp add: nbase_crc32c_def swapped_bytes_def Let_def)
  have b: "bit (nbase_crc32c buf) i = bit (swapped_bytes (NOT (fold (div_byte 0x82F63B78) buf 0xffffffff))) (min 31 i)"
    if "i < 64" for i
    using that unfolding c by (simp add: bit_signed_iff)
  then show ?thesis using swapped_bits by auto
qed

theorem crc32c_bit_serial_witness:
  "bit (nbase_crc32c [0x61]) 40 = bit (nbase_crc32c [0x61]) 31"
  using conjunct2 [OF crc32c_bit_serial [of "[0x61]"]] by simp

text \<open>
  Adler-32 is its closed form: the low half is one plus the sum of the bytes, the high half the
  length plus the sum of the bytes weighted by their distance to the end, both modulo 65521; and
  feeding the bytes in pieces gives the same value.
\<close>

theorem adler32_closed_form:
  "nbase_adler32 buf =
     word_of_nat ((length buf + weighted buf) mod 65521 * 65536 + (1 + sum_list (map unat buf)) mod 65521) \<and>
   foldl update_adler32 (nbase_adler32 buf) pieces = nbase_adler32 (buf @ concat pieces)"
proof -
  have one: "1 = adler_word (1, 0)" by (simp add: adler_word_def)
  have "update_adler32 1 buf = adler_word (fold adler_nat buf (1, 0))"
    unfolding one by (rule update_adler_nat) simp_all
  then have c: "nbase_adler32 buf =
     word_of_nat ((length buf + weighted buf) mod 65521 * 65536 + (1 + sum_list (map unat buf)) mod 65521)"
    by (simp add: nbase_adler32_def adler_closed adler_word_def del: of_nat_add of_nat_mult)
  have v: "adler_valid 1" unfolding one adler_valid_def by (rule exI [of _ "(1, 0)"]) simp
  have "foldl update_adler32 1 (buf # pieces) = update_adler32 1 (concat (buf # pieces))"
    by (rule adler32.pieces [OF v])
  then show ?thesis using c by (simp add: nbase_adler32_def)
qed

end
