(* ===== verification/Sock_Buffer.thy ===== *)
theory Sock_Buffer
  imports Prelude
begin

text \<open>
  The buffered socket of ncat/http.c and the readers of lines and header blocks on top of it.
  What \<open>recv\<close> returns is the input: a list of events, closed by the peer where the list ends.
  A line or a header is a function of the bytes that arrive, not of how they are cut into segments;
  the limits on lengths and the behaviour when the peer closes are part of it.
\<close>

section \<open>The buffer\<close>

datatype recv_event = Received cstr | Interrupted | Failed

text \<open>
  \<open>chunk\<close> holds the bytes from \<open>buffer\<close> to \<open>end\<close>, and \<open>pos\<close> is \<open>p - buffer\<close>.
\<close>

record socket_buffer =
  chunk :: cstr
  pos :: nat
  input :: "recv_event list"

definition socket_buffer_init :: "recv_event list \<Rightarrow> socket_buffer" where
  "socket_buffer_init sd = \<lparr>chunk = [], pos = 0, input = sd\<rparr>"

text \<open>The loop around \<open>fdinfo_recv\<close>, which repeats on \<open>EINTR\<close>: its result, the bytes, the rest.\<close>

fun recv_loop :: "recv_event list \<Rightarrow> int \<times> cstr \<times> recv_event list" where
  "recv_loop [] = (0, [], [])"
| "recv_loop (Received d # r) = (int (length d), d, r)"
| "recv_loop (Interrupted # r) = recv_loop r"
| "recv_loop (Failed # r) = (-1, [], r)"

text \<open>
  Refilling, as each reader does it: \<open>p\<close> goes back to the start before the call, and \<open>end\<close> moves only
  when bytes arrived.  \<open>Inl\<close> is the return on an error or at the end, with the value of \<open>recv\<close>.
\<close>

definition refill :: "socket_buffer \<Rightarrow> int \<times> socket_buffer + socket_buffer" where
  "refill buf =
     (if pos buf \<ge> length (chunk buf)
      then (case recv_loop (input buf) of (i, d, r) \<Rightarrow>
              if i \<le> 0 then Inl (i, buf\<lparr>pos := 0, input := r\<rparr>)
              else Inr (buf\<lparr>chunk := d, pos := 0, input := r\<rparr>))
      else Inr buf)"

definition socket_buffer_read :: "socket_buffer \<Rightarrow> nat \<Rightarrow> int \<times> cstr \<times> socket_buffer" where
  "socket_buffer_read buf n =
     (case refill buf of
        Inl (i, buf) \<Rightarrow> (i, [], buf)
      | Inr buf \<Rightarrow>
          let i = min (length (chunk buf) - pos buf) n
          in (int i, take i (drop (pos buf) (chunk buf)), buf\<lparr>pos := pos buf + i\<rparr>))"

definition todo :: "socket_buffer \<Rightarrow> nat" where
  "todo buf = 2 * length (input buf) + (if pos buf < length (chunk buf) then 1 else 0)"

lemma recv_loop_length: "recv_loop evs = (i, d, r) \<Longrightarrow> 0 < i \<Longrightarrow> length r < length evs \<and> d \<noteq> []"
  by (induction evs rule: recv_loop.induct) auto

lemma refill_todo:
  "refill buf = Inr buf' \<Longrightarrow> pos buf' < length (chunk buf') \<and> 2 * length (input buf') < todo buf"
  using recv_loop_length [of "input buf"]
  by (fastforce simp: refill_def todo_def split: if_splits prod.splits)

definition memchr_lf :: "cstr \<Rightarrow> nat option" where
  "memchr_lf s = (if LF \<in> set s then Some (length (takeWhile (\<lambda>c. c \<noteq> LF) s)) else None)"

function readline_loop :: "socket_buffer \<Rightarrow> nat \<Rightarrow> cstr \<Rightarrow> nat \<Rightarrow> cstr option \<times> nat \<times> socket_buffer" where
  "readline_loop buf maxlen line n =
     (case refill buf of
        Inl (i, buf) \<Rightarrow> (None, n, buf)
      | Inr buf \<Rightarrow>
          let rest = drop (pos buf) (chunk buf);
              newline = memchr_lf rest;
              cnt = (case newline of None \<Rightarrow> length rest | Some k \<Rightarrow> k + 1)
          in if n + cnt \<ge> maxlen then (None, n + cnt, buf)
             else let line = line @ take cnt rest; buf = buf\<lparr>pos := pos buf + cnt\<rparr>
                  in if newline = None then readline_loop buf maxlen line (n + cnt)
                     else (Some line, n + cnt, buf))"
  by pat_completeness auto
termination
proof (relation "measure (\<lambda>(buf, m, l, n). todo buf)", goal_cases)
  case (2 buf maxlen line n y rest newline cnt line' buf')
  from 2(1) refill_todo [of buf y] 2 show ?case by (auto simp: todo_def)
qed simp

declare readline_loop.simps [simp del]

definition socket_buffer_readline :: "socket_buffer \<Rightarrow> nat \<Rightarrow> cstr option \<times> nat \<times> socket_buffer" where
  "socket_buffer_readline buf maxlen = readline_loop buf maxlen [] 0"

function readcount_loop :: "socket_buffer \<Rightarrow> cstr \<Rightarrow> nat \<Rightarrow> int \<times> cstr \<times> socket_buffer" where
  "readcount_loop buf out sz =
     (if length out < sz
      then (case refill buf of
              Inl (i, buf) \<Rightarrow> (-1, out, buf)
            | Inr buf \<Rightarrow>
                let i = length (chunk buf) - pos buf; m = (if i < sz - length out then i else sz - length out)
                in readcount_loop (buf\<lparr>pos := pos buf + m\<rparr>) (out @ take m (drop (pos buf) (chunk buf))) sz)
      else (int (length out), out, buf))"
  by pat_completeness auto
termination
proof (relation "measures [\<lambda>(buf, out, sz). sz - length out]", goal_cases)
  case (2 buf out sz b i m)
  then show ?case using refill_todo [OF 2(2)] by auto
qed simp

declare readcount_loop.simps [simp del]

definition socket_buffer_readcount :: "socket_buffer \<Rightarrow> nat \<Rightarrow> int \<times> cstr \<times> socket_buffer" where
  "socket_buffer_readcount buf sz = readcount_loop buf [] sz"

definition socket_buffer_remainder :: "socket_buffer \<Rightarrow> cstr" where
  "socket_buffer_remainder buf = drop (pos buf) (chunk buf)"

section \<open>Lines and headers\<close>

definition MAX_REQUEST_LINE_LENGTH :: nat where "MAX_REQUEST_LINE_LENGTH = 1024"
definition MAX_STATUS_LINE_LENGTH :: nat where "MAX_STATUS_LINE_LENGTH = 1024"
definition MAX_HEADER_LENGTH :: nat where "MAX_HEADER_LENGTH = 1024 * 10"

definition is_crlf :: "cstr \<Rightarrow> bool" where
  "is_crlf s \<longleftrightarrow> deref s = LF \<or> (deref s = CR \<and> deref (tl s) = LF)"

text \<open>The bytes that can still be read.\<close>

fun received :: "recv_event list \<Rightarrow> cstr" where
  "received [] = []"
| "received (Received d # r) = (if d = [] then [] else d @ received r)"
| "received (Interrupted # r) = received r"
| "received (Failed # r) = []"

definition stream :: "socket_buffer \<Rightarrow> cstr" where
  "stream buf = drop (pos buf) (chunk buf) @ received (input buf)"

lemma recv_loop_received:
  "recv_loop evs = (i, d, r) \<Longrightarrow> received evs = (if i \<le> 0 then [] else d @ received r)"
  by (induction evs rule: recv_loop.induct) auto

lemma refill_stream:
  "case refill buf of Inl (i, buf') \<Rightarrow> stream buf = [] \<and> i \<le> 0
   | Inr buf' \<Rightarrow> stream buf' = stream buf \<and> pos buf' < length (chunk buf')"
proof (cases "pos buf \<ge> length (chunk buf)")
  case True
  obtain i d r where e: "recv_loop (input buf) = (i, d, r)" by (cases "recv_loop (input buf)")
  show ?thesis
    using True e recv_loop_received [OF e] recv_loop_length [OF e] by (simp add: refill_def stream_def)
qed (simp add: refill_def)

text \<open>What a reader of lines does to the stream.\<close>

definition first_line :: "cstr \<Rightarrow> cstr" where
  "first_line s = (if LF \<in> set s then takeWhile (\<lambda>c. c \<noteq> LF) s @ [LF] else s)"

lemma first_line_split:
  assumes "LF \<in> set s"
  obtains ys zs where "s = ys @ LF # zs" "LF \<notin> set ys" "first_line s = ys @ [LF]"
proof -
  from split_list_first [OF assms] obtain ys zs where s: "s = ys @ LF # zs" "LF \<notin> set ys" by blast
  moreover have "takeWhile (\<lambda>c. c \<noteq> LF) s = ys" using s by (simp add: takeWhile_append takeWhile_eq_all_conv)
  ultimately show thesis using that assms by (simp add: first_line_def)
qed

lemma first_line_take: "take (length (first_line s)) s = first_line s"
proof (cases "LF \<in> set s")
  case True
  then show ?thesis by (rule first_line_split) simp
qed (simp add: first_line_def)

lemma first_line_append:
  "first_line (s @ t) = (if LF \<in> set s then first_line s else s @ first_line t)"
  by (auto simp: first_line_def takeWhile_append)

lemma first_line_le: "length (first_line s) \<le> length s"
  using first_line_take by (metis length_take min.cobounded1 nat_le_linear take_all_iff order_refl)

lemma count_first_line:
  "(case memchr_lf s of None \<Rightarrow> length s | Some k \<Rightarrow> k + 1) = length (first_line s)"
  by (simp add: memchr_lf_def first_line_def)

lemma memchr_None: "memchr_lf s = None \<longleftrightarrow> LF \<notin> set s"
  by (simp add: memchr_lf_def)

lemma readline_loop_ok:
  assumes "n = length line" "n < maxlen"
  shows "case readline_loop buf maxlen line n of (res, k, buf') \<Rightarrow>
    (if LF \<in> set (stream buf) \<and> length (line @ first_line (stream buf)) < maxlen
     then res = Some (line @ first_line (stream buf)) \<and> k = length (line @ first_line (stream buf)) \<and>
       stream buf' = drop (length (first_line (stream buf))) (stream buf)
     else res = None \<and> (maxlen \<le> k \<longleftrightarrow> maxlen \<le> length (line @ first_line (stream buf))))"
  using assms
proof (induction "todo buf" arbitrary: buf line n rule: less_induct)
  case less
  note step = readline_loop.simps [of buf maxlen line n]
  show ?case
  proof (cases "refill buf")
    case (Inl r)
    obtain i b where r: "r = (i, b)" by (cases r)
    then have "stream buf = []" using refill_stream [of buf] Inl by simp
    then show ?thesis using less.prems Inl r step by (simp add: first_line_def)
  next
    case (Inr b)
    define rest where "rest = drop (pos b) (chunk b)"
    let ?f = "first_line rest"
    define b' where "b' = b\<lparr>pos := pos b + length (first_line rest)\<rparr>"
    have s: "stream buf = rest @ received (input b)" "pos b < length (chunk b)"
      using refill_stream [of buf] Inr by (simp_all add: stream_def rest_def)
    have fs: "first_line (stream buf) = (if LF \<in> set rest then ?f else rest @ first_line (received (input b)))"
      unfolding s(1) by (rule first_line_append)
    have step: "readline_loop buf maxlen line n =
        (if n + length ?f \<ge> maxlen then (None, n + length ?f, b)
         else if LF \<notin> set rest then readline_loop b' maxlen (line @ ?f) (n + length ?f)
         else (Some (line @ ?f), n + length ?f, b'))"
      unfolding step Inr by (simp add: Let_def count_first_line first_line_take memchr_None rest_def b'_def)
    show ?thesis
    proof (cases "n + length ?f \<ge> maxlen")
      case True
      then have "maxlen \<le> length (line @ first_line (stream buf))"
        using less.prems unfolding fs by (auto simp: first_line_def)
      then show ?thesis using True step by simp
    next
      case False
      show ?thesis
      proof (cases "LF \<in> set rest")
        case True
        then have "stream b' = drop (length ?f) (stream buf)"
          using first_line_le [of rest] unfolding s(1) by (simp add: stream_def rest_def b'_def add.commute)
        then show ?thesis using True False step fs s(1) less.prems by simp
      next
        case no: False
        then have f: "?f = rest" by (simp add: first_line_def)
        have sb: "stream b' = received (input b)" using f s(2) by (simp add: stream_def b'_def rest_def)
        have "todo b' < todo buf" using refill_todo [OF Inr] f by (simp add: todo_def b'_def rest_def)
        from less.hyps [OF this, of "n + length ?f" "line @ ?f"]
        show ?thesis using step False no fs s(1) less.prems unfolding sb f by (auto split: prod.splits)
      qed
    qed
  qed
qed

lemma readline_ok:
  assumes "0 < maxlen"
  shows "case socket_buffer_readline buf maxlen of (res, k, buf') \<Rightarrow>
    (if LF \<in> set (stream buf) \<and> length (first_line (stream buf)) < maxlen
     then res = Some (first_line (stream buf)) \<and> k = length (first_line (stream buf)) \<and>
       stream buf' = drop (length (first_line (stream buf))) (stream buf)
     else res = None \<and> (maxlen \<le> k \<longleftrightarrow> maxlen \<le> length (first_line (stream buf))))"
  using readline_loop_ok [of 0 "[]" maxlen buf] assms by (simp add: socket_buffer_readline_def split: prod.splits)

lemma readline_Some:
  assumes "socket_buffer_readline buf maxlen = (Some line, k, buf')" "0 < maxlen"
  shows "length (stream buf') < length (stream buf)" "LF \<in> set (stream buf)" "line = first_line (stream buf)"
proof -
  have lf: "LF \<in> set (stream buf)" and st: "stream buf' = drop (length (first_line (stream buf))) (stream buf)"
    and l: "line = first_line (stream buf)"
    using readline_ok [OF assms(2), of buf] assms(1) by (auto split: if_splits)
  then show "LF \<in> set (stream buf)" "line = first_line (stream buf)" by simp_all
  have "0 < length (first_line (stream buf))" using lf by (simp add: first_line_def)
  moreover have "stream buf \<noteq> []" using lf by auto
  ultimately show "length (stream buf') < length (stream buf)" unfolding st by simp
qed

function read_header_loop :: "socket_buffer \<Rightarrow> cstr \<Rightarrow> int \<times> cstr option \<times> socket_buffer" where
  "read_header_loop buf header =
     (case socket_buffer_readline buf MAX_HEADER_LENGTH of
        (None, cnt, buf) \<Rightarrow> (if cnt \<ge> MAX_HEADER_LENGTH then (413, None, buf) else (400, None, buf))
      | (Some line, cnt, buf) \<Rightarrow>
          let blank = is_crlf line
          in if length header + cnt \<ge> MAX_HEADER_LENGTH then (413, None, buf)
             else if \<not> blank then read_header_loop buf (header @ line)
             else (0, Some (header @ line), buf))"
  by pat_completeness auto
termination
proof (relation "measure (\<lambda>(buf, h). length (stream buf))", goal_cases)
  case (2 buf header p line res cnt buf' blank)
  then have "socket_buffer_readline buf MAX_HEADER_LENGTH = (Some res, cnt, buf')" by simp
  from readline_Some(1) [OF this] show ?case by (simp add: MAX_HEADER_LENGTH_def)
qed simp

declare read_header_loop.simps [simp del]

definition http_read_header :: "socket_buffer \<Rightarrow> int \<times> cstr option \<times> socket_buffer" where
  "http_read_header buf = read_header_loop buf []"

function http_read_request_line :: "socket_buffer \<Rightarrow> int \<times> cstr option \<times> socket_buffer" where
  "http_read_request_line buf =
     (case socket_buffer_readline buf MAX_REQUEST_LINE_LENGTH of
        (None, n, buf) \<Rightarrow> (if n \<ge> MAX_REQUEST_LINE_LENGTH then (413, None, buf) else (400, None, buf))
      | (Some line, n, buf) \<Rightarrow> if is_crlf line then http_read_request_line buf else (0, Some line, buf))"
  by pat_completeness auto
termination
proof (relation "measure (\<lambda>buf. length (stream buf))", goal_cases)
  case (2 buf p res line n buf')
  then have "socket_buffer_readline buf MAX_REQUEST_LINE_LENGTH = (Some line, n, buf')" by simp
  from readline_Some(1) [OF this] show ?case by (simp add: MAX_REQUEST_LINE_LENGTH_def)
qed simp

declare http_read_request_line.simps [simp del]

definition http_read_status_line :: "socket_buffer \<Rightarrow> int \<times> cstr option \<times> socket_buffer" where
  "http_read_status_line buf =
     (case socket_buffer_readline buf MAX_STATUS_LINE_LENGTH of
        (None, n, buf) \<Rightarrow> (if n \<ge> MAX_STATUS_LINE_LENGTH then (413, None, buf) else (400, None, buf))
      | (Some line, n, buf) \<Rightarrow> (0, Some line, buf))"

section \<open>Readers of counts\<close>

lemma readcount_loop_ok:
  assumes "length out \<le> sz"
  shows "case readcount_loop buf out sz of (i, res, buf') \<Rightarrow>
    (if sz \<le> length out + length (stream buf)
     then i = int sz \<and> res = take sz (out @ stream buf) \<and> stream buf' = drop (sz - length out) (stream buf)
     else i = -1 \<and> res = out @ stream buf)"
  using assms
proof (induction "sz - length out" arbitrary: buf out rule: less_induct)
  case less
  note step = readcount_loop.simps [of buf out sz]
  show ?case
  proof (cases "length out < sz")
    case False
    then have "length out = sz" using less.prems by simp
    then show ?thesis using step by simp
  next
    case True
    show ?thesis
    proof (cases "refill buf")
      case (Inl r)
      obtain i b where r: "r = (i, b)" by (cases r)
      then have "stream buf = []" using refill_stream [of buf] Inl by simp
      then show ?thesis using True Inl r step by simp
    next
      case (Inr b)
      define rest where "rest = drop (pos b) (chunk b)"
      define m where "m = (if length rest < sz - length out then length rest else sz - length out)"
      let ?b = "b\<lparr>pos := pos b + m\<rparr>"
      have s: "stream buf = rest @ received (input b)" "rest \<noteq> []"
        using refill_stream [of buf] Inr by (simp_all add: stream_def rest_def)
      have m: "0 < m" "m \<le> length rest" "length out + m \<le> sz" using s(2) True by (auto simp: m_def)
      have st: "readcount_loop buf out sz = readcount_loop ?b (out @ take m rest) sz"
        using True unfolding step Inr by (simp add: Let_def rest_def m_def)
      have sb: "stream ?b = drop m (stream buf)"
        using m(2) unfolding s(1) by (simp add: stream_def rest_def add.commute)
      have tk: "take m rest = take m (stream buf)" using m(2) unfolding s(1) by simp
      have ls: "m \<le> length (stream buf)" using m(2) unfolding s(1) by simp
      have "sz - length (out @ take m rest) < sz - length out" using m True by simp
      from less.hyps [OF this, of ?b] show ?thesis
        using m ls unfolding st sb tk by (auto split: if_splits prod.splits)
    qed
  qed
qed

section \<open>Header blocks\<close>

text \<open>A header block is a sequence of lines of which the last, and only the last, is blank.\<close>

definition is_line :: "cstr \<Rightarrow> bool" where
  "is_line l \<longleftrightarrow> (\<exists>body. l = body @ [LF] \<and> LF \<notin> set body)"

fun header_block :: "cstr list \<Rightarrow> bool" where
  "header_block [] = False"
| "header_block [l] = (is_line l \<and> is_crlf l)"
| "header_block (l # ls) = (is_line l \<and> \<not> is_crlf l \<and> header_block ls)"

lemma first_line_is_line: "is_line l \<Longrightarrow> first_line (l @ s) = l \<and> LF \<in> set l"
proof -
  assume "is_line l"
  then obtain body where b: "l = body @ [LF]" "LF \<notin> set body" by (auto simp: is_line_def)
  then have "takeWhile (\<lambda>c. c \<noteq> LF) l = body" by (simp add: takeWhile_append takeWhile_eq_all_conv)
  then have "first_line l = l" using b by (simp add: first_line_def)
  then show ?thesis using first_line_append [of l s] b(1) by simp
qed

lemma read_header_loop_ok:
  assumes "header_block ls" "stream buf = concat ls @ rest" "length h < MAX_HEADER_LENGTH"
  shows "if length (h @ concat ls) < MAX_HEADER_LENGTH
    then \<exists>buf'. read_header_loop buf h = (0, Some (h @ concat ls), buf') \<and> stream buf' = rest
    else \<exists>buf'. read_header_loop buf h = (413, None, buf')"
  using assms
proof (induction ls arbitrary: buf h)
  case (Cons l ls)
  have l: "is_line l" using Cons.prems(1) by (cases ls) auto
  have st: "first_line (stream buf) = l" "LF \<in> set (stream buf)"
    using first_line_is_line [OF l] unfolding Cons.prems(2) by simp_all
  obtain res k buf' where r: "socket_buffer_readline buf MAX_HEADER_LENGTH = (res, k, buf')"
    by (cases "socket_buffer_readline buf MAX_HEADER_LENGTH") auto
  have ok: "if length l < MAX_HEADER_LENGTH then res = Some l \<and> k = length l \<and> stream buf' = concat ls @ rest
      else res = None \<and> MAX_HEADER_LENGTH \<le> k"
    using readline_ok [of MAX_HEADER_LENGTH buf] r st unfolding Cons.prems(2) by (simp add: MAX_HEADER_LENGTH_def split: if_splits)
  note step = read_header_loop.simps [of buf h]
  show ?case
  proof (cases "length l < MAX_HEADER_LENGTH")
    case False
    then show ?thesis using ok r step by simp
  next
    case True
    then have k: "res = Some l" "k = length l" "stream buf' = concat ls @ rest" using ok by simp_all
    show ?thesis
    proof (cases "length h + length l < MAX_HEADER_LENGTH")
      case False
      then show ?thesis using k r step by (simp add: Let_def)
    next
      case fits: True
      show ?thesis
      proof (cases ls)
        case Nil
        then have "is_crlf l" using Cons.prems(1) by simp
        then show ?thesis using k r step fits Nil by (simp add: Let_def)
      next
        case (Cons l' ls')
        then have "\<not> is_crlf l" "header_block ls" using Cons.prems(1) by auto
        then have s: "read_header_loop buf h = read_header_loop buf' (h @ l)"
          using k r step fits by (simp add: Let_def)
        show ?thesis using Cons.IH [OF \<open>header_block ls\<close> k(3), of "h @ l"] fits unfolding s by (simp split: if_splits)
      qed
    qed
  qed
qed simp

section \<open>What the code promises of its buffered sockets\<close>



text \<open>
  Reading a header returns the whole block up to and including the blank line, and leaves the
  stream at the byte after it, if the block is shorter than the limit, and the code for an entity that
  is too large otherwise.
\<close>

theorem read_header_framing:
  assumes "header_block ls" and "stream buf = concat ls @ rest"
  shows "if length (concat ls) < MAX_HEADER_LENGTH
    then \<exists>buf'. http_read_header buf = (0, Some (concat ls), buf') \<and> stream buf' = rest
    else \<exists>buf'. http_read_header buf = (413, None, buf')"
  using read_header_loop_ok [OF assms, of "[]"] by (simp add: http_read_header_def MAX_HEADER_LENGTH_def split: if_splits)

theorem read_header_framing_witness:
  "\<exists>buf'. http_read_header (socket_buffer_init [Received ''A: b'', Received [CR, LF, CR, LF, CHR ''x'']]) =
    (0, Some (''A: b'' @ [CR, LF, CR, LF]), buf') \<and> stream buf' = ''x''"
proof -
  let ?ls = "[''A: b'' @ [CR, LF], [CR, LF]]"
  have "is_line (''A: b'' @ [CR, LF])" unfolding is_line_def by (rule exI [of _ "''A: b'' @ [CR]"]) simp
  moreover have "is_line [CR, LF]" unfolding is_line_def by (rule exI [of _ "[CR]"]) simp
  ultimately have "header_block ?ls" by (simp add: is_crlf_def)
  then show ?thesis
    using read_header_framing [of ?ls "socket_buffer_init [Received ''A: b'', Received [CR, LF, CR, LF, CHR ''x'']]" "''x''"]
    by (simp add: socket_buffer_init_def stream_def MAX_HEADER_LENGTH_def)
qed

text \<open>
  When the peer has closed or a receive fails after the last segment was read in full, the
  reader reports it, but the buffer then offers that last segment again: the cursor is moved back to
  the start before the call and the end is not moved.
\<close>

theorem closed_buffer_replays:
  assumes "pos buf = length (chunk buf)" and "recv_loop (input buf) = (i, d, r)" and "i \<le> 0"
  shows "stream buf = [] \<and>
    (\<exists>buf'. socket_buffer_readline buf maxlen = (None, 0, buf') \<and> socket_buffer_remainder buf' = chunk buf \<and>
       stream buf' = chunk buf @ received r)"
  using assms recv_loop_received [OF assms(2)]
  by (auto simp: socket_buffer_readline_def readline_loop.simps [of buf] refill_def socket_buffer_remainder_def stream_def)

theorem closed_buffer_replays_witness:
  "\<exists>buf'. socket_buffer_readline \<lparr>chunk = ''ab'', pos = 2, input = []\<rparr> 1024 = (None, 0, buf') \<and>
    socket_buffer_remainder buf' = ''ab''"
  using closed_buffer_replays [of "\<lparr>chunk = ''ab'', pos = 2, input = []\<rparr>" 0 "[]" "[]" 1024] by auto

end
