(* ===== verification/Uri.thy ===== *)
theory Uri
  imports Parse_Long
begin

text \<open>
  The URI functions of ncat/http.c: percent decoding, case-insensitive comparison, and the parsing of
  absolute URIs and of authorities.  The fields of \<open>struct uri\<close> are pointers whose storage is owned
  by the structure; a field that was released and not reset is \<open>Freed\<close>, and releasing it again is the
  fault \<open>Use_after_free\<close>.
\<close>

section \<open>Owned strings\<close>

datatype ptr = Null | Live cstr | Freed

fun free_ptr :: "ptr \<Rightarrow> ptr outcome" where
  "free_ptr Null = Inr Null"
| "free_ptr (Live s) = Inr Freed"
| "free_ptr Freed = Inl Use_after_free"

record uri =
  u_scheme :: ptr
  u_host :: ptr
  u_port :: int
  u_path :: ptr

definition uri_init :: uri where
  "uri_init = \<lparr>u_scheme = Null, u_host = Null, u_port = -1, u_path = Null\<rparr>"

definition uri_free :: "uri \<Rightarrow> uri outcome" where
  "uri_free u =
     bind_out (free_ptr (u_scheme u)) (\<lambda>s. bind_out (free_ptr (u_host u)) (\<lambda>h. bind_out (free_ptr (u_path u)) (\<lambda>p.
       Inr (u\<lparr>u_scheme := s, u_host := h, u_path := p\<rparr>))))"

section \<open>Characters and strings\<close>

definition hex_digit_value :: "char \<Rightarrow> int" where
  "hex_digit_value digit =
     (if digit = NUL then -1
      else case strchr ''0123456789abcdef'' (to_lower digit) of
             None \<Rightarrow> -1
           | Some p \<Rightarrow> int (length ''0123456789abcdef'' - length p))"

fun str_cmp_i :: "cstr \<Rightarrow> cstr \<Rightarrow> int" where
  "str_cmp_i (a # s) (b # t) =
     (let ca = int (code_of (to_lower a)); cb = int (code_of (to_lower b))
      in if ca \<noteq> cb then ca - cb else str_cmp_i s t)"
| "str_cmp_i [] [] = 0"
| "str_cmp_i [] (b # t) = -1"
| "str_cmp_i (a # s) [] = 1"

definition str_equal_i :: "cstr \<Rightarrow> cstr \<Rightarrow> bool" where
  "str_equal_i a b \<longleftrightarrow> str_cmp_i a b = 0"

definition lowercase :: "cstr \<Rightarrow> int \<times> cstr" where
  "lowercase s = (int (length s), map to_lower s)"

text \<open>
  \<open>percent_decode\<close>: the bytes written so far and the cursor \<open>q\<close>.  The writing cursor never passes the
  reading cursor.  \<open>None\<close> is the return of -1.
\<close>

fun decode_loop :: "cstr \<Rightarrow> cstr \<Rightarrow> cstr option" where
  "decode_loop out [] = Some out"
| "decode_loop out (c # q) =
     (if c = CHR ''%''
      then (let hi = hex_digit_value (deref q)
            in if hi = -1 then None
               else let lo = hex_digit_value (deref (tl q))
                    in if lo = -1 then None
                       else decode_loop (out @ [char_of (nat (hi * 16 + lo))]) (drop 2 q))
      else decode_loop (out @ [c]) q)"

definition percent_decode :: "cstr \<Rightarrow> cstr option" where
  "percent_decode s =
     decode_loop (takeWhile (\<lambda>c. c \<noteq> CHR ''%'') s) (dropWhile (\<lambda>c. c \<noteq> CHR ''%'') s)"

definition is_alpha_char :: "char \<Rightarrow> bool" where
  "is_alpha_char c \<longleftrightarrow> c \<noteq> NUL \<and> strchr ''abcdefghijklmnopqrstuvwxyzABCDEFGHIJKLMNOPQRSTUVWXYZ'' c \<noteq> None"

definition is_digit_char :: "char \<Rightarrow> bool" where
  "is_digit_char c \<longleftrightarrow> c \<noteq> NUL \<and> strchr ''0123456789'' c \<noteq> None"

definition scheme_default_port :: "cstr \<Rightarrow> int" where
  "scheme_default_port s = (if str_equal_i s ''http'' then 80 else -1)"

section \<open>Authorities\<close>

text \<open>The host between its two cursors and the cursor at the port separator.\<close>

definition split_authority :: "cstr \<Rightarrow> (cstr \<times> cstr \<times> cstr) option" where
  "split_authority authority =
     (if deref authority = CHR ''[''
      then let host_start = tl authority
           in (case strchr host_start (CHR '']'') of
                 None \<Rightarrow> None
               | Some host_end \<Rightarrow>
                   let portsep = tl host_end
                   in if deref portsep = CHR '':'' \<or> deref portsep = NUL then Some (host_start, host_end, portsep) else None)
      else let portsep = (case strrchr authority (CHR '':'') of None \<Rightarrow> [] | Some p \<Rightarrow> p)
           in Some (authority, portsep, portsep))"

definition authority_port :: "cstr \<Rightarrow> int option" where
  "authority_port portsep =
     (if deref portsep = CHR '':'' \<and> deref (tl portsep) \<noteq> NUL
      then (case parse_long (tl portsep) of (n, err, tail) \<Rightarrow>
              if err \<or> deref tail \<noteq> NUL \<or> tail = tl portsep \<or> n < 1 \<or> n > 65535 then None else Some n)
      else Some (-1))"

text \<open>The result is whether the return value is not NULL, and the structure.\<close>

definition uri_parse_authority :: "uri \<Rightarrow> cstr \<Rightarrow> bool \<times> uri" where
  "uri_parse_authority u authority =
     (if strchr authority (CHR ''@'') \<noteq> None then (False, u)
      else case split_authority authority of
             None \<Rightarrow> (False, u)
           | Some (host_start, host_end, portsep) \<Rightarrow>
               (case authority_port portsep of
                  None \<Rightarrow> (False, u)
                | Some n \<Rightarrow>
                    (case percent_decode (span host_start host_end) of
                       None \<Rightarrow> (False, u\<lparr>u_port := n, u_host := Null\<rparr>)
                     | Some h \<Rightarrow> (True, u\<lparr>u_port := n, u_host := Live h\<rparr>))))"

section \<open>Absolute URIs\<close>

definition scheme_char :: "char \<Rightarrow> bool" where
  "scheme_char c \<longleftrightarrow> is_alpha_char c \<or> is_digit_char c \<or> c = CHR ''+'' \<or> c = CHR ''-'' \<or> c = CHR ''.''"

definition authority_char :: "char \<Rightarrow> bool" where
  "authority_char c \<longleftrightarrow> \<not> (c = CHR ''/'' \<or> c = CHR ''?'' \<or> c = CHR ''#'' \<or> c = NUL)"

text \<open>\<open>goto fail\<close>: the structure is released, its pointers keep their values, and NULL is returned.\<close>

definition uri_fail :: "uri \<Rightarrow> (bool \<times> uri) outcome" where
  "uri_fail u = map_sum id (Pair False) (uri_free u)"

definition uri_parse :: "cstr \<Rightarrow> (bool \<times> uri) outcome" where
  "uri_parse uri_s =
     (let u = uri_init; p = uri_s
      in if \<not> is_alpha_char (deref p) then uri_fail u
         else let q = dropWhile scheme_char p
              in if deref q \<noteq> CHR '':'' then uri_fail u
                 else let u = u\<lparr>u_scheme := Live (map to_lower (span p q))\<rparr>; p = tl q;
                          (ok, u, p) =
                            (if deref p = CHR ''/'' \<and> deref (tl p) = CHR ''/''
                             then let p = drop 2 p; q = dropWhile authority_char p;
                                      (ok, u) = uri_parse_authority u (span p q)
                                  in (ok, u, q)
                             else (True, u, p))
                      in if \<not> ok then uri_fail u
                         else let u = (if u_port u = -1
                                       then u\<lparr>u_port := scheme_default_port (map to_lower (span uri_s (dropWhile scheme_char uri_s)))\<rparr>
                                       else u)
                              in Inr (True, u\<lparr>u_path := Live (takeWhile (\<lambda>c. c \<noteq> NUL) p)\<rparr>))"

section \<open>Comparison\<close>

lemma str_equal_i_iff: "str_equal_i a b \<longleftrightarrow> map to_lower a = map to_lower b"
proof -
  have "str_cmp_i a b = 0 \<longleftrightarrow> map to_lower a = map to_lower b"
    by (induction a b rule: str_cmp_i.induct) (auto simp: Let_def)
  then show ?thesis by (simp add: str_equal_i_def)
qed

section \<open>Percent encoding\<close>

text \<open>
  A percent-encoded text as a list of its bytes, each literal (\<open>None\<close>) or written as two hexadecimal
  digits, in upper or lower case.
\<close>

definition hex_char :: "bool \<Rightarrow> nat \<Rightarrow> char" where
  "hex_char upper n = (if n < 10 then char_of (48 + n) else char_of ((if upper then 55 else 87) + n))"

fun percent_byte :: "char \<times> bool option \<Rightarrow> cstr" where
  "percent_byte (c, None) = [c]"
| "percent_byte (c, Some upper) = [CHR ''%'', hex_char upper (code_of c div 16), hex_char upper (code_of c mod 16)]"

definition percent_encoded :: "(char \<times> bool option) list \<Rightarrow> cstr" where
  "percent_encoded xs = concat (map percent_byte xs)"

definition literal_ok :: "(char \<times> bool option) list \<Rightarrow> bool" where
  "literal_ok xs \<longleftrightarrow> (\<forall>(c, e) \<in> set xs. e = None \<longrightarrow> c \<noteq> CHR ''%'')"

lemma hex_char_value:
  assumes "n < 16"
  shows "hex_digit_value (hex_char upper n) = int n"
proof -
  have "\<forall>upper \<in> {True, False}. \<forall>n \<in> set [0 ..< 16].
      hex_digit_value (hex_char upper n) = int n"
    by code_simp
  moreover have "n \<in> set [0 ..< 16]" using assms by simp
  ultimately show ?thesis by (cases upper) blast+
qed

lemma decode_loop_encoded:
  "literal_ok xs \<Longrightarrow> decode_loop out (percent_encoded xs) = Some (out @ map fst xs)"
proof (induction xs arbitrary: out)
  case (Cons x xs)
  obtain c e where x: "x = (c, e)" by (cases x)
  have ok: "literal_ok xs" using Cons.prems by (simp add: literal_ok_def)
  have d: "code_of c div 16 < 16" "code_of c mod 16 < 16" using code_of_less [of c] by linarith+
  show ?case
  proof (cases e)
    case None
    then have "c \<noteq> CHR ''%''" using Cons.prems x by (simp add: literal_ok_def)
    then show ?thesis using Cons.IH [OF ok] None x by (simp add: percent_encoded_def)
  next
    case (Some upper)
    have v: "nat (int (code_of c div 16) * 16 + int (code_of c mod 16)) = code_of c"
      by (metis div_mult_mod_eq nat_int of_nat_add of_nat_mult of_nat_numeral)
    show ?thesis
      using Cons.IH [OF ok, of "out @ [c]"] Some x hex_char_value [OF d(1)] hex_char_value [OF d(2)] v
      by (simp add: percent_encoded_def Let_def)
  qed
qed (simp add: percent_encoded_def)

lemma decode_loop_prefix:
  "\<forall>c\<in>set pre. c \<noteq> CHR ''%'' \<Longrightarrow> decode_loop out (pre @ s) = decode_loop (out @ pre) s"
  by (induction pre arbitrary: out) auto

lemma percent_decode_loop: "percent_decode s = decode_loop [] s"
proof -
  have "decode_loop [] (takeWhile (\<lambda>c. c \<noteq> CHR ''%'') s @ dropWhile (\<lambda>c. c \<noteq> CHR ''%'') s) =
      decode_loop ([] @ takeWhile (\<lambda>c. c \<noteq> CHR ''%'') s) (dropWhile (\<lambda>c. c \<noteq> CHR ''%'') s)"
    by (rule decode_loop_prefix) (auto dest: set_takeWhileD)
  then show ?thesis by (simp add: percent_decode_def)
qed

section \<open>Parsing what was written\<close>

definition port_text :: "nat option \<Rightarrow> cstr" where
  "port_text p = (case p of None \<Rightarrow> [] | Some n \<Rightarrow> CHR '':'' # dec n)"

text \<open>A host as it may stand between \<open>//\<close> and the port.\<close>

definition plain_host :: "cstr \<Rightarrow> bool" where
  "plain_host h \<longleftrightarrow> (\<forall>c\<in>set h. authority_char c \<and> c \<noteq> CHR ''@'' \<and> c \<noteq> CHR '':'' \<and> c \<noteq> CHR ''['')"

lemma char_facts:
  "\<not> scheme_char CHR '':''" "\<not> is_digit CHR ''@''" "\<not> is_digit CHR '':''"
  "\<not> is_digit CHR ''/''" "\<not> is_digit CHR ''?''" "\<not> is_digit CHR ''#''" "authority_char CHR '':''"
  by code_simp+

lemma strrchr_last: "c \<notin> set t \<Longrightarrow> strrchr (s @ c # t) c = Some (c # t)"
  by (induction s) (simp_all add: iffD2 [OF strrchr_None])

lemma strchr_none: "c \<notin> set s \<Longrightarrow> strchr s c = None"
  by (simp add: strchr_None)

lemma split_plain:
  assumes "plain_host h"
  shows "split_authority (h @ port_text p) = Some (h @ port_text p, port_text p, port_text p)"
proof -
  have nb: "deref (h @ port_text p) \<noteq> CHR ''[''"
    using assms by (cases h) (auto simp: plain_host_def port_text_def split: option.split)
  have "CHR '':'' \<notin> set h" using assms by (auto simp: plain_host_def)
  then have "(case strrchr (h @ port_text p) (CHR '':'') of None \<Rightarrow> [] | Some q \<Rightarrow> q) = port_text p"
    by (cases p) (simp_all add: port_text_def strrchr_last dec_no_char char_facts iffD2 [OF strrchr_None])
  then show ?thesis using nb by (simp add: split_authority_def Let_def)
qed

lemma authority_port_text:
  assumes "\<forall>n. p = Some n \<longrightarrow> 1 \<le> n \<and> n \<le> 65535"
  shows "authority_port (port_text p) = Some (case p of None \<Rightarrow> -1 | Some n \<Rightarrow> int n)"
proof (cases p)
  case (Some n)
  have n: "1 \<le> n" "n \<le> 65535" using assms Some by auto
  have nz: "deref (dec n) \<noteq> NUL" using dec_digits [of n] dec_not_Nil [of n] by (cases "dec n") fastforce+
  have "parse_long (dec n) = (int n, False, [])"
    using parse_long_dec [of n "[]"] n by simp
  then show ?thesis using Some nz n dec_not_Nil [of n, symmetric] by (simp add: authority_port_def port_text_def)
qed (simp add: authority_port_def port_text_def)

lemma parse_authority_text:
  assumes "plain_host (percent_encoded xs)" "literal_ok xs" "\<forall>n. p = Some n \<longrightarrow> 1 \<le> n \<and> n \<le> 65535"
  shows "uri_parse_authority u (percent_encoded xs @ port_text p) =
    (True, u\<lparr>u_port := (case p of None \<Rightarrow> -1 | Some n \<Rightarrow> int n), u_host := Live (map fst xs)\<rparr>)"
proof -
  let ?h = "percent_encoded xs"
  have "CHR ''@'' \<notin> set (?h @ port_text p)"
    using assms(1) by (auto simp: plain_host_def port_text_def dec_no_char char_facts split: option.splits)
  then have "strchr (?h @ port_text p) (CHR ''@'') = None" by (rule strchr_none)
  then show ?thesis
    using split_plain [OF assms(1), of p] authority_port_text [OF assms(3)]
      decode_loop_encoded [OF assms(2), of "[]"]
    by (simp add: uri_parse_authority_def percent_decode_loop)
qed

lemma dropWhile_stop: "\<forall>c\<in>set s. P c \<Longrightarrow> t = [] \<or> \<not> P (hd t) \<Longrightarrow> dropWhile P (s @ t) = t"
  by (induction s) (cases t; auto)+

lemma authority_span:
  assumes "plain_host h" "path = [] \<or> hd path \<in> {CHR ''/'', CHR ''?'', CHR ''#''}"
  shows "dropWhile authority_char (h @ port_text p @ path) = path"
proof -
  have "\<forall>c\<in>set (h @ port_text p). authority_char c"
  proof -
    have "\<forall>c\<in>set (port_text p). authority_char c"
      using dec_no_char char_facts not_digit_NUL
      by (cases p) (auto simp: port_text_def authority_char_def)
    then show ?thesis using assms(1) by (auto simp: plain_host_def)
  qed
  moreover have "path = [] \<or> \<not> authority_char (hd path)"
    using assms(2) by (auto simp: authority_char_def)
  ultimately show ?thesis using dropWhile_stop [of "h @ port_text p" authority_char path] by simp
qed

section \<open>What the code promises of URIs\<close>

text \<open>
  C24. Parsing a URI that was written from a scheme, a percent-encoded host, an optional port and a
  path gives these parts back: the scheme in lower case, the host decoded byte for byte, the port (or
  the default port of the scheme), and the path untouched.
\<close>

theorem uri_parse_roundtrip:
  assumes "is_alpha_char a" and "\<forall>c\<in>set s. scheme_char c"
    and "plain_host (percent_encoded xs)" and "literal_ok xs" and "\<forall>n. p = Some n \<longrightarrow> 1 \<le> n \<and> n \<le> 65535"
    and "is_cstr path" and "path = [] \<or> hd path \<in> {CHR ''/'', CHR ''?'', CHR ''#''}"
  shows "uri_parse ((a # s) @ ''://'' @ percent_encoded xs @ port_text p @ path) =
    Inr (True, \<lparr>u_scheme = Live (map to_lower (a # s)), u_host = Live (map fst xs),
      u_port = (case p of None \<Rightarrow> scheme_default_port (map to_lower (a # s)) | Some n \<Rightarrow> int n),
      u_path = Live path\<rparr>)"
proof -
  let ?t = "percent_encoded xs @ port_text p @ path"
  have "scheme_char a" using assms(1) by (simp add: scheme_char_def)
  then have d: "dropWhile scheme_char ((a # s) @ ''://'' @ ?t) = ''://'' @ ?t"
    using assms(2) char_facts(1) by (intro dropWhile_stop) auto
  have sp: "span ((a # s) @ ''://'' @ ?t) (''://'' @ ?t) = a # s" by (rule span_append)
  have au: "span ?t (dropWhile authority_char ?t) = percent_encoded xs @ port_text p"
    unfolding authority_span [OF assms(3,7)] using span_append [of "percent_encoded xs @ port_text p" path] by simp
  have tw: "takeWhile (\<lambda>c. c \<noteq> NUL) path = path"
    using assms(6) by (auto simp: is_cstr_def takeWhile_eq_all_conv)
  show ?thesis
    unfolding uri_parse_def Let_def d sp
    using assms(1,5) au authority_span [OF assms(3,7), of p]
    by (auto simp: parse_authority_text [OF assms(3,4,5)] uri_init_def tw split: option.splits)
qed

theorem uri_parse_roundtrip_witness:
  "uri_parse ''HTTP://a%20b:81/x?y'' =
    Inr (True, \<lparr>u_scheme = Live ''http'', u_host = Live ''a b'', u_port = 81, u_path = Live ''/x?y''\<rparr>)"
proof -
  let ?xs = "[(CHR ''a'', None), (CHR '' '', Some False), (CHR ''b'', None)]"
  have p: "dec 81 = ''81''" by code_simp
  have f: "is_alpha_char CHR ''H''" "\<forall>c\<in>set ''TTP''. scheme_char c" "plain_host (percent_encoded ?xs)"
    "literal_ok ?xs" "is_cstr ''/x?y''"
    by code_simp+
  have e: "percent_encoded ?xs = ''a%20b''" by code_simp
  have t: "(CHR ''H'' # ''TTP'') @ ''://'' @ percent_encoded ?xs @ port_text (Some 81) @ ''/x?y'' = ''HTTP://a%20b:81/x?y''"
    "map to_lower (CHR ''H'' # ''TTP'') = ''http''"
    unfolding e port_text_def by (simp add: p) code_simp
  show ?thesis
    using uri_parse_roundtrip [OF f(1,2,3,4) _ f(5), of "Some 81"] unfolding t by simp
qed

end
