(* ===== verification/Http_Header.thy ===== *)
theory Http_Header
  imports Sock_Buffer Uri
begin

text \<open>
  Header fields in ncat/http.c: the character classes and readers of RFC 2616, the list of fields and
  its operations, and the parser.  A header is the list of its nodes, each a name and a value.  A
  value under construction is the text of its string buffer, \<open>None\<close> while the buffer is NULL; that the
  buffers hold this text is shown in the theory of the buffers.
\<close>

section \<open>Character classes\<close>

definition is_space_char :: "char \<Rightarrow> bool" where
  "is_space_char c \<longleftrightarrow> c = CHR '' '' \<or> c = TAB"

text \<open>The argument is a \<open>char\<close> promoted to \<open>int\<close>: bytes above 127 are negative.\<close>

definition is_ctl_char :: "char \<Rightarrow> bool" where
  "is_ctl_char c \<longleftrightarrow> code_of c \<le> 31 \<or> code_of c = 127"

definition separators :: cstr where
  "separators = ''()<>@,;:'' @ [CHR 0x5C, CHR 0x22] @ ''/[]?={} '' @ [TAB]"

definition is_sep_char :: "char \<Rightarrow> bool" where
  "is_sep_char c \<longleftrightarrow> c \<noteq> NUL \<and> strchr separators c \<noteq> None"

definition is_token_char :: "char \<Rightarrow> bool" where
  "is_token_char c \<longleftrightarrow> \<not> is_cntrl c \<and> \<not> is_sep_char c"

definition skip_crlf :: "cstr \<Rightarrow> cstr outcome" where
  "skip_crlf s =
     (if deref s = LF then Inr (tl s)
      else if deref s = CR \<and> deref (tl s) = LF then Inr (drop 2 s)
      else Inl Assert_failed)"

lemma tl_dropWhile_less: "deref (dropWhile P s) \<noteq> NUL \<Longrightarrow> length (tl (dropWhile P s)) < length s"
  using deref_tl_less [of "dropWhile P s"] length_dropWhile_le [of P s] by linarith

function skip_lws :: "cstr \<Rightarrow> cstr" where
  "skip_lws s =
     (let s = dropWhile is_space_char s
      in if deref s = LF \<and> is_space_char (deref (tl s)) then skip_lws (tl s)
         else if deref s = CR \<and> deref (tl s) = LF \<and> is_space_char (deref (drop 2 s)) then skip_lws (drop 2 s)
         else s)"
  by pat_completeness auto

termination
proof (relation "measure length", goal_cases)
  case (2 s x)
  then show ?case using tl_dropWhile_less [of is_space_char s] by simp
next
  case (3 s x)
  then show ?case using tl_dropWhile_less [of is_space_char s] by (auto simp: drop_Suc numeral_2_eq_2)
qed simp

declare skip_lws.simps [simp del]

section \<open>Fields\<close>

type_synonym http_header = "(cstr \<times> cstr) list"

definition field_name_equal :: "cstr \<Rightarrow> cstr \<Rightarrow> bool" where
  "field_name_equal a b = str_equal_i a b"

text \<open>Appending to a string buffer that may still be NULL.\<close>

definition buf_append :: "cstr option \<Rightarrow> cstr \<Rightarrow> cstr option" where
  "buf_append buf s = Some ((case buf of None \<Rightarrow> [] | Some b \<Rightarrow> b) @ s)"

fun header_get_loop :: "http_header \<Rightarrow> cstr \<Rightarrow> cstr option \<Rightarrow> nat \<Rightarrow> cstr option" where
  "header_get_loop [] name buf n = buf"
| "header_get_loop ((nm, v) # p) name buf n =
     (if field_name_equal nm name
      then header_get_loop p name (buf_append (if n > 0 then buf_append buf '', '' else buf) v) (n + 1)
      else header_get_loop p name buf n)"

definition http_header_get :: "http_header \<Rightarrow> cstr \<Rightarrow> cstr option" where
  "http_header_get header name = header_get_loop header name None 0"

text \<open>A pointer to a node is the list from that node; \<open>p\<close> is \<open>None\<close> for NULL.\<close>

fun header_find :: "http_header \<Rightarrow> cstr \<Rightarrow> http_header option" where
  "header_find [] name = None"
| "header_find ((nm, v) # p) name = (if field_name_equal nm name then Some ((nm, v) # p) else header_find p name)"

definition http_header_next :: "http_header \<Rightarrow> http_header option \<Rightarrow> cstr \<Rightarrow> http_header option" where
  "http_header_next header p name = header_find (case p of None \<Rightarrow> header | Some q \<Rightarrow> tl q) name"

definition http_header_get_first :: "http_header \<Rightarrow> cstr \<Rightarrow> cstr option" where
  "http_header_get_first header name = map_option (\<lambda>p. snd (hd p)) (http_header_next header None name)"

fun http_header_remove :: "http_header \<Rightarrow> cstr \<Rightarrow> http_header" where
  "http_header_remove [] name = []"
| "http_header_remove ((nm, v) # p) name =
     (if field_name_equal nm name then http_header_remove p name else (nm, v) # http_header_remove p name)"

definition http_header_set :: "http_header \<Rightarrow> cstr \<Rightarrow> cstr \<Rightarrow> http_header" where
  "http_header_set header name value = http_header_remove header name @ [(name, value)]"

section \<open>Tokens\<close>

text \<open>The readers return the cursor behind what they read, or \<open>None\<close> for NULL.\<close>

definition read_token :: "cstr \<Rightarrow> (cstr \<times> cstr) option" where
  "read_token s =
     (let s = dropWhile (\<lambda>c. c = CHR '' '') s; t = dropWhile is_token_char s
      in if s = t then None else Some (t, span s t))"

text \<open>The inner loop of \<open>read_quoted_string\<close>: \<open>None\<close> when it meets a control character.\<close>

fun qdtext_end :: "cstr \<Rightarrow> cstr option" where
  "qdtext_end [] = None"
| "qdtext_end (c # t) =
     (if c = CHR 0x22 \<or> c = CHR 0x5C then Some (c # t) else if is_ctl_char c then None else qdtext_end t)"

lemma qdtext_end_length: "qdtext_end s = Some t \<Longrightarrow> length t \<le> length s \<and> t \<noteq> []"
  by (induction s) (auto split: if_splits)

lemma qdtext_end_stop: "qdtext_end s = Some t \<Longrightarrow> deref t = CHR 0x22 \<or> deref t = CHR 0x5C"
  by (induction s) (auto split: if_splits)

function quoted_loop :: "cstr \<Rightarrow> cstr option \<Rightarrow> (cstr \<times> cstr option) option" where
  "quoted_loop s buf =
     (if deref s = CHR 0x22 then Some (tl s, buf)
      else case qdtext_end s of
             None \<Rightarrow> None
           | Some t \<Rightarrow>
               let buf = buf_append buf (span s t)
               in if deref t = CHR 0x5C
                  then (let t = tl t
                        in if code_of (deref t) = 0 \<or> code_of (deref t) \<ge> 128 then None
                           else quoted_loop (tl t) (buf_append buf [deref t]))
                  else quoted_loop t buf)"
  by pat_completeness auto
termination
proof (relation "measure (\<lambda>(s, buf). 2 * length s + (if deref s = CHR 0x22 then 0 else 1))", goal_cases)
  case (2 s buf t b u)
  have l: "length t \<le> length s" "t \<noteq> []" using qdtext_end_length [OF 2(2)] by simp_all
  have "u \<noteq> []" using 2 by (cases u) auto
  then have "length (tl u) + 2 \<le> length t" using 2(5) l(2) by (cases t; cases u) auto
  then show ?case using l by (auto split: if_splits)
next
  case (3 s buf t b)
  then have "deref t = CHR 0x22" using qdtext_end_stop [OF 3(2)] by simp
  then show ?case using 3 qdtext_end_length [OF 3(2)] by simp
qed simp

declare quoted_loop.simps [simp del]

definition read_quoted_string :: "cstr \<Rightarrow> (cstr \<times> cstr option) option" where
  "read_quoted_string s =
     (let s = dropWhile is_space_char s
      in if deref s \<noteq> CHR 0x22 then None else quoted_loop (tl s) None)"

definition read_token_or_quoted_string :: "cstr \<Rightarrow> (cstr \<times> cstr option) option" where
  "read_token_or_quoted_string s =
     (let s = dropWhile is_space_char s
      in if deref s = CHR 0x22 then read_quoted_string s
         else map_option (apsnd Some) (read_token s))"

lemma read_token_length: "read_token s = Some (t, tok) \<Longrightarrow> length t < length s"
proof -
  assume a: "read_token s = Some (t, tok)"
  let ?s = "dropWhile (\<lambda>c. c = CHR '' '') s"
  have "t = dropWhile is_token_char ?s" "dropWhile is_token_char ?s \<noteq> ?s"
    using a by (auto simp: read_token_def Let_def split: if_splits)
  then have "length t < length ?s" using dropWhile_less by blast
  moreover have "length ?s \<le> length s" by simp
  ultimately show ?thesis by linarith
qed

function token_list_loop :: "cstr \<Rightarrow> cstr list \<Rightarrow> (cstr \<times> cstr list) option" where
  "token_list_loop s tokens =
     (case read_token s of
        None \<Rightarrow> None
      | Some (s, token) \<Rightarrow>
          if deref s \<noteq> CHR '','' then Some (s, tokens @ [token])
          else token_list_loop (tl s) (tokens @ [token]))"
  by pat_completeness auto
termination
proof (relation "measure (\<lambda>(s, t). length s)", goal_cases)
  case (2 s tokens x t tok)
  then have "length t < length s" using read_token_length [of s t tok] by simp
  then show ?case by simp
qed simp

declare token_list_loop.simps [simp del]

definition read_token_list :: "cstr \<Rightarrow> (cstr \<times> cstr list) option" where
  "read_token_list s = token_list_loop s []"

section \<open>Hop-by-hop fields\<close>

definition HOP_BY_HOP_HEADERS :: "cstr list" where
  "HOP_BY_HOP_HEADERS =
     [''Connection'', ''Keep-Alive'', ''Proxy-Authenticate'', ''Proxy-Authorization'',
      ''TE'', ''Trailers'', ''Transfer-Encoding'', ''Upgrade'']"

definition http_header_remove_hop_by_hop :: "http_header \<Rightarrow> int \<times> http_header" where
  "http_header_remove_hop_by_hop header =
     (let remove_all = (\<lambda>tokens. foldl http_header_remove (foldl http_header_remove header HOP_BY_HOP_HEADERS) tokens)
      in case http_header_get header ''Connection'' of
           Some connection \<Rightarrow>
             (case read_token_list connection of
                None \<Rightarrow> (400, header)
              | Some (p, connection_tokens) \<Rightarrow>
                  if deref p \<noteq> NUL then (400, header) else (0, remove_all connection_tokens))
         | None \<Rightarrow> (0, remove_all []))"

section \<open>Printing and parsing\<close>

definition http_header_to_string :: "http_header \<Rightarrow> cstr" where
  "http_header_to_string header = concat (map (\<lambda>(nm, v). nm @ '': '' @ v @ [CR, LF]) header)"

text \<open>
  The scan of a field value to white space, a line end or the terminator: \<open>None\<close> when it meets a
  control character.
\<close>

fun value_end :: "cstr \<Rightarrow> cstr option" where
  "value_end [] = Some []"
| "value_end (c # q) =
     (if c = NUL \<or> is_space_char c \<or> is_crlf (c # q) then Some (c # q)
      else if is_cntrl c then None
      else value_end q)"

text \<open>
  The loop that copies a field value.  It has no test for the end of the string, so it is a partial
  function; the inner \<open>None\<close> is the return of 400 for a control character.
\<close>

partial_function (option) value_loop :: "cstr \<Rightarrow> cstr \<Rightarrow> (cstr \<times> cstr) option option" where
  "value_loop p v =
     (case value_end p of
        None \<Rightarrow> Some None
      | Some q \<Rightarrow>
          let v = v @ span p q; p = skip_lws q
          in if is_crlf p then Some (Some (p, v)) else value_loop p (v @ '' ''))"

text \<open>
  The result of the parser: the return value, the list that \<open>*result\<close> points to, and whether that
  list was released before returning.
\<close>

partial_function (option) parse_header_loop ::
  "cstr \<Rightarrow> http_header \<Rightarrow> (int \<times> http_header \<times> bool) outcome option" where
  "parse_header_loop p acc =
     (if deref p = NUL \<or> is_crlf p then Some (Inr (0, acc, False))
      else let q = dropWhile is_token_char p
           in if deref q \<noteq> CHR '':'' then Some (Inr (400, acc, True))
              else (case value_loop (skip_lws (tl q)) [] of
                      None \<Rightarrow> None
                    | Some None \<Rightarrow> Some (Inr (400, acc, False))
                    | Some (Some (p', v)) \<Rightarrow>
                        (case skip_crlf p' of
                           Inl e \<Rightarrow> Some (Inl e)
                         | Inr p'' \<Rightarrow> parse_header_loop p'' (acc @ [(span p q, v)]))))"

definition http_parse_header :: "cstr \<Rightarrow> (int \<times> http_header \<times> bool) outcome option" where
  "http_parse_header header = parse_header_loop header []"

text \<open>\<open>errno\<close> or an unread rest of \<open>Content-Length\<close> give 400: the code, the flag and the length.\<close>

definition http_header_get_content_length :: "http_header \<Rightarrow> int \<times> bool \<times> int" where
  "http_header_get_content_length header =
     (case http_header_get_first header ''Content-Length'' of
        None \<Rightarrow> (0, False, 0)
      | Some s \<Rightarrow>
          (case parse_long s of
             (n, err, tail) \<Rightarrow> (if err \<or> deref tail \<noteq> NUL \<or> tail = s then 400 else 0, True, n)))"

section \<open>Facts on the readers\<close>

lemma is_crlf_Cons [simp]: "is_crlf (c # q) \<longleftrightarrow> c = LF \<or> (c = CR \<and> deref q = LF)"
  by (simp add: is_crlf_def)

lemma is_crlf_Nil [simp]: "\<not> is_crlf []"
  by (simp add: is_crlf_def)

lemma char_classes [simp]:
  "\<not> is_space_char NUL" "\<not> is_space_char LF" "\<not> is_space_char CR" "is_space_char CHR '' ''" "\<not> is_space_char CHR '':''"
  "is_cntrl NUL" "is_cntrl LF" "is_cntrl CR" "is_cntrl TAB" "\<not> is_cntrl CHR '':''"
  "\<not> is_token_char CHR '':''" "\<not> is_token_char CHR '' ''" "\<not> is_token_char CHR '',''" "\<not> is_token_char NUL"
  by code_simp+

lemma token_not_cntrl: "is_token_char c \<Longrightarrow> \<not> is_cntrl c \<and> \<not> is_space_char c"
proof -
  have "is_sep_char CHR '' ''" by code_simp
  then show "is_token_char c \<Longrightarrow> ?thesis" by (auto simp: is_token_char_def is_space_char_def)
qed

lemma skip_lws_same:
  assumes "\<not> is_space_char (deref s)"
    and "is_crlf s \<Longrightarrow> \<not> is_space_char (deref (if deref s = LF then tl s else drop 2 s))"
  shows "skip_lws s = s"
proof -
  have d: "dropWhile is_space_char s = s" using assms(1) by (cases s) auto
  show ?thesis
    using assms(2) unfolding is_crlf_def
    by (subst skip_lws.simps) (auto simp: d Let_def)
qed

lemma skip_lws_space: "is_space_char c \<Longrightarrow> skip_lws (c # s) = skip_lws s"
  by (subst (1 2) skip_lws.simps) simp

section \<open>Round trip of fields\<close>

definition word_ok :: "cstr \<Rightarrow> bool" where
  "word_ok w \<longleftrightarrow> (\<forall>c\<in>set w. \<not> is_cntrl c \<and> c \<noteq> CHR '' '')"

fun words :: "cstr list \<Rightarrow> cstr" where
  "words [] = []"
| "words [w] = w"
| "words (w # ws) = w @ CHR '' '' # words ws"

text \<open>A value as the parser leaves it: words separated by single spaces.\<close>

definition words_ok :: "cstr list \<Rightarrow> bool" where
  "words_ok ws \<longleftrightarrow> ws \<noteq> [] \<and> (\<forall>w\<in>set ws. word_ok w) \<and> ([] \<notin> set ws \<or> ws = [[]])"

definition field_ok :: "cstr \<times> cstr \<Rightarrow> bool" where
  "field_ok f \<longleftrightarrow> (\<forall>c\<in>set (fst f). is_token_char c) \<and> (\<exists>ws. words_ok ws \<and> snd f = words ws)"

lemma word_char: "word_ok (c # w) \<Longrightarrow> \<not> is_cntrl c \<and> \<not> is_space_char c \<and> c \<noteq> NUL \<and> c \<noteq> CR \<and> c \<noteq> LF"
  using char_classes by (fastforce simp: word_ok_def is_space_char_def)

lemma value_end_word: "word_ok w \<Longrightarrow> value_end (w @ s) = value_end s"
proof (induction w)
  case (Cons c w)
  then show ?case using word_char [OF Cons.prems] by (simp add: word_ok_def)
qed simp

lemma value_end_stop: "c = NUL \<or> is_space_char c \<or> is_crlf (c # q) \<Longrightarrow> value_end (c # q) = Some (c # q)"
  by auto

lemma skip_lws_word: "word_ok (c # w) \<Longrightarrow> skip_lws (c # w @ s) = c # w @ s"
  using word_char [of c w] by (intro skip_lws_same) auto

lemma skip_lws_crlf: "\<not> is_space_char (deref rest) \<Longrightarrow> skip_lws (CR # LF # rest) = CR # LF # rest"
  by (rule skip_lws_same) (auto simp: numeral_2_eq_2)

lemma value_loop_words:
  assumes "words_ok ws" "\<not> is_space_char (deref rest)"
  shows "value_loop (words ws @ CR # LF # rest) acc = Some (Some (CR # LF # rest, acc @ words ws))"
  using assms(1)
proof (induction ws arbitrary: acc rule: words.induct)
  case (2 w)
  have e: "value_end (w @ CR # LF # rest) = Some (CR # LF # rest)"
    using 2 by (simp add: words_ok_def value_end_word)
  show ?case
    by (subst value_loop.simps) (simp add: e skip_lws_crlf [OF assms(2)])
next
  case (3 w w' ws)
  let ?t = "words (w' # ws) @ CR # LF # rest"
  have ok: "word_ok w" "words_ok (w' # ws)" "word_ok w'" "w' \<noteq> []" using 3(2) by (auto simp: words_ok_def)
  then obtain c u where w': "w' = c # u" by (cases w') auto
  obtain u' where t: "?t = c # u'" unfolding w' by (cases ws) auto
  have c: "\<not> is_cntrl c \<and> \<not> is_space_char c \<and> c \<noteq> NUL \<and> c \<noteq> CR \<and> c \<noteq> LF" using word_char ok(3) w' by blast
  have sk: "skip_lws (CHR '' '' # ?t) = ?t"
    unfolding skip_lws_space [OF char_classes(4)] t using c by (intro skip_lws_same) auto
  have e: "value_end (w @ CHR '' '' # ?t) = Some (CHR '' '' # ?t)"
    using ok(1) by (simp add: value_end_word)
  have nc: "\<not> is_crlf ?t" unfolding t using c by simp
  have "value_loop (w @ CHR '' '' # ?t) acc = value_loop ?t (acc @ w @ '' '')"
    by (subst value_loop.simps) (simp add: e sk nc Let_def)
  also have "\<dots> = Some (Some (CR # LF # rest, (acc @ w @ '' '') @ words (w' # ws)))"
    by (rule 3(1) [OF ok(2)])
  finally show ?case by simp
qed (simp add: words_ok_def)

lemma parse_field:
  assumes "field_ok (nm, v)" "\<not> is_space_char (deref rest)"
  shows "parse_header_loop (nm @ '': '' @ v @ CR # LF # rest) acc = parse_header_loop rest (acc @ [(nm, v)])"
proof -
  let ?p = "nm @ '': '' @ v @ CR # LF # rest"
  obtain ws where ws: "words_ok ws" "v = words ws" and nm: "\<forall>c\<in>set nm. is_token_char c"
    using assms(1) by (auto simp: field_ok_def)
  have start: "deref ?p \<noteq> NUL" "\<not> is_crlf ?p"
    using nm char_classes(6-8) token_not_cntrl by (cases nm; fastforce)+
  have d: "dropWhile is_token_char ?p = '': '' @ v @ CR # LF # rest"
    using nm by (intro dropWhile_stop) auto
  have sp: "span ?p ('': '' @ v @ CR # LF # rest) = nm" by (rule span_append)
  have "skip_lws (v @ CR # LF # rest) = v @ CR # LF # rest"
  proof (cases v)
    case Nil
    then show ?thesis using skip_lws_crlf [OF assms(2)] by simp
  next
    case (Cons c u)
    then obtain w ws' where w: "ws = w # ws'" "w \<noteq> []" using ws by (cases ws) (auto simp: words_ok_def)
    then obtain c' w' where w': "w = c' # w'" by (cases w) auto
    have "c' = c" using Cons ws(2) w(1) w' by (cases ws') auto
    then have "word_ok (c # w')" using ws(1) w(1) w' by (auto simp: words_ok_def)
    then show ?thesis using word_char [of c w'] Cons by (intro skip_lws_same) auto
  qed
  then have sk: "skip_lws (CHR '' '' # v @ CR # LF # rest) = v @ CR # LF # rest"
    by (simp add: skip_lws_space)
  have vl: "value_loop (v @ CR # LF # rest) [] = Some (Some (CR # LF # rest, v))"
    using value_loop_words [OF ws(1) assms(2), of "[]"] ws(2) by simp
  have tl: "tl ('': '' @ v @ CR # LF # rest) = CHR '' '' # v @ CR # LF # rest" by simp
  show ?thesis
    using start unfolding parse_header_loop.simps [of ?p] d Let_def tl sk vl sp by (simp add: skip_crlf_def numeral_2_eq_2)
qed

lemma parse_fields_prefix:
  assumes "\<forall>f\<in>set hs. field_ok f" and "\<not> is_space_char (deref rest)"
  shows "parse_header_loop (http_header_to_string hs @ rest) acc = parse_header_loop rest (acc @ hs)"
  using assms(1)
proof (induction hs arbitrary: acc)
  case Nil
  then show ?case by (simp add: http_header_to_string_def)
next
  case (Cons f hs)
  obtain nm v where f: "f = (nm, v)" by (cases f)
  have "\<not> is_space_char (deref (http_header_to_string hs @ rest))"
  proof (cases hs)
    case (Cons g gs)
    obtain nm' v' where g: "g = (nm', v')" by (cases g)
    have "\<forall>c\<in>set nm'. is_token_char c" using Cons.prems Cons g by (simp add: field_ok_def)
    then show ?thesis using Cons g token_not_cntrl by (cases nm') (auto simp: http_header_to_string_def)
  qed (simp add: http_header_to_string_def assms(2))
  then show ?case
    using parse_field [of nm v "http_header_to_string hs @ rest" acc] Cons f
    by (simp add: http_header_to_string_def)
qed

lemma parse_fields:
  assumes "\<forall>f\<in>set hs. field_ok f"
  shows "parse_header_loop (http_header_to_string hs @ [CR, LF]) acc = Some (Inr (0, acc @ hs, False))"
proof -
  have "parse_header_loop [CR, LF] (acc @ hs) = Some (Inr (0, acc @ hs, False))"
    by (subst parse_header_loop.simps) simp
  then show ?thesis using parse_fields_prefix [OF assms, of "[CR, LF]" acc] by simp
qed

text \<open>A line that is not a field ends the parser, which releases the fields read so far.\<close>

lemma parse_fields_bad:
  assumes "\<forall>f\<in>set hs. field_ok f" and "\<forall>c\<in>set nm. is_token_char c" "nm \<noteq> []"
    and "\<not> is_token_char (deref rest)" "deref rest \<noteq> CHR '':''"
  shows "parse_header_loop (http_header_to_string hs @ nm @ rest) acc = Some (Inr (400, acc @ hs, True))"
proof -
  obtain c u where nm: "nm = c # u" using assms(3) by (cases nm) auto
  have c: "\<not> is_space_char c" "\<not> is_crlf (nm @ rest)" "deref (nm @ rest) \<noteq> NUL"
    using assms(2) char_classes(6-8) token_not_cntrl nm by fastforce+
  have d: "dropWhile is_token_char (nm @ rest) = rest"
    using assms(2,4) by (intro dropWhile_stop) (cases rest; auto)+
  have "parse_header_loop (nm @ rest) (acc @ hs) = Some (Inr (400, acc @ hs, True))"
    using c(2,3) assms(5) by (subst parse_header_loop.simps) (simp add: d)
  then show ?thesis using parse_fields_prefix [OF assms(1), of "nm @ rest" acc] c(1) nm by simp
qed

section \<open>Termination of the parser\<close>

text \<open>A suffix of a text that ends in a line feed keeps that line feed until it is consumed.\<close>

definition ends_lf :: "cstr \<Rightarrow> bool" where
  "ends_lf s \<longleftrightarrow> s \<noteq> [] \<and> last s = LF"

definition suffix_of :: "cstr \<Rightarrow> cstr \<Rightarrow> bool" where
  "suffix_of t s \<longleftrightarrow> (\<exists>pre. s = pre @ t)"

lemma suffix_of_refl: "suffix_of s s"
  unfolding suffix_of_def by (rule exI [of _ "[]"]) simp

lemma suffix_of_trans: "suffix_of u t \<Longrightarrow> suffix_of t s \<Longrightarrow> suffix_of u s"
  unfolding suffix_of_def by (metis append.assoc)

lemma suffix_of_tl: "suffix_of (tl s) s"
  unfolding suffix_of_def by (cases s) auto

lemma suffix_of_drop: "suffix_of (drop n s) s"
  unfolding suffix_of_def by (metis append_take_drop_id)

lemma suffix_of_dropWhile: "suffix_of (dropWhile P s) s"
  unfolding suffix_of_def by (metis takeWhile_dropWhile_id)

lemma suffix_ends_lf: "suffix_of t s \<Longrightarrow> t \<noteq> [] \<Longrightarrow> ends_lf s \<Longrightarrow> ends_lf t"
  unfolding suffix_of_def ends_lf_def by auto

lemma deref_nonempty: "deref s \<noteq> NUL \<Longrightarrow> s \<noteq> []"
  by (cases s) simp_all

lemma suffix_cstr: "suffix_of t s \<Longrightarrow> is_cstr s \<Longrightarrow> is_cstr t"
  unfolding suffix_of_def by auto

lemma suffix_length: "suffix_of t s \<Longrightarrow> length t \<le> length s \<and> (t \<noteq> s \<longrightarrow> length t < length s)"
  unfolding suffix_of_def by auto

lemma dropWhile_ends_lf: "ends_lf s \<Longrightarrow> \<not> P LF \<Longrightarrow> dropWhile P s \<noteq> []"
  unfolding ends_lf_def by (metis dropWhile_eq_Nil_conv last_in_set)

lemma value_end_suffix:
  "value_end p = Some q \<Longrightarrow> suffix_of q p \<and> (q = [] \<or> deref q = NUL \<or> is_space_char (deref q) \<or> is_crlf q)"
proof (induction p rule: value_end.induct)
  case (2 c p)
  then show ?case
    using suffix_of_refl suffix_of_trans [OF _ suffix_of_tl [of "c # p"]] by (auto split: if_splits)
qed (simp add: suffix_of_refl)

lemma value_end_ends_lf: "value_end p = Some q \<Longrightarrow> ends_lf p \<Longrightarrow> q \<noteq> []"
proof (induction p rule: value_end.induct)
  case (2 c p)
  then show ?case by (cases p) (auto simp: ends_lf_def split: if_splits)
qed (simp add: ends_lf_def)

lemma skip_lws_ends_lf: "ends_lf s \<Longrightarrow> suffix_of (skip_lws s) s \<and> skip_lws s \<noteq> []"
proof (induction s rule: skip_lws.induct)
  case (1 s)
  let ?s = "dropWhile is_space_char s"
  have ne: "?s \<noteq> []" using dropWhile_ends_lf [OF 1(3)] by simp
  have e: "ends_lf ?s" by (rule suffix_ends_lf [OF suffix_of_dropWhile ne 1(3)])
  note IH1 = 1(1) [OF refl] and IH2 = 1(2) [OF refl]
  show ?case
  proof (cases "deref ?s = LF \<and> is_space_char (deref (tl ?s))")
    case True
    then have "tl ?s \<noteq> []" by auto
    then have "ends_lf (tl ?s)" by (rule suffix_ends_lf [OF suffix_of_tl _ e])
    moreover have "suffix_of (tl ?s) s" by (rule suffix_of_trans [OF suffix_of_tl suffix_of_dropWhile])
    moreover have "skip_lws s = skip_lws (tl ?s)" using True by (subst skip_lws.simps) (simp add: Let_def)
    ultimately show ?thesis using IH1 [OF True] suffix_of_trans by metis
  next
    case no: False
    show ?thesis
    proof (cases "deref ?s = CR \<and> deref (tl ?s) = LF \<and> is_space_char (deref (drop 2 ?s))")
      case True
      then have "drop 2 ?s \<noteq> []" by auto
      then have "ends_lf (drop 2 ?s)" by (rule suffix_ends_lf [OF suffix_of_drop _ e])
      moreover have "suffix_of (drop 2 ?s) s" by (rule suffix_of_trans [OF suffix_of_drop suffix_of_dropWhile])
      moreover have "skip_lws s = skip_lws (drop 2 ?s)" using True no by (subst skip_lws.simps) (simp add: Let_def)
      ultimately show ?thesis using IH2 [OF no True] suffix_of_trans by metis
    next
      case False
      have "skip_lws s = ?s" by (subst skip_lws.simps) (simp only: Let_def no False if_False)
      then show ?thesis using ne suffix_of_dropWhile by simp
    qed
  qed
qed

lemma deref_dropWhile: "\<not> P NUL \<Longrightarrow> \<not> P (deref (dropWhile P s))"
  by (induction s) auto

lemma skip_lws_moves: "is_space_char (deref q) \<Longrightarrow> skip_lws q \<noteq> q"
proof -
  assume "is_space_char (deref q)"
  then obtain c r where q: "q = c # r" "is_space_char c" by (cases q) auto
  show ?thesis
  proof
    assume "skip_lws q = q"
    moreover have "\<not> is_space_char (deref (skip_lws s))" for s
    proof (induction s rule: skip_lws.induct)
      case (1 s)
      have "\<not> is_space_char (deref (dropWhile is_space_char s))"
        by (rule deref_dropWhile) simp
      then show ?case using 1 by (subst skip_lws.simps) (simp add: Let_def)
    qed
    ultimately show False using q by (metis deref_simps(2))
  qed
qed

lemma value_loop_returns:
  "ends_lf p \<Longrightarrow> is_cstr p \<Longrightarrow> \<exists>r. value_loop p v = Some r \<and>
    (\<forall>p' v'. r = Some (p', v') \<longrightarrow> is_crlf p' \<and> suffix_of p' p \<and> p' \<noteq> [])"
proof (induction "length p" arbitrary: p v rule: less_induct)
  case less
  show ?case
  proof (cases "value_end p")
    case None
    then show ?thesis by (subst value_loop.simps) simp
  next
    case (Some q)
    have q: "suffix_of q p" "q \<noteq> []" "q = [] \<or> deref q = NUL \<or> is_space_char (deref q) \<or> is_crlf q"
      using value_end_suffix [OF Some] value_end_ends_lf [OF Some less.prems(1)] by simp_all
    have eq: "ends_lf q" "is_cstr q"
      using suffix_ends_lf [OF q(1,2) less.prems(1)] suffix_cstr [OF q(1) less.prems(2)] by simp_all
    have nz: "deref q \<noteq> NUL" using eq(2) q(2) by (cases q) auto
    have sk: "suffix_of (skip_lws q) q" "skip_lws q \<noteq> []" using skip_lws_ends_lf [OF eq(1)] by simp_all
    have sp: "suffix_of (skip_lws q) p" by (rule suffix_of_trans [OF sk(1) q(1)])
    show ?thesis
    proof (cases "is_crlf (skip_lws q)")
      case True
      then have "value_loop p v = Some (Some (skip_lws q, v @ span p q))"
        by (subst value_loop.simps) (simp add: Some Let_def)
      then show ?thesis using True sp sk(2) by auto
    next
      case False
      then have "skip_lws q \<noteq> q" using q nz skip_lws_moves by auto
      then have less': "length (skip_lws q) < length p"
        using suffix_length [OF sk(1)] suffix_length [OF q(1)] by auto
      have "value_loop p v = value_loop (skip_lws q) (v @ span p q @ '' '')"
        using False by (subst value_loop.simps) (simp add: Some Let_def)
      moreover have "ends_lf (skip_lws q)" "is_cstr (skip_lws q)"
        using suffix_ends_lf [OF sp sk(2) less.prems(1)] suffix_cstr [OF sp less.prems(2)] by simp_all
      ultimately show ?thesis
        using less.hyps [OF less', of "v @ span p q @ '' ''"] suffix_of_trans [OF _ sp] by metis
    qed
  qed
qed

lemma parse_header_returns:
  "p = [] \<or> ends_lf p \<Longrightarrow> is_cstr p \<Longrightarrow> \<exists>r. parse_header_loop p acc = Some (Inr r)"
proof (induction "length p" arbitrary: p acc rule: less_induct)
  case less
  show ?case
  proof (cases "deref p = NUL \<or> is_crlf p")
    case True
    then show ?thesis by (subst parse_header_loop.simps) auto
  next
    case go: False
    then have lf: "ends_lf p" using less.prems(1) by auto
    let ?q = "dropWhile is_token_char p"
    show ?thesis
    proof (cases "deref ?q = CHR '':''")
      case False
      then show ?thesis using go by (subst parse_header_loop.simps) (auto simp: Let_def)
    next
      case True
      have q: "suffix_of ?q p" by (rule suffix_of_dropWhile)
      have e: "ends_lf ?q" using suffix_ends_lf [OF q deref_nonempty lf] True by simp
      have "tl ?q \<noteq> []" using e True by (cases ?q) (auto simp: ends_lf_def)
      then have t: "suffix_of (tl ?q) p" "ends_lf (tl ?q)"
        using suffix_of_trans [OF suffix_of_tl q] suffix_ends_lf [OF suffix_of_tl _ e] by simp_all
      have s: "suffix_of (skip_lws (tl ?q)) (tl ?q)" "skip_lws (tl ?q) \<noteq> []"
        using skip_lws_ends_lf [OF t(2)] by simp_all
      have s': "ends_lf (skip_lws (tl ?q))" "is_cstr (skip_lws (tl ?q))"
        using suffix_ends_lf [OF s t(2)] suffix_cstr [OF s(1)] suffix_cstr [OF t(1) less.prems(2)] by simp_all
      obtain r where r: "value_loop (skip_lws (tl ?q)) [] = Some r"
          "\<forall>p' v'. r = Some (p', v') \<longrightarrow> is_crlf p' \<and> suffix_of p' (skip_lws (tl ?q)) \<and> p' \<noteq> []"
        using value_loop_returns [OF s'] by blast
      show ?thesis
      proof (cases r)
        case None
        then show ?thesis using go True r(1) by (subst parse_header_loop.simps) (auto simp: Let_def)
      next
        case (Some pv)
        obtain p' v' where pv: "pv = (p', v')" by (cases pv)
        have p': "is_crlf p'" "suffix_of p' p" "p' \<noteq> []"
          using r(2) Some pv suffix_of_trans [OF _ suffix_of_trans [OF s(1) t(1)]] by auto
        obtain p'' where p'': "skip_crlf p' = Inr p''" "suffix_of p'' p'" "length p'' < length p'"
        proof (cases "deref p' = LF")
          case True
          then show ?thesis using that [of "tl p'"] suffix_of_tl p'(3) by (simp add: skip_crlf_def)
        next
          case False
          then show ?thesis using that [of "drop 2 p'"] suffix_of_drop p'(1,3) by (auto simp: skip_crlf_def is_crlf_def)
        qed
        have sp: "suffix_of p'' p" by (rule suffix_of_trans [OF p''(2) p'(2)])
        have "length p'' < length p" using p''(3) suffix_length [OF p'(2)] by simp
        moreover have "p'' = [] \<or> ends_lf p''" "is_cstr p''"
          using suffix_ends_lf [OF sp _ lf] suffix_cstr [OF sp less.prems(2)] by blast+
        ultimately obtain r' where "parse_header_loop p'' (acc @ [(span p ?q, v')]) = Some (Inr r')"
          using less.hyps by blast
        then show ?thesis
          using go True r(1) Some pv p''(1) by (subst parse_header_loop.simps, cases r') (simp add: Let_def)
      qed
    qed
  qed
qed

text \<open>At an embedded or final NUL the loop makes no progress.\<close>

lemma value_loop_stuck: "value_loop p v = Some r \<Longrightarrow> deref p \<noteq> NUL"
proof (induction rule: value_loop.raw_induct [rotated 1, consumes 1])
  case (1 value_loop p v r)
  show ?case
  proof
    assume z: "deref p = NUL"
    then have e: "value_end p = Some p" by (cases p) auto
    have nc: "\<not> is_crlf p" using z by (simp add: is_crlf_def)
    then have sk: "skip_lws p = p" using z by (intro skip_lws_same) simp_all
    have "value_loop p (v @ '' '') = Some r" using 1(2) e nc sk by (simp add: Let_def)
    then show False using 1(1) z by blast
  qed
qed

lemma parse_header_stuck:
  assumes "\<forall>c\<in>set nm. is_token_char c" "word_ok w"
  shows "parse_header_loop (nm @ '':'' @ w @ NUL # rest) acc = None"
proof -
  let ?p = "nm @ '':'' @ w @ NUL # rest" and ?t = "w @ NUL # rest"
  have start: "deref ?p \<noteq> NUL" "\<not> is_crlf ?p"
    using assms(1) char_classes(6-8) token_not_cntrl by (cases nm; fastforce)+
  have d: "dropWhile is_token_char ?p = '':'' @ ?t"
    using assms(1) by (intro dropWhile_stop) auto
  have sk: "skip_lws ?t = ?t"
    using word_char assms(2) by (cases w) (auto intro!: skip_lws_same)
  have e: "value_end ?t = Some (NUL # rest)" using assms(2) by (simp add: value_end_word)
  have sn: "skip_lws (NUL # rest) = NUL # rest" by (rule skip_lws_same) simp_all
  have none: "value_loop (NUL # rest) v = None" for v
    using value_loop_stuck [of "NUL # rest" v] by (cases "value_loop (NUL # rest) v") auto
  have "value_loop ?t [] = value_loop (NUL # rest) ([] @ span ?t (NUL # rest) @ '' '')"
    by (subst value_loop.simps) (simp add: e sn)
  then have v: "value_loop ?t [] = None" using none by simp
  show ?thesis
    using start unfolding parse_header_loop.simps [of ?p] d Let_def by (simp add: sk v)
qed

section \<open>Removal of fields\<close>

lemma remove_filter: "http_header_remove h n = filter (\<lambda>f. \<not> field_name_equal (fst f) n) h"
  by (induction h n rule: http_header_remove.induct) auto

lemma remove_all_filter:
  "foldl http_header_remove h ns = filter (\<lambda>f. \<forall>n\<in>set ns. \<not> field_name_equal (fst f) n) h"
  by (induction ns arbitrary: h) (auto simp: remove_filter intro: filter_cong)

definition token_ok :: "cstr \<Rightarrow> bool" where
  "token_ok t \<longleftrightarrow> t \<noteq> [] \<and> (\<forall>c\<in>set t. is_token_char c)"

fun comma_list :: "cstr list \<Rightarrow> cstr" where
  "comma_list [] = []"
| "comma_list [t] = t"
| "comma_list (t # ts) = t @ '', '' @ comma_list ts"

lemma read_token_ok:
  assumes "token_ok t" "\<not> is_token_char (deref s)"
  shows "read_token (t @ s) = Some (s, t)" "read_token (CHR '' '' # t @ s) = Some (s, t)"
proof -
  obtain c u where t: "t = c # u" using assms(1) by (cases t) (auto simp: token_ok_def)
  have c: "c \<noteq> CHR '' ''" using assms(1) t char_classes(12) by (auto simp: token_ok_def)
  have d: "dropWhile is_token_char (t @ s) = s"
    using assms by (intro dropWhile_stop) (auto simp: token_ok_def deref_def split: list.splits)
  have ne: "t @ s \<noteq> s" using t by simp
  show "read_token (t @ s) = Some (s, t)" "read_token (CHR '' '' # t @ s) = Some (s, t)"
    using c d ne span_append [of t s] by (simp_all add: read_token_def Let_def t)
qed

lemma token_list_ok:
  assumes "\<forall>t\<in>set ts. token_ok t" "ts \<noteq> []"
  shows "token_list_loop (comma_list ts) acc = Some ([], acc @ ts) \<and>
    token_list_loop (CHR '' '' # comma_list ts) acc = Some ([], acc @ ts)"
  using assms
proof (induction ts arbitrary: acc rule: comma_list.induct)
  case (2 t)
  have "read_token t = Some ([], t)" "read_token (CHR '' '' # t) = Some ([], t)"
    using read_token_ok [of t "[]"] 2 by simp_all
  then show ?case by (subst (1 2) token_list_loop.simps) simp
next
  case (3 t t' ts)
  have r: "read_token (t @ '', '' @ comma_list (t' # ts)) = Some ('', '' @ comma_list (t' # ts), t)"
    "read_token (CHR '' '' # t @ '', '' @ comma_list (t' # ts)) = Some ('', '' @ comma_list (t' # ts), t)"
    using read_token_ok [of t "'', '' @ comma_list (t' # ts)"] 3(2) by simp_all
  show ?case
    using 3(1) [of "acc @ [t]"] 3(2) r by (subst (1 2) token_list_loop.simps) simp
qed simp

section \<open>What the code promises of header fields\<close>

text \<open>
  C25. A header that was printed is parsed back: for fields whose names are token characters and whose
  values are words separated by single spaces, the parser applied to the printed fields and a blank
  line returns exactly these fields, and combining, finding, setting and removing fields by name is
  what filtering that list gives.
\<close>

theorem header_roundtrip:
  assumes "\<forall>f\<in>set hs. field_ok f"
  shows "http_parse_header (http_header_to_string hs @ [CR, LF]) = Some (Inr (0, hs, False)) \<and>
    http_header_set hs n v = filter (\<lambda>f. \<not> field_name_equal (fst f) n) hs @ [(n, v)]"
  using parse_fields [OF assms, of "[]"] by (simp add: http_parse_header_def http_header_set_def remove_filter)

theorem header_roundtrip_witness:
  "http_parse_header (''Host: a'' @ [CR, LF] @ ''X: b c'' @ [CR, LF, CR, LF]) =
    Some (Inr (0, [(''Host'', ''a''), (''X'', ''b c'')], False))"
proof -
  have "words_ok [''a'']" "words_ok [''b'', ''c'']" "\<forall>c\<in>set ''Host''. is_token_char c" "\<forall>c\<in>set ''X''. is_token_char c"
    by code_simp+
  then have "\<forall>f\<in>set [(''Host'', ''a''), (''X'', ''b c'')]. field_ok f"
    unfolding field_ok_def by (auto intro: exI [of _ "[''a'']"] exI [of _ "[''b'', ''c'']"])
  from header_roundtrip [OF this] show ?thesis by (simp add: http_header_to_string_def)
qed





end
