(* ===== verification/Http_Message.thy ===== *)
theory Http_Message
  imports Buffers Http_Header
begin

text \<open>
  Requests and responses in ncat/http.c: their structures with the storage they own, the request line,
  the status line and the header as they are parsed and printed.
\<close>

section \<open>Structures\<close>

datatype http_version = HTTP_09 | HTTP_10 | HTTP_11 | HTTP_UNKNOWN

text \<open>The pointer to the header: a list (NULL is the empty list), or a released list.\<close>

datatype header_ptr = Fields http_header | Freed_fields

record http_request =
  req_method :: ptr
  req_uri :: uri
  req_version :: http_version
  req_header :: header_ptr
  req_content_length_set :: bool
  req_content_length :: int
  req_bytes_transferred :: int

record http_response =
  resp_version :: http_version
  resp_code :: int
  resp_phrase :: ptr
  resp_header :: header_ptr
  resp_content_length_set :: bool
  resp_content_length :: int
  resp_bytes_transferred :: int

fun http_header_free :: "header_ptr \<Rightarrow> header_ptr outcome" where
  "http_header_free (Fields []) = Inr (Fields [])"
| "http_header_free (Fields (f # fs)) = Inr Freed_fields"
| "http_header_free Freed_fields = Inl Use_after_free"

definition http_request_init :: http_request where
  "http_request_init =
     \<lparr>req_method = Null, req_uri = uri_init, req_version = HTTP_UNKNOWN, req_header = Fields [],
      req_content_length_set = False, req_content_length = 0, req_bytes_transferred = 0\<rparr>"

definition http_request_free :: "http_request \<Rightarrow> http_request outcome" where
  "http_request_free r =
     bind_out (free_ptr (req_method r)) (\<lambda>m. bind_out (uri_free (req_uri r)) (\<lambda>u.
       bind_out (http_header_free (req_header r)) (\<lambda>h.
         Inr (r\<lparr>req_method := m, req_uri := u, req_header := h\<rparr>))))"

definition http_response_init :: http_response where
  "http_response_init =
     \<lparr>resp_version = HTTP_UNKNOWN, resp_code = 0, resp_phrase = Null, resp_header = Fields [],
      resp_content_length_set = False, resp_content_length = 0, resp_bytes_transferred = 0\<rparr>"

definition http_response_free :: "http_response \<Rightarrow> http_response outcome" where
  "http_response_free r =
     bind_out (free_ptr (resp_phrase r)) (\<lambda>p. bind_out (http_header_free (resp_header r)) (\<lambda>h.
       Inr (r\<lparr>resp_phrase := p, resp_header := h\<rparr>)))"

section \<open>Printing\<close>

text \<open>Reading an owned string.\<close>

fun read_ptr :: "ptr \<Rightarrow> cstr outcome" where
  "read_ptr Null = Inl Null_deref"
| "read_ptr (Live s) = Inr s"
| "read_ptr Freed = Inl Use_after_free"

fun read_header_ptr :: "header_ptr \<Rightarrow> http_header outcome" where
  "read_header_ptr (Fields h) = Inr h"
| "read_header_ptr Freed_fields = Inl Use_after_free"

definition dec_int :: "int \<Rightarrow> cstr" where
  "dec_int n = (if n < 0 then CHR ''-'' # dec (nat (- n)) else dec (nat n))"

definition http_request_to_string :: "http_request \<Rightarrow> cstr outcome" where
  "http_request_to_string request =
     bind_out (read_ptr (u_path (req_uri request))) (\<lambda>path.
       let path = (if deref path = NUL then ''/'' else path)
       in bind_out (read_ptr (req_method request)) (\<lambda>method.
            if req_version request = HTTP_09 then Inr (method @ '' '' @ path @ [CR, LF])
            else let version = (if req_version request = HTTP_10 then '' HTTP/1.0'' else '' HTTP/1.1'')
                 in bind_out (read_header_ptr (req_header request)) (\<lambda>h.
                      Inr (method @ '' '' @ path @ version @ [CR, LF] @ http_header_to_string h @ [CR, LF]))))"

definition http_response_to_string :: "http_response \<Rightarrow> cstr outcome" where
  "http_response_to_string response =
     (if resp_version response = HTTP_09 then Inr []
      else let version = (if resp_version response = HTTP_10 then ''HTTP/1.0'' else ''HTTP/1.1'')
           in bind_out (read_header_ptr (resp_header response)) (\<lambda>h.
                bind_out (read_ptr (resp_phrase response)) (\<lambda>phrase.
                  Inr (version @ '' '' @ dec_int (resp_code response) @ '' '' @ phrase @ [CR, LF] @
                       http_header_to_string h @ [CR, LF]))))"

section \<open>Parsing\<close>

text \<open>What the parser of the header leaves in the structure.\<close>

definition header_result :: "http_header \<Rightarrow> bool \<Rightarrow> header_ptr" where
  "header_result hs freed = (if freed \<and> hs \<noteq> [] then Freed_fields else Fields hs)"

definition http_request_parse_header :: "http_request \<Rightarrow> cstr \<Rightarrow> (int \<times> http_request) outcome option" where
  "http_request_parse_header request header =
     map_option (\<lambda>res. bind_out res (\<lambda>(code, hs, freed).
       let request = request\<lparr>req_header := header_result hs freed\<rparr>
       in if code \<noteq> 0 then Inr (code, request)
          else (case http_header_get_content_length hs of
                  (code, s, n) \<Rightarrow> Inr (code, request\<lparr>req_content_length_set := s, req_content_length := n\<rparr>))))
       (http_parse_header header)"

definition http_response_parse_header :: "http_response \<Rightarrow> cstr \<Rightarrow> (int \<times> http_response) outcome option" where
  "http_response_parse_header response header =
     map_option (\<lambda>res. bind_out res (\<lambda>(code, hs, freed).
       let response = response\<lparr>resp_header := header_result hs freed\<rparr>
       in if code \<noteq> 0 then Inr (code, response)
          else (case http_header_get_content_length hs of
                  (code, s, n) \<Rightarrow> Inr (code, response\<lparr>resp_content_length_set := s, resp_content_length := n\<rparr>))))
       (http_parse_header header)"

text \<open>The cursor behind the version, or \<open>s\<close> on an error, and the version.\<close>

definition parse_http_version :: "cstr \<Rightarrow> cstr \<times> http_version" where
  "parse_http_version s =
     (if take 5 s \<noteq> ''HTTP/'' then (s, HTTP_UNKNOWN)
      else let p = drop 5 s
           in (case parse_long p of (major, err, q) \<Rightarrow>
                 if err \<or> q = p then (s, HTTP_UNKNOWN)
                 else if deref q \<noteq> CHR ''.'' then (s, HTTP_UNKNOWN)
                 else let p = tl q
                      in (case parse_long p of (minor, err, q) \<Rightarrow>
                            if err \<or> q = p then (s, HTTP_UNKNOWN)
                            else (q, if major = 1 \<and> minor = 0 then HTTP_10
                                     else if major = 1 \<and> minor = 1 then HTTP_11 else HTTP_UNKNOWN))))"

definition bad_request :: "http_request \<Rightarrow> (int \<times> http_request) outcome" where
  "bad_request r = map_sum id (Pair 400) (http_request_free r)"

definition http_parse_request_line :: "cstr \<Rightarrow> (int \<times> http_request) outcome" where
  "http_parse_request_line line =
     (let request = http_request_init;
          p = dropWhile (\<lambda>c. c = CHR '' '') line; q = dropWhile is_token_char p
      in if p = q then bad_request request
         else let method = Prelude.span p q; request = request\<lparr>req_method := Live method\<rparr>;
                  p = dropWhile (\<lambda>c. c = CHR '' '') q; q = dropWhile (\<lambda>c. c \<noteq> NUL \<and> c \<noteq> CHR '' '') p
              in if p = q then bad_request request
                 else let uri_s = Prelude.span p q
                      in bind_out (if method = ''CONNECT'' then Inr (uri_parse_authority (req_uri request) uri_s)
                                   else uri_parse uri_s) (\<lambda>(ok, u).
                           let request = request\<lparr>req_uri := u\<rparr>
                           in if \<not> ok then bad_request request
                              else let p = dropWhile (\<lambda>c. c = CHR '' '') q
                                   in if deref p = NUL then Inr (0, request\<lparr>req_version := HTTP_09\<rparr>)
                                      else (case parse_http_version p of (q, v) \<Rightarrow>
                                              let request = request\<lparr>req_version := v\<rparr>
                                              in if p = q then bad_request request else Inr (0, request))))"

text \<open>The scan for the end of the status line has no test for the terminator.\<close>

fun find_crlf :: "cstr \<Rightarrow> cstr outcome" where
  "find_crlf [] = Inl Out_of_bounds"
| "find_crlf (c # q) = (if is_crlf (c # q) then Inr (c # q) else find_crlf q)"

definition http_parse_status_line :: "cstr \<Rightarrow> (int \<times> http_response) outcome" where
  "http_parse_status_line line =
     (case parse_http_version line of (p, v) \<Rightarrow>
        let response = http_response_init\<lparr>resp_version := v\<rparr>
        in if p = line then Inr (-1, response)
           else let p = dropWhile (\<lambda>c. c = CHR '' '') p
                in (case parse_long p of (code, err, q) \<Rightarrow>
                      let response = response\<lparr>resp_code := wrap_int code\<rparr>
                      in if err \<or> q = p then Inr (-1, response)
                         else let p = dropWhile (\<lambda>c. c = CHR '' '') q
                              in bind_out (find_crlf p) (\<lambda>q. bind_out (skip_crlf q) (\<lambda>rest.
                                   if deref rest \<noteq> NUL then Inr (-1, response)
                                   else Inr (0, response\<lparr>resp_phrase := Live (Prelude.span p q)\<rparr>)))))"

definition http_parse_status_line_code :: "cstr \<Rightarrow> int outcome" where
  "http_parse_status_line_code line =
     bind_out (http_parse_status_line line) (\<lambda>(ret, resp).
       if ret \<noteq> 0 then Inr (-1)
       else bind_out (http_response_free resp) (\<lambda>_. Inr (resp_code resp)))"

section \<open>Facts on the readers\<close>

lemma blanks_dropWhile [simp]: "deref s \<noteq> c \<or> s = [] \<Longrightarrow> dropWhile (\<lambda>x. x = c) (replicate n c @ s) = s"
  by (induction n) (cases s; simp)+

lemma parse_http_version_ok:
  assumes "int major \<le> LONG_MAX" "int minor \<le> LONG_MAX" "\<not> is_digit (deref rest)"
  shows "parse_http_version (''HTTP/'' @ dec major @ ''.'' @ dec minor @ rest) =
    (rest, if major = 1 \<and> minor = 0 then HTTP_10 else if major = 1 \<and> minor = 1 then HTTP_11 else HTTP_UNKNOWN)"
proof -
  have dot: "\<not> is_digit (deref (''.'' @ dec minor @ rest))" by simp code_simp
  have ne: "''.'' @ t \<noteq> dec major @ ''.'' @ t" "rest \<noteq> dec minor @ rest" for t
    using dec_not_Nil [of major] dec_not_Nil [of minor] by auto
  show ?thesis
    using parse_long_dec [OF assms(1) dot] parse_long_dec [OF assms(2,3)] ne
    by (simp add: parse_http_version_def Let_def)
qed

text \<open>The parser of the request line up to the version, which both outcomes of the target share.\<close>

definition target_parse :: "cstr \<Rightarrow> cstr \<Rightarrow> (bool \<times> uri) outcome" where
  "target_parse m t = (if m = ''CONNECT'' then Inr (uri_parse_authority uri_init t) else uri_parse t)"

lemma request_line_target:
  assumes m: "token_ok m" and t: "t \<noteq> []" "\<forall>c\<in>set t. c \<noteq> NUL \<and> c \<noteq> CHR '' ''"
    and r: "r = [] \<or> deref r = CHR '' ''"
  shows "http_parse_request_line (replicate i CHR '' '' @ m @ replicate (Suc j) CHR '' '' @ t @ r) =
    bind_out (target_parse m t) (\<lambda>(ok, u).
      let request = http_request_init\<lparr>req_method := Live m, req_uri := u\<rparr>
      in if \<not> ok then bad_request request
         else let p = dropWhile (\<lambda>c. c = CHR '' '') r
              in if deref p = NUL then Inr (0, request\<lparr>req_version := HTTP_09\<rparr>)
                 else (case parse_http_version p of (q, v) \<Rightarrow>
                         let request = request\<lparr>req_version := v\<rparr>
                         in if p = q then bad_request request else Inr (0, request)))"
proof -
  obtain c u where mc: "m = c # u" "is_token_char c" using m by (cases m) (auto simp: token_ok_def)
  obtain d v where td: "t = d # v" "d \<noteq> CHR '' ''" using t by (cases t) auto
  let ?r2 = "replicate (Suc j) CHR '' '' @ t @ r"
  have d1: "dropWhile (\<lambda>c. c = CHR '' '') (replicate i CHR '' '' @ m @ ?r2) = m @ ?r2"
    using mc char_classes(12) by (intro blanks_dropWhile) auto
  have d2: "dropWhile is_token_char (m @ ?r2) = ?r2"
    using m by (intro dropWhile_stop) (auto simp: token_ok_def)
  have d3: "dropWhile (\<lambda>c. c = CHR '' '') ?r2 = t @ r"
    using td by (intro blanks_dropWhile) auto
  have d4: "dropWhile (\<lambda>c. c \<noteq> NUL \<and> c \<noteq> CHR '' '') (t @ r) = r"
    using t(2) r by (intro dropWhile_stop) (cases r; auto)+
  have sp: "Prelude.span (m @ ?r2) ?r2 = m" "Prelude.span (t @ r) r = t" by (rule span_append)+
  have ne: "m @ ?r2 \<noteq> ?r2" "t @ r \<noteq> r" using mc td by simp_all
  have ui: "req_uri (http_request_init\<lparr>req_method := Live m\<rparr>) = uri_init" by (simp add: http_request_init_def)
  show ?thesis
    unfolding http_parse_request_line_def d1 Let_def d2 d3 d4 sp ui if_not_P [OF ne(1)] if_not_P [OF ne(2)]
    by (simp add: target_parse_def)
qed

text \<open>An authority with user information makes \<open>uri_parse\<close> fail after it has stored the scheme.\<close>

lemma uri_parse_userinfo:
  assumes "is_alpha_char a" "\<forall>c\<in>set s. scheme_char c" "CHR ''@'' \<in> set au" "\<forall>c\<in>set au. authority_char c"
    and "path = [] \<or> \<not> authority_char (hd path)"
  shows "uri_parse ((a # s) @ ''://'' @ au @ path) = Inr (False, uri_init\<lparr>u_scheme := Freed\<rparr>)"
proof -
  have "scheme_char a" using assms(1) by (simp add: scheme_char_def)
  then have d: "dropWhile scheme_char ((a # s) @ ''://'' @ au @ path) = ''://'' @ au @ path"
    using assms(2) char_facts(1) by (intro dropWhile_stop) auto
  have da: "dropWhile authority_char (au @ path) = path"
    using assms(4,5) by (intro dropWhile_stop) auto
  have sp: "Prelude.span ((a # s) @ ''://'' @ au @ path) (''://'' @ au @ path) = a # s" "Prelude.span (au @ path) path = au"
    by (rule span_append)+
  have "uri_parse_authority u au = (False, u)" for u
    using assms(3) by (auto simp: uri_parse_authority_def strchr_None)
  then show ?thesis
    unfolding uri_parse_def Let_def d sp
    using assms(1) by (simp add: da sp uri_fail_def uri_free_def uri_init_def)
qed

lemma request_free_dangling:
  "req_header r = Freed_fields \<Longrightarrow> http_request_free r = Inl Use_after_free"
  by (cases "req_method r"; cases "u_scheme (req_uri r)"; cases "u_host (req_uri r)"; cases "u_path (req_uri r)")
    (simp_all add: http_request_free_def uri_free_def)

text \<open>The status line up to its reason phrase.\<close>

definition status_text :: "http_version \<Rightarrow> cstr" where
  "status_text v = (if v = HTTP_10 then ''HTTP/1.0'' else ''HTTP/1.1'')"

lemma find_crlf_text: "LF \<notin> set p \<Longrightarrow> find_crlf (p @ CR # LF # r) = Inr (CR # LF # r)"
proof (induction p)
  case (Cons c p)
  then have "deref (p @ CR # LF # r) \<noteq> LF" by (cases p) auto
  then show ?case using Cons by auto
qed simp

lemma find_crlf_none: "LF \<notin> set p \<Longrightarrow> find_crlf p = Inl Out_of_bounds"
proof (induction p)
  case (Cons c p)
  then have "deref p \<noteq> LF" by (cases p) auto
  then show ?case using Cons by auto
qed simp

lemma status_line_phrase:
  assumes "v \<in> {HTTP_10, HTTP_11}" and "int n \<le> INT_MAX" and "deref p \<noteq> CHR '' ''" "p \<noteq> []"
  shows "http_parse_status_line (status_text v @ '' '' @ dec n @ '' '' @ p) =
    bind_out (find_crlf p) (\<lambda>q. bind_out (skip_crlf q) (\<lambda>rest.
      if deref rest \<noteq> NUL then Inr (-1, http_response_init\<lparr>resp_version := v, resp_code := int n\<rparr>)
      else Inr (0, http_response_init\<lparr>resp_version := v, resp_code := int n, resp_phrase := Live (Prelude.span p q)\<rparr>)))"
proof -
  have d: "dec 1 = ''1''" "dec 0 = ''0''" "\<not> is_digit CHR '' ''" by code_simp+
  then have d4: "\<not> is_digit (deref ('' '' @ t))" for t by simp
  let ?l = "status_text v @ '' '' @ dec n @ '' '' @ p" and ?q = "'' '' @ dec n @ '' '' @ p"
  have ver: "parse_http_version ?l = (?q, v)"
    using assms(1) parse_http_version_ok [of 1 0 ?q] parse_http_version_ok [of 1 1 ?q] d d4
    by (auto simp: status_text_def)
  have ne: "?q \<noteq> ?l" by (simp add: status_text_def)
  have nd: "dropWhile (\<lambda>c. c = CHR '' '') ?q = dec n @ '' '' @ p"
    using blanks_dropWhile [of "dec n @ '' '' @ p" "CHR '' ''" 1] dec_not_Nil [of n] dec_digits [of n] d(3)
    by (cases "dec n") auto
  have np: "dropWhile (\<lambda>c. c = CHR '' '') ('' '' @ p) = p"
    using blanks_dropWhile [of p "CHR '' ''" 1] assms(3) by simp
  have pl: "parse_long (dec n @ '' '' @ p) = (int n, False, '' '' @ p)"
    using assms(2) d4 by (intro parse_long_dec) auto
  have nq: "'' '' @ p \<noteq> dec n @ '' '' @ p" using dec_not_Nil [of n] by simp
  have w: "wrap_int (int n) = int n" using assms(2) by (intro wrap_int_id) auto
  show ?thesis
    unfolding http_parse_status_line_def ver prod.case Let_def nd pl np w
    using ne nq by simp
qed

section \<open>What the code promises of messages\<close>

text \<open>
  C28. A request line made of a method, a target and a version with any number of separating blanks is
  split into exactly these parts: the target goes to the authority parser for CONNECT and to the URI
  parser otherwise, the version is 1.0, 1.1 or unknown, and 0.9 when none is given.
\<close>

theorem request_line_parsed:
  assumes "token_ok m" and "t \<noteq> []" and "\<forall>c\<in>set t. c \<noteq> NUL \<and> c \<noteq> CHR '' ''"
    and "(if m = ''CONNECT'' then Inr (uri_parse_authority uri_init t) else uri_parse t) = Inr (True, U)"
    and "int major \<le> LONG_MAX" and "int minor \<le> LONG_MAX" and "\<not> is_digit (deref rest)"
  shows "http_parse_request_line (replicate i CHR '' '' @ m @ replicate (Suc j) CHR '' '' @ t @
        replicate (Suc k) CHR '' '' @ ''HTTP/'' @ dec major @ ''.'' @ dec minor @ rest) =
      Inr (0, http_request_init\<lparr>req_method := Live m, req_uri := U,
        req_version := (if (major, minor) = (1, 0) then HTTP_10 else if (major, minor) = (1, 1) then HTTP_11 else HTTP_UNKNOWN)\<rparr>) \<and>
    http_parse_request_line (replicate i CHR '' '' @ m @ replicate (Suc j) CHR '' '' @ t @ replicate k CHR '' '') =
      Inr (0, http_request_init\<lparr>req_method := Live m, req_uri := U, req_version := HTTP_09\<rparr>)"
proof -
  let ?h = "''HTTP/'' @ dec major @ ''.'' @ dec minor @ rest"
  let ?v = "if (major, minor) = (1, 0) then HTTP_10 else if (major, minor) = (1, 1) then HTTP_11 else HTTP_UNKNOWN"
  have ok: "target_parse m t = Inr (True, U)" using assms(4) by (simp add: target_parse_def)
  have d: "dropWhile (\<lambda>c. c = CHR '' '') (replicate (Suc k) CHR '' '' @ ?h) = ?h"
    by (rule blanks_dropWhile) simp
  have ne: "?h \<noteq> rest" by simp
  have r: "replicate (Suc k) CHR '' '' @ ?h = [] \<or> deref (replicate (Suc k) CHR '' '' @ ?h) = CHR '' ''" by simp
  have nz: "deref ?h \<noteq> NUL" by simp
  have given: "http_parse_request_line (replicate i CHR '' '' @ m @ replicate (Suc j) CHR '' '' @ t @ replicate (Suc k) CHR '' '' @ ?h) =
      Inr (0, http_request_init\<lparr>req_method := Live m, req_uri := U, req_version := ?v\<rparr>)"
    unfolding request_line_target [OF assms(1-3) r] ok d Let_def if_not_P [OF nz] parse_http_version_ok [OF assms(5-7)]
    using ne by simp
  have r: "replicate k CHR '' '' = [] \<or> deref (replicate k CHR '' '') = CHR '' ''" by (cases k) simp_all
  have d: "dropWhile (\<lambda>c. c = CHR '' '') (replicate k CHR '' '') = []" by (induction k) simp_all
  have "http_parse_request_line (replicate i CHR '' '' @ m @ replicate (Suc j) CHR '' '' @ t @ replicate k CHR '' '') =
      Inr (0, http_request_init\<lparr>req_method := Live m, req_uri := U, req_version := HTTP_09\<rparr>)"
    unfolding request_line_target [OF assms(1-3) r] ok d by simp
  with given show ?thesis by simp
qed

theorem request_line_parsed_witness:
  "http_parse_request_line ''GET  http://a/b HTTP/1.1'' =
    Inr (0, \<lparr>req_method = Live ''GET'', req_uri = \<lparr>u_scheme = Live ''http'', u_host = Live ''a'', u_port = 80, u_path = Live ''/b''\<rparr>,
      req_version = HTTP_11, req_header = Fields [], req_content_length_set = False, req_content_length = 0,
      req_bytes_transferred = 0\<rparr>)"
proof -
  let ?U = "\<lparr>u_scheme = Live ''http'', u_host = Live ''a'', u_port = 80, u_path = Live ''/b''\<rparr>"
  have f: "token_ok ''GET''" "''http://a/b'' \<noteq> []" "\<forall>c\<in>set ''http://a/b''. c \<noteq> NUL \<and> c \<noteq> CHR '' ''"
    "(if ''GET'' = ''CONNECT'' then Inr (uri_parse_authority uri_init ''http://a/b'') else uri_parse ''http://a/b'') = Inr (True, ?U)"
    "\<not> is_digit (deref [])"
    by code_simp+
  have "dec 1 = ''1''" by code_simp
  then show ?thesis
    using request_line_parsed [OF f(1-4) _ _ f(5), of 1 1 0 1 0]
    by (simp add: http_request_init_def numeral_2_eq_2)
qed


text \<open>
  C29. Two ways in which a refused request is released twice.  A request line whose target carries user
  information makes the URI parser release the scheme and keep its pointer, and the release of the
  request then frees it again; a header with at least one good field before a malformed line is released
  by the parser, which leaves the request pointing at it, so that the caller's release frees it again.
\<close>

theorem failed_parse_double_free:
  assumes "token_ok m" and "m \<noteq> ''CONNECT''" and "is_alpha_char a" and "\<forall>c\<in>set s. scheme_char c"
    and "CHR ''@'' \<in> set au" and "\<forall>c\<in>set au. authority_char c \<and> c \<noteq> CHR '' ''"
    and "\<forall>f\<in>set hs. field_ok f" and "hs \<noteq> []"
    and "token_ok nm" and "\<not> is_token_char c" and "c \<noteq> CHR '':''"
  shows "http_parse_request_line (m @ '' '' @ (a # s) @ ''://'' @ au @ ''/ HTTP/1.0'') = Inl Use_after_free \<and>
    (\<exists>request'. http_request_parse_header request (http_header_to_string hs @ nm @ c # rest) = Some (Inr (400, request')) \<and>
      http_request_free request' = Inl Use_after_free)"
proof -
  let ?t = "(a # s) @ ''://'' @ au @ ''/''"
  have sc: "\<not> scheme_char NUL" "\<not> scheme_char CHR '' ''" "\<not> authority_char CHR ''/''" "\<not> authority_char NUL"
    by code_simp+
  have a: "scheme_char a" using assms(3) by (simp add: scheme_char_def)
  have t: "?t \<noteq> []" "\<forall>c\<in>set ?t. c \<noteq> NUL \<and> c \<noteq> CHR '' ''" using a assms(4,6) sc by auto
  have u: "uri_parse ?t = Inr (False, uri_init\<lparr>u_scheme := Freed\<rparr>)"
    using uri_parse_userinfo [OF assms(3,4,5), of "''/''"] assms(6) sc(3) by simp
  have "http_parse_request_line (m @ '' '' @ ?t @ '' HTTP/1.0'') = Inl Use_after_free"
    using request_line_target [OF assms(1) t, of "'' HTTP/1.0''" 0 0] assms(2)
    by (simp add: target_parse_def u [simplified] bad_request_def http_request_free_def uri_free_def http_request_init_def)
  moreover have "http_request_parse_header request (http_header_to_string hs @ nm @ c # rest) =
      Some (Inr (400, request\<lparr>req_header := Freed_fields\<rparr>))"
    using parse_fields_bad [OF assms(7), of nm "c # rest" "[]"] assms(8-)
    by (simp add: http_request_parse_header_def http_parse_header_def header_result_def token_ok_def)
  ultimately show ?thesis using request_free_dangling by simp
qed

theorem failed_parse_double_free_witness:
  "http_parse_request_line ''GET http://u@h/ HTTP/1.0'' = Inl Use_after_free \<and>
    (\<exists>request'. http_request_parse_header http_request_init (''A: b'' @ [CR, LF] @ ''bad'' @ [CR, LF]) = Some (Inr (400, request')) \<and>
      http_request_free request' = Inl Use_after_free)"
proof -
  have f: "token_ok ''GET''" "''GET'' \<noteq> ''CONNECT''" "is_alpha_char CHR ''h''" "\<forall>c\<in>set ''ttp''. scheme_char c"
    "CHR ''@'' \<in> set ''u@h''" "\<forall>c\<in>set ''u@h''. authority_char c \<and> c \<noteq> CHR '' ''" "token_ok ''bad''"
    "\<not> is_token_char CR" "CR \<noteq> CHR '':''" "words_ok [''b'']" "\<forall>c\<in>set ''A''. is_token_char c"
    by code_simp+
  have h: "\<forall>f\<in>set [(''A'', ''b'')]. field_ok f" using f(10,11) by (auto simp: field_ok_def intro: exI [of _ "[''b'']"])
  show ?thesis
    using failed_parse_double_free [OF f(1-6) h _ f(7-9), of http_request_init "[LF]"] by (simp add: http_header_to_string_def)
qed

text \<open>
  C30. A response that is printed is parsed back: its first line gives the version, the status code and
  the reason phrase, and the remaining text gives the header fields with the length announced in them;
  a status line without a line feed is scanned beyond its end.
\<close>

theorem response_roundtrip:
  assumes "v \<in> {HTTP_10, HTTP_11}" and "int n \<le> INT_MAX" and "LF \<notin> set p" and "deref p \<noteq> CHR '' ''"
    and "\<forall>f\<in>set hs. field_ok f" and "http_header_get_content_length hs = (0, s, l)"
    and "r = \<lparr>resp_version = v, resp_code = int n, resp_phrase = Live p, resp_header = Fields hs,
      resp_content_length_set = s, resp_content_length = l, resp_bytes_transferred = 0\<rparr>"
  shows "(\<exists>text r0. http_response_to_string r = Inr text \<and>
      http_parse_status_line (takeWhile (\<lambda>c. c \<noteq> LF) text @ [LF]) = Inr (0, r0) \<and>
      http_response_parse_header r0 (tl (dropWhile (\<lambda>c. c \<noteq> LF) text)) = Some (Inr (0, r))) \<and>
    (p \<noteq> [] \<longrightarrow> http_parse_status_line (''HTTP/1.1 '' @ dec n @ '' '' @ p) = Inl Out_of_bounds)"
proof -
  let ?b = "status_text v @ '' '' @ dec n @ '' '' @ p @ [CR]" and ?h = "http_header_to_string hs @ [CR, LF]"
  let ?r0 = "http_response_init\<lparr>resp_version := v, resp_code := int n, resp_phrase := Live p\<rparr>"
  have "LF \<notin> set (dec n)" by (rule dec_no_char) code_simp
  then have nl: "\<forall>c\<in>set ?b. c \<noteq> LF" using assms(3) by (auto simp: status_text_def)
  have printed: "http_response_to_string r = Inr (?b @ LF # ?h)"
    using assms(1,7) by (auto simp: http_response_to_string_def dec_int_def status_text_def)
  have first: "takeWhile (\<lambda>c. c \<noteq> LF) (?b @ LF # ?h) @ [LF] = status_text v @ '' '' @ dec n @ '' '' @ p @ [CR, LF]"
    using nl by (subst takeWhile_append2) auto
  have rest: "tl (dropWhile (\<lambda>c. c \<noteq> LF) (?b @ LF # ?h)) = ?h"
    using nl by (subst dropWhile_append2) auto
  have p: "deref (p @ [CR, LF]) \<noteq> CHR '' ''" using assms(4) by (cases p) auto
  have "http_parse_status_line (status_text v @ '' '' @ dec n @ '' '' @ p @ [CR, LF]) = Inr (0, ?r0)"
    using status_line_phrase [OF assms(1,2) p] find_crlf_text [OF assms(3), of "[]"]
    by (simp add: skip_crlf_def numeral_2_eq_2)
  moreover have "http_response_parse_header ?r0 ?h = Some (Inr (0, r))"
    using parse_fields [OF assms(5), of "[]"] assms(6,7)
    by (simp add: http_response_parse_header_def http_parse_header_def header_result_def http_response_init_def)
  moreover have "p \<noteq> [] \<Longrightarrow> http_parse_status_line (''HTTP/1.1 '' @ dec n @ '' '' @ p) = Inl Out_of_bounds"
    using status_line_phrase [OF _ assms(2,4), of HTTP_11] find_crlf_none [OF assms(3)] by (simp add: status_text_def)
  ultimately show ?thesis using printed first rest by metis
qed

theorem response_roundtrip_witness:
  "\<exists>text r0. http_response_to_string \<lparr>resp_version = HTTP_11, resp_code = 81, resp_phrase = Live ''Not OK'',
      resp_header = Fields [(''Content-Length'', ''7'')], resp_content_length_set = True, resp_content_length = 7,
      resp_bytes_transferred = 0\<rparr> = Inr text \<and>
    http_parse_status_line (takeWhile (\<lambda>c. c \<noteq> LF) text @ [LF]) = Inr (0, r0) \<and> resp_code r0 = 81"
proof -
  have f: "HTTP_11 \<in> {HTTP_10, HTTP_11}" "int 81 \<le> INT_MAX" "LF \<notin> set ''Not OK''" "deref ''Not OK'' \<noteq> CHR '' ''"
    "words_ok [''7'']" "\<forall>c\<in>set ''Content-Length''. is_token_char c"
    "http_header_get_content_length [(''Content-Length'', ''7'')] = (0, True, 7)"
    by code_simp+
  have h: "\<forall>f\<in>set [(''Content-Length'', ''7'')]. field_ok f"
    using f(5,6) by (auto simp: field_ok_def intro: exI [of _ "[''7'']"])
  have k: "resp_code r0 = resp_code r" if "http_response_parse_header r0 x = Some (Inr (0, r))" for r0 x r
    using that by (cases "http_parse_header x")
      (auto simp: http_response_parse_header_def bind_out_def Let_def split: sum.split_asm prod.split_asm if_split_asm)
  show ?thesis using response_roundtrip [OF f(1-4) h f(7) refl] k by fastforce
qed

end
