(* ===== verification/Http_Auth.thy ===== *)
theory Http_Auth
  imports Http_Header
begin

text \<open>
  Authentication fields in ncat/http.c: the structures of a challenge and of credentials, the readers of
  one \<open>Proxy-Authenticate\<close> or \<open>Proxy-Authorization\<close> value, and the choice of the best scheme among all
  fields of a header.  Strings are \<open>None\<close> for NULL; the releases of strings are not modelled, since no
  reader uses a structure after releasing it.
\<close>

unbundle bit_operations_syntax

section \<open>Structures\<close>

datatype http_auth_scheme = AUTH_UNKNOWN | AUTH_BASIC | AUTH_DIGEST

datatype http_digest_algorithm = ALGORITHM_MD5 | ALGORITHM_UNKNOWN

definition QOP_NONE :: int where "QOP_NONE = 0"
definition QOP_AUTH :: int where "QOP_AUTH = 1"
definition QOP_AUTH_INT :: int where "QOP_AUTH_INT = 2"

lemmas qop_defs = QOP_NONE_def QOP_AUTH_def QOP_AUTH_INT_def

record http_challenge =
  ch_scheme :: http_auth_scheme
  ch_realm :: "cstr option"
  ch_nonce :: "cstr option"
  ch_opaque :: "cstr option"
  ch_algorithm :: http_digest_algorithm
  ch_qop :: int

definition http_challenge_init :: http_challenge where
  "http_challenge_init =
     \<lparr>ch_scheme = AUTH_UNKNOWN, ch_realm = None, ch_nonce = None, ch_opaque = None,
      ch_algorithm = ALGORITHM_MD5, ch_qop = 0\<rparr>"

record digest_credentials =
  cr_username :: "cstr option"
  cr_realm :: "cstr option"
  cr_nonce :: "cstr option"
  cr_uri :: "cstr option"
  cr_response :: "cstr option"
  cr_algorithm :: http_digest_algorithm
  cr_qop :: int
  cr_nc :: "cstr option"
  cr_cnonce :: "cstr option"

text \<open>The tagged union.\<close>

datatype http_credentials = Unknown_credentials | Basic_credentials "cstr option" | Digest_credentials digest_credentials

fun cr_scheme :: "http_credentials \<Rightarrow> http_auth_scheme" where
  "cr_scheme Unknown_credentials = AUTH_UNKNOWN"
| "cr_scheme (Basic_credentials b) = AUTH_BASIC"
| "cr_scheme (Digest_credentials d) = AUTH_DIGEST"

definition http_credentials_init_basic :: http_credentials where
  "http_credentials_init_basic = Basic_credentials None"

definition http_credentials_init_digest :: digest_credentials where
  "http_credentials_init_digest =
     \<lparr>cr_username = None, cr_realm = None, cr_nonce = None, cr_uri = None, cr_response = None,
      cr_algorithm = ALGORITHM_MD5, cr_qop = QOP_NONE, cr_nc = None, cr_cnonce = None\<rparr>"

section \<open>One challenge\<close>

text \<open>\<open>Strdup\<close>, \<open>str_equal_i\<close> and \<open>read_token_list\<close> read the value they are given.\<close>

definition deref_value :: "cstr option \<Rightarrow> cstr outcome" where
  "deref_value v = (case v of None \<Rightarrow> Inl Null_deref | Some s \<Rightarrow> Inr s)"

definition algorithm_of :: "cstr \<Rightarrow> http_digest_algorithm" where
  "algorithm_of v = (if str_equal_i v ''MD5'' then ALGORITHM_MD5 else ALGORITHM_UNKNOWN)"

fun qop_mask :: "int \<Rightarrow> cstr list \<Rightarrow> int" where
  "qop_mask q [] = q"
| "qop_mask q (t # ts) =
     qop_mask (if str_equal_i t ''auth'' then q OR QOP_AUTH
               else if str_equal_i t ''auth-int'' then q OR QOP_AUTH_INT else q) ts"

text \<open>One parameter of a challenge; \<open>None\<close> is the jump to \<open>bail\<close>.\<close>

definition challenge_param :: "http_challenge \<Rightarrow> cstr \<Rightarrow> cstr option \<Rightarrow> http_challenge option outcome" where
  "challenge_param ch nm v =
     (if str_equal_i nm ''realm'' then bind_out (deref_value v) (\<lambda>s. Inr (Some (ch\<lparr>ch_realm := Some s\<rparr>)))
      else if ch_scheme ch \<noteq> AUTH_DIGEST then Inr (Some ch)
      else if str_equal_i nm ''nonce''
      then if ch_nonce ch \<noteq> None then Inr None
           else bind_out (deref_value v) (\<lambda>s. Inr (Some (ch\<lparr>ch_nonce := Some s\<rparr>)))
      else if str_equal_i nm ''opaque''
      then if ch_opaque ch \<noteq> None then Inr None
           else bind_out (deref_value v) (\<lambda>s. Inr (Some (ch\<lparr>ch_opaque := Some s\<rparr>)))
      else if str_equal_i nm ''algorithm''
      then bind_out (deref_value v) (\<lambda>s. Inr (Some (ch\<lparr>ch_algorithm := algorithm_of s\<rparr>)))
      else if str_equal_i nm ''qop''
      then bind_out (deref_value v) (\<lambda>s.
             case read_token_list s of
               None \<Rightarrow> Inr None
             | Some (tmp, tokens) \<Rightarrow>
                 let ch = ch\<lparr>ch_qop := qop_mask (ch_qop ch) tokens\<rparr>
                 in if deref tmp \<noteq> NUL then Inr None else Inr (Some ch))
      else Inr (Some ch))"

lemma quoted_loop_length: "quoted_loop s buf = Some (t, v) \<Longrightarrow> length t \<le> length s"
proof (induction s buf arbitrary: t v rule: quoted_loop.induct)
  case (1 s buf)
  show ?case
  proof (cases "deref s = CHR 0x22")
    case True
    then show ?thesis using 1(3) by (subst (asm) quoted_loop.simps) auto
  next
    case False
    then obtain u where u: "qdtext_end s = Some u"
      using 1(3) by (subst (asm) quoted_loop.simps) (auto split: option.splits)
    have l: "length u \<le> length s" using qdtext_end_length [OF u] by simp
    show ?thesis
    proof (cases "deref u = CHR 0x5C")
      case True
      then have "quoted_loop (tl (tl u)) (buf_append (buf_append buf (span s u)) [deref (tl u)]) = Some (t, v)"
        "\<not> (code_of (deref (tl u)) = 0 \<or> code_of (deref (tl u)) \<ge> 128)"
        using 1(3) False u by (subst (asm) quoted_loop.simps; simp add: Let_def split: if_splits)+
      then have "length t \<le> length (tl (tl u))"
        using 1(1) [OF False u refl True refl] by blast
      then show ?thesis using l by simp
    next
      case e: False
      then have "quoted_loop u (buf_append buf (span s u)) = Some (t, v)"
        using 1(3) False u by (subst (asm) quoted_loop.simps) (simp add: Let_def)
      then have "length t \<le> length u" using 1(2) [OF False u refl e] by blast
      then show ?thesis using l by simp
    qed
  qed
qed

lemma dropWhile_tl_le: "length (tl (dropWhile P s)) \<le> length s" "length (dropWhile Q (tl (dropWhile P s))) \<le> length s"
proof -
  show l: "length (tl (dropWhile P s)) \<le> length s"
    using length_dropWhile_le [of P s] diff_le_self by (metis length_tl le_trans)
  show "length (dropWhile Q (tl (dropWhile P s))) \<le> length s"
    using length_dropWhile_le [of Q "tl (dropWhile P s)"] l by (rule le_trans)
qed

lemma read_value_length: "read_token_or_quoted_string s = Some (t, v) \<Longrightarrow> length t \<le> length s"
proof -
  assume a: "read_token_or_quoted_string s = Some (t, v)"
  let ?s = "dropWhile is_space_char s"
  have l: "length ?s \<le> length s" by simp
  show ?thesis
  proof (cases "deref ?s = CHR 0x22")
    case True
    have i: "dropWhile is_space_char ?s = ?s" by (cases ?s) (auto dest: dropWhile_hd_not)
    have "quoted_loop (tl ?s) None = Some (t, v)"
      using a True i by (simp add: read_token_or_quoted_string_def read_quoted_string_def Let_def)
    then have "length t \<le> length (tl ?s)" by (rule quoted_loop_length)
    then show ?thesis using dropWhile_tl_le(1) le_trans by blast
  next
    case False
    then obtain tok where "read_token ?s = Some (t, tok)"
      using a by (auto simp: read_token_or_quoted_string_def Let_def)
    then have "length t < length ?s" by (rule read_token_length)
    then show ?thesis using l by linarith
  qed
qed

text \<open>
  The parameters that \<open>http_read_challenge\<close> and \<open>http_read_credentials\<close> go through: the step behind the
  value and a separating comma, with \<open>None\<close> for the jump to \<open>bail\<close> at a comma that ends the text.
\<close>

definition skip_comma :: "cstr \<Rightarrow> cstr option" where
  "skip_comma p =
     (let p = dropWhile is_space_char p
      in if deref p = CHR '','' 
         then let p = dropWhile is_space_char (tl p) in if deref p = NUL then None else Some p
         else Some p)"

lemma skip_comma_length: "skip_comma p = Some q \<Longrightarrow> length q \<le> length p"
  using dropWhile_tl_le(2) [of is_space_char is_space_char p]
  by (auto simp: skip_comma_def Let_def split: if_splits)

function challenge_loop :: "cstr \<Rightarrow> http_challenge \<Rightarrow> (cstr \<times> http_challenge) option outcome" where
  "challenge_loop s ch =
     (if deref s = NUL then Inr (Some (s, ch))
      else case read_token s of
             None \<Rightarrow> Inr None
           | Some (p, nm) \<Rightarrow>
               let p = dropWhile is_space_char p
               in if deref p \<noteq> CHR ''='' then Inr (Some (s, ch))
                  else (case read_token_or_quoted_string (dropWhile is_space_char (tl p)) of
                          None \<Rightarrow> Inr None
                        | Some (p, v) \<Rightarrow>
                            (case challenge_param ch nm v of
                               Inl e \<Rightarrow> Inl e
                             | Inr None \<Rightarrow> Inr None
                             | Inr (Some ch) \<Rightarrow>
                                 (case skip_comma p of None \<Rightarrow> Inr None | Some s \<Rightarrow> challenge_loop s ch))))"
  by pat_completeness auto

lemma param_length:
  assumes "read_token s = Some (p, nm)" "read_token_or_quoted_string (dropWhile is_space_char (tl (dropWhile is_space_char p))) = Some (q, v)"
    "skip_comma q = Some r"
  shows "length r < length s"
proof -
  have "length r \<le> length (dropWhile is_space_char (tl (dropWhile is_space_char p)))"
    using skip_comma_length [OF assms(3)] read_value_length [OF assms(2)] by simp
  also have "\<dots> \<le> length p" by (rule dropWhile_tl_le)
  also have "\<dots> < length s" by (rule read_token_length [OF assms(1)])
  finally show ?thesis .
qed

termination challenge_loop
  by (relation "measure (\<lambda>(s, ch). length s)") (auto intro: param_length)

declare challenge_loop.simps [simp del]

definition http_read_challenge :: "cstr \<Rightarrow> (cstr \<times> http_challenge) option outcome" where
  "http_read_challenge s =
     (case read_token s of
        None \<Rightarrow> Inr None
      | Some (s, scheme) \<Rightarrow>
          let ch = http_challenge_init\<lparr>ch_scheme :=
                (if str_equal_i scheme ''Basic'' then AUTH_BASIC
                 else if str_equal_i scheme ''Digest'' then AUTH_DIGEST else AUTH_UNKNOWN)\<rparr>;
              s = dropWhile is_space_char s
          in if deref s = CHR '',''
             then let s = dropWhile is_space_char (tl s) in if deref s = NUL then Inr None else Inr (Some (s, ch))
             else challenge_loop s ch)"

section \<open>One set of credentials\<close>

text \<open>The fields that may be given once.\<close>

definition set_once ::
  "(digest_credentials \<Rightarrow> cstr option) \<Rightarrow> (cstr option \<Rightarrow> digest_credentials) \<Rightarrow> digest_credentials \<Rightarrow> cstr option
    \<Rightarrow> digest_credentials option outcome" where
  "set_once get put d v =
     (if get d \<noteq> None then Inr None else bind_out (deref_value v) (\<lambda>s. Inr (Some (put (Some s)))))"

definition credentials_param :: "digest_credentials \<Rightarrow> cstr \<Rightarrow> cstr option \<Rightarrow> digest_credentials option outcome" where
  "credentials_param d nm v =
     (if str_equal_i nm ''username'' then set_once cr_username (\<lambda>x. d\<lparr>cr_username := x\<rparr>) d v
      else if str_equal_i nm ''realm'' then set_once cr_realm (\<lambda>x. d\<lparr>cr_realm := x\<rparr>) d v
      else if str_equal_i nm ''nonce'' then set_once cr_nonce (\<lambda>x. d\<lparr>cr_nonce := x\<rparr>) d v
      else if str_equal_i nm ''uri'' then set_once cr_uri (\<lambda>x. d\<lparr>cr_uri := x\<rparr>) d v
      else if str_equal_i nm ''response'' then set_once cr_response (\<lambda>x. d\<lparr>cr_response := x\<rparr>) d v
      else if str_equal_i nm ''algorithm''
      then bind_out (deref_value v) (\<lambda>s. Inr (Some (d\<lparr>cr_algorithm := algorithm_of s\<rparr>)))
      else if str_equal_i nm ''qop''
      then bind_out (deref_value v) (\<lambda>s. Inr (Some (d\<lparr>cr_qop :=
             (if str_equal_i s ''auth'' then QOP_AUTH else if str_equal_i s ''auth-int'' then QOP_AUTH_INT else QOP_NONE)\<rparr>)))
      else if str_equal_i nm ''cnonce'' then set_once cr_cnonce (\<lambda>x. d\<lparr>cr_cnonce := x\<rparr>) d v
      else if str_equal_i nm ''nc'' then set_once cr_nc (\<lambda>x. d\<lparr>cr_nc := x\<rparr>) d v
      else Inr (Some d))"

function credentials_loop :: "cstr \<Rightarrow> digest_credentials \<Rightarrow> (cstr \<times> digest_credentials) option outcome" where
  "credentials_loop s d =
     (if deref s = NUL then Inr (Some (s, d))
      else case read_token s of
             None \<Rightarrow> Inr None
           | Some (p, nm) \<Rightarrow>
               let p = dropWhile is_space_char p
               in if deref p \<noteq> CHR ''='' then Inr None
                  else (case read_token_or_quoted_string (dropWhile is_space_char (tl p)) of
                          None \<Rightarrow> Inr None
                        | Some (p, v) \<Rightarrow>
                            (case credentials_param d nm v of
                               Inl e \<Rightarrow> Inl e
                             | Inr None \<Rightarrow> Inr None
                             | Inr (Some d) \<Rightarrow>
                                 (case skip_comma p of None \<Rightarrow> Inr None | Some s \<Rightarrow> credentials_loop s d))))"
  by pat_completeness auto
termination
  by (relation "measure (\<lambda>(s, d). length s)") (auto intro: param_length)

declare credentials_loop.simps [simp del]

definition base64_char :: "char \<Rightarrow> bool" where
  "base64_char c \<longleftrightarrow> is_alpha_char c \<or> is_digit_char c \<or> c = CHR ''+'' \<or> c = CHR ''/'' \<or> c = CHR ''=''"

definition http_read_credentials :: "cstr \<Rightarrow> (cstr \<times> http_credentials) option outcome" where
  "http_read_credentials s =
     (case read_token s of
        None \<Rightarrow> Inr None
      | Some (s, scheme) \<Rightarrow>
          let s = dropWhile is_space_char s
          in if str_equal_i scheme ''Basic''
             then let p = dropWhile base64_char s
                  in Inr (Some (dropWhile is_space_char p, Basic_credentials (Some (span s p))))
             else if str_equal_i scheme ''Digest''
             then bind_out (credentials_loop s http_credentials_init_digest)
                    (\<lambda>r. Inr (map_option (apsnd Digest_credentials) r))
             else Inr None)"

section \<open>The best scheme of a header\<close>

text \<open>\<open>digest\<close> is whether the program is built with \<open>HAVE_HTTP_DIGEST\<close>.\<close>

definition auth_scheme_is_better :: "bool \<Rightarrow> http_auth_scheme \<Rightarrow> http_auth_scheme \<Rightarrow> bool" where
  "auth_scheme_is_better digest a b =
     (if digest
      then (case b of AUTH_DIGEST \<Rightarrow> False | AUTH_BASIC \<Rightarrow> a = AUTH_DIGEST | AUTH_UNKNOWN \<Rightarrow> a = AUTH_BASIC \<or> a = AUTH_DIGEST)
      else (case b of AUTH_BASIC \<Rightarrow> False | AUTH_UNKNOWN \<Rightarrow> a = AUTH_BASIC | AUTH_DIGEST \<Rightarrow> False))"

lemma challenge_loop_length: "challenge_loop s ch = Inr (Some (t, c)) \<Longrightarrow> length t \<le> length s"
proof (induction s ch arbitrary: t c rule: challenge_loop.induct)
  case (1 s ch)
  show ?case
  proof (cases "\<exists>p nm q v ch' r. deref s \<noteq> NUL \<and> read_token s = Some (p, nm) \<and> deref (dropWhile is_space_char p) = CHR ''='' \<and>
      read_token_or_quoted_string (dropWhile is_space_char (tl (dropWhile is_space_char p))) = Some (q, v) \<and>
      challenge_param ch nm v = Inr (Some ch') \<and> skip_comma q = Some r")
    case True
    then obtain p nm q v ch' r where h: "deref s \<noteq> NUL" "read_token s = Some (p, nm)" "deref (dropWhile is_space_char p) = CHR ''=''"
      "read_token_or_quoted_string (dropWhile is_space_char (tl (dropWhile is_space_char p))) = Some (q, v)"
      "challenge_param ch nm v = Inr (Some ch')" "skip_comma q = Some r" by blast
    have "challenge_loop r ch' = Inr (Some (t, c))"
      using 1(2) h by (subst (asm) challenge_loop.simps) (simp add: Let_def)
    then have "length t \<le> length r"
      using 1(1) [OF h(1,2) refl refl _ h(4) refl h(5) refl h(6)] h(3) by simp
    then show ?thesis using param_length [OF h(2,4,6)] by simp
  next
    case False
    then have "t = s"
      using 1(2) by (subst (asm) challenge_loop.simps) (auto simp: Let_def split: if_splits option.splits sum.splits)
    then show ?thesis by simp
  qed
qed

lemma read_challenge_length: "http_read_challenge s = Inr (Some (t, c)) \<Longrightarrow> length t < length s"
proof -
  assume a: "http_read_challenge s = Inr (Some (t, c))"
  then obtain u scheme where u: "read_token s = Some (u, scheme)"
    by (auto simp: http_read_challenge_def split: option.splits)
  have "length t \<le> length (dropWhile is_space_char u)"
    using a u dropWhile_tl_le(2) [of is_space_char is_space_char "dropWhile is_space_char u"]
    by (auto simp: http_read_challenge_def Let_def split: if_splits dest!: challenge_loop_length)
  also have "\<dots> \<le> length u" by simp
  also have "\<dots> < length s" by (rule read_token_length [OF u])
  finally show ?thesis .
qed

lemma credentials_loop_length: "credentials_loop s d = Inr (Some (t, c)) \<Longrightarrow> t = [] \<or> length t \<le> length s"
proof (induction s d arbitrary: t c rule: credentials_loop.induct)
  case (1 s d)
  show ?case
  proof (cases "deref s = NUL")
    case True
    then show ?thesis using 1(2) by (subst (asm) credentials_loop.simps) auto
  next
    case False
    then obtain p nm q v d' r where h: "read_token s = Some (p, nm)" "deref (dropWhile is_space_char p) = CHR ''=''"
      "read_token_or_quoted_string (dropWhile is_space_char (tl (dropWhile is_space_char p))) = Some (q, v)"
      "credentials_param d nm v = Inr (Some d')" "skip_comma q = Some r" "credentials_loop r d' = Inr (Some (t, c))"
      using 1(2) by (subst (asm) credentials_loop.simps) (auto simp: Let_def split: if_splits option.splits sum.splits)
    have "t = [] \<or> length t \<le> length r"
      using 1(1) [OF False h(1) refl refl _ h(3) refl h(4) refl h(5)] h(2,6) by simp
    then show ?thesis using param_length [OF h(1,3,5)] by auto
  qed
qed

lemma read_credentials_length: "http_read_credentials s = Inr (Some (t, c)) \<Longrightarrow> length t < length s"
proof -
  assume a: "http_read_credentials s = Inr (Some (t, c))"
  then obtain u scheme where u: "read_token s = Some (u, scheme)"
    by (auto simp: http_read_credentials_def split: option.splits)
  have l: "length u < length s" by (rule read_token_length [OF u])
  let ?u = "dropWhile is_space_char u"
  have d: "length ?u \<le> length u" "length (dropWhile is_space_char (dropWhile base64_char ?u)) \<le> length ?u"
    using length_dropWhile_le le_trans by blast+
  show ?thesis
  proof (cases "str_equal_i scheme ''Basic''")
    case True
    then have "t = dropWhile is_space_char (dropWhile base64_char ?u)"
      using a u by (simp add: http_read_credentials_def Let_def)
    then show ?thesis using le_less_trans [OF le_trans [OF d(2) d(1)] l] by simp
  next
    case False
    then obtain dc where "credentials_loop ?u http_credentials_init_digest = Inr (Some (t, dc))"
      using a u by (auto simp: http_read_credentials_def Let_def bind_out_Inr split: if_splits)
    then have "t = [] \<or> length t \<le> length ?u" by (rule credentials_loop_length)
    then show ?thesis using le_less_trans [OF d(1) l] by auto
  qed
qed

text \<open>The values of one field, and the fields of the given name in a header; \<open>None\<close> is the return of NULL.\<close>

function challenges_of_value :: "bool \<Rightarrow> cstr \<Rightarrow> http_challenge \<Rightarrow> http_challenge option outcome" where
  "challenges_of_value digest tmp ch =
     (if deref tmp = NUL then Inr (Some ch)
      else case http_read_challenge tmp of
             Inl e \<Rightarrow> Inl e
           | Inr None \<Rightarrow> Inr None
           | Inr (Some (tmp, info)) \<Rightarrow>
               challenges_of_value digest tmp (if auth_scheme_is_better digest (ch_scheme info) (ch_scheme ch) then info else ch))"
  by pat_completeness auto
termination
  by (relation "measure (\<lambda>(d, tmp, ch). length tmp)") (auto dest: read_challenge_length)

declare challenges_of_value.simps [simp del]

function credentials_of_value :: "bool \<Rightarrow> cstr \<Rightarrow> http_credentials \<Rightarrow> http_credentials option outcome" where
  "credentials_of_value digest tmp cr =
     (if deref tmp = NUL then Inr (Some cr)
      else case http_read_credentials tmp of
             Inl e \<Rightarrow> Inl e
           | Inr None \<Rightarrow> Inr None
           | Inr (Some (tmp, info)) \<Rightarrow>
               credentials_of_value digest tmp (if auth_scheme_is_better digest (cr_scheme info) (cr_scheme cr) then info else cr))"
  by pat_completeness auto
termination
  by (relation "measure (\<lambda>(d, tmp, cr). length tmp)") (auto dest: read_credentials_length)

declare credentials_of_value.simps [simp del]

lemma header_find_length: "header_find h nm = Some p \<Longrightarrow> length p \<le> length h \<and> p \<noteq> []"
  by (induction h nm rule: header_find.induct) (auto split: if_splits)

text \<open>\<open>rest\<close> is the list behind the node \<open>p\<close> of the previous round.\<close>

function challenges_of_header :: "bool \<Rightarrow> http_header \<Rightarrow> http_challenge \<Rightarrow> http_challenge option outcome" where
  "challenges_of_header digest rest ch =
     (case http_header_next rest None ''Proxy-Authenticate'' of
        None \<Rightarrow> Inr (Some ch)
      | Some p \<Rightarrow>
          (case challenges_of_value digest (snd (hd p)) ch of
             Inl e \<Rightarrow> Inl e
           | Inr None \<Rightarrow> Inr None
           | Inr (Some ch) \<Rightarrow> challenges_of_header digest (tl p) ch))"
  by pat_completeness auto
termination
  by (relation "measure (\<lambda>(d, h, ch). length h)")
    (auto simp: http_header_next_def dest!: header_find_length simp flip: length_greater_0_conv)

declare challenges_of_header.simps [simp del]

function credentials_of_header :: "bool \<Rightarrow> http_header \<Rightarrow> http_credentials \<Rightarrow> http_credentials option outcome" where
  "credentials_of_header digest rest cr =
     (case http_header_next rest None ''Proxy-Authorization'' of
        None \<Rightarrow> Inr (Some cr)
      | Some p \<Rightarrow>
          (case credentials_of_value digest (snd (hd p)) cr of
             Inl e \<Rightarrow> Inl e
           | Inr None \<Rightarrow> Inr None
           | Inr (Some cr) \<Rightarrow> credentials_of_header digest (tl p) cr))"
  by pat_completeness auto
termination
  by (relation "measure (\<lambda>(d, h, cr). length h)")
    (auto simp: http_header_next_def dest!: header_find_length simp flip: length_greater_0_conv)

declare credentials_of_header.simps [simp del]

definition http_header_get_proxy_challenge :: "bool \<Rightarrow> http_header \<Rightarrow> http_challenge option outcome" where
  "http_header_get_proxy_challenge digest header = challenges_of_header digest header http_challenge_init"

definition http_header_get_proxy_credentials :: "bool \<Rightarrow> http_header \<Rightarrow> http_credentials option outcome" where
  "http_header_get_proxy_credentials digest header = credentials_of_header digest header Unknown_credentials"

end
