(* ===== verification/Http_Digest.thy ===== *)
theory Http_Digest
  imports Http_Auth
begin

text \<open>
  HTTP Digest authentication (ncat/http_digest.c): quoted strings, nonces, the response to a challenge,
  the two fields of the exchange, and the check of the credentials.  \<open>md5\<close> is the digest that OpenSSL
  computes on the concatenation of its updates, \<open>secret\<close> the server secret (\<open>None\<close> while
  \<open>secret_initialized\<close> is 0), and \<open>rand\<close> the bytes that \<open>RAND_bytes\<close> gives, \<open>None\<close> when it fails.
\<close>

section \<open>Quoted strings and hexadecimal digits\<close>

definition quote_stop :: "char \<Rightarrow> bool" where
  "quote_stop c \<longleftrightarrow> code_of c \<le> 31 \<or> code_of c = 127 \<or> c = CHR 0x5C"

function quote_text :: "cstr \<Rightarrow> cstr" where
  "quote_text s =
     (let t = dropWhile (\<lambda>c. \<not> quote_stop c) s
      in span s t @ (if deref t = NUL then [] else CHR 0x5C # deref t # quote_text (tl t)))"
  by pat_completeness auto
termination
  by (relation "measure length", simp, simp only: in_measure, rule tl_dropWhile_less)

declare quote_text.simps [simp del]

definition append_quoted_string :: "cstr \<Rightarrow> cstr \<Rightarrow> cstr" where
  "append_quoted_string buf s = buf @ [CHR 0x22] @ quote_text s @ [CHR 0x22]"

definition hex_digit :: "nat \<Rightarrow> char" where
  "hex_digit n = (''0123456789abcdef'' ! n)"

definition enhex :: "cstr \<Rightarrow> cstr" where
  "enhex src = concat (map (\<lambda>b. [hex_digit (code_of b div 16), hex_digit (code_of b mod 16)]) src)"

section \<open>Nonces\<close>

text \<open>A time is its seconds and microseconds read as unsigned long; \<open>time_buf\<close> holds 31 characters.\<close>

definition dec06 :: "nat \<Rightarrow> cstr" where
  "dec06 n = replicate (6 - length (dec n)) CHR ''0'' @ dec n"

definition time_buf :: "nat \<times> nat \<Rightarrow> cstr" where
  "time_buf tv = take 31 (dec (fst tv) @ ''.'' @ dec06 (snd tv))"

definition make_nonce :: "(cstr \<Rightarrow> cstr) \<Rightarrow> cstr option \<Rightarrow> nat \<times> nat \<Rightarrow> cstr outcome" where
  "make_nonce md5 secret tv =
     (case secret of
        None \<Rightarrow> Inl Fatal_exit
      | Some k \<Rightarrow> Inr (time_buf tv @ ''-'' @ enhex (md5 (k @ '':'' @ time_buf tv))))"

text \<open>The conversion \<open>%lu\<close> of \<open>sscanf\<close>: white space, a sign, and the digits of an unsigned long.\<close>

definition scan_ulong :: "cstr \<Rightarrow> (nat \<times> cstr) option" where
  "scan_ulong s =
     (let s = dropWhile is_space s; neg = (deref s = CHR ''-'');
          s = (if deref s = CHR ''-'' \<or> deref s = CHR ''+'' then tl s else s)
      in if \<not> is_digit (deref s) then None
         else let v = dec_value (takeWhile is_digit s)
              in Some (if v \<ge> 2 ^ 64 then 2 ^ 64 - 1 else if neg then (2 ^ 64 - v) mod 2 ^ 64 else v, dropWhile is_digit s))"

definition http_digest_nonce_time :: "cstr \<Rightarrow> (nat \<times> nat) option" where
  "http_digest_nonce_time nonce =
     (case scan_ulong nonce of
        None \<Rightarrow> None
      | Some (sec, t) \<Rightarrow>
          if deref t \<noteq> CHR ''.'' then None
          else (case scan_ulong (tl t) of None \<Rightarrow> None | Some (usec, t) \<Rightarrow> Some (sec, usec)))"

section \<open>Responses\<close>

definition make_response ::
  "(cstr \<Rightarrow> cstr) \<Rightarrow> cstr \<Rightarrow> cstr \<Rightarrow> cstr \<Rightarrow> cstr \<Rightarrow> cstr \<Rightarrow> cstr \<Rightarrow> int \<Rightarrow> cstr option \<Rightarrow> cstr option \<Rightarrow> cstr outcome" where
  "make_response md5 username realm password method uri nonce qop nc cnonce =
     (let HA1_hex = enhex (md5 (username @ '':'' @ realm @ '':'' @ password));
          HA2_hex = enhex (md5 (method @ '':'' @ uri))
      in if qop = QOP_AUTH
         then bind_out (deref_value nc) (\<lambda>nc. bind_out (deref_value cnonce) (\<lambda>cnonce.
                Inr (enhex (md5 (HA1_hex @ '':'' @ nonce @ '':'' @ nc @ '':'' @ cnonce @ '':'' @ ''auth'' @ '':'' @ HA2_hex)))))
         else Inr (enhex (md5 (HA1_hex @ '':'' @ nonce @ '':'' @ HA2_hex))))"

section \<open>The two fields and the check\<close>

text \<open>\<open>now\<close> is \<open>None\<close> when \<open>gettimeofday\<close> fails.\<close>

definition http_digest_proxy_authenticate ::
  "(cstr \<Rightarrow> cstr) \<Rightarrow> cstr option \<Rightarrow> (nat \<times> nat) option \<Rightarrow> cstr \<Rightarrow> bool \<Rightarrow> cstr option outcome" where
  "http_digest_proxy_authenticate md5 secret now realm stale =
     (case now of
        None \<Rightarrow> Inr None
      | Some tv \<Rightarrow>
          let buf = append_quoted_string ''Digest realm='' realm
          in bind_out (make_nonce md5 secret tv) (\<lambda>nonce.
               let buf = append_quoted_string (buf @ '', nonce='') nonce;
                   buf = buf @ '', qop='' @ [CHR 0x22] @ ''auth'' @ [CHR 0x22]
               in Inr (Some (if stale then buf @ '', stale=true'' else buf))))"

definition nc_buf :: cstr where "nc_buf = ''00000001''"

definition http_digest_proxy_authorization ::
  "(cstr \<Rightarrow> cstr) \<Rightarrow> cstr option \<Rightarrow> http_challenge \<Rightarrow> cstr \<Rightarrow> cstr \<Rightarrow> cstr \<Rightarrow> cstr \<Rightarrow> cstr option outcome" where
  "http_digest_proxy_authorization md5 rand ch username password method uri =
     (case (ch_realm ch, ch_nonce ch) of
        (Some realm, Some nonce) \<Rightarrow>
          if ch_scheme ch \<noteq> AUTH_DIGEST \<or> ch_algorithm ch \<noteq> ALGORITHM_MD5 then Inr None
          else if ch_qop ch AND QOP_AUTH \<noteq> 0 \<and> rand = None then Inr None
          else let qop = (if ch_qop ch AND QOP_AUTH \<noteq> 0 then QOP_AUTH else QOP_NONE);
                   cnonce_buf = map_option enhex rand;
                   buf = append_quoted_string ('' Digest'' @ '' username='') username;
                   buf = append_quoted_string (buf @ '', realm='') realm;
                   buf = append_quoted_string (buf @ '', nonce='') nonce;
                   buf = append_quoted_string (buf @ '', uri='') uri;
                   buf = (if qop = QOP_AUTH
                          then append_quoted_string (buf @ '', qop=auth'' @ '', cnonce='') (the cnonce_buf) @ '', nc='' @ nc_buf
                          else buf)
               in bind_out (make_response md5 username realm password method uri nonce qop (Some nc_buf) cnonce_buf) (\<lambda>response_hex.
                    let buf = append_quoted_string (buf @ '', response='') response_hex;
                        buf = (case ch_opaque ch of None \<Rightarrow> buf | Some opq \<Rightarrow> append_quoted_string (buf @ '', opaque='') opq)
                    in Inr (Some (buf @ [CR, LF])))
      | _ \<Rightarrow> Inr None)"

definition http_digest_check_credentials ::
  "(cstr \<Rightarrow> cstr) \<Rightarrow> cstr option \<Rightarrow> cstr \<Rightarrow> cstr \<Rightarrow> cstr \<Rightarrow> cstr \<Rightarrow> http_credentials \<Rightarrow> bool outcome" where
  "http_digest_check_credentials md5 secret username realm password method cr =
     (case cr of
        Digest_credentials d \<Rightarrow>
          (case (cr_username d, cr_realm d, cr_nonce d, cr_uri d, cr_response d) of
             (Some c_username, Some c_realm, Some c_nonce, Some c_uri, Some c_response) \<Rightarrow>
               if cr_algorithm d \<noteq> ALGORITHM_MD5 then Inr False
               else if cr_qop d \<noteq> QOP_NONE \<and> cr_qop d \<noteq> QOP_AUTH then Inr False
               else if cr_qop d = QOP_AUTH \<and> (cr_nc d = None \<or> cr_cnonce d = None) then Inr False
               else if username \<noteq> c_username then Inr False
               else if realm \<noteq> c_realm then Inr False
               else (case http_digest_nonce_time c_nonce of
                       None \<Rightarrow> Inr False
                     | Some tv \<Rightarrow>
                         bind_out (make_nonce md5 secret tv) (\<lambda>nonce.
                           if nonce \<noteq> c_nonce then Inr False
                           else bind_out (make_response md5 c_username realm password method c_uri c_nonce (cr_qop d) (cr_nc d) (cr_cnonce d))
                                  (\<lambda>response_hex. Inr (response_hex = c_response))))
           | _ \<Rightarrow> Inr False)
      | _ \<Rightarrow> Inr False)"

section \<open>Quoted strings are read back\<close>

definition quotable :: "cstr \<Rightarrow> bool" where
  "quotable s \<longleftrightarrow> NUL \<notin> set s \<and> CHR 0x22 \<notin> set s"

lemma quote_text_append: "\<forall>c\<in>set b. \<not> quote_stop c \<Longrightarrow> quote_text (b @ t) = b @ quote_text t"
proof -
  assume b: "\<forall>c\<in>set b. \<not> quote_stop c"
  have d: "dropWhile (\<lambda>c. \<not> quote_stop c) (b @ t) = dropWhile (\<lambda>c. \<not> quote_stop c) t" using b by (induction b) auto
  have "t = takeWhile (\<lambda>c. \<not> quote_stop c) t @ dropWhile (\<lambda>c. \<not> quote_stop c) t" by simp
  then obtain u where t: "t = u @ dropWhile (\<lambda>c. \<not> quote_stop c) t" by blast
  let ?d = "dropWhile (\<lambda>c. \<not> quote_stop c) t"
  have "span (b @ t) ?d = b @ span t ?d"
    using span_append [of "b @ u" ?d] span_append [of u ?d] t by (metis append.assoc)
  then show ?thesis unfolding quote_text.simps [of "b @ t"] quote_text.simps [of t] Let_def d by simp
qed

lemma quote_text_Nil: "quote_text [] = []"
  by (subst quote_text.simps) simp

lemma quote_text_stop: "quote_stop c \<Longrightarrow> c \<noteq> NUL \<Longrightarrow> quote_text (c # s) = CHR 0x5C # c # quote_text s"
  by (subst quote_text.simps) simp

lemma quote_stop_facts:
  "\<not> quote_stop c \<Longrightarrow> \<not> is_ctl_char c \<and> c \<noteq> CHR 0x5C"
  "quote_stop c \<Longrightarrow> c \<noteq> NUL \<Longrightarrow> \<not> (code_of c = 0 \<or> code_of c \<ge> 128)"
  using code_of_inj [of c NUL] unfolding quote_stop_def is_ctl_char_def by auto

lemma qdtext_end_block:
  "\<forall>c\<in>set b. \<not> is_ctl_char c \<and> c \<noteq> CHR 0x5C \<and> c \<noteq> CHR 0x22 \<Longrightarrow> c = CHR 0x22 \<or> c = CHR 0x5C \<Longrightarrow>
    qdtext_end (b @ c # r) = Some (c # r)"
  by (induction b) auto

lemma quoted_loop_text:
  "quotable s \<Longrightarrow> quoted_loop (quote_text s @ CHR 0x22 # rest) buf =
    Some (rest, if s = [] then buf else Some ((case buf of None \<Rightarrow> [] | Some b \<Rightarrow> b) @ s))"
proof (induction "length s" arbitrary: s buf rule: less_induct)
  case less
  define b d where "b = takeWhile (\<lambda>c. \<not> quote_stop c) s" and "d = dropWhile (\<lambda>c. \<not> quote_stop c) s"
  have s: "s = b @ d" by (simp add: b_def d_def)
  have b: "\<forall>c\<in>set b. \<not> quote_stop c" using set_takeWhileD by (fastforce simp: b_def)
  have bq: "\<forall>c\<in>set b. \<not> is_ctl_char c \<and> c \<noteq> CHR 0x5C \<and> c \<noteq> CHR 0x22"
    using b less.prems quote_stop_facts(1) by (auto simp: s quotable_def)
  have stop: "quoted_loop (CHR 0x22 # rest) x = Some (rest, x)" for x
    by (subst quoted_loop.simps) simp
  have nq: "c \<noteq> CHR 0x22 \<Longrightarrow> deref (b @ c # r) \<noteq> CHR 0x22" for c r
    using bq by (cases b) auto
  show ?case
  proof (cases d)
    case Nil
    show ?thesis
    proof (cases "b = []")
      case True
      then show ?thesis using Nil s stop by (simp add: quote_text_Nil)
    next
      case False
      then have "deref (b @ CHR 0x22 # rest) \<noteq> CHR 0x22" using bq by (cases b) auto
      moreover have "span (b @ CHR 0x22 # rest) (CHR 0x22 # rest) = b" by (rule span_append)
      ultimately have "quoted_loop (b @ CHR 0x22 # rest) buf = Some (rest, buf_append buf b)"
        using qdtext_end_block [OF bq, of "CHR 0x22" rest] stop by (subst quoted_loop.simps) (simp add: Let_def)
      then show ?thesis
        using quote_text_append [OF b, of "[]"] False by (simp add: s Nil quote_text_Nil buf_append_def)
    qed
  next
    case (Cons c u)
    have "quote_stop c" using dropWhile_hd_not Cons unfolding d_def by fast
    moreover have "c \<noteq> NUL" using less.prems by (auto simp: s Cons quotable_def)
    ultimately have c: "quote_stop c" "c \<noteq> NUL" .
    have q: "quotable u" "length u < length s" using less.prems by (simp_all add: s Cons quotable_def)
    let ?r = "quote_text u @ CHR 0x22 # rest"
    have tq: "quote_text s @ CHR 0x22 # rest = b @ CHR 0x5C # c # ?r"
      using quote_text_append [OF b, of d] quote_text_stop [OF c, of u] by (simp add: s Cons)
    have sp: "span (b @ CHR 0x5C # c # ?r) (CHR 0x5C # c # ?r) = b" by (rule span_append)
    have "quoted_loop (b @ CHR 0x5C # c # ?r) buf = quoted_loop ?r (buf_append (buf_append buf b) [c])"
      using nq [of "CHR 0x5C" "c # ?r"] qdtext_end_block [OF bq, of "CHR 0x5C" "c # ?r"] quote_stop_facts(2) [OF c] sp
      by (subst quoted_loop.simps) (simp add: Let_def)
    also have "\<dots> = Some (rest, Some ((case buf of None \<Rightarrow> [] | Some b \<Rightarrow> b) @ s))"
      using less.hyps [OF q(2,1), of "buf_append (buf_append buf b) [c]"] by (auto simp: buf_append_def s Cons)
    finally show ?thesis unfolding tq using Cons s by simp
  qed
qed

text \<open>A parameter value as it is written, and the string that it is read as.\<close>

definition value_reads :: "cstr \<Rightarrow> cstr \<Rightarrow> bool" where
  "value_reads t s \<longleftrightarrow> \<not> is_space_char (deref t) \<and> t \<noteq> [] \<and>
     (\<forall>rest. \<not> is_token_char (deref rest) \<longrightarrow> read_token_or_quoted_string (t @ rest) = Some (rest, Some s))"

lemma value_reads_quoted:
  assumes "quotable s" "s \<noteq> []"
  shows "value_reads (append_quoted_string [] s) s"
proof -
  have "\<not> is_space_char CHR 0x22" by code_simp
  then show ?thesis using assms quoted_loop_text [OF assms(1)]
    by (simp add: value_reads_def append_quoted_string_def read_token_or_quoted_string_def read_quoted_string_def)
qed

lemma value_reads_token:
  assumes "token_ok s"
  shows "value_reads s s"
proof -
  obtain c u where s: "s = c # u" "is_token_char c" using assms by (cases s) (auto simp: token_ok_def)
  have "\<not> is_token_char CHR 0x22" by code_simp
  then have c: "\<not> is_space_char c" "c \<noteq> CHR 0x22" using s(2) token_not_cntrl by auto
  have "dropWhile is_space_char (s @ rest) = s @ rest" for rest using c s by simp
  then show ?thesis
    using c read_token_ok(1) [OF assms] by (auto simp: value_reads_def read_token_or_quoted_string_def s)
qed

section \<open>Lists of parameters are read back\<close>

text \<open>A parameter is its name, its value as written, and the value.\<close>

fun params_text :: "(cstr \<times> cstr \<times> cstr) list \<Rightarrow> cstr" where
  "params_text [] = []"
| "params_text [(nm, t, v)] = nm @ ''='' @ t"
| "params_text ((nm, t, v) # p # ps) = nm @ ''='' @ t @ '', '' @ params_text (p # ps)"

fun run_params :: "('a \<Rightarrow> cstr \<Rightarrow> cstr option \<Rightarrow> 'a option outcome) \<Rightarrow> (cstr \<times> cstr \<times> cstr) list \<Rightarrow> 'a
    \<Rightarrow> (cstr \<times> 'a) option outcome" where
  "run_params f [] a = Inr (Some ([], a))"
| "run_params f ((nm, t, v) # ps) a =
     (case f a nm (Some v) of Inl e \<Rightarrow> Inl e | Inr None \<Rightarrow> Inr None | Inr (Some a) \<Rightarrow> run_params f ps a)"

definition param_ok :: "cstr \<times> cstr \<times> cstr \<Rightarrow> bool" where
  "param_ok p \<longleftrightarrow> token_ok (fst p) \<and> value_reads (fst (snd p)) (snd (snd p))"

lemma params_text_start: "param_ok p \<Longrightarrow> is_token_char (deref (params_text (p # ps)))"
  by (cases p; cases ps; cases "fst p") (auto simp: param_ok_def token_ok_def)

lemma token_char_facts:
  "is_token_char c \<Longrightarrow> c \<noteq> NUL \<and> c \<noteq> CHR '','' \<and> c \<noteq> CHR '' '' \<and> c \<noteq> CHR ''='' \<and> \<not> is_space_char c"
proof -
  have "\<not> is_token_char CHR ''=''" by code_simp
  then show "is_token_char c \<Longrightarrow> ?thesis" using char_classes token_not_cntrl by blast
qed

lemma param_read:
  assumes "param_ok (nm, t, v)" "\<not> is_token_char (deref rest)"
  defines "s \<equiv> nm @ ''='' @ t @ rest"
  shows "deref s \<noteq> NUL" "read_token s = Some (''='' @ t @ rest, nm)"
    "dropWhile is_space_char (''='' @ t @ rest) = ''='' @ t @ rest"
    "read_token_or_quoted_string (dropWhile is_space_char (tl (''='' @ t @ rest))) = Some (rest, Some v)"
proof -
  have eq: "\<not> is_token_char CHR ''=''" "\<not> is_space_char CHR ''=''" by code_simp+
  have n: "token_ok nm" and t: "value_reads t v" using assms(1) by (simp_all add: param_ok_def)
  show "deref s \<noteq> NUL" using n token_char_facts by (cases nm) (auto simp: s_def token_ok_def)
  show "read_token s = Some (''='' @ t @ rest, nm)" unfolding s_def using eq(1) by (intro read_token_ok(1) [OF n]) simp
  show "dropWhile is_space_char (''='' @ t @ rest) = ''='' @ t @ rest" using eq(2) by simp
  have "dropWhile is_space_char (t @ rest) = t @ rest" using t by (cases t) (auto simp: value_reads_def)
  then show "read_token_or_quoted_string (dropWhile is_space_char (tl (''='' @ t @ rest))) = Some (rest, Some v)"
    using t assms(2) by (simp add: value_reads_def)
qed

lemma skip_comma_text: "is_token_char (deref r) \<Longrightarrow> skip_comma ('', '' @ r) = Some r"
proof -
  assume r: "is_token_char (deref r)"
  have c: "\<not> is_space_char CHR '',''" "is_space_char CHR '' ''" by code_simp+
  have "dropWhile is_space_char r = r" using token_char_facts [OF r] by (cases r) auto
  then show ?thesis using c token_char_facts [OF r] by (simp add: skip_comma_def)
qed

lemma challenge_loop_params:
  "\<forall>p\<in>set ps. param_ok p \<Longrightarrow> challenge_loop (params_text ps) ch = run_params challenge_param ps ch"
proof (induction ps arbitrary: ch rule: params_text.induct)
  case 1
  then show ?case by (subst challenge_loop.simps) simp
next
  case (2 nm t v)
  have e: "challenge_loop [] c = Inr (Some ([], c))" for c by (subst challenge_loop.simps) simp
  have p: "param_ok (nm, t, v)" using 2 by simp
  show ?case
    using param_read [OF p, of "[]"] e
    by (subst challenge_loop.simps) (simp add: skip_comma_def split: sum.split option.split)
next
  case (3 nm t v p ps)
  have p: "param_ok (nm, t, v)" "param_ok p" using 3 by simp_all
  let ?r = "'', '' @ params_text (p # ps)"
  have r: "\<not> is_token_char (deref ?r)" using char_classes(13) by simp
  show ?case
    using param_read [OF p(1) r] 3 skip_comma_text [OF params_text_start [OF p(2)]]
    by (subst challenge_loop.simps) (simp split: sum.split option.split)
qed

lemma credentials_loop_params:
  "\<forall>p\<in>set ps. param_ok p \<Longrightarrow> credentials_loop (params_text ps) d = run_params credentials_param ps d"
proof (induction ps arbitrary: d rule: params_text.induct)
  case 1
  then show ?case by (subst credentials_loop.simps) simp
next
  case (2 nm t v)
  have e: "credentials_loop [] c = Inr (Some ([], c))" for c by (subst credentials_loop.simps) simp
  have p: "param_ok (nm, t, v)" using 2 by simp
  show ?case
    using param_read [OF p, of "[]"] e
    by (subst credentials_loop.simps) (simp add: skip_comma_def split: sum.split option.split)
next
  case (3 nm t v p ps)
  have p: "param_ok (nm, t, v)" "param_ok p" using 3 by simp_all
  let ?r = "'', '' @ params_text (p # ps)"
  have r: "\<not> is_token_char (deref ?r)" using char_classes(13) by simp
  show ?case
    using param_read [OF p(1) r] 3 skip_comma_text [OF params_text_start [OF p(2)]]
    by (subst credentials_loop.simps) (simp split: sum.split option.split)
qed

section \<open>Nonces are read back\<close>

lemma dec_value_zeros: "dec_value (replicate k CHR ''0'' @ ds) = dec_value ds"
proof -
  have "digit_val CHR ''0'' = 0" by code_simp
  then have "foldl (\<lambda>v c. 10 * v + digit_val c) 0 (replicate k CHR ''0'') = 0" by (induction k) simp_all
  then show ?thesis by (simp add: dec_value_def)
qed

lemma scan_digits:
  assumes "ds \<noteq> []" "\<forall>c\<in>set ds. is_digit c" "\<not> is_digit (deref rest)" "dec_value ds < 2 ^ 64"
  shows "scan_ulong (ds @ rest) = Some (dec_value ds, rest)"
proof -
  obtain c u where ds: "ds = c # u" "is_digit c" using assms(1,2) by (cases ds) auto
  have m: "\<not> is_digit CHR ''-''" "\<not> is_digit CHR ''+''" by code_simp+
  have c: "\<not> is_space c" "c \<noteq> CHR ''-''" "c \<noteq> CHR ''+''"
    using ds(2) m by (auto simp: is_digit_def is_space_def)
  have "takeWhile is_digit (ds @ rest) = ds" "dropWhile is_digit (ds @ rest) = rest"
    using assms(2,3) by (cases rest; simp add: takeWhile_append2 dropWhile_append2)+
  then show ?thesis using c ds assms(4) by (simp add: scan_ulong_def Let_def)
qed

lemma dec06_facts: "usec < 10 ^ 6 \<Longrightarrow> length (dec06 usec) = 6" "\<forall>c\<in>set (dec06 n). is_digit c" "dec06 n \<noteq> []"
  "dec_value (dec06 n) = n"
proof -
  have z: "is_digit CHR ''0''" by code_simp
  show "usec < 10 ^ 6 \<Longrightarrow> length (dec06 usec) = 6" using dec_length_le [of usec 6] by (simp add: dec06_def)
  show "\<forall>c\<in>set (dec06 n). is_digit c" using dec_digits [of n] z by (auto simp: dec06_def)
  show "dec06 n \<noteq> []" "dec_value (dec06 n) = n" by (simp_all add: dec06_def dec_value_zeros)
qed

lemma time_buf_full:
  assumes "sec < 2 ^ 64" "usec < 10 ^ 6"
  shows "time_buf (sec, usec) = dec sec @ ''.'' @ dec06 usec"
proof -
  have "sec < 10 ^ 20" using assms(1) by simp
  then have "length (dec sec) \<le> 20" by (rule dec_length_le) simp
  then show ?thesis using dec06_facts(1) [OF assms(2)] by (simp add: time_buf_def)
qed

lemma nonce_time_own:
  assumes "sec < 2 ^ 64" "usec < 10 ^ 6"
  shows "http_digest_nonce_time (time_buf (sec, usec) @ ''-'' @ h) = Some (sec, usec)"
proof -
  have m: "\<not> is_digit CHR ''-''" "\<not> is_digit CHR ''.''" by code_simp+
  have "scan_ulong (dec sec @ ''.'' @ dec06 usec @ ''-'' @ h) = Some (sec, ''.'' @ dec06 usec @ ''-'' @ h)"
    using scan_digits [of "dec sec" "''.'' @ dec06 usec @ ''-'' @ h"] dec_digits assms(1) m by simp
  moreover have "scan_ulong (dec06 usec @ ''-'' @ h) = Some (usec, ''-'' @ h)"
    using scan_digits [of "dec06 usec" "''-'' @ h"] dec06_facts(2-4) assms(2) m by simp
  ultimately show ?thesis by (simp add: http_digest_nonce_time_def time_buf_full [OF assms])
qed

text \<open>Hexadecimal digits and nonces need no quoting.\<close>

lemma enhex_chars: "set (enhex s) \<subseteq> set ''0123456789abcdef''"
proof -
  define S where "S = set ''0123456789abcdef''"
  have h: "hex_digit n \<in> S" if "n < 16" for n
    unfolding hex_digit_def S_def using that by (intro nth_mem) simp
  have "code_of c div 16 < 16 \<and> code_of c mod 16 < 16" for c
    using less_mult_imp_div_less [of "code_of c" 16 16] code_of_less [of c] by simp
  then have "set (enhex s) \<subseteq> S" using h by (auto simp: enhex_def)
  then show ?thesis by (simp only: S_def)
qed

lemma length_enhex: "length (enhex s) = 2 * length s"
  by (induction s) (simp_all add: enhex_def)

lemma quotable_enhex: "quotable (enhex s)"
  using enhex_chars [of s] by (auto simp: quotable_def)

lemma quotable_nonce:
  assumes "make_nonce md5 (Some k) tv = Inr nonce"
  shows "quotable nonce" "nonce \<noteq> []"
proof -
  have d: "is_digit c \<Longrightarrow> c \<noteq> NUL \<and> c \<noteq> CHR 0x22" for c
  proof -
    have "\<not> is_digit NUL" "\<not> is_digit CHR 0x22" by code_simp+
    then show "is_digit c \<Longrightarrow> c \<noteq> NUL \<and> c \<noteq> CHR 0x22" by blast
  qed
  have "set (time_buf tv) \<subseteq> set (dec (fst tv)) \<union> {CHR ''.''} \<union> set (dec06 (snd tv))"
    using set_take_subset [of 31 "dec (fst tv) @ ''.'' @ dec06 (snd tv)"] by (auto simp: time_buf_def)
  then have "quotable (time_buf tv)"
    using d dec_digits dec06_facts(2) unfolding quotable_def by fastforce
  then show "quotable nonce" "nonce \<noteq> []"
    using assms quotable_enhex by (auto simp: make_nonce_def quotable_def)
qed

section \<open>The parameters of the exchange\<close>

lemma challenge_params_known:
  "challenge_param ch ''realm'' (Some v) = Inr (Some (ch\<lparr>ch_realm := Some v\<rparr>))"
  "ch_scheme ch = AUTH_DIGEST \<Longrightarrow> ch_nonce ch = None \<Longrightarrow>
    challenge_param ch ''nonce'' (Some v) = Inr (Some (ch\<lparr>ch_nonce := Some v\<rparr>))"
  "ch_scheme ch = AUTH_DIGEST \<Longrightarrow> challenge_param ch ''qop'' (Some ''auth'') = Inr (Some (ch\<lparr>ch_qop := ch_qop ch OR QOP_AUTH\<rparr>))"
  "ch_scheme ch = AUTH_DIGEST \<Longrightarrow> challenge_param ch ''stale'' (Some v) = Inr (Some ch)"
proof -
  have n: "str_equal_i ''realm'' ''realm''" "\<not> str_equal_i ''nonce'' ''realm''" "str_equal_i ''nonce'' ''nonce''"
    "\<not> str_equal_i ''qop'' ''realm''" "\<not> str_equal_i ''qop'' ''nonce''" "\<not> str_equal_i ''qop'' ''opaque''"
    "\<not> str_equal_i ''qop'' ''algorithm''" "str_equal_i ''qop'' ''qop''"
    "\<not> str_equal_i ''stale'' ''realm''" "\<not> str_equal_i ''stale'' ''nonce''" "\<not> str_equal_i ''stale'' ''opaque''"
    "\<not> str_equal_i ''stale'' ''algorithm''" "\<not> str_equal_i ''stale'' ''qop''" "str_equal_i ''auth'' ''auth''"
    by code_simp+
  have t: "read_token_list ''auth'' = Some ([], [''auth''])" by code_simp
  show "challenge_param ch ''realm'' (Some v) = Inr (Some (ch\<lparr>ch_realm := Some v\<rparr>))"
    "ch_scheme ch = AUTH_DIGEST \<Longrightarrow> ch_nonce ch = None \<Longrightarrow>
      challenge_param ch ''nonce'' (Some v) = Inr (Some (ch\<lparr>ch_nonce := Some v\<rparr>))"
    "ch_scheme ch = AUTH_DIGEST \<Longrightarrow> challenge_param ch ''qop'' (Some ''auth'') = Inr (Some (ch\<lparr>ch_qop := ch_qop ch OR QOP_AUTH\<rparr>))"
    "ch_scheme ch = AUTH_DIGEST \<Longrightarrow> challenge_param ch ''stale'' (Some v) = Inr (Some ch)"
    by (simp_all add: challenge_param_def n t deref_value_def)
qed

lemma credentials_params_known:
  "credentials_param d ''username'' v = set_once cr_username (\<lambda>x. d\<lparr>cr_username := x\<rparr>) d v"
  "credentials_param d ''realm'' v = set_once cr_realm (\<lambda>x. d\<lparr>cr_realm := x\<rparr>) d v"
  "credentials_param d ''nonce'' v = set_once cr_nonce (\<lambda>x. d\<lparr>cr_nonce := x\<rparr>) d v"
  "credentials_param d ''uri'' v = set_once cr_uri (\<lambda>x. d\<lparr>cr_uri := x\<rparr>) d v"
  "credentials_param d ''response'' v = set_once cr_response (\<lambda>x. d\<lparr>cr_response := x\<rparr>) d v"
  "credentials_param d ''cnonce'' v = set_once cr_cnonce (\<lambda>x. d\<lparr>cr_cnonce := x\<rparr>) d v"
  "credentials_param d ''nc'' v = set_once cr_nc (\<lambda>x. d\<lparr>cr_nc := x\<rparr>) d v"
  "credentials_param d ''qop'' (Some ''auth'') = Inr (Some (d\<lparr>cr_qop := QOP_AUTH\<rparr>))"
  by code_simp+

lemma digest_scheme:
  assumes "is_token_char (deref t)"
  shows "read_token (''Digest '' @ t) = Some ('' '' @ t, ''Digest'')" "dropWhile is_space_char ('' '' @ t) = t" "deref t \<noteq> CHR '',''"
    "\<not> str_equal_i ''Digest'' ''Basic''" "str_equal_i ''Digest'' ''Digest''"
proof -
  have d: "token_ok ''Digest''" by code_simp
  show "read_token (''Digest '' @ t) = Some ('' '' @ t, ''Digest'')"
    using read_token_ok(1) [OF d, of "'' '' @ t"] by simp
  show "dropWhile is_space_char ('' '' @ t) = t" "deref t \<noteq> CHR '',''"
    using token_char_facts [OF assms] by (cases t; simp)+
  show "\<not> str_equal_i ''Digest'' ''Basic''" "str_equal_i ''Digest'' ''Digest''" by code_simp+
qed

lemma read_challenge_digest:
  assumes "\<forall>p\<in>set (p # ps). param_ok p"
  shows "http_read_challenge (''Digest '' @ params_text (p # ps)) =
    run_params challenge_param (p # ps) (http_challenge_init\<lparr>ch_scheme := AUTH_DIGEST\<rparr>)"
proof -
  have "is_token_char (deref (params_text (p # ps)))" using assms by (intro params_text_start) simp
  note d = digest_scheme [OF this]
  show ?thesis
    unfolding http_read_challenge_def d(1) Let_def option.case prod.case d(2)
    using d(3-5) challenge_loop_params [OF assms] by simp
qed

lemma read_credentials_digest:
  assumes "\<forall>p\<in>set (p # ps). param_ok p"
  shows "http_read_credentials (''Digest '' @ params_text (p # ps)) =
    bind_out (run_params credentials_param (p # ps) http_credentials_init_digest)
      (\<lambda>r. Inr (map_option (apsnd Digest_credentials) r))"
proof -
  have "is_token_char (deref (params_text (p # ps)))" using assms by (intro params_text_start) simp
  note d = digest_scheme [OF this]
  show ?thesis
    unfolding http_read_credentials_def d(1) Let_def option.case prod.case d(2)
    using d(3-5) credentials_loop_params [OF assms] by simp
qed

definition quoted_param :: "cstr \<Rightarrow> cstr \<Rightarrow> cstr \<times> cstr \<times> cstr" where
  "quoted_param nm v = (nm, append_quoted_string [] v, v)"

definition challenge_params :: "cstr \<Rightarrow> cstr \<Rightarrow> bool \<Rightarrow> (cstr \<times> cstr \<times> cstr) list" where
  "challenge_params realm nonce stale =
     [quoted_param ''realm'' realm, quoted_param ''nonce'' nonce, quoted_param ''qop'' ''auth''] @
     (if stale then [(''stale'', ''true'', ''true'')] else [])"

definition answer_params :: "cstr \<Rightarrow> cstr \<Rightarrow> cstr \<Rightarrow> cstr \<Rightarrow> cstr \<Rightarrow> cstr \<Rightarrow> (cstr \<times> cstr \<times> cstr) list" where
  "answer_params username realm nonce uri cnonce response =
     [quoted_param ''username'' username, quoted_param ''realm'' realm, quoted_param ''nonce'' nonce,
      quoted_param ''uri'' uri, (''qop'', ''auth'', ''auth''), quoted_param ''cnonce'' cnonce,
      (''nc'', nc_buf, nc_buf), quoted_param ''response'' response]"

lemma param_ok_quoted: "token_ok nm \<Longrightarrow> quotable v \<Longrightarrow> v \<noteq> [] \<Longrightarrow> param_ok (quoted_param nm v)"
  using value_reads_quoted [of v] by (simp add: quoted_param_def param_ok_def)

lemma param_ok_token: "token_ok nm \<Longrightarrow> token_ok v \<Longrightarrow> param_ok (nm, v, v)"
  using value_reads_token [of v] by (simp add: param_ok_def)

lemma exchange_tokens:
  "token_ok ''realm''" "token_ok ''nonce''" "token_ok ''qop''" "token_ok ''stale''" "token_ok ''username''" "token_ok ''uri''"
  "token_ok ''cnonce''" "token_ok ''nc''" "token_ok ''response''" "token_ok ''auth''" "token_ok ''true''" "token_ok nc_buf"
  "quotable ''auth''" "quote_text ''auth'' = ''auth''"
  by code_simp+

lemma authenticate_text:
  assumes "make_nonce md5 (Some k) tv = Inr nonce"
  shows "http_digest_proxy_authenticate md5 (Some k) (Some tv) realm stale =
    Inr (Some (''Digest '' @ params_text (challenge_params realm nonce stale)))"
  using assms exchange_tokens(14)
  by (simp add: http_digest_proxy_authenticate_def challenge_params_def quoted_param_def append_quoted_string_def Let_def)

lemma authenticate_read:
  assumes "quotable realm" "realm \<noteq> []" "quotable nonce" "nonce \<noteq> []"
  shows "http_read_challenge (''Digest '' @ params_text (challenge_params realm nonce stale)) =
    Inr (Some ([], \<lparr>ch_scheme = AUTH_DIGEST, ch_realm = Some realm, ch_nonce = Some nonce, ch_opaque = None,
      ch_algorithm = ALGORITHM_MD5, ch_qop = QOP_AUTH\<rparr>))"
proof -
  have ok: "\<forall>p\<in>set (challenge_params realm nonce stale). param_ok p"
    using assms by (auto simp: challenge_params_def exchange_tokens intro!: param_ok_quoted param_ok_token)
  have o: "0 OR QOP_AUTH = QOP_AUTH" by (simp add: QOP_AUTH_def)
  show ?thesis
    using read_challenge_digest [of "quoted_param ''realm'' realm" "tl (challenge_params realm nonce stale)"] ok
    by (simp add: challenge_params_def quoted_param_def challenge_params_known http_challenge_init_def o)
qed

lemma authorization_text:
  assumes "make_response md5 user pass_realm pw method uri nonce QOP_AUTH (Some nc_buf) (Some (enhex cn)) = Inr response"
    and "ch = \<lparr>ch_scheme = AUTH_DIGEST, ch_realm = Some pass_realm, ch_nonce = Some nonce, ch_opaque = None,
      ch_algorithm = ALGORITHM_MD5, ch_qop = QOP_AUTH\<rparr>"
  shows "http_digest_proxy_authorization md5 (Some cn) ch user pw method uri =
    Inr (Some ('' '' @ (''Digest '' @ params_text (answer_params user pass_realm nonce uri (enhex cn) response)) @ [CR, LF]))"
proof -
  have q: "QOP_AUTH AND QOP_AUTH \<noteq> 0" by (simp add: QOP_AUTH_def)
  show ?thesis
    using assms(1) q
    by (simp add: http_digest_proxy_authorization_def assms(2) answer_params_def quoted_param_def append_quoted_string_def Let_def)
qed

lemma authorization_read:
  assumes "quotable user" "user \<noteq> []" "quotable realm" "realm \<noteq> []" "quotable nonce" "nonce \<noteq> []" "quotable uri" "uri \<noteq> []"
    "quotable cn" "cn \<noteq> []" "quotable response" "response \<noteq> []"
  shows "http_read_credentials (''Digest '' @ params_text (answer_params user realm nonce uri cn response)) =
    Inr (Some ([], Digest_credentials \<lparr>cr_username = Some user, cr_realm = Some realm, cr_nonce = Some nonce, cr_uri = Some uri,
      cr_response = Some response, cr_algorithm = ALGORITHM_MD5, cr_qop = QOP_AUTH, cr_nc = Some nc_buf, cr_cnonce = Some cn\<rparr>))"
proof -
  have ok: "\<forall>p\<in>set (answer_params user realm nonce uri cn response). param_ok p"
    using assms by (auto simp: answer_params_def exchange_tokens intro!: param_ok_quoted param_ok_token)
  show ?thesis
    using read_credentials_digest [of "quoted_param ''username'' user" "tl (answer_params user realm nonce uri cn response)"] ok
    by (simp add: answer_params_def quoted_param_def credentials_params_known set_once_def deref_value_def
      http_credentials_init_digest_def)
qed

lemma check_answer:
  assumes "sec < 2 ^ 64" "usec < 10 ^ 6" and "make_nonce md5 (Some k) (sec, usec) = Inr nonce"
  shows "http_digest_check_credentials md5 (Some k) user' realm' pw' method (Digest_credentials
      \<lparr>cr_username = Some user, cr_realm = Some realm, cr_nonce = Some nonce, cr_uri = Some uri,
       cr_response = Some response, cr_algorithm = ALGORITHM_MD5, cr_qop = QOP_AUTH, cr_nc = Some nc, cr_cnonce = Some cn\<rparr>) =
    Inr (user' = user \<and> realm' = realm \<and>
      make_response md5 user realm pw' method uri nonce QOP_AUTH (Some nc) (Some cn) = Inr response)"
proof -
  have t: "http_digest_nonce_time nonce = Some (sec, usec)"
    using assms(3) nonce_time_own [OF assms(1,2)] by (auto simp: make_nonce_def)
  obtain r where r: "make_response md5 user realm pw' method uri nonce QOP_AUTH (Some nc) (Some cn) = Inr r"
    by (auto simp: make_response_def deref_value_def Let_def)
  show ?thesis using t r by (simp add: http_digest_check_credentials_def assms(3))
qed

lemma quote_text_Cons: "c \<noteq> NUL \<Longrightarrow> quote_text (c # s) = (if quote_stop c then [CHR 0x5C, c] else [c]) @ quote_text s"
  using quote_text_stop [of c s] quote_text_append [of "[c]" s] by simp

lemma quote_text_split: "NUL \<notin> set s \<Longrightarrow> quote_text (s @ t) = quote_text s @ quote_text t"
  by (induction s) (auto simp: quote_text_Nil quote_text_Cons)

section \<open>What the code promises of Digest authentication\<close>

text \<open>
  C31. The whole exchange: the challenge that the server writes is read by the client as a Digest
  challenge with the server's realm and nonce; the answer that the client writes to it is read by the
  server; and the server, whose only state is its secret, accepts it exactly when the user name and the
  realm are its own and the response equals the one computed from its own password (in particular when
  the passwords are the same).
\<close>

theorem digest_handshake:
  assumes "quotable user" and "user \<noteq> []" and "quotable realm" and "realm \<noteq> []" and "quotable uri" and "uri \<noteq> []"
    and "\<forall>x. md5 x \<noteq> []" and "cn \<noteq> []" and "sec < 2 ^ 64" and "usec < 10 ^ 6"
  shows "\<exists>field nonce ch answer cr.
    http_digest_proxy_authenticate md5 (Some k) (Some (sec, usec)) realm stale = Inr (Some field) \<and>
    http_read_challenge field = Inr (Some ([], ch)) \<and> ch_scheme ch = AUTH_DIGEST \<and>
    ch_realm ch = Some realm \<and> ch_nonce ch = Some nonce \<and>
    http_digest_proxy_authorization md5 (Some cn) ch user pw method uri = Inr (Some ('' '' @ answer @ [CR, LF])) \<and>
    http_read_credentials answer = Inr (Some ([], cr)) \<and>
    (\<forall>user' realm' pw'. http_digest_check_credentials md5 (Some k) user' realm' pw' method cr =
      Inr (user' = user \<and> realm' = realm \<and>
        make_response md5 user realm pw' method uri nonce QOP_AUTH (Some nc_buf) (Some (enhex cn)) =
        make_response md5 user realm pw method uri nonce QOP_AUTH (Some nc_buf) (Some (enhex cn))))"
proof -
  obtain nonce where n: "make_nonce md5 (Some k) (sec, usec) = Inr nonce" by (simp add: make_nonce_def)
  note qn = quotable_nonce [OF n]
  obtain x where r: "make_response md5 user realm pw method uri nonce QOP_AUTH (Some nc_buf) (Some (enhex cn)) = Inr (enhex (md5 x))"
    by (auto simp: make_response_def deref_value_def Let_def)
  have ne: "enhex (md5 x) \<noteq> []" "enhex cn \<noteq> []" using assms(7,8) length_enhex by (metis length_0_conv mult_is_0 zero_neq_numeral)+
  note ch = authenticate_read [OF assms(3,4) qn, of stale]
  note answer = authorization_read [OF assms(1-4) qn assms(5,6) quotable_enhex ne(2) quotable_enhex ne(1)]
  show ?thesis
    using authenticate_text [OF n] ch authorization_text [OF r refl] answer check_answer [OF assms(9,10) n] r
    by (intro exI conjI; (assumption | rule refl)?) auto
qed

theorem digest_handshake_witness:
  "\<exists>field nonce ch answer cr.
    http_digest_proxy_authenticate (\<lambda>x. ''m'') (Some ''s'') (Some (81, 7)) ''Ncat'' True = Inr (Some field) \<and>
    http_read_challenge field = Inr (Some ([], ch)) \<and> ch_nonce ch = Some nonce \<and>
    http_digest_proxy_authorization (\<lambda>x. ''m'') (Some ''abcdefgh'') ch ''user'' ''pw'' ''CONNECT'' ''h:80'' =
      Inr (Some ('' '' @ answer @ [CR, LF])) \<and>
    http_read_credentials answer = Inr (Some ([], cr)) \<and>
    http_digest_check_credentials (\<lambda>x. ''m'') (Some ''s'') ''user'' ''Ncat'' ''pw'' ''CONNECT'' cr = Inr True \<and>
    http_digest_check_credentials (\<lambda>x. ''m'') (Some ''s'') ''root'' ''Ncat'' ''pw'' ''CONNECT'' cr = Inr False"
proof -
  have f: "quotable ''user''" "quotable ''Ncat''" "quotable ''h:80''" by code_simp+
  show ?thesis
    using digest_handshake [of "''user''" "''Ncat''" "''h:80''" "\<lambda>x. ''m''" "''abcdefgh''" 81 7 "''s''" True "''pw''" "''CONNECT''"] f
    by fastforce
qed

text \<open>
  What quoting leaves out.  An empty quoted string is read as NULL, so that an empty realm in a
  challenge or an empty user name in credentials makes the reader dereference NULL; and a double quote
  in a string is not escaped, so that the string ends there for its reader and the rest is read as
  further parameters.
\<close>

theorem quoted_string_gaps:
  assumes "quotable s" and "s \<noteq> []"
  shows "http_read_challenge (append_quoted_string ''Digest realm='' []) = Inl Null_deref \<and>
    http_read_credentials (append_quoted_string ''Digest username='' []) = Inl Null_deref \<and>
    read_quoted_string (append_quoted_string [] s) = Some ([], Some s) \<and>
    read_quoted_string (append_quoted_string [] (s @ CHR 0x22 # t)) = Some (quote_text t @ [CHR 0x22], Some s)"
proof -
  have e: "append_quoted_string b [] = b @ [CHR 0x22, CHR 0x22]" for b
    by (simp add: append_quoted_string_def quote_text_Nil)
  have q: "\<not> is_space_char CHR 0x22" "\<not> quote_stop CHR 0x22" by code_simp+
  have "quote_text (s @ CHR 0x22 # t) = quote_text s @ CHR 0x22 # quote_text t"
    using assms(1) q(2) by (simp add: quote_text_split quote_text_Cons quotable_def)
  then have r: "read_quoted_string (append_quoted_string [] s) = Some ([], Some s)"
    "read_quoted_string (append_quoted_string [] (s @ CHR 0x22 # t)) = Some (quote_text t @ [CHR 0x22], Some s)"
    using q(1) assms quoted_loop_text [OF assms(1)] by (simp_all add: append_quoted_string_def read_quoted_string_def)
  have "http_read_challenge (append_quoted_string ''Digest realm='' []) = Inl Null_deref"
    "http_read_credentials (append_quoted_string ''Digest username='' []) = Inl Null_deref"
    unfolding e by code_simp+
  with r show ?thesis by simp
qed

theorem quoted_string_gaps_witness:
  "read_quoted_string (append_quoted_string [] (''a'' @ CHR 0x22 # '', x=y'')) = Some ('', x=y'' @ [CHR 0x22], Some ''a'')"
proof -
  have f: "quotable ''a''" "quote_text '', x=y'' = '', x=y''" by code_simp+
  show ?thesis using quoted_string_gaps [OF f(1), of "'', x=y''"] by (simp add: f(2))
qed

end
