(* ===== verification/Base64.thy ===== *)
theory Base64
  imports Buffers Http_Auth
begin

text \<open>
  Base64 encoding (ncat/base64.c) with the size of the buffer that \<open>b64enc\<close> allocates, and a reference
  decoder that it is the inverse of.
\<close>

definition b64alpha :: cstr where
  "b64alpha = ''ABCDEFGHIJKLMNOPQRSTUVWXYZabcdefghijklmnopqrstuvwxyz0123456789+/''"

definition alpha_at :: "int \<Rightarrow> char" where
  "alpha_at i = b64alpha ! nat i"

text \<open>The bytes are unsigned characters promoted to \<open>int\<close>.\<close>

fun b64enc_internal :: "int list \<Rightarrow> cstr" where
  "b64enc_internal (a # b # c # data) =
     [alpha_at (drop_bit 2 a AND 0x3f),
      alpha_at ((push_bit 4 a AND 0x30) OR (drop_bit 4 b AND 0xf)),
      alpha_at ((push_bit 2 b AND 0x3c) OR (drop_bit 6 c AND 0x3)),
      alpha_at (c AND 0x3f)] @ b64enc_internal data"
| "b64enc_internal [a, b] =
     [alpha_at (drop_bit 2 a AND 0x3f),
      alpha_at ((push_bit 4 a AND 0x30) OR (drop_bit 4 b AND 0xf)),
      alpha_at (push_bit 2 b AND 0x3c), CHR ''='']"
| "b64enc_internal [a] =
     [alpha_at (drop_bit 2 a AND 0x3f), alpha_at (push_bit 4 a AND 0x30), CHR ''='', CHR ''='']"
| "b64enc_internal [] = []"

text \<open>The size \<open>4 * len / 3 + 4\<close> is computed as an \<open>int\<close>.\<close>

definition b64_size :: "int \<Rightarrow> int" where
  "b64_size len = (let n = wrap_int (4 * len) in (if n < 0 then - (- n div 3) else n div 3) + 4)"

definition b64enc :: "int list \<Rightarrow> cstr outcome" where
  "b64enc data =
     bind_out (safe_malloc (b64_size (int (length data)))) (\<lambda>dest.
       let out = b64enc_internal data in bind_out (write_at dest 0 (out @ [NUL])) (\<lambda>dest. Inr out))"

definition bytes_of :: "cstr \<Rightarrow> int list" where
  "bytes_of s = map (\<lambda>c. int (code_of c)) s"

section \<open>The reference decoder\<close>

definition alpha_value :: "char \<Rightarrow> int" where
  "alpha_value c = int (length (takeWhile (\<lambda>d. d \<noteq> c) b64alpha))"

fun b64_decode :: "cstr \<Rightarrow> int list" where
  "b64_decode (w # x # y # z # r) =
     (let v = alpha_value w; vx = alpha_value x; vy = alpha_value y
      in [v * 4 + vx div 16] @
         (if y = CHR ''='' then []
          else [(vx mod 16) * 16 + vy div 4] @ (if z = CHR ''='' then [] else [(vy mod 4) * 64 + alpha_value z])) @
         b64_decode r)"
| "b64_decode r = []"

lemma alpha_table:
  "\<forall>i\<in>set [0..63]. alpha_value (alpha_at i) = i \<and> alpha_at i \<noteq> CHR ''='' \<and> base64_char (alpha_at i)"
  by code_simp

lemma byte_parts:
  "\<forall>a\<in>set [0..255]. drop_bit 2 a AND 0x3f = a div (4::int) \<and> push_bit 4 a AND 0x30 = 16 * (a mod 4) \<and>
    drop_bit 4 a AND 0xf = a div 16 \<and> push_bit 2 a AND 0x3c = 4 * (a mod 16) \<and> drop_bit 6 a AND 0x3 = a div 64 \<and> a AND 0x3f = a mod 64"
  by code_simp

lemma join_parts:
  "\<forall>x\<in>set [0..3]. \<forall>y\<in>set [0..15]. 16 * x OR y = 16 * x + (y::int)"
  "\<forall>x\<in>set [0..15]. \<forall>y\<in>set [0..3]. 4 * x OR y = 4 * x + (y::int)"
  by code_simp+

section \<open>Encoding by arithmetic\<close>

definition byte_ok :: "int \<Rightarrow> bool" where
  "byte_ok a \<longleftrightarrow> 0 \<le> a \<and> a \<le> 255"

lemma alpha_facts:
  "0 \<le> i \<Longrightarrow> i < 64 \<Longrightarrow> alpha_value (alpha_at i) = i \<and> alpha_at i \<noteq> CHR ''='' \<and> base64_char (alpha_at i)"
  using alpha_table by simp

lemma byte_facts:
  assumes "byte_ok a"
  shows "drop_bit 2 a AND 0x3f = a div 4" "push_bit 4 a AND 0x30 = 16 * (a mod 4)" "drop_bit 4 a AND 0xf = a div 16"
    "push_bit 2 a AND 0x3c = 4 * (a mod 16)" "drop_bit 6 a AND 0x3 = a div 64" "a AND 0x3f = a mod 64"
  using byte_parts assms by (auto simp: byte_ok_def)

lemma joined:
  assumes "byte_ok a" "byte_ok b"
  shows "16 * (a mod 4) OR b div 16 = 16 * (a mod 4) + b div 16" "4 * (a mod 16) OR b div 64 = 4 * (a mod 16) + b div 64"
proof -
  have "a mod 4 \<in> set [0..3]" "b div 16 \<in> set [0..15]" "a mod 16 \<in> set [0..15]" "b div 64 \<in> set [0..3]"
    using assms pos_mod_bound [of 4 a] pos_mod_bound [of 16 a] by (auto simp: byte_ok_def)
  then show "16 * (a mod 4) OR b div 16 = 16 * (a mod 4) + b div 16" "4 * (a mod 16) OR b div 64 = 4 * (a mod 16) + b div 64"
    using join_parts by blast+
qed

lemma sextets:
  assumes "byte_ok a" "byte_ok b"
  shows "0 \<le> a div 4 \<and> a div 4 < 64" "0 \<le> 16 * (a mod 4) + b div 16 \<and> 16 * (a mod 4) + b div 16 < 64"
    "0 \<le> 4 * (a mod 16) + b div 64 \<and> 4 * (a mod 16) + b div 64 < 64" "0 \<le> a mod 64 \<and> a mod 64 < 64"
    "0 \<le> 16 * (a mod 4) \<and> 16 * (a mod 4) < 64" "0 \<le> 4 * (a mod 16) \<and> 4 * (a mod 16) < 64"
proof -
  have "0 \<le> a" "a < 256" "0 \<le> b" "b < 256" using assms by (auto simp: byte_ok_def)
  moreover have "a mod 4 \<le> 3" "a mod 16 \<le> 15" "0 \<le> a mod 4" "0 \<le> a mod 16"
    using pos_mod_bound [of 4 a] pos_mod_bound [of 16 a] by simp_all
  moreover have "b div 16 \<le> 15" "b div 64 \<le> 3" "0 \<le> b div 16" "0 \<le> b div 64" using calculation by simp_all
  ultimately show "0 \<le> a div 4 \<and> a div 4 < 64" "0 \<le> 16 * (a mod 4) + b div 16 \<and> 16 * (a mod 4) + b div 16 < 64"
    "0 \<le> 4 * (a mod 16) + b div 64 \<and> 4 * (a mod 16) + b div 64 < 64" "0 \<le> a mod 64 \<and> a mod 64 < 64"
    "0 \<le> 16 * (a mod 4) \<and> 16 * (a mod 4) < 64" "0 \<le> 4 * (a mod 16) \<and> 4 * (a mod 16) < 64"
    by auto
qed

lemma rejoined:
  fixes a b c :: int
  shows "byte_ok b \<Longrightarrow> a div 4 * 4 + (16 * (a mod 4) + b div 16) div 16 = a"
    "a div 4 * 4 + (16 * (a mod 4)) div 16 = a"
    "byte_ok b \<Longrightarrow> byte_ok c \<Longrightarrow> ((16 * (a mod 4) + b div 16) mod 16) * 16 + (4 * (b mod 16) + c div 64) div 4 = b"
    "byte_ok b \<Longrightarrow> ((16 * (a mod 4) + b div 16) mod 16) * 16 + (4 * (b mod 16)) div 4 = b"
    "byte_ok c \<Longrightarrow> ((4 * (b mod 16) + c div 64) mod 4) * 64 + c mod 64 = c"
proof -
  have h: "b div 16 div 16 = 0" "b div 16 mod 16 = b div 16" if "byte_ok b" for b
  proof -
    have "0 \<le> b div 16" "b div 16 < 16" using that by (auto simp: byte_ok_def)
    then show "b div 16 div 16 = 0" "b div 16 mod 16 = b div 16" by simp_all
  qed
  have q: "c div 64 div 4 = 0" "c div 64 mod 4 = c div 64" if "byte_ok c" for c
  proof -
    have "0 \<le> c div 64" "c div 64 < 4" using that by (auto simp: byte_ok_def)
    then show "c div 64 div 4 = 0" "c div 64 mod 4 = c div 64" by simp_all
  qed
  show "byte_ok b \<Longrightarrow> a div 4 * 4 + (16 * (a mod 4) + b div 16) div 16 = a" using h(1) by simp
  show "a div 4 * 4 + (16 * (a mod 4)) div 16 = a" by simp
  have m: "(16 * (a mod 4) + b div 16) mod 16 = b div 16" if "byte_ok b" for a b :: int
    using h(2) [OF that] by (simp add: mod_simps)
  have n: "(4 * (b mod 16) + c div 64) mod 4 = c div 64" if "byte_ok c" for b c :: int
    using q(2) [OF that] by (simp add: mod_simps)
  show "byte_ok b \<Longrightarrow> byte_ok c \<Longrightarrow> ((16 * (a mod 4) + b div 16) mod 16) * 16 + (4 * (b mod 16) + c div 64) div 4 = b"
    using m q(1) by simp
  show "byte_ok b \<Longrightarrow> ((16 * (a mod 4) + b div 16) mod 16) * 16 + (4 * (b mod 16)) div 4 = b" using m by simp
  show "byte_ok c \<Longrightarrow> ((4 * (b mod 16) + c div 64) mod 4) * 64 + c mod 64 = c" using n by simp
qed

lemma enc_facts:
  "\<forall>b\<in>set data. byte_ok b \<Longrightarrow>
    b64_decode (b64enc_internal data) = data \<and> (\<forall>c\<in>set (b64enc_internal data). base64_char c)"
proof (induction data rule: b64enc_internal.induct)
  case (1 a b c data)
  then have k: "byte_ok a" "byte_ok b" "byte_ok c" by simp_all
  note f = byte_facts [OF k(1)] byte_facts [OF k(2)] byte_facts [OF k(3)] joined [OF k(1,2)] joined [OF k(2,3)]
  have v: "alpha_value (alpha_at (a div 4)) = a div 4" "base64_char (alpha_at (a div 4))"
    "alpha_value (alpha_at (16 * (a mod 4) + b div 16)) = 16 * (a mod 4) + b div 16" "base64_char (alpha_at (16 * (a mod 4) + b div 16))"
    "alpha_value (alpha_at (4 * (b mod 16) + c div 64)) = 4 * (b mod 16) + c div 64" "base64_char (alpha_at (4 * (b mod 16) + c div 64))"
    "alpha_at (4 * (b mod 16) + c div 64) \<noteq> CHR ''=''"
    "alpha_value (alpha_at (c mod 64)) = c mod 64" "base64_char (alpha_at (c mod 64))" "alpha_at (c mod 64) \<noteq> CHR ''=''"
    using sextets [OF k(1,2)] sextets [OF k(2,3)] sextets(4) [OF k(3,3)] alpha_facts by simp_all
  show ?case
    using 1 v rejoined(1) [OF k(2), of a] rejoined(3) [OF k(2,3), of a] rejoined(5) [OF k(3), of b]
    by (simp add: f Let_def)
next
  case (2 a b)
  then have k: "byte_ok a" "byte_ok b" by simp_all
  note f = byte_facts [OF k(1)] byte_facts [OF k(2)] joined [OF k(1,2)]
  have e: "base64_char CHR ''=''" by (simp add: base64_char_def)
  have v: "alpha_value (alpha_at (a div 4)) = a div 4" "base64_char (alpha_at (a div 4))"
    "alpha_value (alpha_at (16 * (a mod 4) + b div 16)) = 16 * (a mod 4) + b div 16" "base64_char (alpha_at (16 * (a mod 4) + b div 16))"
    "alpha_value (alpha_at (4 * (b mod 16))) = 4 * (b mod 16)" "base64_char (alpha_at (4 * (b mod 16)))"
    "alpha_at (4 * (b mod 16)) \<noteq> CHR ''=''"
    using sextets [OF k(1,2)] sextets(6) [OF k(2,2)] alpha_facts by simp_all
  show ?case
    by (simp only: b64enc_internal.simps b64_decode.simps f Let_def v e rejoined(1) [OF k(2)] rejoined(4) [OF k(2)]
      append.simps list.set ball_simps if_True if_False simp_thms)
next
  case (3 a)
  then have k: "byte_ok a" by simp
  have e: "base64_char CHR ''=''" by (simp add: base64_char_def)
  have v: "alpha_value (alpha_at (a div 4)) = a div 4" "base64_char (alpha_at (a div 4))"
    "alpha_value (alpha_at (16 * (a mod 4))) = 16 * (a mod 4)" "base64_char (alpha_at (16 * (a mod 4)))"
    using sextets [OF k k] alpha_facts by simp_all
  show ?case using v e rejoined(2) [of a] by (simp add: byte_facts [OF k] Let_def)
qed simp

lemma enc_length: "length (b64enc_internal data) = 4 * ((length data + 2) div 3)"
proof (induction data rule: b64enc_internal.induct)
  case (1 a b c data)
  have "(length (a # b # c # data) + 2) div 3 = (length data + 2) div 3 + 1" by simp
  then show ?case using 1 by (simp only: b64enc_internal.simps length_append) simp
qed simp_all

lemma b64enc_fits:
  assumes "length data < 2 ^ 29"
  shows "b64enc data = Inr (b64enc_internal data)"
proof -
  have w: "wrap_int (4 * int (length data)) = 4 * int (length data)"
    using assms by (intro wrap_int_id) auto
  have sz: "b64_size (int (length data)) = int (4 * length data div 3 + 4)"
    unfolding b64_size_def w Let_def by (simp add: zdiv_int)
  have "4 * ((length data + 2) div 3) + 1 \<le> 4 * length data div 3 + 4" by presburger
  then show ?thesis unfolding b64enc_def sz by (simp add: safe_malloc_def write_at_def enc_length Let_def)
qed

section \<open>What the code promises of Base64\<close>

text \<open>
  C32. For fewer than 2 to the power 29 bytes the text fits in the buffer that is allocated for it, consists of characters
  that the reader of credentials accepts, and decodes to the bytes; for 2 to the power 30 bytes the size wraps
  to four and the encoder writes beyond its buffer.
\<close>

theorem base64_exact:
  assumes "\<forall>b\<in>set data. 0 \<le> b \<and> b \<le> 255" and "length data < 2 ^ 29" and "length huge = 2 ^ 30"
  shows "(\<exists>out. b64enc data = Inr out \<and> b64_decode out = data \<and> (\<forall>c\<in>set out. base64_char c) \<and>
      length out = 4 * ((length data + 2) div 3)) \<and>
    b64enc huge = Inl Out_of_bounds"
proof -
  have "b64enc data = Inr (b64enc_internal data)" by (rule b64enc_fits [OF assms(2)])
  moreover have "b64_size (int (length huge)) = 4"
    unfolding b64_size_def by (simp add: assms(3) wrap_int_def)
  then have "b64enc huge = Inl Out_of_bounds"
    using assms(3) by (simp add: b64enc_def safe_malloc_def write_at_def enc_length)
  ultimately show ?thesis using enc_facts [of data] assms(1) enc_length by (auto simp: byte_ok_def)
qed

theorem base64_exact_witness:
  "(\<exists>out. b64enc [77, 97] = Inr out \<and> b64_decode out = [77, 97] \<and> length out = 4) \<and>
    b64enc (replicate (2 ^ 30) 0) = Inl Out_of_bounds"
  using base64_exact [of "[77, 97]" "replicate (2 ^ 30) 0"] by auto

end
