(* ===== verification/Proxy_Server.thy ===== *)
theory Proxy_Server
  imports Http_Message Http_Digest Base64 Expirables
begin

text \<open>
  The HTTP proxy of ncat/ncat_proxy.c for one connection: reading the request, authentication, the
  CONNECT relay and the GET, HEAD and POST transaction, composed from the readers and parsers of the
  other theories.  The network is a parameter: name resolution, the bytes a server answers with, which
  sends succeed, and the clock.  A send that succeeds has taken all bytes, as on a blocking socket.  What the proxy does to the network is a trace of actions.
\<close>

section \<open>The network\<close>

text \<open>A write of a whole string to the client or to the server, or the opening of a connection.\<close>

datatype 'a action = To_client cstr | To_server cstr | Connect 'a

text \<open>One result of \<open>recv\<close> on the descriptor that \<open>select\<close> reports in the relay of CONNECT.\<close>

datatype relay_event = From_client recv_event | From_server recv_event

record 'a proxy_env =
  o_proxy_auth :: "cstr option"
  o_portno :: int
  have_digest :: bool
  env_md5 :: "cstr \<Rightarrow> cstr"
  env_secret :: "cstr option"
  check_time :: "nat \<times> nat"
  challenge_time :: "(nat \<times> nat) option"
  resolve :: "cstr \<Rightarrow> int \<Rightarrow> 'a option"
  addr_local :: "'a \<Rightarrow> bool"
  connect :: "'a \<Rightarrow> recv_event list option"
  relay_events :: "relay_event list"
  send_ok :: "nat \<Rightarrow> bool"

record 'a proxy =
  client :: socket_buffer
  server :: socket_buffer
  sends :: nat
  trace :: "'a action list"

text \<open>The next send; a failed one transmits nothing.\<close>

definition emit :: "'a proxy_env \<Rightarrow> 'a action \<Rightarrow> 'a proxy \<Rightarrow> bool \<times> 'a proxy" where
  "emit env a p =
     (if send_ok env (sends p) then (True, p\<lparr>sends := sends p + 1, trace := trace p @ [a]\<rparr>)
      else (False, p\<lparr>sends := sends p + 1\<rparr>))"

text \<open>\<open>send_string\<close> to the client with its result ignored.\<close>

definition send_string :: "'a proxy_env \<Rightarrow> cstr \<Rightarrow> 'a proxy \<Rightarrow> 'a proxy" where
  "send_string env s p = snd (emit env (To_client s) p)"

definition BUFSIZ :: nat where "BUFSIZ = 8192"

section \<open>Replies\<close>

definition crlf_line :: "cstr \<Rightarrow> cstr" where
  "crlf_line s = s @ [CR, LF]"

definition http_code2str :: "int \<Rightarrow> cstr" where
  "http_code2str code =
     (if code = 200 then crlf_line ''HTTP/1.0 200 OK'' @ [CR, LF]
      else if code = 400 then crlf_line ''HTTP/1.0 400 Bad Request'' @ [CR, LF]
      else if code = 403 then crlf_line ''HTTP/1.0 403 Forbidden'' @ [CR, LF]
      else if code = 405
      then crlf_line ''HTTP/1.0 405 Method Not Allowed'' @ crlf_line ''Allow: CONNECT, GET, HEAD, POST'' @ [CR, LF]
      else if code = 413 then crlf_line ''HTTP/1.0 413 Request Entity Too Large'' @ [CR, LF]
      else if code = 501 then crlf_line ''HTTP/1.0 501 Not Implemented'' @ [CR, LF]
      else if code = 504 then crlf_line ''HTTP/1.0 504 Gateway Timeout'' @ [CR, LF]
      else crlf_line ''HTTP/1.0 500 Internal Server Error'' @ [CR, LF])"

definition method_is_known :: "cstr \<Rightarrow> bool" where
  "method_is_known m \<longleftrightarrow> m \<in> {''CONNECT'', ''GET'', ''HEAD'', ''POST''}"

section \<open>Authentication\<close>

definition HTTP_DIGEST_NONCE_EXPIRY :: int where "HTTP_DIGEST_NONCE_EXPIRY = 10"

text \<open>The conversion of unsigned long values to the members of \<open>struct timeval\<close>.\<close>

definition to_timeval :: "nat \<times> nat \<Rightarrow> timeval" where
  "to_timeval tv = Timeval (signed_take_bit 63 (int (fst tv))) (signed_take_bit 63 (int (snd tv)))"

text \<open>The result and \<open>*stale\<close>.\<close>

definition check_auth :: "'a proxy_env \<Rightarrow> cstr \<Rightarrow> http_credentials \<Rightarrow> (bool \<times> bool) outcome" where
  "check_auth env method credentials =
     (case o_proxy_auth env of
        None \<Rightarrow> Inr (True, False)
      | Some proxy_auth \<Rightarrow>
          (case credentials of
             Basic_credentials None \<Rightarrow> Inr (False, False)
           | Basic_credentials (Some basic) \<Rightarrow>
               bind_out (b64enc (bytes_of proxy_auth)) (\<lambda>expected. Inr (expected = basic, False))
           | Digest_credentials d \<Rightarrow>
               if \<not> have_digest env then Inr (False, False)
               else (case strchr proxy_auth (CHR '':'') of
                       None \<Rightarrow> Inr (False, False)
                     | Some password \<Rightarrow>
                         bind_out (http_digest_check_credentials (env_md5 env) (env_secret env)
                             (Prelude.span proxy_auth password) ''Ncat'' (tl password) method credentials) (\<lambda>ret.
                           if \<not> ret then Inr (False, False)
                           else (case cr_nonce d of
                                   None \<Rightarrow> Inr (False, False)
                                 | Some nonce \<Rightarrow>
                                     (case http_digest_nonce_time nonce of
                                        None \<Rightarrow> Inr (False, False)
                                      | Some tv \<Rightarrow>
                                          let nonce_tv = to_timeval tv; now = to_timeval (check_time env)
                                          in if TIMEVAL_AFTER nonce_tv now then Inr (False, False)
                                             else if wrap_int (TIMEVAL_SEC_SUBTRACT now nonce_tv) > HTTP_DIGEST_NONCE_EXPIRY
                                             then Inr (False, True)
                                             else Inr (True, False)))))
           | Unknown_credentials \<Rightarrow> Inr (False, False)))"

definition send_proxy_authenticate :: "'a proxy_env \<Rightarrow> bool \<Rightarrow> 'a proxy \<Rightarrow> 'a proxy outcome" where
  "send_proxy_authenticate env stale p =
     (let buf = crlf_line ''HTTP/1.0 407 Proxy Authentication Required'' @
            crlf_line (''Proxy-Authenticate: Basic realm='' @ [CHR 0x22] @ ''Ncat'' @ [CHR 0x22])
      in bind_out
           (if have_digest env
            then bind_out (http_digest_proxy_authenticate (env_md5 env) (env_secret env) (challenge_time env) ''Ncat'' stale)
                   (\<lambda>hdr. bind_out (deref_value hdr) (\<lambda>hdr. Inr (buf @ crlf_line (''Proxy-Authenticate: '' @ hdr))))
            else Inr buf)
           (\<lambda>buf. Inr (send_string env (buf @ [CR, LF]) p)))"

section \<open>Reading moves the stream on\<close>

lemma read_todo: "socket_buffer_read buf n = (i, d, buf') \<Longrightarrow> 0 < i \<Longrightarrow> length (stream buf') < length (stream buf)"
proof -
  assume r: "socket_buffer_read buf n = (i, d, buf')" "0 < i"
  show ?thesis
  proof (cases "refill buf")
    case (Inl x)
    then show ?thesis using r refill_stream [of buf] by (auto simp: socket_buffer_read_def split: prod.splits)
  next
    case (Inr b)
    have s: "stream b = stream buf" using refill_stream [of buf] Inr by simp
    have b: "buf' = b\<lparr>Sock_Buffer.pos := Sock_Buffer.pos b + nat i\<rparr>" "i = int (min (length (chunk b) - Sock_Buffer.pos b) n)"
      using r Inr by (auto simp: socket_buffer_read_def Let_def)
    have "length (stream buf') + nat i = length (stream b)"
      unfolding b(1) stream_def using b(2) by simp
    then show ?thesis using r(2) s by simp
  qed
qed

section \<open>One transaction\<close>

text \<open>The body of the request, up to its announced length: 504, or 0 with the bytes transferred.\<close>

function send_body :: "'a proxy_env \<Rightarrow> int \<Rightarrow> int \<Rightarrow> 'a proxy \<Rightarrow> int \<times> int \<times> 'a proxy" where
  "send_body env len transferred p =
     (if transferred < len
      then (case socket_buffer_read (client p) (min BUFSIZ (nat (len - transferred))) of
              (n, buf, c) \<Rightarrow>
                let p = p\<lparr>client := c\<rparr>
                in if n < 0 then (504, transferred, p)
                   else if n = 0 then (0, transferred, p)
                   else (case emit env (To_server buf) p of
                           (ok, p) \<Rightarrow> if \<not> ok then (504, transferred + n, p)
                                       else send_body env len (transferred + n) p))
      else (0, transferred, p))"
  by pat_completeness auto
termination
  by (relation "measure (\<lambda>(env, len, t, p). nat (len - t))") (auto simp: emit_def split: if_splits)

declare send_body.simps [simp del]

definition host_field :: "uri \<Rightarrow> cstr \<Rightarrow> cstr" where
  "host_field u host =
     (let h = takeWhile (\<lambda>c. c \<noteq> NUL) host
      in if u_port u = -1 \<or> u_port u = 80 then h else h @ '':'' @ dec_int (u_port u))"

text \<open>The request as the proxy sends it on, or the code that refuses it.\<close>

definition outgoing_request :: "http_request \<Rightarrow> (int \<times> http_request) outcome" where
  "outgoing_request request =
     bind_out (read_ptr (req_method request)) (\<lambda>method.
       if method = ''POST'' \<and> \<not> req_content_length_set request then Inr (400, request)
       else let request = request\<lparr>req_version := HTTP_10\<rparr>
            in bind_out (read_header_ptr (req_header request)) (\<lambda>h.
                 case http_header_remove_hop_by_hop h of
                   (code, h) \<Rightarrow>
                     if code \<noteq> 0 then Inr (code, request)
                     else bind_out (read_ptr (u_host (req_uri request))) (\<lambda>host.
                            let buf = host_field (req_uri request) host
                            in if length buf \<ge> BUFSIZ then Inr (501, request\<lparr>req_header := Fields h\<rparr>)
                               else Inr (0, request\<lparr>req_header :=
                                      Fields (http_header_set (http_header_set h ''Host'' buf) ''Connection'' ''close'')\<rparr>))))"

definition transaction_request :: "'a proxy_env \<Rightarrow> http_request \<Rightarrow> 'a proxy \<Rightarrow> (int \<times> http_request \<times> 'a proxy) outcome" where
  "transaction_request env request p =
     bind_out (outgoing_request request) (\<lambda>(code, request).
       if code \<noteq> 0 then Inr (code, request, p)
       else bind_out (http_request_to_string request) (\<lambda>request_str.
              case emit env (To_server request_str) p of
                (ok, p) \<Rightarrow>
                  if \<not> ok then Inr (504, request, p)
                  else (case send_body env (req_content_length request) (req_bytes_transferred request) p of
                          (code, t, p) \<Rightarrow> Inr (code, request\<lparr>req_bytes_transferred := t\<rparr>, p))))"

text \<open>The body of the response: up to its length, or until the server closes.\<close>

function relay_body :: "'a proxy_env \<Rightarrow> bool \<Rightarrow> int \<Rightarrow> int \<Rightarrow> 'a proxy \<Rightarrow> 'a proxy" where
  "relay_body env len_set len transferred p =
     (if \<not> len_set \<or> transferred < len
      then let cnt = (if len_set \<and> nat (len - transferred) < BUFSIZ then nat (len - transferred) else BUFSIZ)
           in (case socket_buffer_read (server p) cnt of
                 (n, buf, s) \<Rightarrow>
                   let p = p\<lparr>server := s\<rparr>
                   in if n \<le> 0 then p
                      else (case emit env (To_client buf) p of
                              (ok, p) \<Rightarrow> if \<not> ok then p else relay_body env len_set len (transferred + n) p))
      else p)"
  by pat_completeness auto
termination
  by (relation "measure (\<lambda>(env, ls, len, t, p). length (stream (server p)))")
    (auto simp: emit_def not_le intro: read_todo [OF sym] split: if_splits)

declare relay_body.simps [simp del]

definition transaction_response :: "'a proxy_env \<Rightarrow> 'a proxy \<Rightarrow> (int \<times> 'a proxy) outcome option" where
  "transaction_response env p =
     (case http_read_status_line (server p) of
        (code, line, s) \<Rightarrow>
          let p = p\<lparr>server := s\<rparr>
          in if code \<noteq> 0 then Some (Inr (0, p))
             else (case http_parse_status_line (the line) of
                     Inl e \<Rightarrow> Some (Inl e)
                   | Inr (code, response) \<Rightarrow>
                       if code \<noteq> 0 then Some (Inr (0, p))
                       else (case http_read_header (server p) of
                               (code, line, s) \<Rightarrow>
                                 let p = p\<lparr>server := s\<rparr>
                                 in if code \<noteq> 0 then Some (Inr (0, p))
                                    else map_option (\<lambda>res. bind_out res (\<lambda>(code, response).
                                           if code \<noteq> 0 then Inr (0, p)
                                           else bind_out (read_header_ptr (resp_header response)) (\<lambda>h.
                                             case http_header_remove_hop_by_hop h of
                                               (code, h) \<Rightarrow>
                                                 if code \<noteq> 0 then Inr (code, p)
                                                 else let response = response\<lparr>resp_version := HTTP_10,
                                                            resp_header := Fields (http_header_set h ''Connection'' ''close'')\<rparr>
                                                      in bind_out (http_response_to_string response) (\<lambda>response_str.
                                                           case emit env (To_client response_str) p of
                                                             (ok, p) \<Rightarrow>
                                                               if \<not> ok then bind_out (http_response_free response) (\<lambda>_. Inr (504, p))
                                                               else let p = relay_body env (resp_content_length_set response)
                                                                          (resp_content_length response) 0 p
                                                                    in bind_out (http_response_free response) (\<lambda>_. Inr (0, p))))))
                                         (http_response_parse_header response (the line)))))"

definition do_transaction ::
  "'a proxy_env \<Rightarrow> http_request \<Rightarrow> 'a proxy \<Rightarrow> (int \<times> http_request \<times> 'a proxy) outcome option" where
  "do_transaction env request p =
     (case transaction_request env request p of
        Inl e \<Rightarrow> Some (Inl e)
      | Inr (code, request, p) \<Rightarrow>
          if code \<noteq> 0 then Some (Inr (code, request, p))
          else map_option (\<lambda>res. bind_out res (\<lambda>(code, p). Inr (code, request, p))) (transaction_response env p))"

section \<open>Methods\<close>

text \<open>The loop of CONNECT around \<open>select\<close>, one ready descriptor after the other.\<close>

fun relay :: "'a proxy_env \<Rightarrow> relay_event list \<Rightarrow> 'a proxy \<Rightarrow> 'a proxy" where
  "relay env [] p = p"
| "relay env (From_client Interrupted # r) p = relay env r p"
| "relay env (From_client Failed # r) p = p"
| "relay env (From_client (Received buf) # r) p =
     (if buf = [] then p
      else case emit env (To_server buf) p of (ok, p) \<Rightarrow> if \<not> ok then p else relay env r p)"
| "relay env (From_server Interrupted # r) p = relay env r p"
| "relay env (From_server Failed # r) p = p"
| "relay env (From_server (Received buf) # r) p =
     (if buf = [] then p
      else case emit env (To_client buf) p of (ok, p) \<Rightarrow> if \<not> ok then p else relay env r p)"

text \<open>\<open>resolve\<close> of ncat_core.c asserts that there is a host name; its port is an unsigned short.\<close>

definition resolve_host :: "'a proxy_env \<Rightarrow> uri \<Rightarrow> 'a option outcome" where
  "resolve_host env u =
     (case u_host u of
        Null \<Rightarrow> Inl Assert_failed
      | Freed \<Rightarrow> Inl Use_after_free
      | Live h \<Rightarrow> Inr (resolve env (takeWhile (\<lambda>c. c \<noteq> NUL) h) (u_port u mod 65536)))"

definition handle_connect :: "'a proxy_env \<Rightarrow> http_request \<Rightarrow> 'a proxy \<Rightarrow> (int \<times> 'a proxy) outcome" where
  "handle_connect env request p =
     (if u_port (req_uri request) = -1 then Inr (400, p)
      else bind_out (resolve_host env (req_uri request)) (\<lambda>su.
             case su of
               None \<Rightarrow> Inr (504, p)
             | Some su \<Rightarrow>
                 (case connect env su of
                    None \<Rightarrow> Inr (504, p)
                  | Some evs \<Rightarrow>
                      let p = p\<lparr>trace := trace p @ [Connect su]\<rparr>;
                          p = send_string env (http_code2str 200) p
                      in (case emit env (To_server (socket_buffer_remainder (client p))) p of
                            (ok, p) \<Rightarrow> if \<not> ok then Inr (0, p) else Inr (0, relay env (relay_events env) p)))))"

definition handle_method :: "'a proxy_env \<Rightarrow> http_request \<Rightarrow> 'a proxy \<Rightarrow> (int \<times> http_request \<times> 'a proxy) outcome option" where
  "handle_method env request p =
     (case read_ptr (u_scheme (req_uri request)) of
        Inl e \<Rightarrow> Some (Inl e)
      | Inr scheme \<Rightarrow>
          if scheme \<noteq> ''http'' then Some (Inr (400, request, p))
          else if u_port (req_uri request) = -1 then Some (Inr (400, request, p))
          else (case resolve_host env (req_uri request) of
                  Inl e \<Rightarrow> Some (Inl e)
                | Inr None \<Rightarrow> Some (Inr (504, request, p))
                | Inr (Some su) \<Rightarrow>
                    if u_port (req_uri request) = o_portno env \<and> addr_local env su then Some (Inr (403, request, p))
                    else (case connect env su of
                            None \<Rightarrow> Some (Inr (504, request, p))
                          | Some evs \<Rightarrow>
                              do_transaction env request
                                (p\<lparr>server := socket_buffer_init evs, trace := trace p @ [Connect su]\<rparr>))))"

section \<open>The handler of a connection\<close>

text \<open>Releasing the request and then reporting a code, as every exit of the handler does.\<close>

definition finish :: "'a proxy_env \<Rightarrow> http_request \<Rightarrow> int \<Rightarrow> 'a proxy \<Rightarrow> 'a proxy outcome" where
  "finish env request code p =
     bind_out (http_request_free request) (\<lambda>_. Inr (if code \<noteq> 0 then send_string env (http_code2str code) p else p))"

text \<open>The check of \<open>o.proxy_auth\<close>: whether to go on, and the state in which the handler returns if not.\<close>

definition authenticate :: "'a proxy_env \<Rightarrow> cstr \<Rightarrow> http_request \<Rightarrow> 'a proxy \<Rightarrow> (bool \<times> 'a proxy) outcome" where
  "authenticate env method request p =
     (if o_proxy_auth env = None then Inr (True, p)
      else bind_out (read_header_ptr (req_header request)) (\<lambda>h.
             bind_out (http_header_get_proxy_credentials (have_digest env) h) (\<lambda>credentials.
               case credentials of
                 None \<Rightarrow> bind_out (send_proxy_authenticate env False p) (\<lambda>p.
                           bind_out (http_request_free request) (\<lambda>_. Inr (False, p)))
               | Some credentials \<Rightarrow>
                   bind_out (check_auth env method credentials) (\<lambda>(ret, stale).
                     if \<not> ret
                     then bind_out (send_proxy_authenticate env stale p) (\<lambda>p.
                            bind_out (http_request_free request) (\<lambda>_. Inr (False, p)))
                     else Inr (True, p)))))"

definition dispatch :: "'a proxy_env \<Rightarrow> cstr \<Rightarrow> http_request \<Rightarrow> 'a proxy \<Rightarrow> 'a proxy outcome option" where
  "dispatch env method request p =
     (if method = ''CONNECT''
      then Some (bind_out (handle_connect env request p) (\<lambda>(code, p). finish env request code p))
      else if method \<in> {''GET'', ''HEAD'', ''POST''}
      then map_option (\<lambda>res. bind_out res (\<lambda>(code, request, p). finish env request code p)) (handle_method env request p)
      else Some (finish env request 500 p))"

definition http_server_handler :: "'a proxy_env \<Rightarrow> 'a proxy \<Rightarrow> 'a proxy outcome option" where
  "http_server_handler env p =
     (case http_read_request_line (client p) of
        (code, line, c) \<Rightarrow>
          let p = p\<lparr>client := c\<rparr>
          in if code \<noteq> 0 then Some (Inr (send_string env (http_code2str code) p))
             else (case http_parse_request_line (the line) of
                     Inl e \<Rightarrow> Some (Inl e)
                   | Inr (code, request) \<Rightarrow>
                       if code \<noteq> 0 then Some (Inr (send_string env (http_code2str code) p))
                       else (case read_ptr (req_method request) of
                               Inl e \<Rightarrow> Some (Inl e)
                             | Inr method \<Rightarrow>
                                 if \<not> method_is_known method then Some (finish env request 405 p)
                                 else (case http_read_header (client p) of
                                         (code, header, c) \<Rightarrow>
                                           let p = p\<lparr>client := c\<rparr>
                                           in if code \<noteq> 0 then Some (finish env request code p)
                                              else (case http_request_parse_header request (the header) of
                                                      None \<Rightarrow> None
                                                    | Some (Inl e) \<Rightarrow> Some (Inl e)
                                                    | Some (Inr (code, request)) \<Rightarrow>
                                                        if code \<noteq> 0 then Some (finish env request code p)
                                                        else (case authenticate env method request p of
                                                                Inl e \<Rightarrow> Some (Inl e)
                                                              | Inr (go, p) \<Rightarrow>
                                                                  if \<not> go then Some (Inr p)
                                                                  else dispatch env method request p))))))"

section \<open>What reaches the network before authentication\<close>

text \<open>A part of the handler that only talks to the client.\<close>

definition quiet :: "'a proxy \<Rightarrow> 'a proxy \<Rightarrow> bool" where
  "quiet p p' \<longleftrightarrow> (\<exists>ss. trace p' = trace p @ map To_client ss)"

named_theorems quiet_steps

lemma quiet_refl [quiet_steps]: "quiet p p"
  unfolding quiet_def by (rule exI [of _ "[]"]) simp

lemma quiet_trans: "quiet p q \<Longrightarrow> quiet q r \<Longrightarrow> quiet p r"
  unfolding quiet_def by (metis append.assoc map_append)

lemma quiet_buffers [simp]:
  "quiet (p\<lparr>client := c\<rparr>) q \<longleftrightarrow> quiet p q" "quiet p (q\<lparr>client := c\<rparr>) \<longleftrightarrow> quiet p q"
  by (simp_all add: quiet_def)

lemma quiet_send [quiet_steps]: "quiet p (send_string env s p)"
  by (cases "send_ok env (sends p)")
    (auto simp: quiet_def send_string_def emit_def intro: exI [of _ "[s]"] exI [of _ "[]"])

lemma quiet_finish: "finish env r code p = Inr q \<Longrightarrow> quiet p q"
  by (auto simp: finish_def bind_out_Inr intro: quiet_steps split: if_splits)

lemma quiet_challenge: "send_proxy_authenticate env stale p = Inr q \<Longrightarrow> quiet p q"
  by (auto simp: send_proxy_authenticate_def Let_def bind_out_Inr intro: quiet_send)

lemma quiet_authenticate: "authenticate env m r p = Inr (go, q) \<Longrightarrow> quiet p q"
  by (auto simp: authenticate_def bind_out_Inr intro: quiet_steps quiet_challenge split: if_splits option.splits)

lemma authenticated:
  assumes "authenticate env m r p = Inr (True, q)" "o_proxy_auth env \<noteq> None"
  shows "\<exists>h cr stale. req_header r = Fields h \<and> http_header_get_proxy_credentials (have_digest env) h = Inr (Some cr) \<and>
    check_auth env m cr = Inr (True, stale)"
proof -
  obtain h cr where h: "read_header_ptr (req_header r) = Inr h"
      "http_header_get_proxy_credentials (have_digest env) h = Inr (Some cr)"
    and a: "\<exists>stale. check_auth env m cr = Inr (True, stale)"
    using assms by (auto simp: authenticate_def bind_out_Inr split: option.splits if_splits)
  have "req_header r = Fields h" using h(1) by (cases "req_header r") auto
  then show ?thesis using h(2) a by blast
qed

text \<open>The handler either stays quiet or comes to dispatch a request that passed authentication.\<close>

lemma handler_cases:
  assumes "http_server_handler env p = Some (Inr q)"
  shows "quiet p q \<or> (\<exists>line c request mt hdr c' request' p'.
    http_read_request_line (client p) = (0, line, c) \<and> http_parse_request_line (the line) = Inr (0, request) \<and>
    req_method request = Live mt \<and> http_read_header c = (0, hdr, c') \<and>
    http_request_parse_header request (the hdr) = Some (Inr (0, request')) \<and>
    authenticate env mt request' (p\<lparr>client := c'\<rparr>) = Inr (True, p') \<and> dispatch env mt request' p' = Some (Inr q))"
proof -
  obtain code line c where rl: "http_read_request_line (client p) = (code, line, c)"
    by (cases "http_read_request_line (client p)") auto
  show ?thesis
  proof (cases "code = 0")
    case False
    then show ?thesis using assms rl quiet_send [of "p\<lparr>client := c\<rparr>" env] by (auto simp: http_server_handler_def Let_def)
  next
    case z: True
    then obtain code request where rq: "http_parse_request_line (the line) = Inr (code, request)"
      using assms rl by (cases "http_parse_request_line (the line)") (auto simp: http_server_handler_def Let_def)
    show ?thesis
    proof (cases "code = 0")
      case False
      then show ?thesis using assms rl rq z quiet_send [of "p\<lparr>client := c\<rparr>" env] by (auto simp: http_server_handler_def Let_def)
    next
      case z2: True
      then obtain mt where m: "req_method request = Live mt"
        using assms rl rq z by (cases "req_method request") (auto simp: http_server_handler_def Let_def)
      obtain code hdr c' where rh: "http_read_header c = (code, hdr, c')"
        by (cases "http_read_header c") auto
      show ?thesis
      proof (cases "method_is_known mt \<and> code = 0")
        case False
        then show ?thesis
          using assms rl rq z z2 m rh by (auto simp: http_server_handler_def Let_def dest!: quiet_finish split: if_splits)
      next
        case True
        then obtain code request' where ph: "http_request_parse_header request (the hdr) = Some (Inr (code, request'))"
          using assms rl rq z z2 m rh
          by (cases "http_request_parse_header request (the hdr)"; cases "the (http_request_parse_header request (the hdr))")
            (auto simp: http_server_handler_def Let_def)
        show ?thesis
        proof (cases "code = 0")
          case False
          then show ?thesis
            using assms rl rq z z2 m rh True ph by (auto simp: http_server_handler_def Let_def dest!: quiet_finish)
        next
          case z3: True
          obtain go p' where au: "authenticate env mt request' (p\<lparr>client := c'\<rparr>) = Inr (go, p')"
            using assms rl rq z z2 m rh True ph z3
            by (cases "authenticate env mt request' (p\<lparr>client := c'\<rparr>)") (auto simp: http_server_handler_def Let_def)
          then have "quiet p p'" using quiet_authenticate [OF au] by simp
          then show ?thesis
            using assms rl rq z z2 m rh True ph z3 au by (cases go) (auto simp: http_server_handler_def Let_def)
        qed
      qed
    qed
  qed
qed

section \<open>The two ends of Basic authentication\<close>

text \<open>
  The client's request with credentials (ncat_connect.c): \<open>url\<close> is what \<open>sock_to_url\<close> prints for the host of
  the request line, \<open>target_url\<close> what it prints for the target the user named, which the Digest answer is about.
\<close>

definition append_connect_request_line :: "cstr \<Rightarrow> cstr \<Rightarrow> cstr" where
  "append_connect_request_line buf url = buf @ crlf_line (''CONNECT '' @ url @ '' HTTP/1.0'')"

definition http_connect_request :: "cstr \<Rightarrow> cstr" where
  "http_connect_request url = append_connect_request_line [] url @ [CR, LF]"

definition http_connect_request_auth ::
  "bool \<Rightarrow> (cstr \<Rightarrow> cstr) \<Rightarrow> cstr option \<Rightarrow> cstr \<Rightarrow> cstr \<Rightarrow> cstr \<Rightarrow> http_challenge \<Rightarrow>
    cstr option outcome" where
  "http_connect_request_auth digest md5 rand proxy_auth url target_url challenge =
     (let buf = append_connect_request_line [] url @ ''Proxy-Authorization:''
      in if ch_scheme challenge = AUTH_BASIC
         then bind_out (b64enc (bytes_of proxy_auth)) (\<lambda>auth_str.
                Inr (Some (buf @ crlf_line ('' Basic '' @ auth_str) @ [CR, LF])))
         else if digest \<and> ch_scheme challenge = AUTH_DIGEST
         then (case strchr proxy_auth (CHR '':'') of
                 None \<Rightarrow> Inr None
               | Some password \<Rightarrow>
                   bind_out (http_digest_proxy_authorization md5 rand challenge (Prelude.span proxy_auth password) (tl password)
                       ''CONNECT'' target_url) (\<lambda>response_hdr.
                     Inr (map_option (\<lambda>hdr. buf @ hdr @ [CR, LF]) response_hdr)))
         else Inl Fatal_exit)"

lemma enc_ok: "length s < 2 ^ 29 \<Longrightarrow> b64enc (bytes_of s) = Inr (b64enc_internal (bytes_of s))"
proof -
  assume l: "length s < 2 ^ 29"
  have lb: "length (bytes_of s) = length s" by (simp add: bytes_of_def)
  show ?thesis using b64enc_fits [of "bytes_of s"] l lb by simp
qed

lemma bytes_of_ok: "\<forall>b\<in>set (bytes_of s). byte_ok b"
proof -
  have "code_of c \<le> 255" for c using code_of_less [of c] by linarith
  then show ?thesis by (auto simp: bytes_of_def byte_ok_def)
qed

lemma enc_inj: "b64enc_internal (bytes_of s) = b64enc_internal (bytes_of t) \<longleftrightarrow> s = t"
proof
  assume "b64enc_internal (bytes_of s) = b64enc_internal (bytes_of t)"
  then have "bytes_of s = bytes_of t" using enc_facts bytes_of_ok by metis
  moreover have "inj (\<lambda>c. int (code_of c))" by (rule injI) (simp add: code_of_inj)
  ultimately show "s = t" by (simp add: bytes_of_def inj_map_eq_map)
qed simp

lemma base64_char_facts: "base64_char c \<Longrightarrow> word_ok [c] \<and> \<not> is_space_char c \<and> c \<noteq> NUL"
proof -
  assume b: "base64_char c"
  define cs where "cs = ''abcdefghijklmnopqrstuvwxyzABCDEFGHIJKLMNOPQRSTUVWXYZ'' @ ''0123456789'' @ [CHR ''+'', CHR ''/'', CHR ''='']"
  have "is_alpha_char c \<Longrightarrow> c \<in> set cs" "is_digit_char c \<Longrightarrow> c \<in> set cs"
    unfolding is_alpha_char_def is_digit_char_def strchr_None cs_def set_append by blast+
  moreover have "c = CHR ''+'' \<or> c = CHR ''/'' \<or> c = CHR ''='' \<Longrightarrow> c \<in> set cs"
    unfolding cs_def set_append list.set by blast
  ultimately have "c \<in> set cs" using b unfolding base64_char_def by blast
  moreover have "\<forall>c\<in>set cs. word_ok [c] \<and> \<not> is_space_char c \<and> c \<noteq> NUL" unfolding cs_def by code_simp
  ultimately show ?thesis by blast
qed

lemma basic_field_ok:
  assumes "\<forall>c\<in>set out. base64_char c" and "out \<noteq> []"
  shows "field_ok (''Proxy-Authorization'', ''Basic '' @ out)"
proof -
  have "word_ok out" using assms(1) base64_char_facts by (fastforce simp: word_ok_def)
  then have "words_ok [''Basic'', out]" using assms(2) by (simp add: words_ok_def) code_simp
  moreover have "\<forall>c\<in>set ''Proxy-Authorization''. is_token_char c" by code_simp
  ultimately show ?thesis unfolding field_ok_def by (auto intro!: exI [of _ "[''Basic'', out]"])
qed

lemma basic_credentials:
  assumes "\<forall>c\<in>set out. base64_char c" and "out \<noteq> []"
  shows "http_header_get_proxy_credentials d [(''Proxy-Authorization'', ''Basic '' @ out)] =
    Inr (Some (Basic_credentials (Some out)))"
proof -
  have b: "token_ok ''Basic''" "str_equal_i ''Basic'' ''Basic''" "field_name_equal ''Proxy-Authorization'' ''Proxy-Authorization''"
    by code_simp+
  obtain c u where out: "out = c # u" using assms(2) by (cases out) auto
  have t: "read_token (''Basic '' @ out) = Some ('' '' @ out, ''Basic'')"
    using read_token_ok(1) [OF b(1), of "'' '' @ out"] by simp
  have s: "dropWhile is_space_char ('' '' @ out) = out" using assms(1) base64_char_facts [of c] by (simp add: out)
  have e: "dropWhile base64_char out = []" using assms(1) by simp
  have r: "http_read_credentials (''Basic '' @ out) = Inr (Some ([], Basic_credentials (Some out)))"
    unfolding http_read_credentials_def t option.case prod.case Let_def s e using b(2) by (simp add: Prelude.span_def)
  have better: "auth_scheme_is_better d AUTH_BASIC AUTH_UNKNOWN" by (simp add: auth_scheme_is_better_def)
  have "credentials_of_value d (''Basic '' @ out) Unknown_credentials = Inr (Some (Basic_credentials (Some out)))"
    using r better by (subst credentials_of_value.simps) (simp add: credentials_of_value.simps [of d "[]"])
  then show ?thesis
    using b(3) unfolding http_header_get_proxy_credentials_def
    by (subst credentials_of_header.simps) (simp add: http_header_next_def credentials_of_header.simps [of d "[]"])
qed

section \<open>The bytes that are relayed\<close>

fun bytes_to_server :: "'a action list \<Rightarrow> cstr" where
  "bytes_to_server [] = []"
| "bytes_to_server (To_server s # as) = s @ bytes_to_server as"
| "bytes_to_server (_ # as) = bytes_to_server as"

fun bytes_to_client :: "'a action list \<Rightarrow> cstr" where
  "bytes_to_client [] = []"
| "bytes_to_client (To_client s # as) = s @ bytes_to_client as"
| "bytes_to_client (_ # as) = bytes_to_client as"

lemma bytes_append [simp]:
  "bytes_to_server (as @ bs) = bytes_to_server as @ bytes_to_server bs"
  "bytes_to_client (as @ bs) = bytes_to_client as @ bytes_to_client bs"
  by (induction as rule: bytes_to_server.induct) simp_all

lemma read_some:
  assumes "stream buf \<noteq> []" "0 < n"
  shows "\<exists>i buf'. socket_buffer_read buf n = (int i, take i (stream buf), buf') \<and> 0 < i \<and> i \<le> n \<and> i \<le> length (stream buf) \<and>
    stream buf' = drop i (stream buf)"
proof (cases "refill buf")
  case (Inl x)
  then show ?thesis using assms(1) refill_stream [of buf] by (auto split: prod.splits)
next
  case (Inr b)
  have s: "stream b = stream buf" "Sock_Buffer.pos b < length (chunk b)" using refill_stream [of buf] Inr by simp_all
  define i where "i = min (length (chunk b) - Sock_Buffer.pos b) n"
  have i: "0 < i" "i \<le> n" "i \<le> length (drop (Sock_Buffer.pos b) (chunk b))" using s(2) assms(2) by (auto simp: i_def)
  have t: "take i (drop (Sock_Buffer.pos b) (chunk b)) = take i (stream buf)"
    using i(3) unfolding s(1) [symmetric] by (simp add: stream_def)
  have "stream (b\<lparr>Sock_Buffer.pos := Sock_Buffer.pos b + i\<rparr>) = drop i (stream buf)"
    using i(3) unfolding s(1) [symmetric] by (simp add: stream_def add.commute)
  moreover have "i \<le> length (stream buf)" using i(3) unfolding s(1) [symmetric] by (simp add: stream_def)
  ultimately show ?thesis using Inr i t by (auto simp: socket_buffer_read_def Let_def i_def [symmetric])
qed

lemma read_none:
  assumes "stream buf = []"
  shows "fst (socket_buffer_read buf n) \<le> 0"
  using refill_stream [of buf] assms
  by (auto simp: socket_buffer_read_def stream_def split: sum.split sum.split_asm prod.splits)

lemma emit_all: "\<forall>n. send_ok env n \<Longrightarrow> emit env a p = (True, p\<lparr>sends := sends p + 1, trace := trace p @ [a]\<rparr>)"
  by (simp add: emit_def)

lemma send_body_all:
  assumes "\<forall>n. send_ok env n" and "t \<le> len" and "nat (len - t) \<le> length (stream (client p))"
  shows "\<exists>p' acts. send_body env len t p = (0, len, p') \<and> server p' = server p \<and> trace p' = trace p @ acts \<and>
    bytes_to_server acts = take (nat (len - t)) (stream (client p)) \<and> bytes_to_client acts = []"
  using assms(2,3)
proof (induction "nat (len - t)" arbitrary: t p rule: less_induct)
  case less
  show ?case
  proof (cases "t < len")
    case False
    then show ?thesis using less.prems by (subst send_body.simps) (auto intro: exI [of _ "[]"])
  next
    case True
    let ?n = "min BUFSIZ (nat (len - t))"
    have "0 < ?n" using True by (simp add: BUFSIZ_def)
    moreover have "stream (client p) \<noteq> []" using True less.prems(2) by auto
    ultimately obtain i c where r: "socket_buffer_read (client p) ?n = (int i, take i (stream (client p)), c)"
      and i: "0 < i" "i \<le> ?n" "i \<le> length (stream (client p))" and c: "stream c = drop i (stream (client p))"
      using read_some by blast
    let ?a = "To_server (take i (stream (client p)))"
    let ?p = "p\<lparr>client := c, sends := sends p + 1, trace := trace p @ [?a]\<rparr>"
    have step: "send_body env len t p = send_body env len (t + int i) ?p"
      using True r i(1) by (subst send_body.simps) (simp add: emit_all [OF assms(1)] Let_def)
    have "t + int i \<le> len" "nat (len - (t + int i)) < nat (len - t)" "nat (len - (t + int i)) \<le> length (stream (client ?p))"
      using i True less.prems(2) by (auto simp: c)
    from less.hyps [OF this(2,1,3)] obtain p' acts where p': "send_body env len (t + int i) ?p = (0, len, p')"
      "server p' = server p" "trace p' = trace p @ ?a # acts"
      "bytes_to_server acts = take (nat (len - (t + int i))) (drop i (stream (client p)))" "bytes_to_client acts = []"
      by (auto simp: c)
    have "int i \<le> len - t" using i(1,2) True by linarith
    then have "nat (len - t) = i + nat (len - (t + int i))" by simp
    then have "bytes_to_server (?a # acts) = take (nat (len - t)) (stream (client p))"
      using p'(4) by (simp only: bytes_to_server.simps take_add)
    then show ?thesis using p' step by (intro exI [of _ p'] exI [of _ "?a # acts"]) simp
  qed
qed

text \<open>What the body of a response is, by the length that is announced.\<close>

definition body_part :: "bool \<Rightarrow> int \<Rightarrow> cstr \<Rightarrow> cstr" where
  "body_part len_set len s = (if len_set then take (nat len) s else s)"

lemma relay_body_all:
  assumes "\<forall>n. send_ok env n"
  shows "\<exists>acts. trace (relay_body env len_set len t p) = trace p @ acts \<and> bytes_to_server acts = [] \<and>
    bytes_to_client acts = body_part len_set (len - t) (stream (server p))"
proof (induction "length (stream (server p))" arbitrary: t p rule: less_induct)
  case less
  let ?s = "stream (server p)"
  define cnt where "cnt = (if len_set \<and> nat (len - t) < BUFSIZ then nat (len - t) else BUFSIZ)"
  have step: "relay_body env len_set len t p =
      (if \<not> len_set \<or> t < len
       then case socket_buffer_read (server p) cnt of
              (n, buf, s) \<Rightarrow> if n \<le> 0 then p\<lparr>server := s\<rparr>
                else relay_body env len_set len (t + n) (p\<lparr>server := s, sends := sends p + 1, trace := trace p @ [To_client buf]\<rparr>)
       else p)"
    by (subst relay_body.simps) (simp add: cnt_def emit_all [OF assms] Let_def split: prod.split)
  show ?case
  proof (cases "\<not> len_set \<or> t < len")
    case False
    then have "relay_body env len_set len t p = p" unfolding step by simp
    then show ?thesis using False by (auto simp: body_part_def intro: exI [of _ "[]"])
  next
    case go: True
    have cnt: "0 < cnt" using go by (auto simp: cnt_def BUFSIZ_def)
    show ?thesis
    proof (cases "?s = []")
      case True
      obtain n buf s where r: "socket_buffer_read (server p) cnt = (n, buf, s)" by (cases "socket_buffer_read (server p) cnt")
      then have "n \<le> 0" using read_none [OF True, of cnt] by simp
      then have "trace (relay_body env len_set len t p) = trace p" unfolding step using r go by simp
      then show ?thesis using True by (auto simp: body_part_def intro: exI [of _ "[]"])
    next
      case False
      from read_some [OF this cnt] obtain i s' where r: "socket_buffer_read (server p) cnt = (int i, take i ?s, s')"
        and i: "0 < i" "i \<le> cnt" "i \<le> length ?s" and s': "stream s' = drop i ?s" by blast
      let ?p = "p\<lparr>server := s', sends := sends p + 1, trace := trace p @ [To_client (take i ?s)]\<rparr>"
      have e: "relay_body env len_set len t p = relay_body env len_set len (t + int i) ?p"
        unfolding step using r go i(1) by simp
      have "length (stream (server ?p)) < length ?s" using i(1,3) by (simp add: s')
      from less.hyps [OF this, of "t + int i"] obtain acts where
        acts: "trace (relay_body env len_set len (t + int i) ?p) = trace p @ To_client (take i ?s) # acts"
        "bytes_to_server acts = []" "bytes_to_client acts = body_part len_set (len - (t + int i)) (drop i ?s)"
        by (auto simp: s')
      have "take i ?s @ body_part len_set (len - (t + int i)) (drop i ?s) = body_part len_set (len - t) ?s"
      proof (cases len_set)
        case True
        then have "int i \<le> len - t" using i(2) go by (simp add: cnt_def split: if_splits)
        then have "nat (len - t) = i + nat (len - (t + int i))" by simp
        then show ?thesis using True by (simp add: body_part_def take_add)
      qed (simp add: body_part_def)
      then show ?thesis using acts unfolding e by (intro exI [of _ "To_client (take i ?s) # acts"]) simp
    qed
  qed
qed

text \<open>A request that is sent on has lost its hop-by-hop fields and has one Host and one Connection field.\<close>

lemma hop_by_hop_kept:
  "http_header_remove_hop_by_hop h = (0, h') \<Longrightarrow> set h' \<subseteq> {f \<in> set h. \<forall>n\<in>set HOP_BY_HOP_HEADERS. \<not> field_name_equal (fst f) n}"
  by (auto simp: http_header_remove_hop_by_hop_def Let_def remove_all_filter split: option.splits prod.splits if_splits)

lemma hop_by_hop_named:
  assumes "http_header_remove_hop_by_hop h = (0, h')" "http_header_get h ''Connection'' = Some c" "read_token_list c = Some (r, ts)"
  shows "\<forall>f\<in>set h'. \<forall>t\<in>set ts. \<not> field_name_equal (fst f) t"
  using assms by (auto simp: http_header_remove_hop_by_hop_def Let_def remove_all_filter split: if_splits)

section \<open>What the code promises of the proxy\<close>

text \<open>
  C33. With a password set, a connection is opened or a byte is sent to another server only for a request
  whose header, as it was read from this client and parsed, carries credentials that the check accepts for
  the method of the request; in every other case the proxy only ever writes to the client.
\<close>

theorem proxy_requires_authentication:
  assumes "http_server_handler env p = Some (Inr q)" and "o_proxy_auth env \<noteq> None"
    and "\<nexists>ss. trace q = trace p @ map To_client ss"
  shows "\<exists>line c request mt hdr c' request' h cr stale.
    http_read_request_line (client p) = (0, line, c) \<and> http_parse_request_line (the line) = Inr (0, request) \<and>
    req_method request = Live mt \<and> http_read_header c = (0, hdr, c') \<and>
    http_request_parse_header request (the hdr) = Some (Inr (0, request')) \<and> req_header request' = Fields h \<and>
    http_header_get_proxy_credentials (have_digest env) h = Inr (Some cr) \<and> check_auth env mt cr = Inr (True, stale)"
proof -
  have "\<not> quiet p q" using assms(3) by (simp add: quiet_def)
  with handler_cases [OF assms(1)] obtain line c request mt hdr c' request' p'
    where r: "http_read_request_line (client p) = (0, line, c)" "http_parse_request_line (the line) = Inr (0, request)"
    "req_method request = Live mt" "http_read_header c = (0, hdr, c')"
    "http_request_parse_header request (the hdr) = Some (Inr (0, request'))"
    and au: "authenticate env mt request' (p\<lparr>client := c'\<rparr>) = Inr (True, p')"
    by blast
  from authenticated [OF au assms(2)] r show ?thesis by blast
qed

text \<open>A client that sends the right password, in two segments.\<close>

definition demo_env :: "unit proxy_env" where
  "demo_env =
     \<lparr>o_proxy_auth = Some ''u:p'', o_portno = 8080, have_digest = False, env_md5 = (\<lambda>x. x), env_secret = None,
      check_time = (0, 0), challenge_time = None, resolve = (\<lambda>h n. Some ()), addr_local = (\<lambda>a. False),
      connect = (\<lambda>a. Some []), relay_events = [From_server (Received ''hi'')], send_ok = (\<lambda>n. True)\<rparr>"

definition demo_line :: cstr where
  "demo_line = ''CONNECT a:81 HTTP/1.0'' @ [CR, LF]"

definition demo_header :: cstr where
  "demo_header = ''Proxy-Authorization: Basic dTpw'' @ [CR, LF, CR, LF]"

definition demo_proxy :: "unit proxy" where
  "demo_proxy = \<lparr>client = socket_buffer_init [Received demo_line, Received demo_header],
     server = socket_buffer_init [], sends = 0, trace = []\<rparr>"

lemma demo_run:
  "\<exists>q. http_server_handler demo_env demo_proxy = Some (Inr q) \<and>
    trace q = [Connect (), To_client (http_code2str 200), To_server [], To_client ''hi'']"
proof -
  let ?c = "\<lparr>chunk = demo_line, pos = length demo_line, input = [Received demo_header]\<rparr>"
  let ?d = "\<lparr>chunk = demo_header, pos = length demo_header, input = []\<rparr>"
  let ?u = "\<lparr>u_scheme = Null, u_host = Live ''a'', u_port = 81, u_path = Null\<rparr>"
  let ?r = "\<lparr>req_method = Live ''CONNECT'', req_uri = ?u, req_version = HTTP_10, req_header = Fields [],
     req_content_length_set = False, req_content_length = 0, req_bytes_transferred = 0\<rparr>"
  let ?h = "[(''Proxy-Authorization'', ''Basic dTpw'')]"
  have l: "http_read_request_line (client demo_proxy) = (0, Some demo_line, ?c)" by code_simp
  have r: "http_parse_request_line demo_line = Inr (0, ?r)" by code_simp
  have h: "http_read_header ?c = (0, Some demo_header, ?d)" by code_simp
  have f: "\<forall>c\<in>set ''dTpw''. base64_char c" "''dTpw'' \<noteq> []" "http_header_get_content_length ?h = (0, False, 0)"
    "method_is_known ''CONNECT''"
    by code_simp+
  have "http_parse_header (http_header_to_string ?h @ [CR, LF]) = Some (Inr (0, ?h, False))"
    using parse_fields [of ?h "[]"] basic_field_ok [OF f(1,2)] by (simp add: http_parse_header_def)
  then have p: "http_request_parse_header ?r demo_header = Some (Inr (0, ?r\<lparr>req_header := Fields ?h\<rparr>))"
    using f(3) by (simp add: demo_header_def http_header_to_string_def http_request_parse_header_def header_result_def)
  have c: "check_auth demo_env ''CONNECT'' (Basic_credentials (Some ''dTpw'')) = Inr (True, False)" by code_simp
  have a: "authenticate demo_env ''CONNECT'' (?r\<lparr>req_header := Fields ?h\<rparr>) x = Inr (True, x)" for x
    using basic_credentials [OF f(1,2), of "have_digest demo_env"] c by (simp add: authenticate_def demo_env_def)
  show ?thesis
    unfolding http_server_handler_def l prod.case Let_def
    by (simp add: r h p a [simplified] f(4)) (simp add: dispatch_def handle_connect_def resolve_host_def demo_env_def demo_proxy_def
      send_string_def emit_def socket_buffer_remainder_def finish_def http_request_free_def uri_free_def)
qed

theorem proxy_requires_authentication_witness:
  "\<exists>line c request method header c' request' h cr stale.
    http_read_request_line (client demo_proxy) = (0, line, c) \<and> http_parse_request_line (the line) = Inr (0, request) \<and>
    req_method request = Live method \<and> http_read_header c = (0, header, c') \<and>
    http_request_parse_header request (the header) = Some (Inr (0, request')) \<and> req_header request' = Fields h \<and>
    http_header_get_proxy_credentials False h = Inr (Some cr) \<and> check_auth demo_env method cr = Inr (True, stale)"
proof -
  obtain q where q: "http_server_handler demo_env demo_proxy = Some (Inr q)"
    "trace q = [Connect (), To_client (http_code2str 200), To_server [], To_client ''hi'']"
    using demo_run by blast
  have "\<nexists>ss. trace q = trace demo_proxy @ map To_client ss"
    unfolding q(2) by (auto simp: demo_proxy_def Cons_eq_map_conv)
  from proxy_requires_authentication [OF q(1) _ this] show ?thesis by (simp add: demo_env_def)
qed

text \<open>
  C40. Basic authentication from one end to the other: the header that the client writes for its user name
  and password parses to one field, the reader of credentials takes the encoded text from it, and the server
  accepts it exactly when its own user name and password are the same string.
\<close>

theorem basic_auth_exact:
  assumes "pa \<noteq> []" and "length pa < 2 ^ 29" and "length pa' < 2 ^ 29"
    and "ch_scheme ch = AUTH_BASIC" and "o_proxy_auth env = Some pa'"
  shows "\<exists>header h cr.
    http_connect_request_auth digest md5 rand pa url turl ch = Inr (Some (''CONNECT '' @ url @ '' HTTP/1.0'' @ [CR, LF] @ header)) \<and>
    http_parse_header header = Some (Inr (0, h, False)) \<and>
    http_header_get_proxy_credentials d h = Inr (Some cr) \<and> check_auth env method cr = Inr (pa' = pa, False)"
proof -
  let ?out = "b64enc_internal (bytes_of pa)"
  let ?h = "[(''Proxy-Authorization'', ''Basic '' @ ?out)]"
  have c: "\<forall>c\<in>set ?out. base64_char c" using enc_facts bytes_of_ok by blast
  have "length ?out \<noteq> 0" using assms(1) by (cases pa) (simp_all add: enc_length bytes_of_def)
  then have ne: "?out \<noteq> []" by simp
  have "http_parse_header (http_header_to_string ?h @ [CR, LF]) = Some (Inr (0, ?h, False))"
    using parse_fields [of ?h "[]"] basic_field_ok [OF c ne] by (simp add: http_parse_header_def)
  moreover have "http_connect_request_auth digest md5 rand pa url turl ch =
      Inr (Some (''CONNECT '' @ url @ '' HTTP/1.0'' @ [CR, LF] @ http_header_to_string ?h @ [CR, LF]))"
    using assms(4) enc_ok [OF assms(2)]
    by (simp add: http_connect_request_auth_def append_connect_request_line_def crlf_line_def http_header_to_string_def)
  moreover have "check_auth env method (Basic_credentials (Some ?out)) = Inr (pa' = pa, False)"
    using enc_ok [OF assms(3)] enc_inj [of pa' pa] by (simp add: check_auth_def assms(5))
  ultimately show ?thesis using basic_credentials [OF c ne, of d] by blast
qed

theorem basic_auth_exact_witness:
  "\<exists>header h cr.
    http_connect_request_auth False (\<lambda>x. x) None ''u:p'' ''a:81'' ''a:81'' (http_challenge_init\<lparr>ch_scheme := AUTH_BASIC\<rparr>) =
      Inr (Some (''CONNECT a:81 HTTP/1.0'' @ [CR, LF] @ header)) \<and>
    http_parse_header header = Some (Inr (0, h, False)) \<and>
    http_header_get_proxy_credentials False h = Inr (Some cr) \<and> check_auth demo_env ''CONNECT'' cr = Inr (True, False)"
  using basic_auth_exact [of "''u:p''" "''u:p''" "http_challenge_init\<lparr>ch_scheme := AUTH_BASIC\<rparr>" demo_env False "\<lambda>x. x" None "''a:81''" "''a:81''" False "''CONNECT''"]
  by (simp add: demo_env_def)

text \<open>
  C34. A request that is sent on asks for HTTP/1.0, carries none of the hop-by-hop fields of the client and no
  field that the client's Connection field names, and then exactly one Host field with the name and the port of
  the target and one Connection field, which says close; its method and target are the client's.
\<close>

theorem forwarded_request_clean:
  assumes "outgoing_request r = Inr (0, r')" and "req_header r = Fields h" and "u_host (req_uri r) = Live host"
  shows "req_version r' = HTTP_10 \<and> req_method r' = req_method r \<and> req_uri r' = req_uri r \<and>
    (\<exists>kept. req_header r' = Fields (kept @ [(''Host'', host_field (req_uri r) host), (''Connection'', ''close'')]) \<and>
      (\<forall>f\<in>set kept. f \<in> set h \<and> map to_lower (fst f) \<noteq> ''host'' \<and>
        (\<forall>n\<in>set HOP_BY_HOP_HEADERS. map to_lower (fst f) \<noteq> map to_lower n) \<and>
        (\<forall>c rest ts. http_header_get h ''Connection'' = Some c \<and> read_token_list c = Some (rest, ts) \<longrightarrow>
           (\<forall>t\<in>set ts. map to_lower (fst f) \<noteq> map to_lower t))))"
proof -
  have nm: "map to_lower ''Host'' = ''host''" "map to_lower ''Connection'' \<noteq> map to_lower ''Host''" by code_simp+
  obtain h' where h': "http_header_remove_hop_by_hop h = (0, h')"
    and r': "r' = r\<lparr>req_version := HTTP_10, req_header := Fields (http_header_set (http_header_set h' ''Host''
        (host_field (req_uri r) host)) ''Connection'' ''close'')\<rparr>"
    using assms by (auto simp: outgoing_request_def bind_out_Inr Let_def split: if_splits prod.splits)
  define kept where "kept = filter (\<lambda>f. \<not> field_name_equal (fst f) ''Host'' \<and> \<not> field_name_equal (fst f) ''Connection'') h'"
  have "\<not> field_name_equal ''Host'' ''Connection''" by code_simp
  then have "req_header r' = Fields (kept @ [(''Host'', host_field (req_uri r) host), (''Connection'', ''close'')])"
    unfolding r' by (simp add: http_header_set_def remove_filter kept_def conj_commute)
  moreover have "\<forall>f\<in>set kept. f \<in> set h' \<and> map to_lower (fst f) \<noteq> ''host''"
    unfolding kept_def field_name_equal_def str_equal_i_iff nm(1) by simp
  moreover have "\<forall>f\<in>set h'. f \<in> set h \<and> (\<forall>n\<in>set HOP_BY_HOP_HEADERS. map to_lower (fst f) \<noteq> map to_lower n)"
    using hop_by_hop_kept [OF h'] unfolding field_name_equal_def str_equal_i_iff by blast
  moreover have "\<forall>f\<in>set h'. \<forall>c rest ts. http_header_get h ''Connection'' = Some c \<and> read_token_list c = Some (rest, ts) \<longrightarrow>
      (\<forall>t\<in>set ts. map to_lower (fst f) \<noteq> map to_lower t)"
    using hop_by_hop_named [OF h'] unfolding field_name_equal_def str_equal_i_iff by blast
  moreover have "req_version r' = HTTP_10 \<and> req_method r' = req_method r \<and> req_uri r' = req_uri r" unfolding r' by simp
  ultimately show ?thesis by (intro conjI exI [of _ kept] ballI) metis+
qed

definition demo_request :: http_request where
  "demo_request =
     \<lparr>req_method = Live ''GET'', req_uri = \<lparr>u_scheme = Live ''http'', u_host = Live ''a'', u_port = 80, u_path = Live ''/''\<rparr>,
      req_version = HTTP_11, req_header = Fields [(''X'', ''1''), (''connection'', ''Y''), (''y'', ''2''), (''TE'', ''t'')],
      req_content_length_set = False, req_content_length = 0, req_bytes_transferred = 0\<rparr>"

definition demo_forwarded :: http_request where
  "demo_forwarded = demo_request\<lparr>req_version := HTTP_10,
     req_header := Fields [(''X'', ''1''), (''Host'', ''a''), (''Connection'', ''close'')]\<rparr>"

lemma demo_outgoing: "outgoing_request demo_request = Inr (0, demo_forwarded)"
  by code_simp

theorem forwarded_request_clean_witness:
  "req_version demo_forwarded = HTTP_10 \<and>
    (\<exists>kept. req_header demo_forwarded = Fields (kept @ [(''Host'', ''a''), (''Connection'', ''close'')]) \<and>
      (\<forall>f\<in>set kept. \<forall>n\<in>set HOP_BY_HOP_HEADERS. map to_lower (fst f) \<noteq> map to_lower n))"
proof -
  have f: "req_header demo_request = Fields [(''X'', ''1''), (''connection'', ''Y''), (''y'', ''2''), (''TE'', ''t'')]"
    "u_host (req_uri demo_request) = Live ''a''" "host_field (req_uri demo_request) ''a'' = ''a''"
    by code_simp+
  show ?thesis using forwarded_request_clean [OF demo_outgoing f(1,2)] unfolding f(3) by blast
qed

text \<open>
  C35. When every send succeeds, a transaction relays exactly: the server receives the printed request and the
  announced number of bytes of the client's body, and the client receives the printed response and the body of
  the response, up to the announced length or, without one, up to the end of the server's stream, however the
  streams of both sides are cut into segments.
\<close>

theorem transaction_relays:
  assumes "\<forall>n. send_ok env n"
    and "outgoing_request r = Inr (0, r')" and "http_request_to_string r' = Inr rq"
    and "req_bytes_transferred r' = 0" and "0 \<le> req_content_length r'"
    and "nat (req_content_length r') \<le> length (stream (client p))"
    and "is_line sl" and "length sl < 1024" and "http_parse_status_line sl = Inr (0, r0)"
    and "header_block ls" and "length (concat ls) < MAX_HEADER_LENGTH" and "stream (server p) = sl @ concat ls @ body"
    and "http_response_parse_header r0 (concat ls) = Some (Inr (0, r1))" and "resp_header r1 = Fields h"
    and "http_header_remove_hop_by_hop h = (0, h')"
    and "r2 = r1\<lparr>resp_version := HTTP_10, resp_header := Fields (http_header_set h' ''Connection'' ''close'')\<rparr>"
    and "http_response_to_string r2 = Inr rs"
  shows "\<exists>r3 q acts. do_transaction env r p = Some (Inr (0, r3, q)) \<and> trace q = trace p @ acts \<and>
    bytes_to_server acts = rq @ take (nat (req_content_length r')) (stream (client p)) \<and>
    bytes_to_client acts = rs @ body_part (resp_content_length_set r1) (resp_content_length r1) body"
proof -
  let ?p = "p\<lparr>sends := sends p + 1, trace := trace p @ [To_server rq]\<rparr>"
  obtain p1 a1 where b: "send_body env (req_content_length r') 0 ?p = (0, req_content_length r', p1)" "server p1 = server p"
    "trace p1 = trace p @ To_server rq # a1" "bytes_to_client a1 = []"
    "bytes_to_server a1 = take (nat (req_content_length r')) (stream (client p))"
    using send_body_all [OF assms(1,5), of ?p] assms(6) by auto
  have tr: "transaction_request env r p = Inr (0, r'\<lparr>req_bytes_transferred := req_content_length r'\<rparr>, p1)"
    using assms(2-4) b(1) by (simp add: transaction_request_def emit_all [OF assms(1)])
  have fl: "first_line (stream (server p)) = sl" "LF \<in> set (stream (server p))"
    using first_line_is_line [OF assms(7)] unfolding assms(12) by simp_all
  obtain res k s1 where "socket_buffer_readline (server p) MAX_STATUS_LINE_LENGTH = (res, k, s1)"
    by (cases "socket_buffer_readline (server p) MAX_STATUS_LINE_LENGTH") auto
  then have sl: "http_read_status_line (server p) = (0, Some sl, s1)" "stream s1 = concat ls @ body"
    using readline_ok [of MAX_STATUS_LINE_LENGTH "server p"] fl assms(8)
    by (auto simp: http_read_status_line_def MAX_STATUS_LINE_LENGTH_def assms(12))
  obtain s2 where s2: "http_read_header s1 = (0, Some (concat ls), s2)" "stream s2 = body"
    using read_header_loop_ok [OF assms(10) sl(2), of "[]"] assms(11)
    by (auto simp: http_read_header_def MAX_HEADER_LENGTH_def)
  let ?q = "p1\<lparr>server := s2, sends := sends p1 + 1, trace := trace p1 @ [To_client rs]\<rparr>"
  let ?e = "relay_body env (resp_content_length_set r1) (resp_content_length r1) 0 ?q"
  obtain a2 where a2: "trace ?e = trace ?q @ a2" "bytes_to_server a2 = []"
    "bytes_to_client a2 = body_part (resp_content_length_set r1) (resp_content_length r1) body"
    using relay_body_all [OF assms(1), of "resp_content_length_set r1" "resp_content_length r1" 0 ?q] s2(2) by auto
  obtain fr where fr: "http_response_free r2 = Inr fr"
    using assms(16,17) by (cases "resp_phrase r1"; cases "http_header_set h' ''Connection'' ''close''")
      (auto simp: http_response_free_def http_response_to_string_def)
  have "transaction_response env p1 = Some (Inr (0, ?e))"
    using sl(1) assms(9) s2(1) assms(13-15,17) fr b(2)
    by (simp add: transaction_response_def Let_def emit_all [OF assms(1)] assms(16))
  then have "do_transaction env r p = Some (Inr (0, r'\<lparr>req_bytes_transferred := req_content_length r'\<rparr>, ?e))"
    by (simp add: do_transaction_def tr)
  moreover have "trace ?e = trace p @ To_server rq # a1 @ To_client rs # a2" using a2(1) b(3) by simp
  ultimately show ?thesis using a2(2,3) b(4,5)
    by (intro exI [of _ "r'\<lparr>req_bytes_transferred := req_content_length r'\<rparr>"] exI [of _ ?e]
      exI [of _ "To_server rq # a1 @ To_client rs # a2"] conjI) simp_all
qed

theorem transaction_relays_witness:
  "\<exists>r3 q acts. do_transaction demo_env demo_request
      (demo_proxy\<lparr>server := socket_buffer_init [Received (''HTTP/1.1 81 O'' @ [CR, LF]), Received [CR, LF, CHR ''h''], Received ''i'']\<rparr>) =
        Some (Inr (0, r3, q)) \<and> trace q = acts \<and>
    bytes_to_client acts = ''HTTP/1.0 81 O'' @ [CR, LF] @ ''Connection: close'' @ [CR, LF, CR, LF] @ ''hi''"
proof -
  let ?sl = "''HTTP/1.1 81 O'' @ [CR, LF]"
  let ?p = "demo_proxy\<lparr>server := socket_buffer_init [Received ?sl, Received [CR, LF, CHR ''h''], Received ''i'']\<rparr>"
  let ?r0 = "\<lparr>resp_version = HTTP_11, resp_code = 81, resp_phrase = Live ''O'', resp_header = Fields [],
    resp_content_length_set = False, resp_content_length = 0, resp_bytes_transferred = 0\<rparr>"
  let ?rq = "''GET / HTTP/1.0'' @ [CR, LF] @ ''X: 1'' @ [CR, LF] @ ''Host: a'' @ [CR, LF] @ ''Connection: close'' @ [CR, LF, CR, LF]"
  have rq: "http_request_to_string demo_forwarded = Inr ?rq" by code_simp
  have sl: "is_line ?sl" unfolding is_line_def by (rule exI [of _ "''HTTP/1.1 81 O'' @ [CR]"]) simp
  have st: "http_parse_status_line ?sl = Inr (0, ?r0)" by code_simp
  have "is_line [CR, LF]" unfolding is_line_def by (rule exI [of _ "[CR]"]) simp
  then have hb: "header_block [[CR, LF]]" by (simp add: is_crlf_def)
  have ph: "http_response_parse_header ?r0 (concat [[CR, LF]]) = Some (Inr (0, ?r0))"
    using parse_fields [of "[]" "[]"]
    by (simp add: http_response_parse_header_def http_parse_header_def header_result_def http_header_to_string_def
      http_header_get_content_length_def http_header_get_first_def http_header_next_def)
  have hh: "http_header_remove_hop_by_hop [] = (0, [])" by code_simp
  have rs: "http_response_to_string (?r0\<lparr>resp_version := HTTP_10, resp_header := Fields (http_header_set [] ''Connection'' ''close'')\<rparr>) =
    Inr (''HTTP/1.0 81 O'' @ [CR, LF] @ ''Connection: close'' @ [CR, LF, CR, LF])"
    by code_simp
  have t: "req_bytes_transferred demo_forwarded = 0" "0 \<le> req_content_length demo_forwarded"
    "nat (req_content_length demo_forwarded) \<le> length (stream (client ?p))"
    "stream (server ?p) = ?sl @ concat [[CR, LF]] @ ''hi''"
    by (simp_all add: demo_forwarded_def demo_request_def socket_buffer_init_def stream_def)
  have s: "\<forall>n. send_ok demo_env n" by (simp add: demo_env_def)
  have rh: "resp_header ?r0 = Fields []" by simp
  have l: "length ?sl < 1024" "length (concat [[CR, LF]]) < MAX_HEADER_LENGTH" by (simp_all add: MAX_HEADER_LENGTH_def)
  have "\<exists>r3 q acts. do_transaction demo_env demo_request ?p = Some (Inr (0, r3, q)) \<and> trace q = trace ?p @ acts \<and>
    bytes_to_server acts = ?rq @ take (nat (req_content_length demo_forwarded)) (stream (client ?p)) \<and>
    bytes_to_client acts = (''HTTP/1.0 81 O'' @ [CR, LF] @ ''Connection: close'' @ [CR, LF, CR, LF]) @
      body_part (resp_content_length_set ?r0) (resp_content_length ?r0) ''hi''"
    by (rule transaction_relays [OF s demo_outgoing rq t(1-3) sl l(1) st hb l(2) t(4) ph rh hh refl rs])
  then show ?thesis by (auto simp: body_part_def demo_proxy_def)
qed

end
