(* ===== verification/Nsock_Event.thy ===== *)
theory Nsock_Event
  imports Expirables
begin

text \<open>
  The events of an nsock pool (nsock/src/nsock_event.c, nsock_core.c, nsock_iod.c and the select engine),
  as built without OpenSSL and libpcap: how events are created, queued, completed, dispatched to the
  program's handlers, cancelled and recycled.

  The memory of the library is explicit: events and iods are structures at addresses, and event structures
  are recycled through the list of free events.  The intrusive lists are sequences of addresses, which is
  what the theory of the lists shows that their operations implement; a node is in at most one list, so
  \<open>gh_lnode_next\<close> looks it up in the list that holds it.  The heap of timers is the heap of Gh_Heap with the
  comparison that reads the timeouts in memory.  A handler is an arbitrary function on the pool, so that what
  it does to the pool while the library is in the middle of an operation is part of the model.
\<close>

unbundle bit_operations_syntax

section \<open>Structures\<close>

datatype nse_type = NSE_TYPE_CONNECT | NSE_TYPE_CONNECT_SSL | NSE_TYPE_READ | NSE_TYPE_WRITE
  | NSE_TYPE_TIMER | NSE_TYPE_PCAP_READ

datatype nse_status = NSE_STATUS_NONE | NSE_STATUS_SUCCESS | NSE_STATUS_ERROR | NSE_STATUS_TIMEOUT
  | NSE_STATUS_CANCELLED | NSE_STATUS_KILL | NSE_STATUS_EOF | NSE_STATUS_PROXYERROR

datatype nsock_read_types = NSOCK_READLINES | NSOCK_READBYTES | NSOCK_READ

datatype iod_state = NSIOD_STATE_DELETED | NSIOD_STATE_INITIAL | NSIOD_STATE_UNKNOWN
  | NSIOD_STATE_CONNECTED_TCP | NSIOD_STATE_CONNECTED_UDP

datatype nsock_del_mode = NSOCK_PENDING_SILENT | NSOCK_PENDING_NOTIFY | NSOCK_PENDING_ERROR

text \<open>The error numbers that the code tells apart; on Linux \<open>EWOULDBLOCK\<close> is \<open>EAGAIN\<close>.\<close>

datatype errno = EINTR | EAGAIN | EBUSY | EINPROGRESS | ENOTSOCK | EMSGSIZE | Errno int

text \<open>Results of the reading and writing operations on a descriptor, \<open>Got []\<close> being the end of the data.\<close>

datatype read_result = Got cstr | Read_error errno

datatype write_result = Wrote nat | Write_error errno

text \<open>Addresses of sockets; a port is in host order.\<close>

datatype sa_family = AF_UNSPEC | AF_UNIX | AF_INET | AF_INET6 | AF_VSOCK | AF_unknown int

record sockaddr_storage =
  ss_family :: sa_family
  ss_port :: int
  ss_data :: cstr

text \<open>The three lists of pending events and the fields of an iod that point into them.\<close>

datatype evkind = Connects | Reads | Writes

text \<open>
  \<open>ev_handler\<close> is the handler with its \<open>userdata\<close>.  The contents of the \<open>iobuf\<close> filespace is a string; that the
  filespace holds it is shown in the theory of the buffers.  \<open>fs_cat\<close> fails only for a negative length.
\<close>

record 'h nevent =
  ev_id :: u64
  ev_type :: nse_type
  ev_status :: nse_status
  iobuf :: cstr
  ev_timeout :: timeval
  read_type :: nsock_read_types
  read_num :: int
  written_so_far :: nat
  ev_errnum :: "errno option"
  ev_iod :: "nat option"
  ev_handler :: 'h
  event_done :: bool
  ev_eof :: bool

text \<open>
  \<open>in_reads\<close>, \<open>out_writes\<close> and \<open>so_error\<close> are what the operating system answers on the descriptor, call after
  call (\<open>EAGAIN\<close> where a list ends), and \<open>sent\<close> is what it was given to send.
\<close>

record niod =
  sd :: int
  iod_pending :: int
  first_ev :: "evkind \<Rightarrow> nat option"
  readsd_count :: int
  writesd_count :: int
  watched_events :: int
  state :: iod_state
  registered :: bool
  iod_eof :: bool
  iod_stdin :: bool
  read_count :: nat
  write_count :: nat
  in_reads :: "read_result list"
  out_writes :: "write_result list"
  so_error :: "errno option"
  sent :: cstr
  peer :: sockaddr_storage
  peerlen :: nat
  lastproto :: int

text \<open>The data of the select engine; the result sets are what the last \<open>select\<close> left in them.\<close>

record select_engine_info =
  fds_master_r :: "int set"
  fds_master_w :: "int set"
  fds_master_x :: "int set"
  fds_results_r :: "int set"
  fds_results_w :: "int set"
  fds_results_x :: "int set"
  max_sd :: int

text \<open>
  \<open>ev_brk\<close> is the next address \<open>safe_malloc\<close> returns for an event, \<open>clock\<close> what \<open>gettimeofday\<close> returns next (the time
  stands still where it ends), and \<open>calls\<close> the handlers called so far, with the event and the status they saw.
\<close>

record 'h npool =
  events :: "nat \<Rightarrow> 'h nevent"
  iods :: "nat \<Rightarrow> niod"
  queue :: "evkind \<Rightarrow> nat list"
  expirables :: "nat gh_heap"
  active_iods :: "nat list"
  free_iods :: "nat list"
  free_events :: "nat list"
  pool_pending :: int
  next_event_serial :: u64
  quit :: bool
  nsock_tod :: timeval
  sinfo :: select_engine_info
  ev_brk :: nat
  clock :: "timeval list"
  calls :: "('h \<times> u64 \<times> nse_status) list"

type_synonym 'h handlers = "'h \<Rightarrow> nat \<Rightarrow> 'h npool \<Rightarrow> 'h npool outcome"

definition set_ev :: "'h npool \<Rightarrow> nat \<Rightarrow> ('h nevent \<Rightarrow> 'h nevent) \<Rightarrow> 'h npool" where
  "set_ev p e f = p\<lparr>events := (events p)(e := f (events p e))\<rparr>"

definition set_iod :: "'h npool \<Rightarrow> nat \<Rightarrow> (niod \<Rightarrow> niod) \<Rightarrow> 'h npool" where
  "set_iod p i f = p\<lparr>iods := (iods p)(i := f (iods p i))\<rparr>"

definition set_queue :: "'h npool \<Rightarrow> evkind \<Rightarrow> nat list \<Rightarrow> 'h npool" where
  "set_queue p k l = p\<lparr>queue := (queue p)(k := l)\<rparr>"

definition gettimeofday :: "'h npool \<Rightarrow> 'h npool" where
  "gettimeofday p = (case clock p of [] \<Rightarrow> p | t # r \<Rightarrow> p\<lparr>nsock_tod := t, clock := r\<rparr>)"

text \<open>The heap of timers with its comparison reading the timeouts.\<close>

definition timers :: "'h npool \<Rightarrow> nat gh_heap" where
  "timers p = (expirables p)\<lparr>cmp_op := Some (expirable_cmp (\<lambda>e. ev_timeout (events p e)))\<rparr>"

section \<open>Lists\<close>

definition kind_of :: "nse_type \<Rightarrow> evkind option" where
  "kind_of t =
     (case t of
        NSE_TYPE_CONNECT \<Rightarrow> Some Connects
      | NSE_TYPE_CONNECT_SSL \<Rightarrow> Some Connects
      | NSE_TYPE_READ \<Rightarrow> Some Reads
      | NSE_TYPE_WRITE \<Rightarrow> Some Writes
      | _ \<Rightarrow> None)"

fun next_in :: "'a list \<Rightarrow> 'a \<Rightarrow> 'a option" where
  "next_in (x # y # r) e = (if x = e then Some y else next_in (y # r) e)"
| "next_in _ e = None"

fun prev_in :: "'a list \<Rightarrow> 'a \<Rightarrow> 'a option" where
  "prev_in (x # y # r) e = (if y = e then Some x else prev_in (y # r) e)"
| "prev_in _ e = None"

definition list_of :: "'h npool \<Rightarrow> nat \<Rightarrow> nat list" where
  "list_of p e =
     (if e \<in> set (queue p Connects) then queue p Connects
      else if e \<in> set (queue p Reads) then queue p Reads
      else if e \<in> set (queue p Writes) then queue p Writes
      else if e \<in> set (free_events p) then free_events p
      else [])"

definition gh_lnode_next :: "'h npool \<Rightarrow> nat \<Rightarrow> nat option" where
  "gh_lnode_next p e = next_in (list_of p e) e"

definition gh_lnode_prev :: "'h npool \<Rightarrow> nat \<Rightarrow> nat option" where
  "gh_lnode_prev p e = prev_in (list_of p e) e"

definition list_remove :: "'a list \<Rightarrow> 'a \<Rightarrow> 'a list outcome" where
  "list_remove l e = (if e \<in> set l then Inr (remove1 e l) else Inl Assert_failed)"

fun list_insert_before :: "'a list \<Rightarrow> 'a \<Rightarrow> 'a \<Rightarrow> 'a list outcome" where
  "list_insert_before [] b e = Inl Assert_failed"
| "list_insert_before (x # l) b e =
     (if x = b then Inr (e # x # l) else map_sum id (Cons x) (list_insert_before l b e))"

definition first_ev_next :: "'h npool \<Rightarrow> nat \<Rightarrow> nat option \<Rightarrow> nat option" where
  "first_ev_next p nse fst_ev =
     (if fst_ev = Some nse
      then (case gh_lnode_next p nse of
              None \<Rightarrow> None
            | Some newevent \<Rightarrow> if ev_iod (events p newevent) = ev_iod (events p nse) then Some newevent else None)
      else fst_ev)"

definition update_first_events :: "'h npool \<Rightarrow> nat \<Rightarrow> 'h npool outcome" where
  "update_first_events p nse =
     (case ev_iod (events p nse) of
        None \<Rightarrow> if ev_type (events p nse) = NSE_TYPE_TIMER then Inr p else Inl Assert_failed
      | Some i \<Rightarrow>
          if ev_type (events p nse) = NSE_TYPE_TIMER then Inr p
          else (case kind_of (ev_type (events p nse)) of
                  None \<Rightarrow> Inl Fatal_exit
                | Some k \<Rightarrow>
                    Inr (set_iod p i (\<lambda>d. d\<lparr>first_ev := (first_ev d)(k := first_ev_next p nse (first_ev d k))\<rparr>))))"

definition nevent_unref :: "'h npool \<Rightarrow> nat \<Rightarrow> 'h npool outcome" where
  "nevent_unref p nse =
     bind_out (update_first_events p nse) (\<lambda>p.
     bind_out
       (if ev_type (events p nse) = NSE_TYPE_TIMER then Inr p
        else (case kind_of (ev_type (events p nse)) of
                None \<Rightarrow> Inl Fatal_exit
              | Some k \<Rightarrow> bind_out (list_remove (queue p k) nse) (\<lambda>l. Inr (set_queue p k l)))) (\<lambda>p.
     bind_out
       (if tv_sec (ev_timeout (events p nse)) \<noteq> 0
        then let p = set_ev p nse (\<lambda>v. v\<lparr>ev_timeout := Timeval 0 0\<rparr>)
             in bind_out (gh_heap_remove (timers p) nse) (\<lambda>h. Inr (p\<lparr>expirables := h\<rparr>))
        else Inr p) (\<lambda>p.
     Inr (p\<lparr>free_events := free_events p @ [nse]\<rparr>))))"

text \<open>The new event goes before the first one of its kind on the iod, or to the end of the list.\<close>

definition iod_add_event :: "'h npool \<Rightarrow> nat \<Rightarrow> nat \<Rightarrow> 'h npool outcome" where
  "iod_add_event p i nse =
     (case kind_of (ev_type (events p nse)) of
        None \<Rightarrow> Inl Fatal_exit
      | Some k \<Rightarrow>
          bind_out
            (case first_ev (iods p i) k of
               Some f \<Rightarrow> list_insert_before (queue p k) f nse
             | None \<Rightarrow> Inr (queue p k @ [nse])) (\<lambda>l.
          Inr (set_iod (set_queue p k l) i (\<lambda>d. d\<lparr>first_ev := (first_ev d)(k := Some nse)\<rparr>))))"

section \<open>The select engine\<close>

definition EV_NONE :: int where "EV_NONE = 0"
definition EV_READ :: int where "EV_READ = 1"
definition EV_WRITE :: int where "EV_WRITE = 2"
definition EV_EXCEPT :: int where "EV_EXCEPT = 4"

definition FD_SETSIZE :: int where "FD_SETSIZE = 1024"

text \<open>\<open>checked_fd_set\<close> and \<open>checked_fd_clr\<close> end the process for a descriptor that is too large.\<close>

definition checked_fd_set :: "int \<Rightarrow> int set \<Rightarrow> int set outcome" where
  "checked_fd_set fd fds = (if fd \<ge> FD_SETSIZE then Inl Fatal_exit else Inr (insert fd fds))"

definition checked_fd_clr :: "int \<Rightarrow> int set \<Rightarrow> int set outcome" where
  "checked_fd_clr fd fds = (if fd \<ge> FD_SETSIZE then Inl Fatal_exit else Inr (fds - {fd}))"

definition fd_update :: "bool \<Rightarrow> bool \<Rightarrow> int \<Rightarrow> int set \<Rightarrow> int set outcome" where
  "fd_update add del fd fds = (if add then checked_fd_set fd fds else if del then checked_fd_clr fd fds else Inr fds)"

definition select_iod_modify :: "'h npool \<Rightarrow> nat \<Rightarrow> int \<Rightarrow> int \<Rightarrow> 'h npool outcome" where
  "select_iod_modify p i ev_set ev_clr =
     (if ev_set AND ev_clr \<noteq> 0 then Inl Assert_failed
      else let p = set_iod p i (\<lambda>d. d\<lparr>watched_events := (watched_events d OR ev_set) AND NOT ev_clr\<rparr>);
               d = sd (iods p i); s = sinfo p
           in if d = -1 then Inr p
              else bind_out (fd_update (ev_set AND EV_READ \<noteq> 0) (ev_clr AND EV_READ \<noteq> 0) d (fds_master_r s)) (\<lambda>r.
                   bind_out (fd_update (ev_set AND EV_WRITE \<noteq> 0) (ev_clr AND EV_WRITE \<noteq> 0) d (fds_master_w s)) (\<lambda>w.
                   bind_out (checked_fd_set d (fds_master_x s)) (\<lambda>x.
                   let m = (if ev_set \<noteq> EV_NONE then max (max_sd s) d
                            else if ev_clr \<noteq> EV_NONE \<and> iod_pending (iods p i) = 1 \<and> max_sd s = d then max_sd s - 1
                            else max_sd s)
                   in Inr (p\<lparr>sinfo := s\<lparr>fds_master_r := r, fds_master_w := w, fds_master_x := x, max_sd := m\<rparr>\<rparr>)))))"

text \<open>An iod whose descriptor is -1 is one for packet capture here, which this build does not have.\<close>

definition select_iod_register :: "'h npool \<Rightarrow> nat \<Rightarrow> int \<Rightarrow> 'h npool outcome" where
  "select_iod_register p i ev =
     (if registered (iods p i) then Inl Assert_failed
      else bind_out (select_iod_modify (set_iod p i (\<lambda>d. d\<lparr>watched_events := ev\<rparr>)) i ev EV_NONE) (\<lambda>p.
           Inr (set_iod p i (\<lambda>d. d\<lparr>registered := True\<rparr>))))"

definition select_iod_unregister :: "'h npool \<Rightarrow> nat \<Rightarrow> 'h npool outcome" where
  "select_iod_unregister p i =
     (let p = set_iod p i (\<lambda>d. d\<lparr>watched_events := EV_NONE\<rparr>); d = sd (iods p i); s = sinfo p
      in if \<not> registered (iods p i) then Inr p
         else if d = -1 then Inl Assert_failed
         else if d \<ge> FD_SETSIZE then Inl Fatal_exit
         else Inr (set_iod (p\<lparr>sinfo := \<lparr>fds_master_r = fds_master_r s - {d}, fds_master_w = fds_master_w s - {d},
                     fds_master_x = fds_master_x s - {d}, fds_results_r = fds_results_r s - {d},
                     fds_results_w = fds_results_w s - {d}, fds_results_x = fds_results_x s - {d},
                     max_sd = (if max_sd s = d then max_sd s - 1 else max_sd s)\<rparr>\<rparr>)
                   i (\<lambda>d. d\<lparr>registered := False\<rparr>)))"

section \<open>Counts of the pending reads and writes of a descriptor\<close>

definition socket_count_zero :: "'h npool \<Rightarrow> nat \<Rightarrow> 'h npool outcome" where
  "socket_count_zero p i = select_iod_unregister (set_iod p i (\<lambda>d. d\<lparr>readsd_count := 0, writesd_count := 0\<rparr>)) i"

definition socket_count_read_inc :: "'h npool \<Rightarrow> nat \<Rightarrow> (int \<times> 'h npool) outcome" where
  "socket_count_read_inc p i =
     (if \<not> readsd_count (iods p i) \<ge> 0 then Inl Assert_failed
      else Inr (EV_READ, set_iod p i (\<lambda>d. d\<lparr>readsd_count := readsd_count d + 1\<rparr>)))"

definition socket_count_read_dec :: "'h npool \<Rightarrow> nat \<Rightarrow> (int \<times> 'h npool) outcome" where
  "socket_count_read_dec p i =
     (if \<not> readsd_count (iods p i) > 0 then Inl Assert_failed
      else Inr (if readsd_count (iods p i) - 1 = 0 then EV_READ else EV_NONE,
                set_iod p i (\<lambda>d. d\<lparr>readsd_count := readsd_count d - 1\<rparr>)))"

definition socket_count_write_inc :: "'h npool \<Rightarrow> nat \<Rightarrow> (int \<times> 'h npool) outcome" where
  "socket_count_write_inc p i =
     (if \<not> writesd_count (iods p i) \<ge> 0 then Inl Assert_failed
      else Inr (EV_WRITE, set_iod p i (\<lambda>d. d\<lparr>writesd_count := writesd_count d + 1\<rparr>)))"

definition socket_count_write_dec :: "'h npool \<Rightarrow> nat \<Rightarrow> (int \<times> 'h npool) outcome" where
  "socket_count_write_dec p i =
     (if \<not> writesd_count (iods p i) > 0 then Inl Assert_failed
      else Inr (if writesd_count (iods p i) - 1 = 0 then EV_WRITE else EV_NONE,
                set_iod p i (\<lambda>d. d\<lparr>writesd_count := writesd_count d - 1\<rparr>)))"

definition should_clear_ev_read :: "niod \<Rightarrow> int \<Rightarrow> bool" where
  "should_clear_ev_read iod ev_set \<longleftrightarrow> ev_set AND EV_READ \<noteq> 0 \<and> readsd_count iod = 0"

definition should_clear_ev_write :: "niod \<Rightarrow> int \<Rightarrow> bool" where
  "should_clear_ev_write iod ev_set \<longleftrightarrow> ev_set AND EV_WRITE \<noteq> 0 \<and> writesd_count iod = 0"

definition update_events :: "'h npool \<Rightarrow> nat \<Rightarrow> int \<Rightarrow> int \<Rightarrow> 'h npool outcome" where
  "update_events p i ev_inc ev_dec =
     (let ev_temp = ev_inc XOR ev_dec; ev_inc = ev_inc AND ev_temp; ev_dec = ev_dec AND ev_temp;
          clrmask = (if should_clear_ev_read (iods p i) ev_dec then EV_READ else EV_NONE) OR
                    (if should_clear_ev_write (iods p i) ev_dec then EV_WRITE else EV_NONE)
      in if \<not> registered (iods p i)
         then if clrmask \<noteq> EV_NONE then Inl Assert_failed else select_iod_register p i ev_inc
         else select_iod_modify p i ev_inc clrmask)"

section \<open>Events\<close>

definition type_code :: "nse_type \<Rightarrow> u64" where
  "type_code t =
     (case t of
        NSE_TYPE_CONNECT \<Rightarrow> 0 | NSE_TYPE_CONNECT_SSL \<Rightarrow> 1 | NSE_TYPE_READ \<Rightarrow> 2 | NSE_TYPE_WRITE \<Rightarrow> 3
      | NSE_TYPE_TIMER \<Rightarrow> 4 | NSE_TYPE_PCAP_READ \<Rightarrow> 5)"

definition TYPE_CODE_NUM_BITS :: nat where "TYPE_CODE_NUM_BITS = 3"

definition get_new_event_id :: "'h npool \<Rightarrow> nse_type \<Rightarrow> u64 \<times> 'h npool" where
  "get_new_event_id p t =
     (let serial = next_event_serial p;
          p = p\<lparr>next_event_serial := serial + 1\<rparr>;
          shiftbits = 64 - TYPE_CODE_NUM_BITS;
          max_serial_allowed = push_bit shiftbits 1 - 1;
          p = (if serial = max_serial_allowed then p\<lparr>next_event_serial := 1\<rparr> else p)
      in (push_bit TYPE_CODE_NUM_BITS serial OR type_code t, p))"

text \<open>The code of the type; the two codes above the last constructor are no types.\<close>

definition get_event_id_type :: "u64 \<Rightarrow> nse_type option" where
  "get_event_id_type event_id =
     (let c = event_id AND (push_bit TYPE_CODE_NUM_BITS 1 - 1)
      in if c = 0 then Some NSE_TYPE_CONNECT else if c = 1 then Some NSE_TYPE_CONNECT_SSL
         else if c = 2 then Some NSE_TYPE_READ else if c = 3 then Some NSE_TYPE_WRITE
         else if c = 4 then Some NSE_TYPE_TIMER else if c = 5 then Some NSE_TYPE_PCAP_READ else None)"

text \<open>The structure comes from the list of free events, if there is one, and is cleared.\<close>

definition event_new :: "'h npool \<Rightarrow> nse_type \<Rightarrow> nat option \<Rightarrow> int \<Rightarrow> 'h \<Rightarrow> (nat \<times> 'h npool) outcome" where
  "event_new p t iod timeout_msecs handler =
     (let p = gettimeofday p in
      bind_out
        (case iod of
           None \<Rightarrow> Inr p
         | Some i \<Rightarrow>
             if state (iods p i) = NSIOD_STATE_DELETED then Inl Assert_failed
             else Inr (set_iod p i (\<lambda>d. d\<lparr>iod_pending := iod_pending d + 1\<rparr>))) (\<lambda>p.
      let (nse, p) = (case free_events p of
                        [] \<Rightarrow> (ev_brk p, p\<lparr>ev_brk := ev_brk p + 1\<rparr>)
                      | e # r \<Rightarrow> (e, p\<lparr>free_events := r\<rparr>));
          (id, p) = get_new_event_id p t;
          p = p\<lparr>expirables := gh_hnode_invalidate (expirables p) nse\<rparr>
      in if timeout_msecs < -1 then Inl Assert_failed
         else Inr (nse, set_ev p nse (\<lambda>_.
                \<lparr>ev_id = id, ev_type = t, ev_status = NSE_STATUS_NONE, iobuf = [],
                 ev_timeout = (if timeout_msecs \<noteq> -1 then TIMEVAL_MSEC_ADD (nsock_tod p) timeout_msecs else Timeval 0 0),
                 read_type = NSOCK_READLINES, read_num = 0, written_so_far = 0, ev_errnum = None,
                 ev_iod = iod, ev_handler = handler, event_done = False, ev_eof = False\<rparr>))))"

definition event_delete :: "'h npool \<Rightarrow> nat \<Rightarrow> 'h npool" where
  "event_delete p nse =
     set_ev p nse (\<lambda>v. v\<lparr>iobuf := (if ev_type v = NSE_TYPE_READ \<or> ev_type v = NSE_TYPE_WRITE then [] else iobuf v),
       event_done := True\<rparr>)"

definition event_dispatch_and_delete :: "'h handlers \<Rightarrow> 'h npool \<Rightarrow> nat \<Rightarrow> bool \<Rightarrow> 'h npool outcome" where
  "event_dispatch_and_delete call p nse notify =
     (if \<not> event_done (events p nse) then Inl Assert_failed
      else let p = p\<lparr>pool_pending := pool_pending p - 1\<rparr>
           in if \<not> pool_pending p \<ge> 0 then Inl Assert_failed
              else bind_out
                     (case ev_iod (events p nse) of
                        None \<Rightarrow> Inr p
                      | Some i \<Rightarrow>
                          let p = set_iod p i (\<lambda>d. d\<lparr>iod_pending := iod_pending d - 1\<rparr>)
                          in if \<not> iod_pending (iods p i) \<ge> 0 then Inl Assert_failed else Inr p) (\<lambda>p.
                   bind_out
                     (if notify
                      then let v = events p nse
                           in call (ev_handler v) nse (p\<lparr>calls := calls p @ [(ev_handler v, ev_id v, ev_status v)]\<rparr>)
                      else Inr p) (\<lambda>p.
                   Inr (event_delete p nse))))"

section \<open>What the handlers of the event types do\<close>

text \<open>\<open>complete\<close> is \<open>event_done = 1\<close> with a status.\<close>

definition complete :: "'h npool \<Rightarrow> nat \<Rightarrow> nse_status \<Rightarrow> 'h npool" where
  "complete p nse status = set_ev p nse (\<lambda>v. v\<lparr>ev_status := status, event_done := True\<rparr>)"

definition the_iod :: "'h npool \<Rightarrow> nat \<Rightarrow> nat outcome" where
  "the_iod p nse = (case ev_iod (events p nse) of None \<Rightarrow> Inl Null_deref | Some i \<Rightarrow> Inr i)"

definition handle_connect_result :: "'h npool \<Rightarrow> nat \<Rightarrow> nse_status \<Rightarrow> 'h npool outcome" where
  "handle_connect_result p nse status =
     (case ev_iod (events p nse) of
        None \<Rightarrow> Inl Assert_failed
      | Some i \<Rightarrow>
          bind_out
            (if status = NSE_STATUS_TIMEOUT \<or> status = NSE_STATUS_CANCELLED then Inr (complete p nse status)
             else if status = NSE_STATUS_SUCCESS
             then let st = (case so_error (iods p i) of None \<Rightarrow> NSE_STATUS_SUCCESS | Some _ \<Rightarrow> NSE_STATUS_ERROR);
                      p = set_ev p nse (\<lambda>v. v\<lparr>ev_status := st,
                            ev_errnum := (case so_error (iods p i) of None \<Rightarrow> ev_errnum v | Some err \<Rightarrow> Some err)\<rparr>)
                  in if ev_type (events p nse) = NSE_TYPE_CONNECT_SSL \<and> st = NSE_STATUS_SUCCESS then Inr p
                     else Inr (set_ev p nse (\<lambda>v. v\<lparr>event_done := True\<rparr>))
             else Inl Fatal_exit) (\<lambda>p.
          if sd (iods p i) \<noteq> -1
          then bind_out (socket_count_read_dec p i) (\<lambda>(ev_r, p).
               bind_out (socket_count_write_dec p i) (\<lambda>(ev_w, p).
               update_events p i EV_NONE (ev_r OR ev_w)))
          else Inr p))"

definition errcode_is_failure :: "errno \<Rightarrow> bool" where
  "errcode_is_failure err \<longleftrightarrow> err \<noteq> EINTR \<and> err \<noteq> EAGAIN \<and> err \<noteq> EBUSY"

text \<open>\<open>iod_write\<close>: the bytes the descriptor takes of those it is given.\<close>

definition iod_write :: "'h npool \<Rightarrow> nat \<Rightarrow> cstr \<Rightarrow> (errno + nat) \<times> 'h npool" where
  "iod_write p i str =
     (case out_writes (iods p i) of
        [] \<Rightarrow> (Inl EAGAIN, p)
      | Write_error err # r \<Rightarrow> (Inl err, set_iod p i (\<lambda>d. d\<lparr>out_writes := r\<rparr>))
      | Wrote n # r \<Rightarrow>
          let n = min n (length str)
          in (Inr n, set_iod p i (\<lambda>d. d\<lparr>out_writes := r, sent := sent d @ take n str\<rparr>)))"

definition handle_write_result :: "'h npool \<Rightarrow> nat \<Rightarrow> nse_status \<Rightarrow> 'h npool outcome" where
  "handle_write_result p nse status =
     bind_out (the_iod p nse) (\<lambda>i.
     bind_out
       (if status = NSE_STATUS_TIMEOUT \<or> status = NSE_STATUS_CANCELLED then Inr (complete p nse status)
        else if status = NSE_STATUS_SUCCESS
        then let v = events p nse; str = drop (written_so_far v) (iobuf v); bytesleft = length str
             in if written_so_far v > 0 \<and> \<not> bytesleft > 0 then Inl Assert_failed
                else (case iod_write p i str of
                        (Inr res, p) \<Rightarrow>
                          let p = (if res = bytesleft then complete p nse NSE_STATUS_SUCCESS
                                   else set_ev p nse (\<lambda>v. v\<lparr>written_so_far := written_so_far v + res\<rparr>))
                          in Inr (set_iod p i (\<lambda>d. d\<lparr>write_count := write_count d + res\<rparr>))
                      | (Inl err, p) \<Rightarrow>
                          Inr (if errcode_is_failure err
                               then set_ev (complete p nse NSE_STATUS_ERROR) nse (\<lambda>v. v\<lparr>ev_errnum := Some err\<rparr>)
                               else p))
        else Inr p) (\<lambda>p.
     if event_done (events p nse) \<and> sd (iods p i) \<noteq> -1
     then bind_out (socket_count_write_dec p i) (\<lambda>(ev, p). update_events p i EV_NONE ev)
     else Inr p))"

definition handle_timer_result :: "'h npool \<Rightarrow> nat \<Rightarrow> nse_status \<Rightarrow> 'h npool" where
  "handle_timer_result p nse status = complete p nse status"

definition READ_BUFFER_SZ :: nat where "READ_BUFFER_SZ = 8192"
definition NSOCK_READ_CHUNK_SIZE :: int where "NSOCK_READ_CHUNK_SIZE = 0x8FFFF"

datatype read_end = Enough | Blocked | Failed_with errno | At_eof

text \<open>
  The loop of \<open>do_actual_read\<close> around \<open>iod_read\<close>; after \<open>ENOTSOCK\<close> it uses \<open>read\<close> at once and from then on.
\<close>

fun read_loop :: "bool \<Rightarrow> int \<Rightarrow> cstr \<Rightarrow> read_result list \<Rightarrow> cstr \<times> read_end \<times> read_result list" where
  "read_loop enotsock max_chunk b [] = (b, Blocked, [])"
| "read_loop enotsock max_chunk b (Read_error err # rs) =
     (if err = ENOTSOCK \<and> \<not> enotsock then read_loop True max_chunk b rs
      else if err = EINTR then read_loop enotsock max_chunk b rs
      else (b, if errcode_is_failure err then Failed_with err else Blocked, rs))"
| "read_loop enotsock max_chunk b (Got buf # rs) =
     (if buf = [] then (b, At_eof, rs)
      else let b = b @ buf
           in if int (length b) > max_chunk then (b, Enough, rs)
              else if length buf < READ_BUFFER_SZ then (b, Enough, rs)
              else read_loop enotsock max_chunk b rs)"

definition do_actual_read :: "'h npool \<Rightarrow> nat \<Rightarrow> nat \<Rightarrow> int \<times> 'h npool" where
  "do_actual_read p i nse =
     (let v = events p nse; startlen = int (length (iobuf v));
          max_chunk = (if read_type v = NSOCK_READBYTES then read_num v else NSOCK_READ_CHUNK_SIZE)
      in case read_loop False max_chunk (iobuf v) (in_reads (iods p i)) of
           (b, how, rs) \<Rightarrow>
             let p = set_ev (set_iod p i (\<lambda>d. d\<lparr>in_reads := rs\<rparr>)) nse (\<lambda>v. v\<lparr>iobuf := b\<rparr>)
             in (case how of
                   Failed_with err \<Rightarrow>
                     (-1, set_ev (complete p nse NSE_STATUS_ERROR) nse (\<lambda>v. v\<lparr>ev_errnum := Some err\<rparr>))
                 | At_eof \<Rightarrow>
                     let p = set_iod (set_ev p nse (\<lambda>v. v\<lparr>ev_eof := True\<rparr>)) i (\<lambda>d. d\<lparr>iod_eof := True\<rparr>)
                     in if length b > 0 then (int (length b) - startlen, complete p nse NSE_STATUS_SUCCESS)
                        else (0, complete p nse NSE_STATUS_EOF)
                 | _ \<Rightarrow> (int (length b) - startlen, p)))"

text \<open>The count of line feeds from the end of the data, which stops at \<open>num\<close>.\<close>

fun count_lines :: "cstr \<Rightarrow> int \<Rightarrow> int \<Rightarrow> int" where
  "count_lines [] num cnt = cnt"
| "count_lines (c # s) num cnt =
     (if c = LF then if cnt + 1 \<ge> num then cnt + 1 else count_lines s num (cnt + 1) else count_lines s num cnt)"

definition handle_read_result :: "'h npool \<Rightarrow> nat \<Rightarrow> nse_status \<Rightarrow> 'h npool outcome" where
  "handle_read_result p nse status =
     bind_out (the_iod p nse) (\<lambda>i.
     bind_out
       (if status = NSE_STATUS_TIMEOUT
        then Inr (complete p nse (if length (iobuf (events p nse)) > 0 then NSE_STATUS_SUCCESS else NSE_STATUS_TIMEOUT))
        else if status = NSE_STATUS_CANCELLED then Inr (complete p nse status)
        else if status = NSE_STATUS_SUCCESS
        then (case do_actual_read p i nse of
                (rc, p) \<Rightarrow>
                  if rc > 0
                  then let p = set_iod p i (\<lambda>d. d\<lparr>read_count := read_count d + nat rc\<rparr>); v = events p nse
                       in Inr (case read_type v of
                                 NSOCK_READ \<Rightarrow> complete p nse NSE_STATUS_SUCCESS
                               | NSOCK_READBYTES \<Rightarrow>
                                   if int (length (iobuf v)) \<ge> read_num v then complete p nse NSE_STATUS_SUCCESS else p
                               | NSOCK_READLINES \<Rightarrow>
                                   if count_lines (rev (iobuf v)) (read_num v) 0 \<ge> read_num v
                                   then complete p nse NSE_STATUS_SUCCESS else p)
                  else Inr p)
        else Inl Fatal_exit) (\<lambda>p.
     if event_done (events p nse) \<and> sd (iods p i) \<ge> 0
     then bind_out (socket_count_read_dec p i) (\<lambda>(ev, p). update_events p i EV_NONE ev)
     else Inr p))"

text \<open>The dispatch on the type of an event.\<close>

definition handle_result :: "'h npool \<Rightarrow> nat \<Rightarrow> nse_status \<Rightarrow> 'h npool outcome" where
  "handle_result p nse status =
     (case ev_type (events p nse) of
        NSE_TYPE_CONNECT \<Rightarrow> handle_connect_result p nse status
      | NSE_TYPE_CONNECT_SSL \<Rightarrow> handle_connect_result p nse status
      | NSE_TYPE_READ \<Rightarrow> handle_read_result p nse status
      | NSE_TYPE_WRITE \<Rightarrow> handle_write_result p nse status
      | NSE_TYPE_TIMER \<Rightarrow> Inr (handle_timer_result p nse status)
      | NSE_TYPE_PCAP_READ \<Rightarrow> Inl Fatal_exit)"

section \<open>Processing\<close>

definition timed_out :: "'h npool \<Rightarrow> nat \<Rightarrow> bool" where
  "timed_out p nse = event_timedout (event_done (events p nse)) (ev_timeout (events p nse)) (nsock_tod p)"

text \<open>Whether the readiness \<open>ev\<close> of the descriptor concerns an event of the type.\<close>

definition concerned :: "nse_type \<Rightarrow> int \<Rightarrow> bool" where
  "concerned t ev =
     (case t of
        NSE_TYPE_CONNECT \<Rightarrow> ev \<noteq> EV_NONE
      | NSE_TYPE_CONNECT_SSL \<Rightarrow> ev \<noteq> EV_NONE
      | NSE_TYPE_READ \<Rightarrow> ev AND EV_READ \<noteq> 0 \<or> ev AND EV_EXCEPT \<noteq> 0
      | NSE_TYPE_WRITE \<Rightarrow> ev AND EV_WRITE \<noteq> 0 \<or> ev AND EV_EXCEPT \<noteq> 0
      | _ \<Rightarrow> False)"

definition process_event :: "'h handlers \<Rightarrow> 'h npool \<Rightarrow> nat \<Rightarrow> int \<Rightarrow> 'h npool outcome" where
  "process_event call p nse ev =
     bind_out
       (if event_done (events p nse) then Inr p
        else if ev_type (events p nse) = NSE_TYPE_PCAP_READ then Inl Fatal_exit
        else if ev_type (events p nse) = NSE_TYPE_TIMER
        then Inr (if timed_out p nse then handle_timer_result p nse NSE_STATUS_SUCCESS else p)
        else bind_out (if concerned (ev_type (events p nse)) ev then handle_result p nse NSE_STATUS_SUCCESS else Inr p) (\<lambda>p.
             if timed_out p nse then handle_result p nse NSE_STATUS_TIMEOUT else Inr p)) (\<lambda>p.
     if event_done (events p nse) then event_dispatch_and_delete call p nse True else Inr p)"

text \<open>
  \<open>process_iod_events\<close>: one list from the first event of the iod on; \<open>lst\<close> is its last element at the start.
\<close>

partial_function (option) iod_events_loop ::
  "'h handlers \<Rightarrow> nat \<Rightarrow> int \<Rightarrow> nat option \<Rightarrow> 'h npool \<Rightarrow> nat option \<Rightarrow> 'h npool outcome option" where
  "iod_events_loop call i ev lst p current =
     (case current of
        None \<Rightarrow> Some (Inr p)
      | Some nse \<Rightarrow>
          if gh_lnode_prev p nse = lst then Some (Inr p)
          else if ev_iod (events p nse) \<noteq> Some i then Some (Inr p)
          else (case process_event call p nse ev of
                  Inl e \<Rightarrow> Some (Inl e)
                | Inr p \<Rightarrow>
                    let nxt = gh_lnode_next p nse
                    in if event_done (events p nse)
                       then (case nevent_unref p nse of
                               Inl e \<Rightarrow> Some (Inl e)
                             | Inr p \<Rightarrow> iod_events_loop call i ev lst p nxt)
                       else iod_events_loop call i ev lst p nxt))"

definition last_elem :: "'a list \<Rightarrow> 'a option" where
  "last_elem l = (if l = [] then None else Some (last l))"

fun process_lists :: "'h handlers \<Rightarrow> nat \<Rightarrow> int \<Rightarrow> evkind list \<Rightarrow> 'h npool \<Rightarrow> 'h npool outcome option" where
  "process_lists call i ev [] p = Some (Inr p)"
| "process_lists call i ev (k # ks) p =
     (case iod_events_loop call i ev (last_elem (queue p k)) p (first_ev (iods p i) k) of
        None \<Rightarrow> None
      | Some (Inl e) \<Rightarrow> Some (Inl e)
      | Some (Inr p) \<Rightarrow> process_lists call i ev ks p)"

definition process_iod_events :: "'h handlers \<Rightarrow> 'h npool \<Rightarrow> nat \<Rightarrow> int \<Rightarrow> 'h npool outcome option" where
  "process_iod_events call p i ev = process_lists call i ev [Connects, Reads, Writes] p"

partial_function (option) process_expired_events :: "'h handlers \<Rightarrow> 'h npool \<Rightarrow> 'h npool outcome option" where
  "process_expired_events call p =
     (case gh_heap_min (timers p) of
        Inl e \<Rightarrow> Some (Inl e)
      | Inr None \<Rightarrow> Some (Inr p)
      | Inr (Some nse) \<Rightarrow>
          if \<not> timed_out p nse then Some (Inr p)
          else (case process_event call p nse EV_NONE of
                  Inl e \<Rightarrow> Some (Inl e)
                | Inr p \<Rightarrow>
                    if \<not> event_done (events p nse) then Some (Inl Assert_failed)
                    else (case nevent_unref p nse of
                            Inl e \<Rightarrow> Some (Inl e)
                          | Inr p \<Rightarrow> process_expired_events call p)))"

section \<open>Adding and cancelling events\<close>

text \<open>A descriptor whose use is asserted to be valid.\<close>

definition valid_iod :: "'h npool \<Rightarrow> nat \<Rightarrow> nat outcome" where
  "valid_iod p nse = bind_out (the_iod p nse) (\<lambda>i. if \<not> sd (iods p i) \<ge> 0 then Inl Assert_failed else Inr i)"

definition nsock_pool_add_event :: "'h handlers \<Rightarrow> 'h npool \<Rightarrow> nat \<Rightarrow> 'h npool outcome" where
  "nsock_pool_add_event call p nse =
     (let p = p\<lparr>pool_pending := pool_pending p + 1\<rparr> in
      bind_out
        (if ev_type (events p nse) = NSE_TYPE_READ
         then bind_out (the_iod p nse) (\<lambda>i.
                Inr (if iod_eof (iods p i)
                     then set_ev (complete p nse NSE_STATUS_EOF) nse (\<lambda>v. v\<lparr>ev_eof := True\<rparr>) else p))
         else Inr p) (\<lambda>p.
      if event_done (events p nse) then event_dispatch_and_delete call p nse True
      else bind_out
             (if tv_sec (ev_timeout (events p nse)) \<noteq> 0
              then bind_out (gh_heap_push (timers p) nse) (\<lambda>h. Inr (p\<lparr>expirables := h\<rparr>))
              else Inr p) (\<lambda>p.
           case ev_type (events p nse) of
             NSE_TYPE_TIMER \<Rightarrow> Inr p
           | NSE_TYPE_PCAP_READ \<Rightarrow> Inl Fatal_exit
           | NSE_TYPE_READ \<Rightarrow>
               bind_out (valid_iod p nse) (\<lambda>i.
               bind_out (socket_count_read_inc p i) (\<lambda>(_, p).
               bind_out (update_events p i EV_READ EV_NONE) (\<lambda>p. iod_add_event p i nse)))
           | NSE_TYPE_WRITE \<Rightarrow>
               bind_out (valid_iod p nse) (\<lambda>i.
               bind_out (socket_count_write_inc p i) (\<lambda>(_, p).
               bind_out (update_events p i EV_WRITE EV_NONE) (\<lambda>p. iod_add_event p i nse)))
           | _ \<Rightarrow>
               bind_out (valid_iod p nse) (\<lambda>i.
               bind_out (socket_count_read_inc p i) (\<lambda>(_, p).
               bind_out (socket_count_write_inc p i) (\<lambda>(_, p).
               bind_out (update_events p i (EV_READ OR EV_WRITE) EV_NONE) (\<lambda>p. iod_add_event p i nse)))))))"

text \<open>The result is 0 for an event that is already done.\<close>

definition nevent_delete :: "'h handlers \<Rightarrow> 'h npool \<Rightarrow> nat \<Rightarrow> bool \<Rightarrow> (int \<times> 'h npool) outcome" where
  "nevent_delete call p nse notify =
     (if event_done (events p nse) then Inr (0, p)
      else bind_out (handle_result p nse NSE_STATUS_CANCELLED) (\<lambda>p.
           if \<not> event_done (events p nse) then Inl Assert_failed
           else bind_out (nevent_unref p nse) (\<lambda>p.
                bind_out (event_dispatch_and_delete call p nse notify) (\<lambda>p. Inr (1, p)))))"

text \<open>The search through the heap of timers by position.\<close>

function find_timer :: "'h npool \<Rightarrow> u64 \<Rightarrow> nat \<Rightarrow> nat option outcome" where
  "find_timer p eid i =
     (if i < gh_heap_count (timers p)
      then (case gh_heap_find (timers p) i of
              Inl e \<Rightarrow> Inl e
            | Inr None \<Rightarrow> Inl Null_deref
            | Inr (Some nse) \<Rightarrow> if ev_id (events p nse) = eid then Inr (Some nse) else find_timer p eid (i + 1))
      else Inr None)"
  by pat_completeness auto
termination
  by (relation "measure (\<lambda>(p, eid, i). gh_heap_count (timers p) - i)") auto

declare find_timer.simps [simp del]

definition nsock_event_cancel :: "'h handlers \<Rightarrow> 'h npool \<Rightarrow> u64 \<Rightarrow> bool \<Rightarrow> (int \<times> 'h npool) outcome" where
  "nsock_event_cancel call p eid notify =
     (case get_event_id_type eid of
        None \<Rightarrow> Inl Fatal_exit
      | Some NSE_TYPE_TIMER \<Rightarrow>
          bind_out (find_timer p eid 0) (\<lambda>r.
            case r of None \<Rightarrow> Inr (0, p) | Some nse \<Rightarrow> nevent_delete call p nse notify)
      | Some t \<Rightarrow>
          (case kind_of t of
             None \<Rightarrow> Inl Fatal_exit
           | Some k \<Rightarrow>
               (case find (\<lambda>nse. ev_id (events p nse) = eid) (queue p k) of
                  None \<Rightarrow> Inr (0, p)
                | Some nse \<Rightarrow> nevent_delete call p nse notify)))"

section \<open>Iods\<close>

text \<open>
  \<open>nsock_iod_new2\<close> without a proxy chain.  The flags are cleared at its end, the one for standard input, which is
  set before, among them.  \<open>addr\<close> is the address \<open>safe_malloc\<close> returns when there is no free iod,
  \<open>dup\<close> the duplicate of the descriptor; the answers of the system on it come with it.
\<close>

definition STDIN_FILENO :: int where "STDIN_FILENO = 0"

definition nsock_iod_new2 :: "'h npool \<Rightarrow> nat \<Rightarrow> int \<Rightarrow> int \<Rightarrow> niod \<Rightarrow> nat option \<times> 'h npool" where
  "nsock_iod_new2 p addr fd dup answers =
     (let (i, p) = (case free_iods p of [] \<Rightarrow> (addr, p) | j # r \<Rightarrow> (j, p\<lparr>free_iods := r\<rparr>));
          d = \<lparr>sd = -1, iod_pending = 0, first_ev = (\<lambda>_. None), readsd_count = 0, writesd_count = 0,
               watched_events = 0, state = NSIOD_STATE_INITIAL, registered = False, iod_eof = False, iod_stdin = False,
               read_count = 0, write_count = 0, in_reads = in_reads answers, out_writes = out_writes answers,
               so_error = so_error answers, sent = [],
               peer = \<lparr>ss_family = AF_UNSPEC, ss_port = 0, ss_data = []\<rparr>, peerlen = 0, lastproto = 0\<rparr>
      in if fd \<noteq> -1 \<and> fd \<noteq> STDIN_FILENO \<and> dup = -1 then (None, p)
         else let d = (if fd = -1 then d
                       else if fd = STDIN_FILENO then d\<lparr>sd := STDIN_FILENO, state := NSIOD_STATE_UNKNOWN\<rparr>
                       else d\<lparr>sd := dup, state := NSIOD_STATE_UNKNOWN\<rparr>)
              in (Some i, set_iod (p\<lparr>active_iods := active_iods p @ [i]\<rparr>) i (\<lambda>_. d)))"

text \<open>The loop over one list; the next node is read before the event is deleted.\<close>

partial_function (option) delete_loop ::
  "'h handlers \<Rightarrow> nat \<Rightarrow> bool \<Rightarrow> 'h npool \<Rightarrow> nat option \<Rightarrow> 'h npool outcome option" where
  "delete_loop call i notify p current =
     (case current of
        None \<Rightarrow> Some (Inr p)
      | Some nse \<Rightarrow>
          let nxt = gh_lnode_next p nse
          in if ev_iod (events p nse) \<noteq> Some i then Some (Inr p)
             else (case nevent_delete call p nse notify of
                     Inl e \<Rightarrow> Some (Inl e)
                   | Inr (_, p) \<Rightarrow> delete_loop call i notify p nxt))"

fun delete_lists :: "'h handlers \<Rightarrow> nat \<Rightarrow> bool \<Rightarrow> nat option list \<Rightarrow> 'h npool \<Rightarrow> 'h npool outcome option" where
  "delete_lists call i notify [] p = Some (Inr p)"
| "delete_lists call i notify (f # fs) p =
     (if iod_pending (iods p i) > 0
      then (case delete_loop call i notify p f of
              None \<Rightarrow> None
            | Some (Inl e) \<Rightarrow> Some (Inl e)
            | Some (Inr p) \<Rightarrow> delete_lists call i notify fs p)
      else Some (Inr p))"

definition close_iod :: "'h npool \<Rightarrow> nat \<Rightarrow> 'h npool outcome" where
  "close_iod p i =
     (if iod_pending (iods p i) \<noteq> 0 then Inl Fatal_exit
      else bind_out (if sd (iods p i) \<ge> 0 then socket_count_zero p i else Inr p) (\<lambda>p.
           Inr (set_iod p i (\<lambda>d. d\<lparr>sd := (if sd d \<ge> 0 \<and> \<not> iod_stdin d then -1 else sd d), state := NSIOD_STATE_DELETED\<rparr>))))"

definition nsock_iod_delete :: "'h handlers \<Rightarrow> 'h npool \<Rightarrow> nat \<Rightarrow> nsock_del_mode \<Rightarrow> 'h npool outcome option" where
  "nsock_iod_delete call p i pending_response =
     (if state (iods p i) = NSIOD_STATE_DELETED then Some (Inr p)
      else if iod_pending (iods p i) > 0
      then if pending_response = NSOCK_PENDING_ERROR then Some (Inl Fatal_exit)
           else (case delete_lists call i (pending_response = NSOCK_PENDING_NOTIFY)
                        (map (first_ev (iods p i)) [Connects, Reads, Writes]) p of
                   None \<Rightarrow> None
                 | Some r \<Rightarrow> Some (bind_out r (\<lambda>p. close_iod p i)))
      else Some (close_iod p i))"

section \<open>Requests of the program\<close>

definition nsock_timer_create :: "'h handlers \<Rightarrow> 'h npool \<Rightarrow> 'h \<Rightarrow> int \<Rightarrow> (u64 \<times> 'h npool) outcome" where
  "nsock_timer_create call p handler timeout_msecs =
     bind_out (event_new p NSE_TYPE_TIMER None timeout_msecs handler) (\<lambda>(nse, p).
     bind_out (nsock_pool_add_event call p nse) (\<lambda>q. Inr (ev_id (events q nse), q)))"

definition nsock_read_request ::
  "'h handlers \<Rightarrow> 'h npool \<Rightarrow> nat \<Rightarrow> 'h \<Rightarrow> int \<Rightarrow> nsock_read_types \<Rightarrow> int \<Rightarrow> (u64 \<times> 'h npool) outcome" where
  "nsock_read_request call p i handler timeout_msecs rt num =
     bind_out (event_new p NSE_TYPE_READ (Some i) timeout_msecs handler) (\<lambda>(nse, p).
     bind_out (nsock_pool_add_event call (set_ev p nse (\<lambda>v. v\<lparr>read_type := rt, read_num := num\<rparr>)) nse) (\<lambda>q.
     Inr (ev_id (events q nse), q)))"

definition nsock_readlines :: "'h handlers \<Rightarrow> 'h npool \<Rightarrow> nat \<Rightarrow> 'h \<Rightarrow> int \<Rightarrow> int \<Rightarrow> (u64 \<times> 'h npool) outcome" where
  "nsock_readlines call p i handler timeout_msecs nlines =
     nsock_read_request call p i handler timeout_msecs NSOCK_READLINES nlines"

definition nsock_readbytes :: "'h handlers \<Rightarrow> 'h npool \<Rightarrow> nat \<Rightarrow> 'h \<Rightarrow> int \<Rightarrow> int \<Rightarrow> (u64 \<times> 'h npool) outcome" where
  "nsock_readbytes call p i handler timeout_msecs nbytes =
     nsock_read_request call p i handler timeout_msecs NSOCK_READBYTES nbytes"

definition nsock_read :: "'h handlers \<Rightarrow> 'h npool \<Rightarrow> nat \<Rightarrow> 'h \<Rightarrow> int \<Rightarrow> (u64 \<times> 'h npool) outcome" where
  "nsock_read call p i handler timeout_msecs =
     nsock_read_request call p i handler timeout_msecs NSOCK_READ 0"

text \<open>\<open>datalen\<close> is -1 for the whole string.\<close>

definition nsock_write :: "'h handlers \<Rightarrow> 'h npool \<Rightarrow> nat \<Rightarrow> 'h \<Rightarrow> int \<Rightarrow> cstr \<Rightarrow> int \<Rightarrow> (u64 \<times> 'h npool) outcome" where
  "nsock_write call p i handler timeout_msecs data datalen =
     bind_out (event_new p NSE_TYPE_WRITE (Some i) timeout_msecs handler) (\<lambda>(nse, p).
     bind_out (if datalen > int (length data) then Inl Out_of_bounds
               else Inr (if datalen < 0 then takeWhile (\<lambda>c. c \<noteq> NUL) data else take (nat datalen) data)) (\<lambda>d.
     bind_out (nsock_pool_add_event call (set_ev p nse (\<lambda>v. v\<lparr>iobuf := iobuf v @ d\<rparr>)) nse) (\<lambda>q.
     Inr (ev_id (events q nse), q))))"

section \<open>The loop\<close>

definition get_evmask :: "'h npool \<Rightarrow> nat \<Rightarrow> int outcome" where
  "get_evmask p i =
     (let d = sd (iods p i); s = sinfo p
      in if \<not> d \<ge> 0 then Inl Assert_failed
         else if d \<ge> FD_SETSIZE then Inl Fatal_exit
         else Inr ((if d \<in> fds_results_r s then EV_READ else EV_NONE) OR
                   (if d \<in> fds_results_w s then EV_WRITE else EV_NONE) OR
                   (if d \<in> fds_results_x s then EV_EXCEPT else EV_NONE)))"

text \<open>The list of active iods loses the deleted ones; \<open>lst\<close> is its last element at the start.\<close>

partial_function (option) active_iods_loop ::
  "'h handlers \<Rightarrow> nat option \<Rightarrow> 'h npool \<Rightarrow> nat option \<Rightarrow> 'h npool outcome option" where
  "active_iods_loop call lst p current =
     (case current of
        None \<Rightarrow> Some (Inr p)
      | Some i \<Rightarrow>
          if prev_in (active_iods p) i = lst then Some (Inr p)
          else (case (if state (iods p i) \<noteq> NSIOD_STATE_DELETED \<and> iod_pending (iods p i) \<noteq> 0
                      then (case get_evmask p i of
                              Inl e \<Rightarrow> Some (Inl e)
                            | Inr ev \<Rightarrow> process_iod_events call p i ev)
                      else Some (Inr p)) of
                  None \<Rightarrow> None
                | Some (Inl e) \<Rightarrow> Some (Inl e)
                | Some (Inr p) \<Rightarrow>
                    let nxt = next_in (active_iods p) i
                    in if state (iods p i) = NSIOD_STATE_DELETED
                       then (case list_remove (active_iods p) i of
                               Inl e \<Rightarrow> Some (Inl e)
                             | Inr l \<Rightarrow> active_iods_loop call lst (p\<lparr>active_iods := l, free_iods := i # free_iods p\<rparr>) nxt)
                       else active_iods_loop call lst p nxt))"

definition iterate_through_event_lists :: "'h handlers \<Rightarrow> 'h npool \<Rightarrow> 'h npool outcome option" where
  "iterate_through_event_lists call p =
     (case active_iods_loop call (last_elem (active_iods p)) p (if active_iods p = [] then None else Some (hd (active_iods p))) of
        None \<Rightarrow> None
      | Some (Inl e) \<Rightarrow> Some (Inl e)
      | Some (Inr p) \<Rightarrow> process_expired_events call p)"

text \<open>
  One round of \<open>select_loop\<close>: \<open>ready\<close> is what the system answers, an error or the descriptors that are ready among
  those it was asked about; interrupted calls are repeated before it answers.
\<close>

definition select_timeout :: "'h npool \<Rightarrow> int \<Rightarrow> int outcome" where
  "select_timeout p msec_timeout =
     (case gh_heap_min (timers p) of
        Inl e \<Rightarrow> Inl e
      | Inr r \<Rightarrow>
          let event_msecs = (case r of None \<Rightarrow> -1
                             | Some nse \<Rightarrow> max 0 (TIMEVAL_MSEC_SUBTRACT (ev_timeout (events p nse)) (nsock_tod p)));
              a = event_msecs mod 2 ^ 32; b = msec_timeout mod 2 ^ 32
          in Inr (signed_take_bit 31 (min a b)))"

text \<open>\<open>select\<close> looks at the descriptors up to \<open>max_sd\<close> and leaves the ready ones in its sets.\<close>

definition selected :: "select_engine_info \<Rightarrow> int set \<Rightarrow> int set \<Rightarrow> int set \<Rightarrow> select_engine_info" where
  "selected s r w x =
     s\<lparr>fds_results_r := Set.filter (\<lambda>d. d \<le> max_sd s \<and> d \<in> r) (fds_master_r s),
       fds_results_w := Set.filter (\<lambda>d. d \<le> max_sd s \<and> d \<in> w) (fds_master_w s),
       fds_results_x := Set.filter (\<lambda>d. d \<le> max_sd s \<and> d \<in> x) (fds_master_x s)\<rparr>"

definition select_loop ::
  "'h handlers \<Rightarrow> 'h npool \<Rightarrow> int \<Rightarrow> (int \<Rightarrow> (errno + int set \<times> int set \<times> int set)) \<Rightarrow> (int \<times> 'h npool) outcome option" where
  "select_loop call p msec_timeout ready =
     (if msec_timeout < -1 then Some (Inl Assert_failed)
      else if pool_pending p = 0 then Some (Inr (0, p))
      else (case select_timeout p msec_timeout of
              Inl e \<Rightarrow> Some (Inl e)
            | Inr combined_msecs \<Rightarrow>
                (case (if active_iods p = [] then Inr p
                       else (case ready combined_msecs of
                               Inl err \<Rightarrow> Inl err
                             | Inr (r, w, x) \<Rightarrow> Inr (p\<lparr>sinfo := selected (sinfo p) r w x\<rparr>))) of
                   Inl err \<Rightarrow> Some (Inr (-1, gettimeofday p))
                 | Inr p \<Rightarrow>
                     (case iterate_through_event_lists call (gettimeofday p) of
                        None \<Rightarrow> None
                      | Some (Inl e) \<Rightarrow> Some (Inl e)
                      | Some (Inr p) \<Rightarrow> Some (Inr (1, p))))))"

end
