(* ===== verification/Nsock_Pool.thy ===== *)
theory Nsock_Pool
  imports Nsock_Event
begin

text \<open>
  The invariant of an nsock pool and the proof that every request of the program and every step of the
  event loop keeps it, whatever the handlers do in between, as long as they too only use the library.
\<close>

section \<open>Lists grouped by iod\<close>

text \<open>The events of one iod are neighbours, so that its first event and \<open>gh_lnode_next\<close> find them all.\<close>

fun grouped :: "('a \<Rightarrow> 'b) \<Rightarrow> 'a list \<Rightarrow> bool" where
  "grouped f (x # y # r) \<longleftrightarrow> (f y = f x \<or> f x \<notin> f ` set (y # r)) \<and> grouped f (y # r)"
| "grouped f _ \<longleftrightarrow> True"

lemma grouped_Cons: "grouped f (x # l) \<longleftrightarrow> (l = [] \<or> f (hd l) = f x \<or> f x \<notin> f ` set l) \<and> grouped f l"
  by (cases l) auto

lemma next_in_Cons: "next_in (x # l) e = (if l = [] then None else if x = e then Some (hd l) else next_in l e)"
  by (cases l) auto

lemma find_Cons: "find P (x # l) = (if P x then Some x else find P l)"
  by simp

lemma find_None: "(\<And>x. x \<in> set l \<Longrightarrow> \<not> P x) \<Longrightarrow> find P l = None"
  by (auto simp: find_None_iff)

lemma find_SomeD: "find P l = Some e \<Longrightarrow> e \<in> set l \<and> P e"
  by (auto simp: find_Some_iff)

lemma next_is_first:
  assumes "distinct l" and "grouped f l" and "find (\<lambda>x. f x = a) l = Some e"
  shows "(case next_in l e of None \<Rightarrow> None | Some n \<Rightarrow> if f n = a then Some n else None) =
    find (\<lambda>x. f x = a) (remove1 e l)"
  using assms
proof (induction l)
  case (Cons x l)
  show ?case
  proof (cases "f x = a")
    case True
    then have e: "e = x" using Cons.prems(3) by simp
    show ?thesis
    proof (cases "l = []")
      case False
      then have "f (hd l) = a \<or> a \<notin> f ` set l" using Cons.prems(2) True by (auto simp: grouped_Cons)
      then show ?thesis using False e True by (cases l) (auto simp: image_iff intro!: find_None [symmetric] dest: sym)
    qed (simp add: e)
  next
    case False
    then have "find (\<lambda>x. f x = a) l = Some e" using Cons.prems(3) by simp
    moreover from this have "e \<in> set l" by (auto dest: find_SomeD)
    ultimately show ?thesis using Cons False by (auto simp: next_in_Cons grouped_Cons)
  qed
qed simp

lemma find_remove1: "find P l \<noteq> Some e \<Longrightarrow> find P (remove1 e l) = find P l"
  by (induction l) auto

lemma grouped_remove1: "grouped f l \<Longrightarrow> grouped f (remove1 e l)"
proof (induction l)
  case (Cons x l)
  then have IH: "grouped f (remove1 e l)" by (simp add: grouped_Cons)
  have sub: "set (remove1 e l) \<subseteq> set l" by (rule set_remove1_subset)
  show ?case
  proof (cases "x = e")
    case False
    have "remove1 e l = [] \<or> f (hd (remove1 e l)) = f x \<or> f x \<notin> f ` set (remove1 e l)"
    proof (cases l)
      case (Cons y r)
      have c: "f y = f x \<or> f x \<notin> f ` set l" and g: "grouped f (y # r)"
        using Cons.prems unfolding Cons by simp_all
      show ?thesis
      proof (cases "y = e")
        case True
        then have "remove1 e l = r" using Cons by simp
        moreover have "r = [] \<or> f (hd r) = f x \<or> f x \<notin> f ` set r"
          using c g Cons by (cases r) auto
        ultimately show ?thesis by simp
      qed (use c sub Cons in auto)
    qed simp
    then show ?thesis using False IH by (simp add: grouped_Cons)
  qed (use Cons.prems in \<open>simp add: grouped_Cons\<close>)
qed simp

lemma insert_before_wf:
  assumes "b \<in> set l"
  shows "\<exists>l1 l2. l = l1 @ b # l2 \<and> b \<notin> set l1 \<and> list_insert_before l b e = Inr (l1 @ e # b # l2)"
  using assms
proof (induction l)
  case (Cons x l)
  show ?case
  proof (cases "x = b")
    case True
    then show ?thesis by (intro exI [of _ "[]"] exI [of _ l]) simp
  next
    case False
    then obtain l1 l2 where "l = l1 @ b # l2" "b \<notin> set l1" "list_insert_before l b e = Inr (l1 @ e # b # l2)"
      using Cons by auto
    then show ?thesis using False by (intro exI [of _ "x # l1"] exI [of _ l2]) simp
  qed
qed simp

lemma grouped_insert:
  assumes "grouped f (l1 @ b # l2)" and "f e = f b" and "f b \<notin> f ` set l1"
  shows "grouped f (l1 @ e # b # l2)"
  using assms
proof (induction l1)
  case (Cons x l1)
  have IH: "grouped f (l1 @ e # b # l2)" using Cons by (simp add: grouped_Cons)
  have "f (hd (l1 @ b # l2)) = f x \<or> f x \<notin> f ` set (l1 @ b # l2)" and ne: "f b \<noteq> f x"
    using Cons.prems by (auto simp: grouped_Cons)
  then have "f (hd (l1 @ e # b # l2)) = f x \<or> f x \<notin> f ` set (l1 @ e # b # l2)"
    using Cons.prems(2) by (cases l1) auto
  then show ?case using IH by (simp add: grouped_Cons)
qed (simp add: grouped_Cons)

lemma grouped_append1: "grouped f l \<Longrightarrow> f e \<notin> f ` set l \<Longrightarrow> grouped f (l @ [e])"
proof (induction l)
  case (Cons x l)
  then show ?case by (cases l) (auto simp: grouped_Cons)
qed simp

lemma find_append: "find P (l1 @ l2) = (case find P l1 of None \<Rightarrow> find P l2 | Some x \<Rightarrow> Some x)"
  by (induction l1) auto

section \<open>The invariant\<close>

abbreviation in_heap :: "'h npool \<Rightarrow> nat set" where
  "in_heap p \<equiv> heap_nodes (expirables p)"

definition queued :: "'h npool \<Rightarrow> nat set" where
  "queued p = (\<Union>k. set (queue p k))"

text \<open>The lists are disjoint; every event is in the list of its type and belongs to an active iod.\<close>

definition lists_ok :: "'h npool \<Rightarrow> bool" where
  "lists_ok p \<longleftrightarrow>
     (\<forall>k. distinct (queue p k)) \<and> distinct (free_events p) \<and> queued p \<inter> set (free_events p) = {} \<and>
     (\<forall>e \<in> queued p \<union> set (free_events p). e < ev_brk p) \<and>
     (\<forall>k. \<forall>e \<in> set (queue p k). kind_of (ev_type (events p e)) = Some k \<and>
        ev_type (events p e) \<noteq> NSE_TYPE_CONNECT_SSL \<and> (\<exists>i \<in> set (active_iods p). ev_iod (events p e) = Some i)) \<and>
     distinct (active_iods p) \<and> distinct (free_iods p) \<and> set (active_iods p) \<inter> set (free_iods p) = {}"

text \<open>The pointers of an iod are to the first events of the iod in the lists.\<close>

definition firsts_ok :: "'h npool \<Rightarrow> bool" where
  "firsts_ok p \<longleftrightarrow>
     (\<forall>k. grouped (\<lambda>e. ev_iod (events p e)) (queue p k)) \<and>
     (\<forall>i \<in> set (active_iods p). \<forall>k.
        first_ev (iods p i) k = find (\<lambda>e. ev_iod (events p e) = Some i) (queue p k))"

text \<open>The heap holds the queued events with a timeout, and the timers.\<close>

definition timers_ok :: "'h npool \<Rightarrow> bool" where
  "timers_ok p \<longleftrightarrow>
     heap_wf (expirable_cmp (\<lambda>e. ev_timeout (events p e))) (timers p) \<and>
     (\<forall>e \<in> in_heap p. e < ev_brk p \<and> e \<notin> set (free_events p) \<and> tv_sec (ev_timeout (events p e)) \<noteq> 0 \<and>
        (e \<in> queued p \<or> ev_type (events p e) = NSE_TYPE_TIMER \<and> ev_iod (events p e) = None)) \<and>
     (\<forall>e \<in> queued p. tv_sec (ev_timeout (events p e)) \<noteq> 0 \<longrightarrow> e \<in> in_heap p)"

text \<open>Events that are done are in a list or in the heap only while their handler runs: those of \<open>D\<close>.\<close>

definition done_ok :: "nat set \<Rightarrow> 'h npool \<Rightarrow> bool" where
  "done_ok D p \<longleftrightarrow>
     (\<forall>e \<in> queued p \<union> in_heap p. event_done (events p e) \<longrightarrow> e \<in> D) \<and>
     (\<forall>e \<in> D. event_done (events p e) \<and> e < ev_brk p \<and> e \<notin> set (free_events p))"

definition open_evs :: "'h npool \<Rightarrow> nat \<Rightarrow> evkind \<Rightarrow> nat set" where
  "open_evs p i k = {e \<in> set (queue p k). ev_iod (events p e) = Some i \<and> \<not> event_done (events p e)}"

definition opens :: "'h npool \<Rightarrow> nat set" where
  "opens p = {e \<in> queued p \<union> in_heap p. \<not> event_done (events p e)}"

text \<open>
  The counters are the numbers of events that are not done: \<open>x\<close> and \<open>xi\<close> are those that are counted
  in addition, as they are being created or have not been dispatched yet.
\<close>

definition counts_ok :: "int \<Rightarrow> (nat \<Rightarrow> int) \<Rightarrow> 'h npool \<Rightarrow> bool" where
  "counts_ok x xi p \<longleftrightarrow>
     pool_pending p = x + int (card (opens p)) \<and>
     (\<forall>i \<in> set (active_iods p).
        readsd_count (iods p i) = int (card (open_evs p i Connects)) + int (card (open_evs p i Reads)) \<and>
        writesd_count (iods p i) = int (card (open_evs p i Connects)) + int (card (open_evs p i Writes)) \<and>
        iod_pending (iods p i) = xi i + int (card (open_evs p i Connects)) + int (card (open_evs p i Reads)) +
          int (card (open_evs p i Writes)))"

text \<open>The engine watches a descriptor for what is counted.\<close>

definition watch_ok :: "'h npool \<Rightarrow> bool" where
  "watch_ok p \<longleftrightarrow>
     (\<forall>i \<in> set (active_iods p).
        (registered (iods p i) \<longrightarrow> 0 \<le> sd (iods p i) \<and>
           (bit (watched_events (iods p i)) 0 \<longleftrightarrow> readsd_count (iods p i) > 0) \<and>
           (bit (watched_events (iods p i)) 1 \<longleftrightarrow> writesd_count (iods p i) > 0)) \<and>
        (\<not> registered (iods p i) \<longrightarrow> readsd_count (iods p i) = 0 \<and> writesd_count (iods p i) = 0) \<and>
        (state (iods p i) = NSIOD_STATE_DELETED \<longrightarrow> (\<forall>k. open_evs p i k = {})))"

definition sane_time :: "timeval \<Rightarrow> bool" where
  "sane_time t \<longleftrightarrow> 0 < tv_sec t \<and> 0 \<le> tv_usec t \<and> tv_usec t < 1000000"

definition clock_ok :: "'h npool \<Rightarrow> bool" where
  "clock_ok p \<longleftrightarrow> sane_time (nsock_tod p) \<and> (\<forall>t \<in> set (clock p). sane_time t)"

text \<open>An event that is not done has something left to write.\<close>

definition unsent :: "'h nevent \<Rightarrow> bool" where
  "unsent v \<longleftrightarrow> event_done v \<or> written_so_far v = 0 \<or> written_so_far v < length (iobuf v)"

definition writes_ok :: "'h npool \<Rightarrow> bool" where
  "writes_ok p \<longleftrightarrow> (\<forall>e \<in> queued p. unsent (events p e))"

definition pool_wf :: "nat set \<Rightarrow> int \<Rightarrow> (nat \<Rightarrow> int) \<Rightarrow> 'h npool \<Rightarrow> bool" where
  "pool_wf D x xi p \<longleftrightarrow>
     lists_ok p \<and> firsts_ok p \<and> timers_ok p \<and> done_ok D p \<and> counts_ok x xi p \<and> watch_ok p \<and> clock_ok p \<and> writes_ok p"

text \<open>What an operation leaves alone: the events whose handlers are running, and the iods, which only the loop takes away.\<close>

definition pins :: "nat set \<Rightarrow> 'h npool \<Rightarrow> 'h npool \<Rightarrow> bool" where
  "pins D p q \<longleftrightarrow>
     (\<forall>e \<in> D. events q e = events p e \<and> (\<forall>k. e \<in> set (queue q k) \<longleftrightarrow> e \<in> set (queue p k)) \<and>
        (e \<in> in_heap q \<longleftrightarrow> e \<in> in_heap p)) \<and>
     set (active_iods p) \<subseteq> set (active_iods q)"

text \<open>An operation may end the process on purpose, but it trips no assertion.\<close>

definition keeps :: "nat set \<Rightarrow> 'h npool \<Rightarrow> 'h npool outcome \<Rightarrow> bool" where
  "keeps D p m \<longleftrightarrow> (case m of Inl e \<Rightarrow> e = Fatal_exit | Inr q \<Rightarrow> pool_wf D 0 (\<lambda>_. 0) q \<and> pins D p q)"

lemma pins_refl [simp]: "pins D p p"
  by (simp add: pins_def)

lemma pins_trans: "pins D p q \<Longrightarrow> pins D q r \<Longrightarrow> pins D p r"
  by (auto simp: pins_def)

lemma pins_mono: "pins D p q \<Longrightarrow> D' \<subseteq> D \<Longrightarrow> pins D' p q"
  by (auto simp: pins_def)

lemma keeps_bind:
  assumes "keeps D p m" and "\<And>q. m = Inr q \<Longrightarrow> pool_wf D 0 (\<lambda>_. 0) q \<Longrightarrow> keeps D q (f q)"
  shows "keeps D p (bind_out m f)"
  using assms by (cases m) (auto simp: keeps_def split: sum.splits dest: pins_trans)

lemma set_ev_sel [simp]:
  "events (set_ev p e f) = (events p)(e := f (events p e))"
  "iods (set_ev p e f) = iods p" "queue (set_ev p e f) = queue p" "expirables (set_ev p e f) = expirables p"
  "active_iods (set_ev p e f) = active_iods p" "free_iods (set_ev p e f) = free_iods p"
  "free_events (set_ev p e f) = free_events p" "pool_pending (set_ev p e f) = pool_pending p"
  "nsock_tod (set_ev p e f) = nsock_tod p" "sinfo (set_ev p e f) = sinfo p" "ev_brk (set_ev p e f) = ev_brk p"
  "clock (set_ev p e f) = clock p" "calls (set_ev p e f) = calls p"
  "next_event_serial (set_ev p e f) = next_event_serial p" "quit (set_ev p e f) = quit p"
  by (simp_all add: set_ev_def)

lemma set_iod_sel [simp]:
  "events (set_iod p i f') = events p"
  "iods (set_iod p i f') = (iods p)(i := f' (iods p i))" "queue (set_iod p i f') = queue p"
  "expirables (set_iod p i f') = expirables p"
  "active_iods (set_iod p i f') = active_iods p" "free_iods (set_iod p i f') = free_iods p"
  "free_events (set_iod p i f') = free_events p" "pool_pending (set_iod p i f') = pool_pending p"
  "nsock_tod (set_iod p i f') = nsock_tod p" "sinfo (set_iod p i f') = sinfo p" "ev_brk (set_iod p i f') = ev_brk p"
  "clock (set_iod p i f') = clock p" "calls (set_iod p i f') = calls p"
  "next_event_serial (set_iod p i f') = next_event_serial p" "quit (set_iod p i f') = quit p"
  by (simp_all add: set_iod_def)

lemma set_queue_sel [simp]:
  "events (set_queue p k l) = events p" "iods (set_queue p k l) = iods p"
  "queue (set_queue p k l) = (queue p)(k := l)" "expirables (set_queue p k l) = expirables p"
  "active_iods (set_queue p k l) = active_iods p" "free_iods (set_queue p k l) = free_iods p"
  "free_events (set_queue p k l) = free_events p" "pool_pending (set_queue p k l) = pool_pending p"
  "nsock_tod (set_queue p k l) = nsock_tod p" "sinfo (set_queue p k l) = sinfo p" "ev_brk (set_queue p k l) = ev_brk p"
  "clock (set_queue p k l) = clock p" "calls (set_queue p k l) = calls p"
  by (simp_all add: set_queue_def)

text \<open>The order of the heap depends on the timeouts of its nodes only.\<close>

lemma heap_nodes_cmp [simp]: "heap_nodes (h\<lparr>cmp_op := c\<rparr>) = heap_nodes h"
  by (simp add: heap_nodes_def node_def)

lemma heap_wf_cong:
  assumes "heap_wf lt (h\<lparr>cmp_op := Some lt\<rparr>)" and "\<And>a b. a \<in> heap_nodes h \<Longrightarrow> b \<in> heap_nodes h \<Longrightarrow> lt' a b = lt a b"
  shows "heap_wf lt' (h\<lparr>cmp_op := Some lt'\<rparr>)"
proof -
  have n: "node h i \<in> heap_nodes h" if "i < gh_heap.count h" for i using that by (simp add: heap_nodes_def)
  have "heap_ordered lt' (h\<lparr>cmp_op := Some lt'\<rparr>)"
    unfolding heap_ordered_def
  proof (intro allI impI)
    fix i assume i: "i < gh_heap.count (h\<lparr>cmp_op := Some lt'\<rparr>)" "0 < i"
    then have 1: "i < gh_heap.count h" by simp
    have "par i < gh_heap.count h" using par_le 1 by (rule order_le_less_trans)
    with 1 show "\<not> lt' (node (h\<lparr>cmp_op := Some lt'\<rparr>) i) (node (h\<lparr>cmp_op := Some lt'\<rparr>) (par i))"
      using assms n i(2) by (simp add: heap_wf_def heap_ordered_def node_def)
  qed
  then show ?thesis using assms(1) by (simp add: heap_wf_def slots_ok_def)
qed

text \<open>A change of the data of events and iods that the lists and the heap do not depend on.\<close>

definition touched :: "'h npool \<Rightarrow> 'h npool \<Rightarrow> nat \<Rightarrow> bool" where
  "touched p q nse \<longleftrightarrow>
     queue q = queue p \<and> expirables q = expirables p \<and> active_iods q = active_iods p \<and> free_iods q = free_iods p \<and>
     free_events q = free_events p \<and> pool_pending q = pool_pending p \<and> nsock_tod q = nsock_tod p \<and>
     ev_brk q = ev_brk p \<and> clock q = clock p \<and> calls q = calls p \<and>
     (\<forall>e. e \<noteq> nse \<longrightarrow> events q e = events p e) \<and>
     ev_type (events q nse) = ev_type (events p nse) \<and> ev_iod (events q nse) = ev_iod (events p nse) \<and>
     ev_timeout (events q nse) = ev_timeout (events p nse) \<and>
     (unsent (events p nse) \<longrightarrow> unsent (events q nse)) \<and>
     (\<forall>j. first_ev (iods q j) = first_ev (iods p j) \<and> sd (iods q j) = sd (iods p j) \<and>
        state (iods q j) = state (iods p j) \<and> iod_pending (iods q j) = iod_pending (iods p j))"

lemma touched_fields:
  assumes "touched p q nse"
  shows "queue q = queue p" "expirables q = expirables p" "active_iods q = active_iods p" "free_iods q = free_iods p"
    "free_events q = free_events p" "pool_pending q = pool_pending p" "nsock_tod q = nsock_tod p" "ev_brk q = ev_brk p"
    "clock q = clock p" "queued q = queued p"
    "ev_type (events q e) = ev_type (events p e)" "ev_iod (events q e) = ev_iod (events p e)"
    "ev_timeout (events q e) = ev_timeout (events p e)" "e \<noteq> nse \<Longrightarrow> events q e = events p e"
    "first_ev (iods q j) = first_ev (iods p j)" "sd (iods q j) = sd (iods p j)" "state (iods q j) = state (iods p j)"
    "iod_pending (iods q j) = iod_pending (iods p j)" "calls q = calls p"
  using assms unfolding touched_def queued_def by (simp_all, metis+)

lemma touched_refl: "touched p p nse"
  by (simp add: touched_def)

lemma touched_trans: "touched p q nse \<Longrightarrow> touched q r nse \<Longrightarrow> touched p r nse"
  unfolding touched_def by simp

lemma touched_lists:
  assumes "touched p q nse"
  shows "lists_ok q = lists_ok p" "firsts_ok q = firsts_ok p" "timers_ok q = timers_ok p" "clock_ok q = clock_ok p"
proof -
  note t = touched_fields [OF assms]
  show "lists_ok q = lists_ok p" "firsts_ok q = firsts_ok p" "clock_ok q = clock_ok p"
    unfolding lists_ok_def firsts_ok_def clock_ok_def t(1-13) t(15) by (rule refl)+
  show "timers_ok q = timers_ok p"
    unfolding timers_ok_def timers_def t(1-13) by (rule refl)
qed

lemma touched_writes:
  assumes "touched p q nse" and "writes_ok p"
  shows "writes_ok q"
  unfolding writes_ok_def touched_fields(10) [OF assms(1)]
proof
  fix e assume "e \<in> queued p"
  then have "unsent (events p e)" using assms(2) by (simp add: writes_ok_def)
  moreover have "unsent (events p nse) \<longrightarrow> unsent (events q nse)" "e \<noteq> nse \<Longrightarrow> events q e = events p e"
    using assms(1) by (simp_all add: touched_def)
  ultimately show "unsent (events q e)" by (cases "e = nse") simp_all
qed

section \<open>Counts and the engine\<close>

lemma ev_bits [simp]:
  "bit EV_NONE n \<longleftrightarrow> False" "bit EV_READ n \<longleftrightarrow> n = 0" "bit EV_WRITE n \<longleftrightarrow> n = 1"
  by (auto simp: EV_NONE_def EV_READ_def EV_WRITE_def bit_simps)

lemma set_iod_twice: "set_iod (set_iod p i f) i g = set_iod p i (\<lambda>d. g (f d))"
  by (simp add: set_iod_def)

lemma set_iod_sinfo: "set_iod (p\<lparr>sinfo := si\<rparr>) i f = (set_iod p i f)\<lparr>sinfo := si\<rparr>"
  by (simp add: set_iod_def)

lemma modify_cases:
  assumes "ev_set AND ev_clr = 0"
  shows "select_iod_modify p i ev_set ev_clr = Inl Fatal_exit \<or>
    (\<exists>si. select_iod_modify p i ev_set ev_clr =
       Inr ((set_iod p i (\<lambda>d. d\<lparr>watched_events := (watched_events d OR ev_set) AND NOT ev_clr\<rparr>))\<lparr>sinfo := si\<rparr>))"
proof -
  let ?p = "set_iod p i (\<lambda>d. d\<lparr>watched_events := (watched_events d OR ev_set) AND NOT ev_clr\<rparr>)"
  have id: "?p = ?p\<lparr>sinfo := sinfo ?p\<rparr>" by simp
  have "select_iod_modify p i ev_set ev_clr = Inl Fatal_exit \<or> (\<exists>si. select_iod_modify p i ev_set ev_clr = Inr (?p\<lparr>sinfo := si\<rparr>))"
  proof (cases "sd (iods p i) = -1")
    case True
    then show ?thesis using assms id by (intro disjI2 exI [of _ "sinfo ?p"]) (simp add: select_iod_modify_def Let_def)
  next
    case False
    then show ?thesis using assms
      by (auto simp: select_iod_modify_def Let_def fd_update_def checked_fd_set_def checked_fd_clr_def)
  qed
  then show ?thesis .
qed

lemma register_cases:
  assumes "\<not> registered (iods p i)"
  shows "select_iod_register p i ev = Inl Fatal_exit \<or>
    (\<exists>si. select_iod_register p i ev = Inr ((set_iod p i (\<lambda>d. d\<lparr>watched_events := ev, registered := True\<rparr>))\<lparr>sinfo := si\<rparr>))"
  using assms modify_cases [of ev EV_NONE "set_iod p i (\<lambda>d. d\<lparr>watched_events := ev\<rparr>)" i]
  by (auto simp: select_iod_register_def set_iod_sinfo set_iod_twice EV_NONE_def)

text \<open>The effect of a change of the counts together with the update of the engine.\<close>

definition recounted :: "'h npool \<Rightarrow> nat \<Rightarrow> int \<Rightarrow> int \<Rightarrow> 'h npool outcome \<Rightarrow> bool" where
  "recounted p i r w m \<longleftrightarrow>
     m = Inl Fatal_exit \<or>
     (\<exists>si ev. m = Inr ((set_iod p i (\<lambda>d. d\<lparr>readsd_count := r, writesd_count := w, watched_events := ev,
          registered := True\<rparr>))\<lparr>sinfo := si\<rparr>) \<and> (bit ev 0 \<longleftrightarrow> r > 0) \<and> (bit ev 1 \<longleftrightarrow> w > 0))"

text \<open>The counts of an iod and the events the engine watches for it agree.\<close>

definition balanced :: "niod \<Rightarrow> bool" where
  "balanced d \<longleftrightarrow> readsd_count d \<ge> 0 \<and> writesd_count d \<ge> 0 \<and>
     (registered d \<longrightarrow> (bit (watched_events d) 0 \<longleftrightarrow> readsd_count d > 0) \<and> (bit (watched_events d) 1 \<longleftrightarrow> writesd_count d > 0)) \<and>
     (\<not> registered d \<longrightarrow> readsd_count d = 0 \<and> writesd_count d = 0)"

lemma still_registered:
  "registered d \<Longrightarrow> d\<lparr>readsd_count := r, writesd_count := w, watched_events := ev, registered := True\<rparr> =
     d\<lparr>readsd_count := r, writesd_count := w, watched_events := ev\<rparr>"
  by (cases d) simp

lemma update_inc:
  assumes "balanced (iods p i)" and "ev = EV_READ \<or> ev = EV_WRITE \<or> ev = EV_READ OR EV_WRITE"
    and "r = readsd_count (iods p i) + (if bit ev 0 then 1 else 0)" and "w = writesd_count (iods p i) + (if bit ev 1 then 1 else 0)"
  shows "recounted p i r w (update_events (set_iod p i (\<lambda>d. d\<lparr>readsd_count := r, writesd_count := w\<rparr>)) i ev EV_NONE)"
proof -
  let ?p = "set_iod p i (\<lambda>d. d\<lparr>readsd_count := r, writesd_count := w\<rparr>)"
  have "ev AND (ev XOR EV_NONE) = ev" "EV_NONE AND (ev XOR EV_NONE) = EV_NONE" by (simp_all add: EV_NONE_def)
  then have u: "update_events ?p i ev EV_NONE =
      (if \<not> registered (iods p i) then select_iod_register ?p i ev else select_iod_modify ?p i ev EV_NONE)"
    by (simp add: update_events_def Let_def should_clear_ev_read_def should_clear_ev_write_def EV_NONE_def)
  show ?thesis
  proof (cases "registered (iods p i)")
    case True
    have "ev AND EV_NONE = 0" by (simp add: EV_NONE_def)
    from modify_cases [OF this, of ?p i] show ?thesis
    proof (elim disjE exE)
      fix si
      let ?e = "(watched_events (iods p i) OR ev) AND NOT EV_NONE"
      assume "select_iod_modify ?p i ev EV_NONE =
        Inr ((set_iod ?p i (\<lambda>d. d\<lparr>watched_events := (watched_events d OR ev) AND NOT EV_NONE\<rparr>))\<lparr>sinfo := si\<rparr>)"
      then have "update_events ?p i ev EV_NONE = Inr ((set_iod p i (\<lambda>d. d\<lparr>readsd_count := r, writesd_count := w,
          watched_events := ?e, registered := True\<rparr>))\<lparr>sinfo := si\<rparr>)"
        using True unfolding u by (simp add: set_iod_def still_registered)
      moreover have "bit ?e 0 \<longleftrightarrow> r > 0" "bit ?e 1 \<longleftrightarrow> w > 0"
        using True assms(1,3,4) by (auto simp: balanced_def bit_simps)
      ultimately show ?thesis unfolding recounted_def by blast
    qed (simp add: u True recounted_def)
  next
    case False
    then have n: "\<not> registered (iods ?p i)" by simp
    have "bit ev 0 \<longleftrightarrow> r > 0" "bit ev 1 \<longleftrightarrow> w > 0" using False assms by (auto simp: balanced_def bit_simps)
    moreover have "update_events ?p i ev EV_NONE = Inl Fatal_exit \<or> (\<exists>si. update_events ?p i ev EV_NONE =
        Inr ((set_iod p i (\<lambda>d. d\<lparr>readsd_count := r, writesd_count := w, watched_events := ev, registered := True\<rparr>))\<lparr>sinfo := si\<rparr>))"
      using register_cases [OF n, of ev] False unfolding u by (simp add: set_iod_twice)
    ultimately show ?thesis unfolding recounted_def by blast
  qed
qed

lemma update_dec:
  assumes "balanced (iods p i)" and "registered (iods p i)" and "0 \<le> r" and "0 \<le> w"
    and "ev = (if dr \<and> r = 0 then EV_READ else EV_NONE) OR (if dw \<and> w = 0 then EV_WRITE else EV_NONE)"
    and "readsd_count (iods p i) = r + (if dr then 1 else 0)" and "writesd_count (iods p i) = w + (if dw then 1 else 0)"
  shows "recounted p i r w (update_events (set_iod p i (\<lambda>d. d\<lparr>readsd_count := r, writesd_count := w\<rparr>)) i EV_NONE ev)"
proof -
  let ?p = "set_iod p i (\<lambda>d. d\<lparr>readsd_count := r, writesd_count := w\<rparr>)"
  let ?e = "(watched_events (iods p i) OR EV_NONE) AND NOT ev"
  have b: "bit ev n \<longleftrightarrow> n = 0 \<and> dr \<and> r = 0 \<or> n = 1 \<and> dw \<and> w = 0" for n using assms(5) by (auto simp: bit_or_iff)
  have m: "EV_NONE AND (EV_NONE XOR ev) = EV_NONE" "ev AND (EV_NONE XOR ev) = ev" by (simp_all add: EV_NONE_def)
  have t: "ev AND EV_READ \<noteq> 0 \<longleftrightarrow> dr \<and> r = 0" "ev AND EV_WRITE \<noteq> 0 \<longleftrightarrow> dw \<and> w = 0"
    using assms(5) by (auto simp: EV_READ_def EV_WRITE_def EV_NONE_def)
  have "(if should_clear_ev_read (iods ?p i) ev then EV_READ else EV_NONE) OR
      (if should_clear_ev_write (iods ?p i) ev then EV_WRITE else EV_NONE) = ev"
  proof -
    have c: "should_clear_ev_read (iods ?p i) ev \<longleftrightarrow> dr \<and> r = 0" "should_clear_ev_write (iods ?p i) ev \<longleftrightarrow> dw \<and> w = 0"
      unfolding should_clear_ev_read_def should_clear_ev_write_def t by auto
    show ?thesis unfolding c by (rule assms(5) [symmetric])
  qed
  then have u: "update_events ?p i EV_NONE ev = select_iod_modify ?p i EV_NONE ev"
    using assms(2) by (simp add: update_events_def Let_def m)
  have "EV_NONE AND ev = 0" by (simp add: EV_NONE_def)
  from modify_cases [OF this, of ?p i] show ?thesis
  proof (elim disjE exE)
    fix si
    assume "select_iod_modify ?p i EV_NONE ev =
      Inr ((set_iod ?p i (\<lambda>d. d\<lparr>watched_events := (watched_events d OR EV_NONE) AND NOT ev\<rparr>))\<lparr>sinfo := si\<rparr>)"
    then have "update_events ?p i EV_NONE ev = Inr ((set_iod p i (\<lambda>d. d\<lparr>readsd_count := r, writesd_count := w,
        watched_events := ?e, registered := True\<rparr>))\<lparr>sinfo := si\<rparr>)"
      using assms(2) unfolding u by (simp add: set_iod_def still_registered)
    moreover have "bit ?e 0 \<longleftrightarrow> r > 0"
    proof -
      have "bit ?e 0 \<longleftrightarrow> readsd_count (iods p i) > 0 \<and> \<not> (dr \<and> r = 0)"
        using assms(1,2) by (simp add: bit_and_iff bit_or_iff bit_not_iff b balanced_def)
      then show ?thesis using assms(3,6) by (cases dr) auto
    qed
    moreover have "bit ?e 1 \<longleftrightarrow> w > 0"
    proof -
      have "bit ?e 1 \<longleftrightarrow> writesd_count (iods p i) > 0 \<and> \<not> (dw \<and> w = 0)"
        using assms(1,2) by (simp add: bit_and_iff bit_or_iff bit_not_iff b balanced_def)
      then show ?thesis using assms(4,7) by (cases dw) auto
    qed
    ultimately show ?thesis unfolding recounted_def by blast
  qed (simp add: u recounted_def)
qed

section \<open>Completing an event\<close>

lemma evkind_all: "(\<forall>k. P k) \<longleftrightarrow> P Connects \<and> P Reads \<and> P Writes"
  by (metis evkind.exhaust)

lemma queued_eq: "queued p = set (queue p Connects) \<union> set (queue p Reads) \<union> set (queue p Writes)"
  unfolding queued_def by (auto intro: evkind.exhaust) (metis evkind.exhaust)

lemma in_queue: "e \<in> set (queue p k) \<Longrightarrow> e \<in> queued p"
  by (auto simp: queued_def)

lemma finite_queued [simp]: "finite (queued p)"
  by (simp add: queued_eq)

lemma finite_in_heap [simp]: "finite (heap_nodes h)"
  by (simp add: heap_nodes_def)

lemma finite_opens [simp]: "finite (opens p)" "finite (open_evs p i k)"
  by (simp_all add: opens_def open_evs_def)

definition same_counts :: "'h npool \<Rightarrow> 'h npool \<Rightarrow> nat \<Rightarrow> bool" where
  "same_counts p q j \<longleftrightarrow> readsd_count (iods q j) = readsd_count (iods p j) \<and>
     writesd_count (iods q j) = writesd_count (iods p j) \<and> watched_events (iods q j) = watched_events (iods p j) \<and>
     registered (iods q j) = registered (iods p j)"

lemma touched_open:
  assumes "touched p q e" and "event_done (events q e) = event_done (events p e)" and "\<And>j. same_counts p q j"
    and "pool_wf D x xi p"
  shows "pool_wf D x xi q"
proof -
  note t = touched_fields [OF assms(1)]
  have d: "event_done (events q e') = event_done (events p e')" for e' using assms(2) t(14) by (cases "e' = e") simp_all
  have o: "opens q = opens p" "open_evs q i k = open_evs p i k" for i k
    unfolding opens_def open_evs_def t(1,2,10,12) d by (rule refl)+
  have c: "readsd_count (iods q j) = readsd_count (iods p j)" "writesd_count (iods q j) = writesd_count (iods p j)"
    "watched_events (iods q j) = watched_events (iods p j)" "registered (iods q j) = registered (iods p j)" for j
    using assms(3) [of j] by (simp_all add: same_counts_def)
  have "counts_ok x xi q = counts_ok x xi p" "watch_ok q = watch_ok p" "done_ok D q = done_ok D p"
    unfolding counts_ok_def watch_ok_def done_ok_def o c d t(1-13) t(15-18) by (rule refl)+
  then show ?thesis
    using assms(4) touched_writes [OF assms(1)] unfolding pool_wf_def touched_lists [OF assms(1)] by simp
qed

definition reads_kind :: "evkind \<Rightarrow> bool" where "reads_kind k \<longleftrightarrow> k \<noteq> Writes"
definition writes_kind :: "evkind \<Rightarrow> bool" where "writes_kind k \<longleftrightarrow> k \<noteq> Reads"

lemma card_open_less:
  "e \<in> S \<Longrightarrow> finite S \<Longrightarrow> int (card S) = int (card (S - {e})) + 1"
  by (metis One_nat_def card.remove int_Suc plus_1_eq_Suc add.commute of_nat_add of_nat_1)

lemma touched_done:
  assumes t: "touched p q e" and wf: "pool_wf D x xi p"
    and e: "e \<in> set (queue p k)" "\<not> event_done (events p e)" "ev_iod (events p e) = Some i"
    and q: "event_done (events q e)" "\<And>j. j \<noteq> i \<Longrightarrow> same_counts p q j"
      "readsd_count (iods q i) = readsd_count (iods p i) - (if reads_kind k then 1 else 0)"
      "writesd_count (iods q i) = writesd_count (iods p i) - (if writes_kind k then 1 else 0)"
      "registered (iods q i)" "0 \<le> sd (iods p i)"
      "bit (watched_events (iods q i)) 0 \<longleftrightarrow> readsd_count (iods q i) > 0"
      "bit (watched_events (iods q i)) 1 \<longleftrightarrow> writesd_count (iods q i) > 0"
  shows "pool_wf (insert e D) (x + 1) (xi(i := xi i + 1)) q"
proof -
  note f = touched_fields [OF t]
  have lo: "lists_ok p" and ok: "counts_ok x xi p" "watch_ok p" "done_ok D p" using wf by (simp_all add: pool_wf_def)
  have d: "event_done (events q e') \<longleftrightarrow> e' = e \<or> event_done (events p e')" for e'
    using q(1) f(14) by (cases "e' = e") simp_all
  have os: "opens q = opens p - {e}" "open_evs q j k' = open_evs p j k' - {e}" for j k'
    unfolding opens_def open_evs_def f(1,2,10,12) d by auto
  have eo: "e \<in> opens p" "e \<in> open_evs p i k" using e by (auto simp: opens_def open_evs_def in_queue)
  have other: "open_evs q j k' = open_evs p j k'" if "j \<noteq> i \<or> k' \<noteq> k" for j k'
  proof -
    have "e \<notin> set (queue p k')" if "k' \<noteq> k"
      using that lo e(1) unfolding lists_ok_def by (metis option.inject)
    then have "e \<notin> open_evs p j k'" using that e(3) by (auto simp: open_evs_def)
    then show ?thesis unfolding os by simp
  qed
  have n1: "int (card (open_evs p i k)) = int (card (open_evs q i k)) + 1"
    using card_open_less [OF eo(2)] os(2) by simp
  have n2: "int (card (opens p)) = int (card (opens q)) + 1" using card_open_less [OF eo(1)] os(1) by simp
  have "counts_ok (x + 1) (xi(i := xi i + 1)) q"
    unfolding counts_ok_def f(3,6)
  proof (intro conjI ballI)
    show "pool_pending p = x + 1 + int (card (opens q))" using ok(1) n2 by (simp add: counts_ok_def)
    fix j assume j: "j \<in> set (active_iods p)"
    note cp = ok(1) [unfolded counts_ok_def, THEN conjunct2, rule_format, OF j]
    have "readsd_count (iods q j) = int (card (open_evs q j Connects)) + int (card (open_evs q j Reads)) \<and>
        writesd_count (iods q j) = int (card (open_evs q j Connects)) + int (card (open_evs q j Writes)) \<and>
        iod_pending (iods q j) = (xi(i := xi i + 1)) j + int (card (open_evs q j Connects)) +
          int (card (open_evs q j Reads)) + int (card (open_evs q j Writes))"
    proof (cases "j = i")
      case False
      then show ?thesis using cp q(2) [OF False] f(18) [of j] other [of j] by (simp add: same_counts_def)
    next
      case True
      show ?thesis
        using cp q(3,4) f(18) [of j] n1 other [of i Connects] other [of i Reads] other [of i Writes] unfolding True
        by (cases k) (simp_all add: reads_kind_def writes_kind_def)
    qed
    then show "readsd_count (iods q j) = int (card (open_evs q j Connects)) + int (card (open_evs q j Reads))"
      "writesd_count (iods q j) = int (card (open_evs q j Connects)) + int (card (open_evs q j Writes))"
      "iod_pending (iods q j) = (xi(i := xi i + 1)) j + int (card (open_evs q j Connects)) +
          int (card (open_evs q j Reads)) + int (card (open_evs q j Writes))" by simp_all
  qed
  moreover have "watch_ok q"
    using ok(2) q(2,5-8) os(2) unfolding watch_ok_def f(3,16,17) same_counts_def
    by (metis Diff_empty Diff_insert0 empty_iff)
  moreover have "done_ok (insert e D) q"
    using ok(3) lo in_queue [OF e(1)] q(1) unfolding done_ok_def lists_ok_def f(2,5,8,10) d by blast
  ultimately show ?thesis using wf touched_writes [OF t] unfolding pool_wf_def touched_lists [OF t] by simp
qed

lemma touched_timer:
  assumes t: "touched p q e" and wf: "pool_wf D x xi p"
    and e: "e \<in> in_heap p" "\<not> event_done (events p e)" "ev_type (events p e) = NSE_TYPE_TIMER"
    and q: "event_done (events q e)" "\<And>j. same_counts p q j"
  shows "pool_wf (insert e D) (x + 1) xi q"
proof -
  note f = touched_fields [OF t]
  have lo: "lists_ok p" and ti: "timers_ok p" and ok: "counts_ok x xi p" "watch_ok p" "done_ok D p"
    using wf by (simp_all add: pool_wf_def)
  have d: "event_done (events q e') \<longleftrightarrow> e' = e \<or> event_done (events p e')" for e'
    using q(1) f(14) by (cases "e' = e") simp_all
  have nq: "e \<notin> set (queue p k)" for k
  proof -
    have "kind_of (ev_type (events p e)) = None" using e(3) by (simp add: kind_of_def)
    then show ?thesis using lo unfolding lists_ok_def by (metis option.distinct(1))
  qed
  have os: "opens q = opens p - {e}" "open_evs q j k = open_evs p j k" for j k
    unfolding opens_def open_evs_def f(1,2,10,12) d using nq by auto
  have c: "readsd_count (iods q j) = readsd_count (iods p j)" "writesd_count (iods q j) = writesd_count (iods p j)"
    "watched_events (iods q j) = watched_events (iods p j)" "registered (iods q j) = registered (iods p j)" for j
    using q(2) [of j] by (simp_all add: same_counts_def)
  have "e \<in> opens p" using e by (simp add: opens_def)
  then have "int (card (opens p)) = int (card (opens q)) + 1" unfolding os(1) by (rule card_open_less) simp
  then have "counts_ok (x + 1) xi q"
    using ok(1) unfolding counts_ok_def os(2) c f(3,6,18) by simp
  moreover have "watch_ok q" using ok(2) unfolding watch_ok_def os(2) c f(3,16,17) .
  moreover have "done_ok (insert e D) q"
    using ok(3) ti e(1) q(1) unfolding done_ok_def timers_ok_def f(2,5,8,10) d by blast
  ultimately show ?thesis using wf touched_writes [OF t] unfolding pool_wf_def touched_lists [OF t] by simp
qed

lemma open_counts:
  assumes wf: "pool_wf D x xi p" and e: "e \<in> set (queue p k)" "\<not> event_done (events p e)" "ev_iod (events p e) = Some i"
  shows "i \<in> set (active_iods p)" "balanced (iods p i)" "registered (iods p i)" "0 \<le> sd (iods p i)"
    "reads_kind k \<Longrightarrow> readsd_count (iods p i) > 0" "writes_kind k \<Longrightarrow> writesd_count (iods p i) > 0"
    "state (iods p i) \<noteq> NSIOD_STATE_DELETED"
proof -
  show i: "i \<in> set (active_iods p)" using wf e(1,3) by (fastforce simp: pool_wf_def lists_ok_def)
  have o: "e \<in> open_evs p i k" using e by (simp add: open_evs_def)
  then have n: "card (open_evs p i k) > 0" using finite_opens(2) card_gt_0_iff by blast
  have c: "readsd_count (iods p i) = int (card (open_evs p i Connects)) + int (card (open_evs p i Reads))"
    "writesd_count (iods p i) = int (card (open_evs p i Connects)) + int (card (open_evs p i Writes))"
    using wf i by (auto simp: pool_wf_def counts_ok_def)
  show r: "reads_kind k \<Longrightarrow> readsd_count (iods p i) > 0" and w: "writes_kind k \<Longrightarrow> writesd_count (iods p i) > 0"
    using c n by (cases k; simp add: reads_kind_def writes_kind_def)+
  have wo: "watch_ok p" using wf by (simp add: pool_wf_def)
  have "reads_kind k \<or> writes_kind k" by (cases k) (simp_all add: reads_kind_def writes_kind_def)
  then show reg: "registered (iods p i)" using r w wo i unfolding watch_ok_def by fastforce
  show "0 \<le> sd (iods p i)" using reg wo i by (simp add: watch_ok_def)
  show "balanced (iods p i)" using reg wo i c by (simp add: watch_ok_def balanced_def)
  show "state (iods p i) \<noteq> NSIOD_STATE_DELETED" using wo i o unfolding watch_ok_def by blast
qed

lemma finish_event:
  assumes wf: "pool_wf D x xi p" and e: "e \<in> set (queue p k)" "\<not> event_done (events p e)" "ev_iod (events p e) = Some i"
    and p1: "touched p p1 e" "\<And>j. same_counts p p1 j" "event_done (events p1 e)"
    and m: "recounted p1 i (readsd_count (iods p i) - (if reads_kind k then 1 else 0))
      (writesd_count (iods p i) - (if writes_kind k then 1 else 0)) m"
  shows "m = Inl Fatal_exit \<or> (\<exists>q. m = Inr q \<and> touched p q e \<and> events q = events p1 \<and>
    pool_wf (insert e D) (x + 1) (xi(i := xi i + 1)) q)"
proof -
  let ?r = "readsd_count (iods p i) - (if reads_kind k then 1 else 0)"
  let ?w = "writesd_count (iods p i) - (if writes_kind k then 1 else 0)"
  consider "m = Inl Fatal_exit" | si ev where "m = Inr ((set_iod p1 i (\<lambda>d. d\<lparr>readsd_count := ?r, writesd_count := ?w,
      watched_events := ev, registered := True\<rparr>))\<lparr>sinfo := si\<rparr>)" "bit ev 0 \<longleftrightarrow> ?r > 0" "bit ev 1 \<longleftrightarrow> ?w > 0"
    using m unfolding recounted_def by blast
  then show ?thesis
  proof cases
    case 2
    let ?q = "(set_iod p1 i (\<lambda>d. d\<lparr>readsd_count := ?r, writesd_count := ?w, watched_events := ev, registered := True\<rparr>))\<lparr>sinfo := si\<rparr>"
    have t: "touched p ?q e" using p1(1) unfolding touched_def by simp
    have sc: "same_counts p ?q j" if "j \<noteq> i" for j using p1(2) [of j] that by (simp add: same_counts_def)
    have "pool_wf (insert e D) (x + 1) (xi(i := xi i + 1)) ?q"
      by (rule touched_done [OF t wf e _ sc]) (use p1(3) 2(2,3) open_counts(4) [OF wf e] in simp_all)
    then show ?thesis using 2(1) t by (intro disjI2 exI [of _ ?q]) simp
  qed simp
qed

lemma set_counts:
  assumes "r = readsd_count (f (iods p i))" and "w = writesd_count (f (iods p i))"
    and "\<And>d. (f d)\<lparr>readsd_count := r, writesd_count := w\<rparr> = d\<lparr>readsd_count := r, writesd_count := w\<rparr>"
  shows "set_iod p i f = set_iod p i (\<lambda>d. d\<lparr>readsd_count := r, writesd_count := w\<rparr>)"
proof -
  have "f (iods p i) = (f (iods p i))\<lparr>readsd_count := r, writesd_count := w\<rparr>" using assms(1,2) by simp
  then show ?thesis unfolding set_iod_def using assms(3) by simp
qed

lemma or_EV_NONE [simp]: "x OR EV_NONE = x" "EV_NONE OR x = x"
  by (simp_all add: EV_NONE_def)

lemma dec_read_rec:
  assumes "balanced (iods p i)" "registered (iods p i)" "readsd_count (iods p i) > 0"
  shows "recounted p i (readsd_count (iods p i) - 1) (writesd_count (iods p i))
    (bind_out (socket_count_read_dec p i) (\<lambda>(ev, p). update_events p i EV_NONE ev))"
proof -
  let ?r = "readsd_count (iods p i) - 1" and ?w = "writesd_count (iods p i)"
  have eq: "set_iod p i (\<lambda>d. d\<lparr>readsd_count := readsd_count d - 1\<rparr>) = set_iod p i (\<lambda>d. d\<lparr>readsd_count := ?r, writesd_count := ?w\<rparr>)"
    by (rule set_counts) simp_all
  have "0 \<le> ?r" "0 \<le> ?w" using assms by (simp_all add: balanced_def)
  from update_dec [OF assms(1,2) this, of "if ?r = 0 then EV_READ else EV_NONE" True False] show ?thesis
    using assms(3-) by (simp add: socket_count_read_dec_def eq split del: if_split)
qed

lemma dec_write_rec:
  assumes "balanced (iods p i)" "registered (iods p i)" "writesd_count (iods p i) > 0"
  shows "recounted p i (readsd_count (iods p i)) (writesd_count (iods p i) - 1)
    (bind_out (socket_count_write_dec p i) (\<lambda>(ev, p). update_events p i EV_NONE ev))"
proof -
  let ?r = "readsd_count (iods p i)" and ?w = "writesd_count (iods p i) - 1"
  have eq: "set_iod p i (\<lambda>d. d\<lparr>writesd_count := writesd_count d - 1\<rparr>) = set_iod p i (\<lambda>d. d\<lparr>readsd_count := ?r, writesd_count := ?w\<rparr>)"
    by (rule set_counts) simp_all
  have "0 \<le> ?r" "0 \<le> ?w" using assms by (simp_all add: balanced_def)
  from update_dec [OF assms(1,2) this, of "if ?w = 0 then EV_WRITE else EV_NONE" False True] show ?thesis
    using assms(3-) by (simp add: socket_count_write_dec_def eq split del: if_split)
qed

lemma dec_both_rec:
  assumes "balanced (iods p i)" "registered (iods p i)" "readsd_count (iods p i) > 0" "writesd_count (iods p i) > 0"
  shows "recounted p i (readsd_count (iods p i) - 1) (writesd_count (iods p i) - 1)
    (bind_out (socket_count_read_dec p i) (\<lambda>(ev_r, p). bind_out (socket_count_write_dec p i) (\<lambda>(ev_w, p).
       update_events p i EV_NONE (ev_r OR ev_w))))"
proof -
  let ?r = "readsd_count (iods p i) - 1" and ?w = "writesd_count (iods p i) - 1"
  have eq: "set_iod (set_iod p i (\<lambda>d. d\<lparr>readsd_count := readsd_count d - 1\<rparr>)) i (\<lambda>d. d\<lparr>writesd_count := writesd_count d - 1\<rparr>) =
      set_iod p i (\<lambda>d. d\<lparr>readsd_count := ?r, writesd_count := ?w\<rparr>)"
    unfolding set_iod_twice by (rule set_counts) simp_all
  have "0 \<le> ?r" "0 \<le> ?w" using assms by (simp_all add: balanced_def)
  from update_dec [OF assms(1,2) this, of "(if ?r = 0 then EV_READ else EV_NONE) OR (if ?w = 0 then EV_WRITE else EV_NONE)" True True] show ?thesis
    using assms(3-) by (simp add: socket_count_read_dec_def socket_count_write_dec_def eq split del: if_split)
qed

end
