(* ===== verification/Nsock_Run.thy ===== *)
theory Nsock_Run
  imports Nsock_Pool
begin

text \<open>
  Every request of the program and every step of the event loop keeps the invariant of the pool, whatever the
  handlers do in between, as long as they too only use the library.
\<close>

section \<open>Handling the result of an event\<close>

text \<open>The data of the event and of iods may change, the counts do not.\<close>

definition quiet :: "'h npool \<Rightarrow> 'h npool \<Rightarrow> nat \<Rightarrow> bool" where
  "quiet p q e \<longleftrightarrow> touched p q e \<and> (\<forall>j. same_counts p q j)"

lemma stays_quiet_refl [simp]: "quiet p p e"
  by (simp add: quiet_def touched_refl same_counts_def)

lemma quiet_ev:
  assumes "quiet p q e" and "ev_type (f (events q e)) = ev_type (events q e)" and "ev_iod (f (events q e)) = ev_iod (events q e)"
    and "ev_timeout (f (events q e)) = ev_timeout (events q e)" and "unsent (events q e) \<Longrightarrow> unsent (f (events q e))"
  shows "quiet p (set_ev q e f) e"
  using assms unfolding quiet_def touched_def same_counts_def by simp

lemma quiet_iod:
  assumes "quiet p q e" and "\<And>d. first_ev (f d) = first_ev d \<and> sd (f d) = sd d \<and> state (f d) = state d \<and>
      iod_pending (f d) = iod_pending d \<and> readsd_count (f d) = readsd_count d \<and> writesd_count (f d) = writesd_count d \<and>
      watched_events (f d) = watched_events d \<and> registered (f d) = registered d"
  shows "quiet p (set_iod q i f) e"
  using assms unfolding quiet_def touched_def same_counts_def by simp

lemma quiet_complete: "quiet p q e \<Longrightarrow> quiet p (complete q e st) e"
  unfolding complete_def by (erule quiet_ev) (simp_all add: unsent_def)

lemma complete_done [simp]: "event_done (events (complete p e st) e)"
  by (simp add: complete_def)

lemma complete_sel [simp]: "iods (complete p e st) = iods p"
  by (simp add: complete_def)

text \<open>What handling an event of iod \<open>i\<close> does: when it is done, it is counted until it is dispatched.\<close>

definition handled ::
  "nat set \<Rightarrow> int \<Rightarrow> (nat \<Rightarrow> int) \<Rightarrow> nat \<Rightarrow> 'h npool \<Rightarrow> nat \<Rightarrow> 'h nevent \<Rightarrow> 'h npool outcome \<Rightarrow> bool" where
  "handled D x xi i p e v m \<longleftrightarrow>
     m = Inl Fatal_exit \<or>
     (\<exists>q. m = Inr q \<and> touched p q e \<and> events q e = v \<and>
        (if event_done v then pool_wf (insert e D) (x + 1) (xi(i := xi i + 1)) q else pool_wf D x xi q))"

lemma handled_stage:
  assumes wf: "pool_wf D x xi p" and e: "e \<in> set (queue p k)" "\<not> event_done (events p e)" "ev_iod (events p e) = Some i"
    and q: "quiet p p1 e"
    and m: "balanced (iods p1 i) \<Longrightarrow> registered (iods p1 i) \<Longrightarrow> sd (iods p1 i) \<ge> 0 \<Longrightarrow>
      (reads_kind k \<Longrightarrow> readsd_count (iods p1 i) > 0) \<Longrightarrow> (writes_kind k \<Longrightarrow> writesd_count (iods p1 i) > 0) \<Longrightarrow>
      event_done (events p1 e) \<Longrightarrow>
      recounted p1 i (readsd_count (iods p1 i) - (if reads_kind k then 1 else 0))
        (writesd_count (iods p1 i) - (if writes_kind k then 1 else 0)) m"
    and n: "\<not> event_done (events p1 e) \<Longrightarrow> m = Inr p1"
  shows "handled D x xi i p e (events p1 e) m"
proof -
  have t: "touched p p1 e" and c: "\<And>j. same_counts p p1 j" using q by (simp_all add: quiet_def)
  note o = open_counts [OF wf e]
  show ?thesis
  proof (cases "event_done (events p1 e)")
    case True
    have "sd (iods p1 i) \<ge> 0" "balanced (iods p1 i)"
      using o(2,4) c [of i] touched_fields(16) [OF t, of i] by (simp_all add: balanced_def same_counts_def)
    then have "recounted p1 i (readsd_count (iods p i) - (if reads_kind k then 1 else 0))
        (writesd_count (iods p i) - (if writes_kind k then 1 else 0)) m"
      using m o(3,5,6) c [of i] True by (simp add: same_counts_def)
    from finish_event [OF wf e t c True this] show ?thesis
    proof (elim disjE exE conjE)
      fix q assume "m = Inr q" "touched p q e" "events q = events p1" "pool_wf (insert e D) (x + 1) (xi(i := xi i + 1)) q"
      then show ?thesis using True unfolding handled_def by (intro disjI2 exI [of _ q]) simp
    qed (simp add: handled_def)
  next
    case False
    then show ?thesis using touched_open [OF t _ c wf] n e(2) t by (simp add: handled_def)
  qed
qed

lemma kind_of_queue: "pool_wf D x xi p \<Longrightarrow> e \<in> set (queue p k) \<Longrightarrow> kind_of (ev_type (events p e)) = Some k"
  by (simp add: pool_wf_def lists_ok_def)

lemma queue_types:
  assumes "pool_wf D x xi p" and "e \<in> set (queue p k)"
  shows "k = Connects \<Longrightarrow> ev_type (events p e) = NSE_TYPE_CONNECT" "k = Reads \<Longrightarrow> ev_type (events p e) = NSE_TYPE_READ"
    "k = Writes \<Longrightarrow> ev_type (events p e) = NSE_TYPE_WRITE"
proof -
  have "kind_of (ev_type (events p e)) = Some k" "ev_type (events p e) \<noteq> NSE_TYPE_CONNECT_SSL"
    using assms by (simp_all add: pool_wf_def lists_ok_def)
  then show "k = Connects \<Longrightarrow> ev_type (events p e) = NSE_TYPE_CONNECT" "k = Reads \<Longrightarrow> ev_type (events p e) = NSE_TYPE_READ"
    "k = Writes \<Longrightarrow> ev_type (events p e) = NSE_TYPE_WRITE"
    by (cases "ev_type (events p e)"; simp add: kind_of_def)+
qed

lemma queue_iod:
  "pool_wf D x xi p \<Longrightarrow> e \<in> set (queue p k) \<Longrightarrow> \<exists>i \<in> set (active_iods p). ev_iod (events p e) = Some i"
  by (simp add: pool_wf_def lists_ok_def)

text \<open>The statuses with which the library handles events; the last two always complete them.\<close>

definition handling :: "nse_status \<Rightarrow> bool" where
  "handling st \<longleftrightarrow> st = NSE_STATUS_SUCCESS \<or> st = NSE_STATUS_TIMEOUT \<or> st = NSE_STATUS_CANCELLED"

definition forced :: "nse_status \<Rightarrow> 'h nevent \<Rightarrow> bool" where
  "forced st v \<longleftrightarrow> st = NSE_STATUS_SUCCESS \<or>
     event_done v \<and> (st = NSE_STATUS_CANCELLED \<longrightarrow> ev_status v = NSE_STATUS_CANCELLED)"

lemma forced_complete: "handling st \<Longrightarrow> forced st (events (complete p e st) e)"
  by (auto simp: forced_def complete_def handling_def)

lemma quiet_iod_write: "quiet p (snd (iod_write p i str)) e"
  unfolding iod_write_def by (auto simp: Let_def intro!: quiet_iod split: list.split write_result.split)

lemma read_loop_appends: "\<exists>r. fst (read_loop f m b rs) = b @ r"
proof (induction f m b rs rule: read_loop.induct)
  case (3 f m b buf rs)
  then show ?case by (auto simp: Let_def)
qed auto

lemma quiet_do_actual_read: "quiet p (snd (do_actual_read p i e)) e"
proof -
  obtain b how rs where r: "read_loop False (if read_type (events p e) = NSOCK_READBYTES then read_num (events p e) else NSOCK_READ_CHUNK_SIZE)
      (iobuf (events p e)) (in_reads (iods p i)) = (b, how, rs)" by (metis prod_cases3)
  obtain s where b: "b = iobuf (events p e) @ s" using read_loop_appends r by (metis fst_conv)
  then have q: "quiet p (set_ev (set_iod p i (\<lambda>d. d\<lparr>in_reads := rs\<rparr>)) e (\<lambda>v. v\<lparr>iobuf := b\<rparr>)) e"
    by (intro quiet_ev quiet_iod) (auto simp: unsent_def)
  show ?thesis
    unfolding do_actual_read_def Let_def r prod.case
    by (cases how) (use b in \<open>auto intro!: q quiet_ev quiet_iod quiet_complete simp: unsent_def\<close>)
qed

lemma connect_handled:
  assumes wf: "pool_wf D x xi p" and e: "e \<in> set (queue p Connects)" "\<not> event_done (events p e)" "ev_iod (events p e) = Some i"
    and st: "handling st"
  shows "\<exists>v. handled D x xi i p e v (handle_connect_result p e st) \<and> forced st v \<and> event_done v"
proof -
  let ?s = "case so_error (iods p i) of None \<Rightarrow> NSE_STATUS_SUCCESS | Some _ \<Rightarrow> NSE_STATUS_ERROR"
  let ?p = "set_ev p e (\<lambda>v. v\<lparr>ev_status := ?s, ev_errnum := (case so_error (iods p i) of None \<Rightarrow> ev_errnum v | Some err \<Rightarrow> Some err)\<rparr>)"
  define p1 where "p1 = (if st = NSE_STATUS_SUCCESS then set_ev ?p e (\<lambda>v. v\<lparr>event_done := True\<rparr>) else complete p e st)"
  let ?m = "bind_out (socket_count_read_dec p1 i) (\<lambda>(ev_r, p). bind_out (socket_count_write_dec p i) (\<lambda>(ev_w, p).
               update_events p i EV_NONE (ev_r OR ev_w)))"
  have "sd (iods p i) \<noteq> -1" using open_counts(4) [OF wf e] by simp
  moreover have "ev_type (events ?p e) \<noteq> NSE_TYPE_CONNECT_SSL" using queue_types(1) [OF wf e(1) refl] by simp
  ultimately have m: "handle_connect_result p e st = ?m"
    using st e(3) unfolding handle_connect_result_def Let_def p1_def
    by (cases "st = NSE_STATUS_SUCCESS") (simp_all add: handling_def)
  have q: "quiet p p1 e" unfolding p1_def by (auto intro!: quiet_ev quiet_complete simp: unsent_def)
  have d: "event_done (events p1 e)" by (simp add: p1_def)
  have "handled D x xi i p e (events p1 e) ?m"
    by (rule handled_stage [OF wf e q])
      (use d dec_both_rec [of p1 i] in \<open>simp_all add: reads_kind_def writes_kind_def\<close>)
  moreover have "forced st (events p1 e)"
    using st unfolding p1_def by (cases "st = NSE_STATUS_SUCCESS") (simp add: forced_def, simp add: forced_complete)
  ultimately show ?thesis unfolding m using d by blast
qed

lemma write_handled:
  assumes wf: "pool_wf D x xi p" and e: "e \<in> set (queue p Writes)" "\<not> event_done (events p e)" "ev_iod (events p e) = Some i"
    and st: "handling st"
  shows "\<exists>v. handled D x xi i p e v (handle_write_result p e st) \<and> forced st v"
proof -
  have sd: "sd (iods p i) \<noteq> -1" using open_counts(4) [OF wf e] by simp
  have ti: "the_iod p e = Inr i" using e(3) by (simp add: the_iod_def)
  have "\<exists>p1. quiet p p1 e \<and> forced st (events p1 e) \<and> handle_write_result p e st =
      (if event_done (events p1 e) then bind_out (socket_count_write_dec p1 i) (\<lambda>(ev, p). update_events p i EV_NONE ev)
       else Inr p1)"
  proof (cases "st = NSE_STATUS_SUCCESS")
    case False
    then show ?thesis using st sd ti
      by (intro exI [of _ "complete p e st"])
        (auto simp: handling_def handle_write_result_def forced_complete quiet_complete)
  next
    case True
    define str where "str = drop (written_so_far (events p e)) (iobuf (events p e))"
    have us: "unsent (events p e)" using wf in_queue [OF e(1)] by (simp add: pool_wf_def writes_ok_def)
    then have le: "\<not> (written_so_far (events p e) > 0 \<and> \<not> length str > 0)" using e(2) by (auto simp: str_def unsent_def)
    have busy: "(if written_so_far (events p e) > 0 \<and> \<not> length str > 0 then Inl Assert_failed else y) = y" for y :: "'a npool outcome"
      by (rule if_not_P [OF le])
    obtain r q where w: "iod_write p i str = (r, q)" by fastforce
    then have q: "quiet p q e" "events q = events p" using quiet_iod_write [of p i str e]
      by (auto simp: iod_write_def Let_def split: list.splits write_result.splits)
    define p1 where "p1 = (case r of
        Inr res \<Rightarrow> set_iod (if res = length str then complete q e NSE_STATUS_SUCCESS
                      else set_ev q e (\<lambda>v. v\<lparr>written_so_far := written_so_far v + res\<rparr>)) i
                    (\<lambda>d. d\<lparr>write_count := write_count d + res\<rparr>)
      | Inl err \<Rightarrow> if errcode_is_failure err
                   then set_ev (complete q e NSE_STATUS_ERROR) e (\<lambda>v. v\<lparr>ev_errnum := Some err\<rparr>) else q)"
    have m: "r = Inr res \<Longrightarrow> res \<le> length str" for res
      using w by (auto simp: iod_write_def Let_def split: list.splits write_result.splits)
    have "quiet p p1 e"
      unfolding p1_def using m us e(2) q(2)
      by (auto intro!: q(1) quiet_ev quiet_iod quiet_complete simp: unsent_def str_def split: sum.split)
    moreover have "sd (iods p1 i) \<noteq> -1"
      using \<open>quiet p p1 e\<close> sd touched_fields(16) unfolding quiet_def by metis
    moreover have "handle_write_result p e st =
      (if event_done (events p1 e) \<and> sd (iods p1 i) \<noteq> -1
       then bind_out (socket_count_write_dec p1 i) (\<lambda>(ev, p). update_events p i EV_NONE ev) else Inr p1)"
      using True unfolding handle_write_result_def ti p1_def Let_def str_def [symmetric] busy
      by (cases r) (simp_all add: w Let_def str_def [symmetric])
    ultimately show ?thesis using True by (intro exI [of _ p1]) (simp add: forced_def)
  qed
  then obtain p1 where p1: "quiet p p1 e" "forced st (events p1 e)" "handle_write_result p e st =
      (if event_done (events p1 e) then bind_out (socket_count_write_dec p1 i) (\<lambda>(ev, p). update_events p i EV_NONE ev)
       else Inr p1)" by blast
  have "handled D x xi i p e (events p1 e) (handle_write_result p e st)"
    by (rule handled_stage [OF wf e p1(1)])
      (use p1(3) dec_write_rec [of p1 i] in \<open>simp_all add: reads_kind_def writes_kind_def\<close>)
  then show ?thesis using p1(2) by blast
qed

lemma read_handled:
  assumes wf: "pool_wf D x xi p" and e: "e \<in> set (queue p Reads)" "\<not> event_done (events p e)" "ev_iod (events p e) = Some i"
    and st: "handling st"
  shows "\<exists>v. handled D x xi i p e v (handle_read_result p e st) \<and> forced st v"
proof -
  have sd: "sd (iods p i) \<ge> 0" using open_counts(4) [OF wf e] by simp
  have ti: "the_iod p e = Inr i" using e(3) by (simp add: the_iod_def)
  have "\<exists>p1. quiet p p1 e \<and> forced st (events p1 e) \<and> handle_read_result p e st =
      (if event_done (events p1 e) then bind_out (socket_count_read_dec p1 i) (\<lambda>(ev, p). update_events p i EV_NONE ev)
       else Inr p1)"
  proof (cases "st = NSE_STATUS_SUCCESS")
    case False
    define p1 where "p1 = complete p e
        (if st = NSE_STATUS_TIMEOUT \<and> length (iobuf (events p e)) > 0 then NSE_STATUS_SUCCESS else st)"
    have "quiet p p1 e" by (simp add: p1_def quiet_complete)
    moreover have "forced st (events p1 e)" using st False by (auto simp: forced_def p1_def complete_def handling_def)
    ultimately show ?thesis using st sd ti False unfolding p1_def
      by (intro exI [of _ "complete p e
        (if st = NSE_STATUS_TIMEOUT \<and> length (iobuf (events p e)) > 0 then NSE_STATUS_SUCCESS else st)"])
        (auto simp: handling_def handle_read_result_def)
  next
    case True
    obtain rc q where a: "do_actual_read p i e = (rc, q)" by fastforce
    then have q: "quiet p q e" using quiet_do_actual_read [of p i e] by simp
    define q' where "q' = set_iod q i (\<lambda>d. d\<lparr>read_count := read_count d + nat rc\<rparr>)"
    define p1 where "p1 = (if rc > 0
      then (case read_type (events q e) of
              NSOCK_READ \<Rightarrow> complete q' e NSE_STATUS_SUCCESS
            | NSOCK_READBYTES \<Rightarrow>
                if int (length (iobuf (events q e))) \<ge> read_num (events q e) then complete q' e NSE_STATUS_SUCCESS else q'
            | NSOCK_READLINES \<Rightarrow>
                if count_lines (rev (iobuf (events q e))) (read_num (events q e)) 0 \<ge> read_num (events q e)
                then complete q' e NSE_STATUS_SUCCESS else q')
      else q)"
    have q': "quiet p q' e" unfolding q'_def by (rule quiet_iod [OF q]) simp
    then have "quiet p p1 e" unfolding p1_def using q by (auto intro: quiet_complete split: nsock_read_types.split)
    moreover have "sd (iods p1 i) \<ge> 0"
      using \<open>quiet p p1 e\<close> sd touched_fields(16) unfolding quiet_def by metis
    moreover have "handle_read_result p e st =
      (if event_done (events p1 e) \<and> sd (iods p1 i) \<ge> 0
       then bind_out (socket_count_read_dec p1 i) (\<lambda>(ev, p). update_events p i EV_NONE ev) else Inr p1)"
      using True a unfolding handle_read_result_def ti p1_def q'_def
      by (cases "rc > 0"; cases "read_type (events q e)") (simp_all add: Let_def)
    ultimately show ?thesis using True by (intro exI [of _ p1]) (simp add: forced_def)
  qed
  then obtain p1 where p1: "quiet p p1 e" "forced st (events p1 e)" "handle_read_result p e st =
      (if event_done (events p1 e) then bind_out (socket_count_read_dec p1 i) (\<lambda>(ev, p). update_events p i EV_NONE ev)
       else Inr p1)" by blast
  have "handled D x xi i p e (events p1 e) (handle_read_result p e st)"
    by (rule handled_stage [OF wf e p1(1)])
      (use p1(3) dec_read_rec [of p1 i] in \<open>simp_all add: reads_kind_def writes_kind_def\<close>)
  then show ?thesis using p1(2) by blast
qed

text \<open>An event of a list, of any type.\<close>

lemma queue_handled:
  assumes wf: "pool_wf D x xi p" and e: "e \<in> set (queue p k)" "\<not> event_done (events p e)" "ev_iod (events p e) = Some i"
    and st: "handling st"
  shows "\<exists>v. handled D x xi i p e v (handle_result p e st) \<and> forced st v"
proof (cases k)
  case Connects
  then show ?thesis using connect_handled [OF wf _ e(2,3) st] e(1) queue_types(1) [OF wf e(1)]
    by (fastforce simp: handle_result_def)
next
  case Reads
  then show ?thesis using read_handled [OF wf _ e(2,3) st] e(1) queue_types(2) [OF wf e(1)]
    by (simp add: handle_result_def)
next
  case Writes
  then show ?thesis using write_handled [OF wf _ e(2,3) st] e(1) queue_types(3) [OF wf e(1)]
    by (simp add: handle_result_def)
qed

section \<open>Steps that change little\<close>

text \<open>Everything but the counters of pending events.\<close>

definition same_data :: "'h npool \<Rightarrow> 'h npool \<Rightarrow> bool" where
  "same_data p q \<longleftrightarrow>
     queue q = queue p \<and> expirables q = expirables p \<and> active_iods q = active_iods p \<and> free_iods q = free_iods p \<and>
     free_events q = free_events p \<and> nsock_tod q = nsock_tod p \<and> ev_brk q = ev_brk p \<and> clock q = clock p \<and>
     events q = events p \<and>
     (\<forall>j. first_ev (iods q j) = first_ev (iods p j) \<and> sd (iods q j) = sd (iods p j) \<and>
        state (iods q j) = state (iods p j) \<and> same_counts p q j)"

lemma same_data_wf:
  assumes "same_data p q" and "pool_wf D x xi p"
    and "pool_pending q = pool_pending p - x + y"
    and "\<And>i. i \<in> set (active_iods p) \<Longrightarrow> iod_pending (iods q i) = iod_pending (iods p i) - xi i + yi i"
  shows "pool_wf D y yi q"
proof -
  have f: "queue q = queue p" "expirables q = expirables p" "active_iods q = active_iods p" "free_iods q = free_iods p"
    "free_events q = free_events p" "nsock_tod q = nsock_tod p" "ev_brk q = ev_brk p" "clock q = clock p" "events q = events p"
    using assms(1) by (simp_all add: same_data_def)
  have i: "first_ev (iods q j) = first_ev (iods p j)" "sd (iods q j) = sd (iods p j)" "state (iods q j) = state (iods p j)"
    "readsd_count (iods q j) = readsd_count (iods p j)" "writesd_count (iods q j) = writesd_count (iods p j)"
    "watched_events (iods q j) = watched_events (iods p j)" "registered (iods q j) = registered (iods p j)" for j
    using assms(1) by (simp_all add: same_data_def same_counts_def)
  have qd: "queued q = queued p" and o: "opens q = opens p" and oe: "open_evs q j k = open_evs p j k" for j k
    unfolding queued_def opens_def open_evs_def f by (rule refl)+
  have "lists_ok q = lists_ok p" "firsts_ok q = firsts_ok p" "timers_ok q = timers_ok p" "done_ok D q = done_ok D p"
    "watch_ok q = watch_ok p" "clock_ok q = clock_ok p" "writes_ok q = writes_ok p"
    unfolding lists_ok_def firsts_ok_def timers_ok_def timers_def done_ok_def watch_ok_def clock_ok_def writes_ok_def
      qd oe f i by (rule refl)+
  moreover have "counts_ok y yi q"
    using assms(2-4) unfolding pool_wf_def counts_ok_def o oe f i by auto
  ultimately show ?thesis using assms(2) by (simp add: pool_wf_def)
qed

text \<open>A structure that is in no list and not in the heap can be overwritten.\<close>

lemma fresh_ev:
  assumes wf: "pool_wf D x xi p" and e: "e \<notin> queued p" "e \<notin> in_heap p" "e \<notin> D"
  shows "pool_wf D x xi (set_ev p e f)"
proof -
  let ?q = "set_ev p e f"
  have n: "e' \<noteq> e" if "e' \<in> queued p \<or> e' \<in> set (queue p k) \<or> e' \<in> in_heap p \<or> e' \<in> D" for e' k
    using that e by (auto simp: queued_def)
  have qd: "queued ?q = queued p" by (simp add: queued_def)
  have o: "opens ?q = opens p" "open_evs ?q j k = open_evs p j k" for j k
    using e n by (auto simp: opens_def open_evs_def qd)
  have nk: "e \<notin> set (queue p k)" for k using e(1) by (auto simp: queued_def)
  have "lists_ok p" using wf by (simp add: pool_wf_def)
  then have l: "lists_ok ?q" using nk unfolding lists_ok_def qd by auto
  have fi: "find (\<lambda>a. ev_iod (events ?q a) = Some i) (queue p k) = find (\<lambda>a. ev_iod (events p a) = Some i) (queue p k)" for i k
    by (rule find_cong) (use n in auto)
  have gr: "grouped (\<lambda>a. ev_iod (events ?q a)) l = grouped (\<lambda>a. ev_iod (events p a)) l" if "e \<notin> set l" for l
    using that by (induction l rule: induct_list012) (auto simp: image_iff)
  have "firsts_ok p" using wf by (simp add: pool_wf_def)
  then have fo: "firsts_ok ?q" unfolding firsts_ok_def set_ev_sel(2,3,5) fi gr [OF nk] .
  have t0: "timers_ok p" using wf by (simp add: pool_wf_def)
  then have hw: "heap_wf (expirable_cmp (\<lambda>e. ev_timeout (events p e)))
      ((expirables p)\<lparr>cmp_op := Some (expirable_cmp (\<lambda>e. ev_timeout (events p e)))\<rparr>)"
    by (simp add: timers_ok_def timers_def)
  have "heap_wf (expirable_cmp (\<lambda>e. ev_timeout (events ?q e))) (timers ?q)"
    unfolding timers_def set_ev_sel(4)
    by (rule heap_wf_cong [OF hw]) (use e(2) in \<open>auto simp: expirable_cmp_def\<close>)
  moreover have "e' \<noteq> e" if "e' \<in> in_heap p \<or> e' \<in> queued p" for e' using that e by auto
  ultimately have t: "timers_ok ?q" using t0 unfolding timers_ok_def qd set_ev_sel(4,7,11) by simp
  have "done_ok D p" "writes_ok p" "clock_ok p" "counts_ok x xi p" "watch_ok p" using wf by (simp_all add: pool_wf_def)
  then have "done_ok D ?q" "writes_ok ?q" "clock_ok ?q" "counts_ok x xi ?q" "watch_ok ?q"
    unfolding done_ok_def writes_ok_def clock_ok_def counts_ok_def watch_ok_def o qd using e by auto
  with l fo t show ?thesis by (simp add: pool_wf_def)
qed

lemma calls_wf [simp]: "pool_wf D x xi p \<Longrightarrow> pool_wf D x xi (p\<lparr>calls := c\<rparr>)"
  by (erule same_data_wf [rotated]) (simp_all add: same_data_def same_counts_def)

section \<open>Handlers that use the library\<close>

text \<open>
  What the library needs of the handlers: one that is called keeps the invariant and leaves alone the events
  whose handlers are running, and one that is told that its event was cancelled does not create events, as the
  structure of the event it is called with is already free.
\<close>

locale nsock_client =
  fixes call :: "'h handlers"
  assumes call_keeps: "pool_wf D 0 (\<lambda>_. 0) p \<Longrightarrow> keeps D p (call h e p)"
    and call_cancelled: "pool_wf D 0 (\<lambda>_. 0) p \<Longrightarrow> e \<in> set (free_events p) \<Longrightarrow>
      ev_status (events p e) = NSE_STATUS_CANCELLED \<Longrightarrow> call h e p = Inr q \<Longrightarrow> e \<in> set (free_events q)"

text \<open>The count of an event that is done but not dispatched.\<close>

definition charge :: "'h npool \<Rightarrow> nat \<Rightarrow> nat \<Rightarrow> int" where
  "charge p e = (\<lambda>i. if ev_iod (events p e) = Some i then 1 else 0)"

text \<open>The event stays where it is.\<close>

definition stays :: "nat \<Rightarrow> 'h npool \<Rightarrow> 'h npool \<Rightarrow> bool" where
  "stays e p q \<longleftrightarrow> (\<forall>k. e \<in> set (queue q k) \<longleftrightarrow> e \<in> set (queue p k)) \<and> (e \<in> in_heap q \<longleftrightarrow> e \<in> in_heap p)"

lemma pins_stays: "pins D p q \<Longrightarrow> e \<in> D \<Longrightarrow> stays e p q"
  by (simp add: pins_def stays_def)

lemma event_delete_wf:
  assumes wf: "pool_wf D x xi p" and e: "e \<in> D \<or> e \<in> set (free_events p)"
  shows "pool_wf D x xi (event_delete p e)"
proof (cases "e \<in> D")
  case True
  then have "event_done (events p e)" using wf by (simp add: pool_wf_def done_ok_def)
  then have "touched p (event_delete p e) e" "event_done (events (event_delete p e) e) = event_done (events p e)"
    "same_counts p (event_delete p e) j" for j
    by (simp_all add: event_delete_def touched_def same_counts_def unsent_def)
  then show ?thesis using touched_open wf by blast
next
  case False
  with e wf have "e \<notin> queued p" "e \<notin> in_heap p" by (auto simp: pool_wf_def lists_ok_def timers_ok_def)
  then show ?thesis unfolding event_delete_def using False by (rule fresh_ev [OF wf])
qed

lemma event_delete_pins: "pins (D - {e}) p (event_delete p e)" "stays e p (event_delete p e)"
  by (simp_all add: pins_def stays_def event_delete_def)

lemma dispatch_counts:
  assumes wf: "pool_wf D 1 (charge p e) p" and act: "\<And>i. ev_iod (events p e) = Some i \<Longrightarrow> i \<in> set (active_iods p)"
    and dn: "event_done (events p e)"
  obtains q where "pool_wf D 0 (\<lambda>_. 0) q" "pins D p q" "stays e p q" "events q = events p" "free_events q = free_events p"
    "event_dispatch_and_delete call p e notify = bind_out
       (if notify then call (ev_handler (events p e)) e
          (q\<lparr>calls := calls q @ [(ev_handler (events p e), ev_id (events p e), ev_status (events p e))]\<rparr>)
        else Inr q) (\<lambda>p. Inr (event_delete p e))"
proof -
  let ?p = "p\<lparr>pool_pending := pool_pending p - 1\<rparr>"
  let ?q = "case ev_iod (events p e) of None \<Rightarrow> ?p | Some i \<Rightarrow> set_iod ?p i (\<lambda>d. d\<lparr>iod_pending := iod_pending d - 1\<rparr>)"
  have "same_data p ?q" by (auto simp: same_data_def same_counts_def split: option.split)
  then have q: "pool_wf D 0 (\<lambda>_. 0) ?q"
    by (rule same_data_wf [OF _ wf]) (auto simp: charge_def split: option.split)
  have n: "0 \<le> pool_pending p - 1" using wf by (simp add: pool_wf_def counts_ok_def)
  have ni: "0 \<le> iod_pending (iods p i) - 1" if "ev_iod (events p e) = Some i" for i
    using wf act [OF that] that by (auto simp: pool_wf_def counts_ok_def charge_def)
  show ?thesis
  proof (rule that [of ?q])
    show "pins D p ?q" "stays e p ?q" "events ?q = events p" "free_events ?q = free_events p"
      by (auto simp: pins_def stays_def split: option.split)
    show "event_dispatch_and_delete call p e notify = bind_out
       (if notify then call (ev_handler (events p e)) e
          (?q\<lparr>calls := calls ?q @ [(ev_handler (events p e), ev_id (events p e), ev_status (events p e))]\<rparr>)
        else Inr ?q) (\<lambda>p. Inr (event_delete p e))"
      using n ni dn by (cases "ev_iod (events p e)") (simp_all add: event_dispatch_and_delete_def Let_def)
  qed (rule q)
qed

context nsock_client begin

lemma dispatch_ok:
  assumes wf: "pool_wf D 1 (charge p e) p" and act: "\<And>i. ev_iod (events p e) = Some i \<Longrightarrow> i \<in> set (active_iods p)"
    and dn: "event_done (events p e)"
    and e: "e \<in> D \<or> e \<in> set (free_events p) \<and> (notify \<longrightarrow> ev_status (events p e) = NSE_STATUS_CANCELLED)"
  shows "event_dispatch_and_delete call p e notify = Inl Fatal_exit \<or>
    (\<exists>q. event_dispatch_and_delete call p e notify = Inr q \<and> pool_wf D 0 (\<lambda>_. 0) q \<and> pins (D - {e}) p q \<and>
       (e \<in> D \<longrightarrow> stays e p q) \<and> event_done (events q e))"
proof -
  obtain q where q: "pool_wf D 0 (\<lambda>_. 0) q" "pins D p q" "stays e p q" "events q = events p" "free_events q = free_events p"
    and m: "event_dispatch_and_delete call p e notify = bind_out
       (if notify then call (ev_handler (events p e)) e
          (q\<lparr>calls := calls q @ [(ev_handler (events p e), ev_id (events p e), ev_status (events p e))]\<rparr>)
        else Inr q) (\<lambda>p. Inr (event_delete p e))" by (rule dispatch_counts [OF wf act dn])
  have fin: "pool_wf D 0 (\<lambda>_. 0) (event_delete r e) \<and> pins (D - {e}) p (event_delete r e) \<and>
      (e \<in> D \<longrightarrow> stays e p (event_delete r e)) \<and> event_done (events (event_delete r e) e)"
    if r: "pool_wf D 0 (\<lambda>_. 0) r" "pins D p r" "e \<notin> D \<Longrightarrow> e \<in> set (free_events r)" for r
  proof (intro conjI impI)
    show "pool_wf D 0 (\<lambda>_. 0) (event_delete r e)" by (rule event_delete_wf) (use r in auto)
    show "pins (D - {e}) p (event_delete r e)"
      by (rule pins_trans [OF pins_mono [OF r(2)] event_delete_pins(1)]) auto
    show "stays e p (event_delete r e)" if "e \<in> D"
      using pins_stays [OF r(2) that] event_delete_pins(2) [of e r] by (simp add: stays_def)
  qed (simp add: event_delete_def)
  show ?thesis
  proof (cases notify)
    case False
    have "e \<notin> D \<Longrightarrow> e \<in> set (free_events q)" using e q(5) by auto
    then show ?thesis using fin [OF q(1,2)] m False by simp
  next
    case True
    let ?q = "q\<lparr>calls := calls q @ [(ev_handler (events p e), ev_id (events p e), ev_status (events p e))]\<rparr>"
    have w: "pool_wf D 0 (\<lambda>_. 0) ?q" using q(1) by (rule calls_wf)
    have "keeps D ?q (call (ev_handler (events p e)) e ?q)" by (rule call_keeps [OF w])
    then consider "call (ev_handler (events p e)) e ?q = Inl Fatal_exit"
      | r where "call (ev_handler (events p e)) e ?q = Inr r" "pool_wf D 0 (\<lambda>_. 0) r" "pins D ?q r"
      by (auto simp: keeps_def split: sum.splits)
    then show ?thesis
    proof cases
      case 1
      then show ?thesis using m True by simp
    next
      case 2
      have "pins D p ?q" using q(2) by (simp add: pins_def)
      moreover have "e \<in> set (free_events r)" if "e \<notin> D"
        by (rule call_cancelled [OF w _ _ 2(1)]) (use e q(4,5) True that in auto)
      ultimately show ?thesis using fin [OF 2(2)] pins_trans [OF _ 2(3)] m True 2(1) by simp
    qed
  qed
qed

end

section \<open>Unlinking an event\<close>

abbreviation pool_lt :: "'h npool \<Rightarrow> nat \<Rightarrow> nat \<Rightarrow> bool" where
  "pool_lt p \<equiv> expirable_cmp (\<lambda>e. ev_timeout (events p e))"

definition no_timeout :: "'h nevent \<Rightarrow> 'h nevent" where
  "no_timeout v = v\<lparr>ev_timeout := if tv_sec (ev_timeout v) \<noteq> 0 then Timeval 0 0 else ev_timeout v\<rparr>"

lemma no_timeout_sel [simp]:
  "ev_type (no_timeout v) = ev_type v" "ev_iod (no_timeout v) = ev_iod v" "event_done (no_timeout v) = event_done v"
  "ev_status (no_timeout v) = ev_status v" "ev_id (no_timeout v) = ev_id v" "ev_handler (no_timeout v) = ev_handler v"
  "unsent (no_timeout v) = unsent v"
  by (simp_all add: no_timeout_def unsent_def)

text \<open>The timeout is cleared before the event leaves the heap, whose order breaks at its position only.\<close>

lemma unref_timer:
  assumes wf: "heap_wf (pool_lt p) (timers p)" and me: "tv_sec (ev_timeout (events p e)) \<noteq> 0 \<longleftrightarrow> e \<in> in_heap p"
  shows "\<exists>h. (if tv_sec (ev_timeout (events p e)) \<noteq> 0
        then let p = set_ev p e (\<lambda>v. v\<lparr>ev_timeout := Timeval 0 0\<rparr>)
             in bind_out (gh_heap_remove (timers p) e) (\<lambda>h. Inr (p\<lparr>expirables := h\<rparr>))
        else Inr p) = Inr ((set_ev p e no_timeout)\<lparr>expirables := h\<rparr>) \<and>
      heap_wf (pool_lt (set_ev p e no_timeout)) (h\<lparr>cmp_op := Some (pool_lt (set_ev p e no_timeout))\<rparr>) \<and>
      heap_nodes h = in_heap p - {e}"
proof (cases "e \<in> in_heap p")
  case True
  define p' where "p' = set_ev p e (\<lambda>v. v\<lparr>ev_timeout := Timeval 0 0\<rparr>)"
  have p': "p' = set_ev p e no_timeout" using me True by (simp add: p'_def set_ev_def no_timeout_def)
  have so: "slots_ok (timers p')" "slots_ok (timers p)"
    using wf by (simp_all add: heap_wf_def slots_ok_def timers_def p'_def)
  have eT: "e \<in> heap_nodes (timers p)" using True by (simp add: timers_def)
  have n: "node (timers p') = node (timers p)" "hindex (timers p') = hindex (timers p)"
    "gh_heap.count (timers p') = gh_heap.count (timers p)"
    by (simp_all add: fun_eq_iff node_def timers_def p'_def)
  let ?c = "hindex (timers p) e"
  have "node (timers p) j = e \<longleftrightarrow> j = ?c" if "j < gh_heap.count (timers p)" for j
    using wf_slot(2) [OF so(2) that] wf_at_hindex [OF so(2) eT] by auto
  then have lt: "pool_lt p' (node (timers p) a) (node (timers p) b) = pool_lt p (node (timers p) a) (node (timers p) b)"
    if "a \<noteq> ?c" "b \<noteq> ?c" "a < gh_heap.count (timers p)" "b < gh_heap.count (timers p)" for a b
    using that by (simp add: expirable_cmp_def p'_def)
  have pc: "par i < gh_heap.count (timers p)" if "i < gh_heap.count (timers p)" for i
    using par_le that by (rule order_le_less_trans)
  have c: "?c < gh_heap.count (timers p)" by (rule wf_at_hindex(1) [OF so(2) eT])
  have "ordered_but (pool_lt p) (timers p) ?c"
    by (rule expirable.heap_ordered_but) (use wf c in \<open>simp_all add: heap_wf_def\<close>)
  then have ob: "ordered_but (pool_lt p') (timers p') (hindex (timers p') e)"
    unfolding ordered_but_def n using lt pc c by (metis par_neq)
  have "cmp_op (timers p') = Some (pool_lt p')" by (simp add: timers_def)
  from expirable.remove_off_ok [OF so(1) this ob] True
  obtain h where h: "gh_heap_remove (timers p') e = Inr h" "heap_wf (pool_lt p') h" "heap_nodes h = in_heap p - {e}"
    by (auto simp: timers_def p'_def)
  have "h\<lparr>cmp_op := Some (pool_lt p')\<rparr> = h" using h(2) by (cases h) (simp add: heap_wf_def)
  then show ?thesis using h True me unfolding p'_def [symmetric] p' [symmetric] Let_def
    by (intro exI [of _ h]) simp
next
  case False
  have "no_timeout (events p e) = events p e" using False me by (cases "events p e") (simp add: no_timeout_def)
  then have "set_ev p e no_timeout = p" by (simp add: set_ev_def)
  then show ?thesis using False me wf by (intro exI [of _ "expirables p"]) (simp add: timers_def)
qed

lemma unlinked_wf:
  assumes wf: "pool_wf (insert e D) x xi p" and e: "e \<notin> D" "e \<in> queued p \<union> in_heap p"
    and q: "\<And>k. queue q k = remove1 e (queue p k)" "heap_wf (pool_lt q) (timers q)" "in_heap q = in_heap p - {e}"
      "free_events q = free_events p @ [e]" "events q = (events p)(e := no_timeout (events p e))"
      "active_iods q = active_iods p" "free_iods q = free_iods p" "nsock_tod q = nsock_tod p" "ev_brk q = ev_brk p"
      "clock q = clock p" "pool_pending q = pool_pending p"
    and d: "\<And>j. sd (iods q j) = sd (iods p j)" "\<And>j. state (iods q j) = state (iods p j)"
      "\<And>j. iod_pending (iods q j) = iod_pending (iods p j)" "\<And>j. same_counts p q j"
      "\<And>j k. j \<in> set (active_iods p) \<Longrightarrow>
         first_ev (iods q j) k = find (\<lambda>a. ev_iod (events p a) = Some j) (remove1 e (queue p k))"
  shows "pool_wf D x xi q" "pins D p q"
proof -
  have lo: "lists_ok p" and fo: "firsts_ok p" and ti: "timers_ok p" and dk: "done_ok (insert e D) p"
    and co: "counts_ok x xi p" and wo: "watch_ok p" and ck: "clock_ok p" "writes_ok p" using wf by (simp_all add: pool_wf_def)
  have dn: "event_done (events p e)" "e \<notin> set (free_events p)" "e < ev_brk p" using dk by (simp_all add: done_ok_def)
  have qs: "set (queue q k) = set (queue p k) - {e}" for k using lo by (simp add: q(1) lists_ok_def)
  have qd: "queued q = queued p - {e}" unfolding queued_def qs by auto
  have ev: "ev_type (events q a) = ev_type (events p a)" "ev_iod (events q a) = ev_iod (events p a)"
    "event_done (events q a) = event_done (events p a)" "unsent (events q a) = unsent (events p a)"
    "a \<noteq> e \<Longrightarrow> events q a = events p a" for a using q(5) by simp_all
  have o: "opens q = opens p" "open_evs q j k = open_evs p j k" for j k
    using dn(1) unfolding opens_def open_evs_def qd qs q(3) ev by auto
  have c: "readsd_count (iods q j) = readsd_count (iods p j)" "writesd_count (iods q j) = writesd_count (iods p j)"
    "watched_events (iods q j) = watched_events (iods p j)" "registered (iods q j) = registered (iods p j)" for j
    using d(4) [of j] by (simp_all add: same_counts_def)
  have "lists_ok q"
    using lo dn unfolding lists_ok_def qs qd ev q(1,4,6,7,9) by (auto intro: distinct_remove1)
  moreover have "firsts_ok q"
    using fo d(5) unfolding firsts_ok_def q(1,6) ev by (simp add: grouped_remove1)
  moreover have "timers_ok q"
    using ti q(2) unfolding timers_ok_def qd q(3,4,9) ev by (auto simp: ev(5))
  moreover have "done_ok D q"
    using dk e unfolding done_ok_def qd q(3,4,9) ev by auto
  moreover have "counts_ok x xi q" using co unfolding counts_ok_def o q(6,11) c d(3) .
  moreover have "watch_ok q" using wo unfolding watch_ok_def o q(6) c d(1,2) .
  moreover have "clock_ok q" "writes_ok q" using ck unfolding clock_ok_def writes_ok_def q(8,10) qd ev by auto
  ultimately show "pool_wf D x xi q" by (simp add: pool_wf_def)
  have "a \<noteq> e" if "a \<in> D" for a using that e(1) by auto
  then show "pins D p q" unfolding pins_def qs q(3,6) by (auto simp: ev(5))
qed

lemma list_of_queue:
  assumes "lists_ok p" and "e \<in> set (queue p k)"
  shows "list_of p e = queue p k"
proof -
  have kd: "kind_of (ev_type (events p e)) = Some k'" if "e \<in> set (queue p k')" for k'
    using assms(1) that by (simp add: lists_ok_def)
  have "k' = k" if "e \<in> set (queue p k')" for k' using kd [OF that] kd [OF assms(2)] by simp
  then show ?thesis using assms(2) unfolding list_of_def by (cases k) auto
qed

text \<open>A new first event of the iod is the one that follows, if it belongs to the iod.\<close>

lemma first_ev_unlinked:
  assumes lo: "lists_ok p" and fo: "firsts_ok p" and e: "e \<in> set (queue p k)" "ev_iod (events p e) = Some i"
    and j: "j \<in> set (active_iods p)"
  shows "(if j = i \<and> k' = k then first_ev_next p e (first_ev (iods p i) k) else first_ev (iods p j) k') =
    find (\<lambda>a. ev_iod (events p a) = Some j) (remove1 e (queue p k'))"
proof -
  have first: "first_ev (iods p j) k' = find (\<lambda>a. ev_iod (events p a) = Some j) (queue p k')"
    using fo j by (simp add: firsts_ok_def)
  have rest: "find (\<lambda>a. ev_iod (events p a) = Some j) (remove1 e (queue p k')) = find (\<lambda>a. ev_iod (events p a) = Some j) (queue p k')"
    if "first_ev (iods p j) k' \<noteq> Some e"
    by (rule find_remove1) (use that first in simp)
  show ?thesis
  proof (cases "j = i \<and> k' = k")
    case True
    show ?thesis
    proof (cases "first_ev (iods p i) k = Some e")
      case first_e: True
      have g: "grouped (\<lambda>a. ev_iod (events p a)) (queue p k)" using fo by (simp add: firsts_ok_def)
      have d: "distinct (queue p k)" using lo by (simp add: lists_ok_def)
      have "find (\<lambda>a. ev_iod (events p a) = Some i) (queue p k) = Some e" using first first_e True by simp
      from next_is_first [OF d g this] have "(case next_in (queue p k) e of None \<Rightarrow> None
          | Some n \<Rightarrow> if ev_iod (events p n) = Some i then Some n else None) =
        find (\<lambda>a. ev_iod (events p a) = Some i) (remove1 e (queue p k))" .
      then show ?thesis using True first_e e(2) list_of_queue [OF lo e(1)]
        by (cases "next_in (queue p k) e") (simp_all add: first_ev_next_def gh_lnode_next_def)
    qed (use True rest first in \<open>simp add: first_ev_next_def\<close>)
  next
    case False
    have ne: "first_ev (iods p j) k' \<noteq> Some e"
    proof
      assume "first_ev (iods p j) k' = Some e"
      then have "e \<in> set (queue p k')" "ev_iod (events p e) = Some j" using first by (auto dest: find_SomeD)
      then have "k' = k" "j = i" using lo e unfolding lists_ok_def by (metis option.inject)+
      then show False using False by simp
    qed
    show ?thesis unfolding rest [OF ne] if_not_P [OF False] by (rule first)
  qed
qed

lemma unref_ok:
  assumes wf: "pool_wf (insert e D) x xi p" and e: "e \<notin> D" "e \<in> queued p \<union> in_heap p"
  shows "\<exists>q. nevent_unref p e = Inr q \<and> pool_wf D x xi q \<and> pins D p q \<and> free_events q = free_events p @ [e] \<and>
    events q = (events p)(e := no_timeout (events p e)) \<and> (\<forall>k. queue q k = remove1 e (queue p k)) \<and>
    iod_pending \<circ> iods q = iod_pending \<circ> iods p \<and> sd \<circ> iods q = sd \<circ> iods p \<and> state \<circ> iods q = state \<circ> iods p \<and>
    active_iods q = active_iods p \<and> calls q = calls p \<and> in_heap q = in_heap p - {e}"
proof -
  have lo: "lists_ok p" and fo: "firsts_ok p" and ti: "timers_ok p" using wf by (simp_all add: pool_wf_def)
  have hw: "heap_wf (pool_lt p) (timers p)" and me: "tv_sec (ev_timeout (events p e)) \<noteq> 0 \<longleftrightarrow> e \<in> in_heap p"
    using ti e(2) by (auto simp: timers_ok_def)
  show ?thesis
  proof (cases "e \<in> queued p")
    case True
    then obtain k where k: "e \<in> set (queue p k)" by (auto simp: queued_def)
    then obtain i where i: "i \<in> set (active_iods p)" "ev_iod (events p e) = Some i" using queue_iod [OF wf] by blast
    have kd: "kind_of (ev_type (events p e)) = Some k" by (rule kind_of_queue [OF wf k])
    then have nt: "ev_type (events p e) \<noteq> NSE_TYPE_TIMER" by (auto simp: kind_of_def)
    define p2 where "p2 = set_queue (set_iod p i (\<lambda>d. d\<lparr>first_ev := (first_ev d)(k := first_ev_next p e (first_ev d k))\<rparr>))
      k (remove1 e (queue p k))"
    have f2: "events p2 = events p" "timers p2 = timers p" "in_heap p2 = in_heap p" "expirables p2 = expirables p"
      by (simp_all add: p2_def timers_def)
    from unref_timer [of p2 e] hw me obtain h where
      h: "(if tv_sec (ev_timeout (events p2 e)) \<noteq> 0
          then let p = set_ev p2 e (\<lambda>v. v\<lparr>ev_timeout := Timeval 0 0\<rparr>)
               in bind_out (gh_heap_remove (timers p) e) (\<lambda>h. Inr (p\<lparr>expirables := h\<rparr>))
          else Inr p2) = Inr ((set_ev p2 e no_timeout)\<lparr>expirables := h\<rparr>)"
        "heap_wf (pool_lt (set_ev p2 e no_timeout)) (h\<lparr>cmp_op := Some (pool_lt (set_ev p2 e no_timeout))\<rparr>)"
        "heap_nodes h = in_heap p - {e}" unfolding f2 by blast
    define q where "q = (set_ev p2 e no_timeout)\<lparr>expirables := h, free_events := free_events p @ [e]\<rparr>"
    have "nevent_unref p e = bind_out (if tv_sec (ev_timeout (events p2 e)) \<noteq> 0
          then let p = set_ev p2 e (\<lambda>v. v\<lparr>ev_timeout := Timeval 0 0\<rparr>)
               in bind_out (gh_heap_remove (timers p) e) (\<lambda>h. Inr (p\<lparr>expirables := h\<rparr>))
          else Inr p2) (\<lambda>p. Inr (p\<lparr>free_events := free_events p @ [e]\<rparr>))"
      using kd nt i(2) k by (simp add: nevent_unref_def update_first_events_def list_remove_def p2_def)
    also have "\<dots> = Inr q" unfolding h(1) by (simp add: q_def p2_def)
    finally have r: "nevent_unref p e = Inr q" .
    have "e \<notin> set (queue p k')" if "k' \<noteq> k" for k' using lo k that unfolding lists_ok_def by (metis option.inject)
    then have qq: "queue q k' = remove1 e (queue p k')" for k' by (simp add: q_def p2_def remove1_idem)
    have fe: "first_ev (iods q j) k' = find (\<lambda>a. ev_iod (events p a) = Some j) (remove1 e (queue p k'))"
      if "j \<in> set (active_iods p)" for j k'
    proof -
      have "first_ev (iods q j) k' =
          (if j = i \<and> k' = k then first_ev_next p e (first_ev (iods p i) k) else first_ev (iods p j) k')"
        by (simp add: q_def p2_def)
      also note first_ev_unlinked [OF lo fo k i(2) that]
      finally show ?thesis .
    qed
    have "heap_wf (pool_lt q) (timers q)" "in_heap q = in_heap p - {e}" using h(2,3) by (simp_all add: q_def timers_def)
    note unlinked_wf [OF wf e qq this _ _ _ _ _ _ _ _ _ _ _ _ fe]
    then have "pool_wf D x xi q" "pins D p q"
      by (simp_all add: q_def p2_def same_counts_def)
    moreover have "iod_pending \<circ> iods q = iod_pending \<circ> iods p" "sd \<circ> iods q = sd \<circ> iods p" "state \<circ> iods q = state \<circ> iods p"
      by (simp_all add: fun_eq_iff q_def p2_def)
    moreover have "active_iods q = active_iods p" "calls q = calls p" by (simp_all add: q_def p2_def)
    ultimately show ?thesis using r qq h(3) by (intro exI [of _ q]) (simp add: q_def f2)
  next
    case False
    then have eh: "e \<in> in_heap p" using e(2) by simp
    then have tt: "ev_type (events p e) = NSE_TYPE_TIMER" "ev_iod (events p e) = None" using ti False by (auto simp: timers_ok_def)
    from unref_timer [OF hw me] obtain h where
      h: "(if tv_sec (ev_timeout (events p e)) \<noteq> 0
          then let p = set_ev p e (\<lambda>v. v\<lparr>ev_timeout := Timeval 0 0\<rparr>)
               in bind_out (gh_heap_remove (timers p) e) (\<lambda>h. Inr (p\<lparr>expirables := h\<rparr>))
          else Inr p) = Inr ((set_ev p e no_timeout)\<lparr>expirables := h\<rparr>)"
        "heap_wf (pool_lt (set_ev p e no_timeout)) (h\<lparr>cmp_op := Some (pool_lt (set_ev p e no_timeout))\<rparr>)"
        "heap_nodes h = in_heap p - {e}" by blast
    define q where "q = (set_ev p e no_timeout)\<lparr>expirables := h, free_events := free_events p @ [e]\<rparr>"
    have "nevent_unref p e = bind_out (if tv_sec (ev_timeout (events p e)) \<noteq> 0
          then let p = set_ev p e (\<lambda>v. v\<lparr>ev_timeout := Timeval 0 0\<rparr>)
               in bind_out (gh_heap_remove (timers p) e) (\<lambda>h. Inr (p\<lparr>expirables := h\<rparr>))
          else Inr p) (\<lambda>p. Inr (p\<lparr>free_events := free_events p @ [e]\<rparr>))"
      using tt by (simp add: nevent_unref_def update_first_events_def)
    also have "\<dots> = Inr q" unfolding h(1) by (simp add: q_def)
    finally have r: "nevent_unref p e = Inr q" .
    have qq: "queue q k' = remove1 e (queue p k')" for k'
    proof -
      have "e \<notin> set (queue p k')" using False by (auto simp: queued_def)
      then show ?thesis by (simp add: q_def remove1_idem)
    qed
    have fe: "first_ev (iods q j) k' = find (\<lambda>a. ev_iod (events p a) = Some j) (remove1 e (queue p k'))"
      if "j \<in> set (active_iods p)" for j k'
      using fo that qq [of k'] by (simp add: q_def firsts_ok_def)
    have "heap_wf (pool_lt q) (timers q)" "in_heap q = in_heap p - {e}" using h(2,3) by (simp_all add: q_def timers_def)
    note unlinked_wf [OF wf e qq this _ _ _ _ _ _ _ _ _ _ _ _ fe]
    then have "pool_wf D x xi q" "pins D p q" by (simp_all add: q_def same_counts_def)
    then show ?thesis using r qq h(3) by (intro exI [of _ q]) (simp add: q_def)
  qed
qed

section \<open>Processing an event\<close>

lemma handled_bind:
  assumes "handled D x xi i p e v m" and "\<not> event_done v"
    and "\<And>q. m = Inr q \<Longrightarrow> pool_wf D x xi q \<Longrightarrow> touched p q e \<Longrightarrow> events q e = v \<Longrightarrow> handled D x xi i q e w (f q)"
  shows "handled D x xi i p e w (bind_out m f)"
proof -
  consider "m = Inl Fatal_exit" | q where "m = Inr q" "touched p q e" "events q e = v" "pool_wf D x xi q"
    using assms(1,2) by (auto simp: handled_def)
  then show ?thesis
  proof cases
    case 2
    then have "handled D x xi i q e w (f q)" by (intro assms(3))
    then show ?thesis using 2 touched_trans [OF 2(2)] unfolding handled_def by auto
  qed (simp add: handled_def)
qed

lemma handled_done:
  assumes "handled D x xi i p e v m" and "event_done v" and "\<And>q. m = Inr q \<Longrightarrow> events q e = v \<Longrightarrow> f q = Inr q"
  shows "handled D x xi i p e v (bind_out m f)"
  using assms unfolding handled_def by (cases m) auto

lemma handled_refl:
  "pool_wf D x xi p \<Longrightarrow> \<not> event_done (events p e) \<Longrightarrow> handled D x xi i p e (events p e) (Inr p)"
  by (simp add: handled_def touched_refl)

lemma touched_timed_out:
  assumes "touched p q e"
  shows "timed_out q e \<longleftrightarrow> \<not> event_done (events q e) \<and> tv_sec (ev_timeout (events p e)) \<noteq> 0 \<and>
    \<not> TIMEVAL_AFTER (ev_timeout (events p e)) (nsock_tod p)"
  using touched_fields(7,13) [OF assms] by (simp add: timed_out_def event_timedout_def)

lemma queue_process:
  assumes wf: "pool_wf D x xi p" and e: "e \<in> set (queue p k)" "\<not> event_done (events p e)" "ev_iod (events p e) = Some i"
  shows "\<exists>v. handled D x xi i p e v
      (bind_out (if concerned (ev_type (events p e)) ev then handle_result p e NSE_STATUS_SUCCESS else Inr p) (\<lambda>p.
         if timed_out p e then handle_result p e NSE_STATUS_TIMEOUT else Inr p)) \<and> (timed_out p e \<longrightarrow> event_done v)"
proof -
  let ?m = "if concerned (ev_type (events p e)) ev then handle_result p e NSE_STATUS_SUCCESS else Inr p"
  let ?f = "\<lambda>p. if timed_out p e then handle_result p e NSE_STATUS_TIMEOUT else Inr p"
  have st: "handling NSE_STATUS_SUCCESS" "handling NSE_STATUS_TIMEOUT" by (simp_all add: handling_def)
  obtain v where v: "handled D x xi i p e v ?m"
    using queue_handled [OF wf e st(1)] handled_refl [OF wf e(2)] by (cases "concerned (ev_type (events p e)) ev") auto
  show ?thesis
  proof (cases "event_done v")
    case True
    have "handled D x xi i p e v (bind_out ?m ?f)"
      by (rule handled_done [OF v True]) (use True in \<open>simp add: timed_out_def event_timedout_def\<close>)
    then show ?thesis using True by blast
  next
    case False
    show ?thesis
    proof (cases "timed_out p e")
      case t: True
      have q: "\<exists>w. handled D x xi i q e w (?f q) \<and> event_done w"
        if "pool_wf D x xi q" "touched p q e" "events q e = v" for q
      proof -
        have "timed_out q e" using t e(2) that(3) False touched_timed_out [OF that(2)] touched_timed_out [OF touched_refl] by blast
        moreover have "ev_iod (events q e) = Some i" unfolding touched_fields(12) [OF that(2)] by (rule e(3))
        moreover have "e \<in> set (queue q k)" "\<not> event_done (events q e)"
          using e(1) False that(3) touched_fields(1) [OF that(2)] by simp_all
        ultimately show ?thesis using queue_handled [OF that(1) _ _ _ st(2)] by (fastforce simp: forced_def)
      qed
      consider "?m = Inl Fatal_exit" | q where "?m = Inr q" "touched p q e" "events q e = v" "pool_wf D x xi q"
        using v False unfolding handled_def by auto
      then show ?thesis
      proof cases
        case 1
        then show ?thesis
          by (intro exI [of _ "v\<lparr>event_done := True\<rparr>"]) (simp add: handled_def)
      next
        case (2 r)
        from q [OF 2(4,2,3)] obtain w where w: "handled D x xi i r e w (?f r)" "event_done w" by blast
        have "handled D x xi i p e w (bind_out ?m ?f)"
          by (rule handled_bind [OF v False]) (use 2(1) w(1) in simp)
        then show ?thesis using w(2) by blast
      qed
    next
      case nt: False
      have "handled D x xi i p e v (bind_out ?m ?f)"
      proof (rule handled_bind [OF v False])
        fix q assume q: "pool_wf D x xi q" "touched p q e" "events q e = v"
        have "\<not> timed_out q e" using nt e(2) touched_timed_out [OF q(2)] touched_timed_out [OF touched_refl, of p e] by blast
        then show "handled D x xi i q e v (?f q)" using handled_refl [OF q(1), of e i] q(3) False by simp
      qed
      then show ?thesis using nt by blast
    qed
  qed
qed

lemma touched_pins:
  assumes "touched p q e" and "e \<notin> D"
  shows "pins D p q"
  unfolding pins_def touched_fields(1-3) [OF assms(1)]
  using touched_fields(14) [OF assms(1)] assms(2) by (metis subset_refl)

lemma touched_stays: "touched p q e \<Longrightarrow> stays e' p q"
  by (simp add: stays_def touched_fields(1,2))

text \<open>What processing one event does.\<close>

definition processed :: "nat set \<Rightarrow> 'h npool \<Rightarrow> nat \<Rightarrow> 'h npool outcome \<Rightarrow> bool" where
  "processed D p e m \<longleftrightarrow>
     m = Inl Fatal_exit \<or>
     (\<exists>q. m = Inr q \<and> pins D p q \<and> stays e p q \<and>
        (if event_done (events q e) then pool_wf (insert e D) 0 (\<lambda>_. 0) q else pool_wf D 0 (\<lambda>_. 0) q))"

text \<open>An event that is done is counted until it is dispatched.\<close>

definition ready :: "nat set \<Rightarrow> 'h npool \<Rightarrow> nat \<Rightarrow> 'h nevent \<Rightarrow> 'h npool outcome \<Rightarrow> bool" where
  "ready D p e v m \<longleftrightarrow>
     m = Inl Fatal_exit \<or>
     (\<exists>q. m = Inr q \<and> touched p q e \<and> events q e = v \<and>
        (if event_done v then pool_wf (insert e D) 1 (charge p e) q else pool_wf D 0 (\<lambda>_. 0) q))"

lemma handled_ready:
  assumes "handled D 0 (\<lambda>_. 0) i p e v m" and "ev_iod (events p e) = Some i"
  shows "ready D p e v m"
proof -
  have c: "charge p e = (\<lambda>_. 0)(i := 1)" using assms(2) by (auto simp: charge_def)
  show ?thesis using assms(1) unfolding handled_def ready_def c by (cases "event_done v") simp_all
qed

lemma timer_ready:
  assumes wf: "pool_wf D 0 (\<lambda>_. 0) p" and e: "e \<in> in_heap p" "\<not> event_done (events p e)" "ev_type (events p e) = NSE_TYPE_TIMER"
  shows "ready D p e (events (complete p e st) e) (Inr (complete p e st))"
proof -
  have "quiet p (complete p e st) e" by (rule quiet_complete) simp
  then have t: "touched p (complete p e st) e" "\<And>j. same_counts p (complete p e st) j" by (simp_all add: quiet_def)
  have "pool_wf (insert e D) (0 + 1) (\<lambda>_. 0) (complete p e st)" by (rule touched_timer [OF t(1) wf e _ t(2)]) simp
  moreover have "charge p e = (\<lambda>_. 0)"
  proof -
    have "e \<notin> queued p" using e(3) kind_of_queue [OF wf, of e] by (auto simp: queued_def kind_of_def)
    then have "ev_iod (events p e) = None" using wf e(1) by (auto simp: pool_wf_def timers_ok_def)
    then show ?thesis by (simp add: charge_def)
  qed
  ultimately show ?thesis using t(1) by (simp add: ready_def)
qed

lemma ready_refl: "pool_wf D 0 (\<lambda>_. 0) p \<Longrightarrow> \<not> event_done (events p e) \<Longrightarrow> ready D p e (events p e) (Inr p)"
  by (simp add: ready_def touched_refl)

lemma queue_or_timer:
  assumes wf: "pool_wf D x xi p" and e: "e \<in> queued p \<union> in_heap p"
  obtains k i where "e \<in> set (queue p k)" "ev_iod (events p e) = Some i" "i \<in> set (active_iods p)"
      "ev_type (events p e) \<noteq> NSE_TYPE_TIMER" "ev_type (events p e) \<noteq> NSE_TYPE_PCAP_READ"
    | "e \<in> in_heap p" "ev_type (events p e) = NSE_TYPE_TIMER" "ev_iod (events p e) = None"
proof (cases "e \<in> queued p")
  case True
  then obtain k where k: "e \<in> set (queue p k)" by (auto simp: queued_def)
  have "ev_type (events p e) \<noteq> NSE_TYPE_TIMER" "ev_type (events p e) \<noteq> NSE_TYPE_PCAP_READ"
    using kind_of_queue [OF wf k] by (auto simp: kind_of_def)
  then show ?thesis using that(1) [OF k] queue_iod [OF wf k] by blast
next
  case False
  then show ?thesis using e wf that(2) by (auto simp: pool_wf_def timers_ok_def)
qed

context nsock_client begin

lemma dispatch_ready:
  assumes h: "ready D p e v m" and e: "e \<notin> D" "\<And>i. ev_iod (events p e) = Some i \<Longrightarrow> i \<in> set (active_iods p)"
  shows "processed D p e (bind_out m (\<lambda>p. if event_done (events p e) then event_dispatch_and_delete call p e True else Inr p)) \<and>
    (\<forall>q. bind_out m (\<lambda>p. if event_done (events p e) then event_dispatch_and_delete call p e True else Inr p) = Inr q \<longrightarrow>
       event_done v \<longrightarrow> event_done (events q e))"
proof -
  consider "m = Inl Fatal_exit" | q where "m = Inr q" "touched p q e" "events q e = v" "\<not> event_done v" "pool_wf D 0 (\<lambda>_. 0) q"
    | q where "m = Inr q" "touched p q e" "events q e = v" "event_done v" "pool_wf (insert e D) 1 (charge p e) q"
    using h by (auto simp: ready_def split: if_splits)
  then show ?thesis
  proof cases
    case 1
    then show ?thesis by (simp add: processed_def)
  next
    case 2
    then show ?thesis using touched_pins [OF 2(2) e(1)] touched_stays [OF 2(2)] by (simp add: processed_def)
  next
    case (3 q)
    have i: "ev_iod (events q e) = ev_iod (events p e)" "active_iods q = active_iods p"
      using touched_fields(3,12) [OF 3(2)] by simp_all
    have w: "pool_wf (insert e D) 1 (charge q e) q" using 3(5) i(1) by (simp add: charge_def)
    have "event_dispatch_and_delete call q e True = Inl Fatal_exit \<or>
      (\<exists>r. event_dispatch_and_delete call q e True = Inr r \<and> pool_wf (insert e D) 0 (\<lambda>_. 0) r \<and> pins (insert e D - {e}) q r \<and>
         (e \<in> insert e D \<longrightarrow> stays e q r) \<and> event_done (events r e))"
      by (rule dispatch_ok [OF w]) (use i e(2) 3(3,4) in auto)
    moreover have "insert e D - {e} = D" using e(1) by simp
    ultimately show ?thesis
      using 3(1,3,4) pins_trans [OF touched_pins [OF 3(2) e(1)]] touched_stays [OF 3(2), of e]
      by (auto simp: processed_def stays_def)
  qed
qed

lemma process_event_ok:
  assumes wf: "pool_wf D 0 (\<lambda>_. 0) p" and e: "e \<in> queued p \<union> in_heap p" "\<not> event_done (events p e)"
  shows "processed D p e (process_event call p e ev) \<and>
    (\<forall>q. process_event call p e ev = Inr q \<longrightarrow> timed_out p e \<longrightarrow> event_done (events q e))"
  using wf e(1)
proof (cases rule: queue_or_timer)
  case (1 k i)
  have eD: "e \<notin> D" using wf e(2) by (auto simp: pool_wf_def done_ok_def)
  define m where "m = bind_out (if concerned (ev_type (events p e)) ev then handle_result p e NSE_STATUS_SUCCESS else Inr p)
     (\<lambda>p. if timed_out p e then handle_result p e NSE_STATUS_TIMEOUT else Inr p)"
  obtain v where v: "handled D 0 (\<lambda>_. 0) i p e v m" "timed_out p e \<longrightarrow> event_done v"
    using queue_process [OF wf 1(1) e(2) 1(2)] unfolding m_def by blast
  have eq: "process_event call p e ev =
      bind_out m (\<lambda>p. if event_done (events p e) then event_dispatch_and_delete call p e True else Inr p)"
    using e(2) 1(4,5) by (simp add: process_event_def m_def)
  have "\<And>j. ev_iod (events p e) = Some j \<Longrightarrow> j \<in> set (active_iods p)" using 1(2,3) by simp
  from dispatch_ready [OF handled_ready [OF v(1) 1(2)] eD this] v(2) show ?thesis unfolding eq by blast
next
  case 2
  have eD: "e \<notin> D" using wf e(2) by (auto simp: pool_wf_def done_ok_def)
  define m where "m = (if timed_out p e then complete p e NSE_STATUS_SUCCESS else p)"
  have rd: "ready D p e (events m e) (Inr m)"
    using timer_ready [OF wf 2(1) e(2) 2(2)] ready_refl [OF wf e(2)] by (simp add: m_def)
  have "\<And>j. ev_iod (events p e) = Some j \<Longrightarrow> j \<in> set (active_iods p)" using 2(3) by simp
  note pr = dispatch_ready [OF rd eD this, unfolded bind_out_simps]
  have eq: "process_event call p e ev = (if event_done (events m e) then event_dispatch_and_delete call m e True else Inr m)"
    using e(2) 2(2) by (simp add: process_event_def handle_timer_result_def m_def)
  have "timed_out p e \<longrightarrow> event_done (events m e)" by (simp add: m_def)
  then show ?thesis unfolding eq using pr by blast
qed

end

section \<open>The event loop\<close>

lemma queue_open: "pool_wf {} x xi p \<Longrightarrow> e \<in> queued p \<union> in_heap p \<Longrightarrow> \<not> event_done (events p e)"
  by (auto simp: pool_wf_def done_ok_def)

lemma next_in_set: "next_in l e = Some n \<Longrightarrow> distinct l \<Longrightarrow> n \<in> set l \<and> n \<noteq> e"
  by (induction l e rule: next_in.induct) (auto split: if_splits)

text \<open>The events of one iod are processed and, once done, unlinked.\<close>

lemma processed_unref:
  assumes pr: "processed D p e (Inr q)" and e: "e \<in> queued p \<union> in_heap p" "e \<notin> D" and dn: "event_done (events q e)"
  shows "\<exists>r. nevent_unref q e = Inr r \<and> pool_wf D 0 (\<lambda>_. 0) r \<and> pins D p r \<and> (\<forall>k. queue r k = remove1 e (queue q k))"
proof -
  have q: "pool_wf (insert e D) 0 (\<lambda>_. 0) q" "pins D p q" "stays e p q" using pr dn by (simp_all add: processed_def)
  then have "e \<in> queued q \<union> in_heap q" using e(1) by (auto simp: stays_def queued_def)
  from unref_ok [OF q(1) e(2) this] show ?thesis using pins_trans [OF q(2)] by blast
qed

lemma next_event:
  assumes wf: "pool_wf D x xi q" and e: "e \<in> set (queue q k)" and n: "gh_lnode_next q e = Some n"
  shows "n \<in> set (queue q k)" "n \<noteq> e"
proof -
  have lo: "lists_ok q" using wf by (simp add: pool_wf_def)
  then have "next_in (queue q k) e = Some n" "distinct (queue q k)"
    using n list_of_queue [OF lo e] by (simp_all add: gh_lnode_next_def lists_ok_def)
  then show "n \<in> set (queue q k)" "n \<noteq> e" using next_in_set by metis+
qed

lemma keeps_InrI: "pool_wf D 0 (\<lambda>_. 0) q \<Longrightarrow> pins D p q \<Longrightarrow> keeps D p (Inr q)"
  by (simp add: keeps_def)

lemma keeps_trans: "pins D p q \<Longrightarrow> keeps D q m \<Longrightarrow> keeps D p m"
  by (auto simp: keeps_def split: sum.splits dest: pins_trans)

text \<open>The event that expires first.\<close>

lemma min_timer:
  assumes "pool_wf D x xi p"
  obtains "in_heap p = {}" "gh_heap_min (timers p) = Inr None"
    | e where "e \<in> in_heap p" "gh_heap_min (timers p) = Inr (Some e)" "\<And>a. a \<in> in_heap p \<Longrightarrow> \<not> pool_lt p a e"
proof (cases "in_heap p = {}")
  case True
  then have "gh_heap_min (timers p) = Inr None" by (auto simp: gh_heap_min_def heap_nodes_def timers_def)
  then show ?thesis using that(1) True by blast
next
  case False
  have hw: "heap_wf (pool_lt p) (timers p)" using assms by (simp add: pool_wf_def timers_ok_def)
  have "heap_nodes (timers p) = in_heap p" by (simp add: timers_def)
  then show ?thesis using expirable.pop_ok [OF hw] False that(2) by auto
qed

context nsock_client begin

lemma iod_events_loop_ok:
  "iod_events_loop c i ev lst p current = Some r \<Longrightarrow> c = call \<Longrightarrow> pool_wf {} 0 (\<lambda>_. 0) p \<Longrightarrow>
    (\<And>e. current = Some e \<Longrightarrow> e \<in> set (queue p k)) \<Longrightarrow> keeps {} p r"
proof (induction rule: iod_events_loop.raw_induct [rotated 1, consumes 1])
  case (1 loop c i ev lst p current r)
  note IH = 1(1) [OF _ refl] and step = 1(2) [unfolded 1(3)] and wf = 1(4)
  show ?case
  proof (cases current)
    case None
    then show ?thesis using step wf by (auto intro: keeps_InrI)
  next
    case (Some e)
    have e: "e \<in> set (queue p k)" using 1(5) Some by simp
    then have e': "e \<in> queued p \<union> in_heap p" by (simp add: in_queue)
    note pr = process_event_ok [OF wf e' queue_open [OF wf e'], THEN conjunct1]
    show ?thesis
    proof (cases "gh_lnode_prev p e = lst \<or> ev_iod (events p e) \<noteq> Some i")
      case True
      then have "r = Inr p" using step Some by (auto split: if_splits)
      then show ?thesis using wf by (auto intro: keeps_InrI)
    next
      case False
      show ?thesis
      proof (cases "process_event call p e ev")
        case (Inl x)
        have "x = Fatal_exit" using pr [of ev, unfolded Inl] by (simp add: processed_def)
        moreover have "r = Inl x" using step Some False Inl by simp
        ultimately show ?thesis by (simp add: keeps_def)
      next
        case (Inr q)
        note prq = pr [of ev, unfolded Inr]
        have eq: "e \<in> set (queue q k)" using prq e by (simp add: processed_def stays_def)
        show ?thesis
        proof (cases "event_done (events q e)")
          case True
          from processed_unref [OF prq e' _ True] obtain s where
            s: "nevent_unref q e = Inr s" "pool_wf {} 0 (\<lambda>_. 0) s" "pins {} p s" "queue s k = remove1 e (queue q k)"
            by auto
          have wq: "pool_wf {e} 0 (\<lambda>_. 0) q" using prq True by (simp add: processed_def)
          have "n \<in> set (queue s k)" if "gh_lnode_next q e = Some n" for n
            using next_event [OF wq eq that] s(4) by simp
          then have "keeps {} s r"
            using IH [OF _ s(2), of i ev lst "gh_lnode_next q e" r] step Some False Inr True s(1)
            by (simp add: Let_def)
          then show ?thesis by (rule keeps_trans [OF s(3)])
        next
          case nd: False
          then have wq: "pool_wf {} 0 (\<lambda>_. 0) q" and pq: "pins {} p q" using prq by (simp_all add: processed_def)
          have "keeps {} q r"
            using IH [OF _ wq, of i ev lst "gh_lnode_next q e" r] next_event(1) [OF wq eq] step Some False Inr nd
            by (simp add: Let_def)
          then show ?thesis by (rule keeps_trans [OF pq])
        qed
      qed
    qed
  qed
qed

lemma process_lists_ok:
  "process_lists call i ev ks p = Some r \<Longrightarrow> pool_wf {} 0 (\<lambda>_. 0) p \<Longrightarrow> i \<in> set (active_iods p) \<Longrightarrow> keeps {} p r"
proof (induction ks arbitrary: p)
  case Nil
  then show ?case by (auto intro: keeps_InrI)
next
  case (Cons k ks)
  have f: "e \<in> set (queue p k)" if "first_ev (iods p i) k = Some e" for e
    using that Cons.prems(2,3) by (auto simp: pool_wf_def firsts_ok_def dest: find_SomeD)
  obtain m where m: "iod_events_loop call i ev (last_elem (queue p k)) p (first_ev (iods p i) k) = Some m"
    using Cons.prems(1) by (auto split: option.splits)
  have km: "keeps {} p m" by (rule iod_events_loop_ok [OF m refl Cons.prems(2) f])
  show ?case
  proof (cases m)
    case (Inl x)
    then show ?thesis using Cons.prems(1) m km by simp
  next
    case (Inr q)
    then have q: "pool_wf {} 0 (\<lambda>_. 0) q" "pins {} p q" using km by (simp_all add: keeps_def)
    then have "i \<in> set (active_iods q)" using Cons.prems(3) by (auto simp: pins_def)
    then have "keeps {} q r" using Cons.IH [OF _ q(1)] Cons.prems(1) m Inr by simp
    then show ?thesis by (rule keeps_trans [OF q(2)])
  qed
qed

lemma process_expired_events_ok:
  "process_expired_events c p = Some r \<Longrightarrow> c = call \<Longrightarrow> pool_wf {} 0 (\<lambda>_. 0) p \<Longrightarrow> keeps {} p r"
proof (induction rule: process_expired_events.raw_induct [rotated 1, consumes 1])
  case (1 loop c p r)
  note IH = 1(1) [OF _ refl] and step = 1(2) [unfolded 1(3)] and wf = 1(4)
  from wf show ?case
  proof (cases rule: min_timer)
    case 1
    then show ?thesis using step wf by (auto intro: keeps_InrI)
  next
    case (2 e)
    note m = 2(2,1)
    have e': "e \<in> queued p \<union> in_heap p" using m(2) by simp
    note po = process_event_ok [OF wf e' queue_open [OF wf e'], of EV_NONE]
    show ?thesis
    proof (cases "timed_out p e")
      case False
      then show ?thesis using step m(1) wf by (auto intro: keeps_InrI)
    next
      case to: True
      show ?thesis
      proof (cases "process_event call p e EV_NONE")
        case (Inl x)
        have "x = Fatal_exit" using po [unfolded Inl] by (simp add: processed_def)
        moreover have "r = Inl x" using step m to Inl by simp
        ultimately show ?thesis by (simp add: keeps_def)
      next
        case (Inr q)
        have dn: "event_done (events q e)" using po to Inr by simp
        from processed_unref [OF po [THEN conjunct1, unfolded Inr] e' _ dn] obtain s where
          s: "nevent_unref q e = Inr s" "pool_wf {} 0 (\<lambda>_. 0) s" "pins {} p s" by auto
        have "keeps {} s r" using IH [OF _ s(2)] step m(1) to Inr dn s(1) by simp
        then show ?thesis by (rule keeps_trans [OF s(3)])
      qed
    qed
  qed
qed

end

text \<open>A deleted iod leaves the list of active ones; no event refers to it any more.\<close>

lemma retire_ok:
  assumes wf: "pool_wf {} 0 (\<lambda>_. 0) p" and i: "i \<in> set (active_iods p)" "state (iods p i) = NSIOD_STATE_DELETED"
  shows "pool_wf {} 0 (\<lambda>_. 0) (p\<lparr>active_iods := remove1 i (active_iods p), free_iods := i # free_iods p\<rparr>)"
proof -
  let ?q = "p\<lparr>active_iods := remove1 i (active_iods p), free_iods := i # free_iods p\<rparr>"
  have lo: "lists_ok p" and fo: "firsts_ok p" and ti: "timers_ok p" and dk: "done_ok {} p" and co: "counts_ok 0 (\<lambda>_. 0) p"
    and wo: "watch_ok p" and ck: "clock_ok p" "writes_ok p" using wf by (simp_all add: pool_wf_def)
  have s: "set (active_iods ?q) = set (active_iods p) - {i}" using lo by (simp add: lists_ok_def)
  have ni: "ev_iod (events p e) \<noteq> Some i" if "e \<in> set (queue p k)" for e k
  proof
    assume "ev_iod (events p e) = Some i"
    then have "e \<in> open_evs p i k" using that queue_open [OF wf, of e] by (simp add: open_evs_def in_queue)
    then show False using wo i by (auto simp: watch_ok_def)
  qed
  have f: "queue ?q = queue p" "queued ?q = queued p" "opens ?q = opens p" "\<And>j k. open_evs ?q j k = open_evs p j k" "iods ?q = iods p"
    "events ?q = events p" "expirables ?q = expirables p" "free_events ?q = free_events p" "ev_brk ?q = ev_brk p"
    "nsock_tod ?q = nsock_tod p" "clock ?q = clock p" "pool_pending ?q = pool_pending p"
    by (simp_all add: queued_def opens_def open_evs_def)
  have "\<exists>j \<in> set (active_iods p) - {i}. ev_iod (events p e) = Some j" if "e \<in> set (queue p k)" for e k
    using queue_iod [OF wf that] ni [OF that] by blast
  then have "lists_ok ?q"
    using lo i(1) unfolding lists_ok_def s f by (simp add: distinct_remove1) blast
  moreover have "firsts_ok ?q" "counts_ok 0 (\<lambda>_. 0) ?q" "watch_ok ?q"
    using fo co wo unfolding firsts_ok_def counts_ok_def watch_ok_def s f by auto
  moreover have "timers_ok ?q" "done_ok {} ?q" "clock_ok ?q" "writes_ok ?q"
    using ti dk ck unfolding timers_ok_def timers_def done_ok_def clock_ok_def writes_ok_def f by auto
  ultimately show ?thesis by (simp add: pool_wf_def)
qed

lemma get_evmask_ok:
  assumes wf: "pool_wf {} 0 (\<lambda>_. 0) p" and i: "i \<in> set (active_iods p)" "iod_pending (iods p i) \<noteq> 0"
  shows "get_evmask p i = Inl Fatal_exit \<or> (\<exists>ev. get_evmask p i = Inr ev)"
proof -
  have "0 \<le> sd (iods p i)"
  proof (rule ccontr)
    assume "\<not> 0 \<le> sd (iods p i)"
    then have "readsd_count (iods p i) = 0" "writesd_count (iods p i) = 0" using wf i(1) by (auto simp: pool_wf_def watch_ok_def)
    then show False using wf i by (auto simp: pool_wf_def counts_ok_def)
  qed
  then show ?thesis by (simp add: get_evmask_def Let_def)
qed

context nsock_client begin

lemma active_iods_loop_ok:
  "active_iods_loop c lst p current = Some r \<Longrightarrow> c = call \<Longrightarrow> pool_wf {} 0 (\<lambda>_. 0) p \<Longrightarrow>
    (\<And>i. current = Some i \<Longrightarrow> i \<in> set (active_iods p)) \<Longrightarrow>
    r = Inl Fatal_exit \<or> (\<exists>q. r = Inr q \<and> pool_wf {} 0 (\<lambda>_. 0) q)"
proof (induction rule: active_iods_loop.raw_induct [rotated 1, consumes 1])
  case (1 loop c lst p current r)
  note IH = 1(1) [OF _ refl] and step = 1(2) [unfolded 1(3)] and wf = 1(4)
  show ?case
  proof (cases current)
    case None
    then show ?thesis using step wf by auto
  next
    case (Some i)
    have i: "i \<in> set (active_iods p)" using 1(5) Some by simp
    show ?thesis
    proof (cases "prev_in (active_iods p) i = lst")
      case True
      then show ?thesis using step Some wf by auto
    next
      case False
      let ?m = "if state (iods p i) \<noteq> NSIOD_STATE_DELETED \<and> iod_pending (iods p i) \<noteq> 0
                then (case get_evmask p i of Inl e \<Rightarrow> Some (Inl e) | Inr ev \<Rightarrow> process_iod_events call p i ev)
                else Some (Inr p)"
      obtain m where m: "?m = Some m" using step Some False by (auto split: option.splits)
      have km: "keeps {} p m"
      proof (cases "state (iods p i) \<noteq> NSIOD_STATE_DELETED \<and> iod_pending (iods p i) \<noteq> 0")
        case True
        then have "iod_pending (iods p i) \<noteq> 0" by simp
        from get_evmask_ok [OF wf i this] show ?thesis
        proof (elim disjE exE)
          fix ev assume ev: "get_evmask p i = Inr ev"
          then have "process_iod_events call p i ev = Some m" using m True by simp
          then show ?thesis using process_lists_ok [OF _ wf i] by (simp only: process_iod_events_def)
        qed (use m True in \<open>auto simp: keeps_def\<close>)
      next
        case False
        then show ?thesis using m keeps_InrI [OF wf pins_refl] by auto
      qed
      show ?thesis
      proof (cases m)
        case (Inl x)
        then have "x = Fatal_exit" using km by (simp add: keeps_def)
        moreover have "r = Inl x" using step Some False m Inl by simp
        ultimately show ?thesis by simp
      next
        case (Inr q)
        then have q: "pool_wf {} 0 (\<lambda>_. 0) q" and iq: "i \<in> set (active_iods q)" using km i by (auto simp: keeps_def pins_def)
        have di: "distinct (active_iods q)" using q by (simp add: pool_wf_def lists_ok_def)
        have n: "n \<in> set (active_iods q) \<and> n \<noteq> i" if "next_in (active_iods q) i = Some n" for n
          using next_in_set [OF that di] by simp
        show ?thesis
        proof (cases "state (iods q i) = NSIOD_STATE_DELETED")
          case True
          let ?q = "q\<lparr>active_iods := remove1 i (active_iods q), free_iods := i # free_iods q\<rparr>"
          have "loop call lst ?q (next_in (active_iods q) i) = Some r"
            using step Some False m Inr True iq by (simp add: Let_def list_remove_def)
          then show ?thesis by (rule IH [OF _ retire_ok [OF q iq True]]) (use n di in auto)
        next
          case nd: False
          have "loop call lst q (next_in (active_iods q) i) = Some r"
            using step Some False m Inr nd by (simp add: Let_def)
          then show ?thesis by (rule IH [OF _ q]) (use n in auto)
        qed
      qed
    qed
  qed
qed

text \<open>One round over all iods and the expired events.\<close>

lemma iterate_ok:
  assumes "iterate_through_event_lists call p = Some r" and "pool_wf {} 0 (\<lambda>_. 0) p"
  shows "r = Inl Fatal_exit \<or> (\<exists>q. r = Inr q \<and> pool_wf {} 0 (\<lambda>_. 0) q)"
proof -
  obtain m where m: "active_iods_loop call (last_elem (active_iods p)) p
      (if active_iods p = [] then None else Some (hd (active_iods p))) = Some m"
    using assms(1) by (auto simp: iterate_through_event_lists_def split: option.splits)
  have "m = Inl Fatal_exit \<or> (\<exists>q. m = Inr q \<and> pool_wf {} 0 (\<lambda>_. 0) q)"
    by (rule active_iods_loop_ok [OF m refl assms(2)]) (auto split: if_splits)
  then show ?thesis
  proof (elim disjE exE conjE)
    fix q assume q: "m = Inr q" "pool_wf {} 0 (\<lambda>_. 0) q"
    then have "process_expired_events call q = Some r" using assms(1) m by (simp add: iterate_through_event_lists_def)
    from process_expired_events_ok [OF this refl q(2)] show ?thesis by (auto simp: keeps_def split: sum.splits)
  qed (use assms(1) m in \<open>simp add: iterate_through_event_lists_def\<close>)
qed

end

end
