(* ===== verification/Nsock_Request.thy ===== *)
theory Nsock_Request
  imports Nsock_Run
begin

text \<open>
  The requests of the program: how an event is created and queued, cancelled, and how an iod is deleted, all of
  which keep the invariant of the pool.
\<close>

section \<open>Creating an event\<close>

text \<open>Changes of the clock, of the free structures and of the nodes outside the heap.\<close>

lemma alloc_wf:
  assumes wf: "pool_wf D x xi p"
    and q: "queue q = queue p" "active_iods q = active_iods p" "free_iods q = free_iods p" "pool_pending q = pool_pending p"
      "iods q = iods p" "events q = events p" "in_heap q = in_heap p" "heap_wf (pool_lt p) (timers q)"
      "set (free_events q) \<subseteq> set (free_events p)" "distinct (free_events q)" "ev_brk p \<le> ev_brk q" "clock_ok q"
  shows "pool_wf D x xi q"
proof -
  have qd: "queued q = queued p" and o: "opens q = opens p" and oe: "open_evs q j k = open_evs p j k" for j k
    unfolding queued_def opens_def open_evs_def q by (rule refl)+
  have lo: "lists_ok p" and fo: "firsts_ok p" and ti: "timers_ok p" and dk: "done_ok D p" and co: "counts_ok x xi p"
    and wo: "watch_ok p" "writes_ok p" using wf by (simp_all add: pool_wf_def)
  have b: "e < ev_brk q" if "e < ev_brk p" for e using that q(11) by (rule order_less_le_trans)
  have "lists_ok q" using lo q(9,10) b unfolding lists_ok_def qd q(1-3,6) by blast
  moreover have "timers_ok q" using ti q(8,9) b unfolding timers_ok_def qd q(6,7) by blast
  moreover have "done_ok D q" using dk q(9) b unfolding done_ok_def qd q(6,7) by blast
  moreover have "firsts_ok q" "counts_ok x xi q" "watch_ok q" "writes_ok q"
    using fo co wo unfolding firsts_ok_def counts_ok_def watch_ok_def writes_ok_def qd o oe q by simp_all
  ultimately show ?thesis using q(12) by (simp add: pool_wf_def)
qed

lemma clock_ok_gettimeofday: "clock_ok p \<Longrightarrow> clock_ok (gettimeofday p)"
  by (auto simp: clock_ok_def gettimeofday_def split: list.split)

lemma gettimeofday_sel [simp]:
  "events (gettimeofday p) = events p" "iods (gettimeofday p) = iods p" "queue (gettimeofday p) = queue p"
  "expirables (gettimeofday p) = expirables p" "active_iods (gettimeofday p) = active_iods p"
  "free_iods (gettimeofday p) = free_iods p" "free_events (gettimeofday p) = free_events p"
  "pool_pending (gettimeofday p) = pool_pending p" "ev_brk (gettimeofday p) = ev_brk p" "sinfo (gettimeofday p) = sinfo p"
  "calls (gettimeofday p) = calls p" "timers (gettimeofday p) = timers p"
  by (simp_all add: gettimeofday_def timers_def split: list.split)

lemma gettimeofday_wf: "pool_wf D x xi p \<Longrightarrow> pool_wf D x xi (gettimeofday p)"
  by (rule alloc_wf [of D x xi p]; (simp; fail)?)
    (simp_all add: pool_wf_def lists_ok_def timers_ok_def clock_ok_gettimeofday)

lemma sane_add:
  assumes "sane_time t" and "0 \<le> ms"
  shows "tv_sec (TIMEVAL_MSEC_ADD t ms) \<noteq> 0"
proof -
  have "0 \<le> ms div 1000" "0 \<le> tv_usec t + ms mod 1000 * 1000" using assms by (simp_all add: sane_time_def)
  moreover from this have "0 \<le> (tv_usec t + ms mod 1000 * 1000) div 1000000" by simp
  ultimately show ?thesis
    using assms by (simp add: sane_time_def TIMEVAL_MSEC_ADD_def Let_def sdiv_nonneg smod_nonneg)
qed

text \<open>An event that is in use but in no list, not in the heap and not freed.\<close>

definition detached :: "nat set \<Rightarrow> 'h npool \<Rightarrow> nat \<Rightarrow> bool" where
  "detached D p e \<longleftrightarrow> e \<notin> queued p \<and> e \<notin> in_heap p \<and> e \<notin> D \<and> e \<notin> set (free_events p) \<and> e < ev_brk p"

text \<open>An iod on which events can be requested.\<close>

definition usable :: "'h npool \<Rightarrow> nat \<Rightarrow> bool" where
  "usable p i \<longleftrightarrow> i \<in> set (active_iods p) \<and> state (iods p i) \<noteq> NSIOD_STATE_DELETED \<and> 0 \<le> sd (iods p i)"

definition created :: "nat set \<Rightarrow> 'h npool \<Rightarrow> nse_type \<Rightarrow> nat option \<Rightarrow> int \<Rightarrow> nat \<Rightarrow> 'h npool \<Rightarrow> bool" where
  "created D p t iod ms e q \<longleftrightarrow>
     pool_wf D 0 (charge q e) q \<and> pins D p q \<and> detached D q e \<and> \<not> gh_hnode_is_valid (expirables q) e \<and>
     ev_type (events q e) = t \<and> ev_iod (events q e) = iod \<and> \<not> event_done (events q e) \<and> ev_status (events q e) = NSE_STATUS_NONE \<and>
     (ms \<noteq> -1 \<longleftrightarrow> tv_sec (ev_timeout (events q e)) \<noteq> 0) \<and> written_so_far (events q e) = 0 \<and>
     queue q = queue p \<and> active_iods q = active_iods p \<and> set (free_events q) \<subseteq> set (free_events p) \<and>
     (\<forall>i. usable q i \<longleftrightarrow> usable p i)"

lemma invalidate_wf:
  assumes "heap_wf lt h" and "e \<notin> heap_nodes h"
  shows "heap_wf lt (gh_hnode_invalidate h e)"
proof -
  have "\<exists>a. slots h ! i = Some a \<and> a \<noteq> e \<and> hindex h a = i" if "i < gh_heap.count h" for i
  proof -
    have "slots_ok h" using assms(1) by (simp add: heap_wf_def)
    moreover have "node h i \<in> heap_nodes h" using that by (simp add: heap_nodes_def)
    ultimately show ?thesis using wf_slot(1,2) that assms(2) by blast
  qed
  then have "slots_ok (gh_hnode_invalidate h e)" using assms(1)
    by (auto simp: heap_wf_def slots_ok_def gh_hnode_invalidate_def)
  then show ?thesis using assms(1) by (simp add: heap_wf_def heap_ordered_def node_def gh_hnode_invalidate_def)
qed

lemma get_new_event_id_sel:
  "snd (get_new_event_id p t) = p\<lparr>next_event_serial := next_event_serial (snd (get_new_event_id p t))\<rparr>"
  by (simp add: get_new_event_id_def Let_def)

lemma event_new_ok:
  assumes wf: "pool_wf D 0 (\<lambda>_. 0) p" and ms: "-1 \<le> ms"
    and i: "\<And>i. iod = Some i \<Longrightarrow> state (iods p i) \<noteq> NSIOD_STATE_DELETED"
  shows "\<exists>e q. event_new p t iod ms handler = Inr (e, q) \<and> created D p t iod ms e q"
proof -
  let ?g = "gettimeofday p"
  have wg: "pool_wf D 0 (\<lambda>_. 0) ?g" by (rule gettimeofday_wf [OF wf])
  define c where "c = (\<lambda>j. if iod = Some j then 1 else (0 :: int))"
  define p1 where "p1 = (case iod of None \<Rightarrow> ?g | Some i \<Rightarrow> set_iod ?g i (\<lambda>d. d\<lparr>iod_pending := iod_pending d + 1\<rparr>))"
  have s1: "same_data ?g p1" by (auto simp: p1_def same_data_def same_counts_def split: option.split)
  have w1: "pool_wf D 0 c p1"
    by (rule same_data_wf [OF s1 wg]) (auto simp: p1_def c_def split: option.split)
  have f1: "queue p1 = queue p" "expirables p1 = expirables p" "active_iods p1 = active_iods p" "free_events p1 = free_events p"
    "ev_brk p1 = ev_brk p" "events p1 = events p" "usable p1 j = usable p j" for j
    by (auto simp: p1_def usable_def split: option.split)
  define e where "e = (case free_events p of [] \<Rightarrow> ev_brk p | e # r \<Rightarrow> e)"
  define p2 where "p2 = (case free_events p of [] \<Rightarrow> p1\<lparr>ev_brk := ev_brk p + 1\<rparr> | e # r \<Rightarrow> p1\<lparr>free_events := r\<rparr>)"
  define p4 where "p4 = (snd (get_new_event_id p2 t))\<lparr>expirables := gh_hnode_invalidate (expirables p) e\<rparr>"
  have p4: "p4 = p2\<lparr>next_event_serial := next_event_serial (snd (get_new_event_id p2 t)),
      expirables := gh_hnode_invalidate (expirables p) e\<rparr>"
    unfolding p4_def by (subst get_new_event_id_sel) (rule refl)
  have fresh: "e \<notin> queued p" "e \<notin> in_heap p" "e \<notin> D" "e \<notin> set (free_events p2)" "e < ev_brk p2"
  proof -
    have "\<forall>a \<in> queued p \<union> set (free_events p). a < ev_brk p" "queued p \<inter> set (free_events p) = {}"
      "distinct (free_events p)" using wf by (simp_all add: pool_wf_def lists_ok_def)
    moreover have "\<forall>a \<in> in_heap p. a < ev_brk p \<and> a \<notin> set (free_events p)" using wf by (simp add: pool_wf_def timers_ok_def)
    moreover have "\<forall>a \<in> D. a < ev_brk p \<and> a \<notin> set (free_events p)" using wf by (simp add: pool_wf_def done_ok_def)
    ultimately show "e \<notin> queued p" "e \<notin> in_heap p" "e \<notin> D" "e \<notin> set (free_events p2)" "e < ev_brk p2"
      unfolding e_def p2_def by (cases "free_events p"; auto simp: f1)+
  qed
  have w4: "pool_wf D 0 c p4"
  proof (rule alloc_wf [OF w1])
    have "heap_wf (pool_lt p1) (timers p1)" using w1 by (simp add: pool_wf_def timers_ok_def)
    then have "heap_wf (pool_lt p1) (gh_hnode_invalidate (timers p1) e)"
      by (rule invalidate_wf) (use fresh(2) f1(2) in \<open>simp add: timers_def\<close>)
    moreover have "timers p4 = gh_hnode_invalidate (timers p1) e"
      by (cases "expirables p"; cases "free_events p") (simp_all add: p4 timers_def p2_def f1 gh_hnode_invalidate_def)
    ultimately show "heap_wf (pool_lt p1) (timers p4)" by simp
    show "clock_ok p4" using w1 unfolding p4 p2_def by (simp add: pool_wf_def clock_ok_def split: list.split)
    show "distinct (free_events p4)" "set (free_events p4) \<subseteq> set (free_events p1)"
      using w1 unfolding p4 p2_def f1 by (auto simp: pool_wf_def lists_ok_def f1 split: list.split)
    show "in_heap p4 = in_heap p1"
      by (simp add: p4 f1 heap_nodes_def node_def gh_hnode_invalidate_def)
  qed (simp_all add: p4 p2_def f1 split: list.split)
  define tm where "tm = (if ms \<noteq> -1 then TIMEVAL_MSEC_ADD (nsock_tod p4) ms else Timeval 0 0)"
  define q where "q = set_ev p4 e (\<lambda>_. \<lparr>ev_id = fst (get_new_event_id p2 t), ev_type = t, ev_status = NSE_STATUS_NONE, iobuf = [],
      ev_timeout = tm, read_type = NSOCK_READLINES, read_num = 0, written_so_far = 0, ev_errnum = None, ev_iod = iod,
      ev_handler = handler, event_done = False, ev_eof = False\<rparr>)"
  have f4: "queue p4 = queue p" "active_iods p4 = active_iods p" "free_events p4 = free_events p2" "ev_brk p4 = ev_brk p2"
    "iods p4 = iods p1" "in_heap p4 = in_heap p"
    by (simp_all add: p4 p2_def f1 heap_nodes_def node_def gh_hnode_invalidate_def split: list.split)
  have "pool_wf D 0 c q" unfolding q_def
    by (rule fresh_ev [OF w4]) (use fresh f4 in \<open>simp_all add: queued_def\<close>)
  moreover have "charge q e = c" by (simp add: charge_def q_def c_def)
  moreover have "detached D q e" using fresh f4 by (simp add: detached_def q_def queued_def)
  moreover have "pins D p q" using fresh(3) f4 by (auto simp: pins_def q_def p4 p2_def f1 split: list.split)
  moreover have "ms \<noteq> -1 \<longleftrightarrow> tv_sec tm \<noteq> 0"
    using ms sane_add [of "nsock_tod p4" ms] w4 by (auto simp: tm_def pool_wf_def clock_ok_def)
  moreover have "\<not> gh_hnode_is_valid (expirables q) e" by (simp add: q_def p4 gh_hnode_invalidate_def gh_hnode_is_valid_def)
  moreover have "usable q j = usable p j" for j using f1(7) [of j] f1(3) f4 by (simp add: usable_def q_def)
  moreover have "set (free_events q) \<subseteq> set (free_events p)" using f4(3) by (auto simp: q_def p2_def f1 split: list.split)
  ultimately have "created D p t iod ms e q" using f4 unfolding created_def by (simp add: q_def)
  moreover have "event_new p t iod ms handler = Inr (e, q)"
  proof -
    have b: "bind_out (case iod of None \<Rightarrow> Inr ?g | Some i \<Rightarrow> if state (iods ?g i) = NSIOD_STATE_DELETED then Inl Assert_failed
        else Inr (set_iod ?g i (\<lambda>d. d\<lparr>iod_pending := iod_pending d + 1\<rparr>))) f = f p1" for f :: "'a npool \<Rightarrow> 'b outcome"
      using i by (cases iod) (simp_all add: p1_def)
    have a: "(case free_events p1 of [] \<Rightarrow> (ev_brk p1, p1\<lparr>ev_brk := ev_brk p1 + 1\<rparr>) | e # r \<Rightarrow> (e, p1\<lparr>free_events := r\<rparr>)) = (e, p2)"
      by (cases "free_events p") (simp_all add: f1 e_def p2_def)
    have "expirables (snd (get_new_event_id p2 t)) = expirables p"
      by (subst get_new_event_id_sel) (simp add: p2_def f1 split: list.split)
    then show ?thesis using ms unfolding event_new_def Let_def b a prod.case split_beta
      by (simp add: p4_def [symmetric] q_def tm_def)
  qed
  ultimately show ?thesis by blast
qed

section \<open>Queueing an event\<close>

text \<open>The iod with a new first event of a kind and its counts.\<close>

definition iod_counting :: "niod \<Rightarrow> evkind \<Rightarrow> nat \<Rightarrow> int \<Rightarrow> niod \<Rightarrow> bool" where
  "iod_counting d k e ev d' \<longleftrightarrow>
     d' = d\<lparr>readsd_count := readsd_count d + (if reads_kind k then 1 else 0),
            writesd_count := writesd_count d + (if writes_kind k then 1 else 0),
            watched_events := ev, registered := True, first_ev := (first_ev d)(k := Some e)\<rparr> \<and>
     (bit ev 0 \<longleftrightarrow> readsd_count d' > 0) \<and> (bit ev 1 \<longleftrightarrow> writesd_count d' > 0)"

text \<open>What queueing a detached event does.\<close>

definition linked :: "'h npool \<Rightarrow> nat \<Rightarrow> nat \<Rightarrow> evkind \<Rightarrow> nat list \<Rightarrow> int \<Rightarrow> 'h npool \<Rightarrow> bool" where
  "linked p e i k l ev q \<longleftrightarrow>
     events q = events p \<and> queue q = (queue p)(k := l) \<and> set l = insert e (set (queue p k)) \<and> distinct l \<and>
     grouped (\<lambda>a. ev_iod (events p a)) l \<and>
     (\<forall>j. find (\<lambda>a. ev_iod (events p a) = Some j) l =
        (if j = i then Some e else find (\<lambda>a. ev_iod (events p a) = Some j) (queue p k))) \<and>
     heap_wf (pool_lt p) (timers q) \<and>
     in_heap q = (if tv_sec (ev_timeout (events p e)) \<noteq> 0 then insert e (in_heap p) else in_heap p) \<and>
     active_iods q = active_iods p \<and> free_iods q = free_iods p \<and> free_events q = free_events p \<and> ev_brk q = ev_brk p \<and>
     nsock_tod q = nsock_tod p \<and> clock q = clock p \<and> pool_pending q = pool_pending p \<and>
     (\<forall>j. j \<noteq> i \<longrightarrow> iods q j = iods p j) \<and> iod_counting (iods p i) k e ev (iods q i)"

lemma linked_wf:
  assumes wf: "pool_wf D 1 (charge p e) p" and det: "detached D p e"
    and e: "\<not> event_done (events p e)" "unsent (events p e)" "ev_iod (events p e) = Some i" "kind_of (ev_type (events p e)) = Some k"
      "ev_type (events p e) \<noteq> NSE_TYPE_CONNECT_SSL"
    and use: "usable p i" and q: "linked p e i k l ev q"
  shows "pool_wf D 0 (\<lambda>_. 0) q" "pins D p q"
proof -
  have lo: "lists_ok p" and fo: "firsts_ok p" and ti: "timers_ok p" and dk: "done_ok D p" and co: "counts_ok 1 (charge p e) p"
    and wo: "watch_ok p" and ck: "clock_ok p" "writes_ok p" using wf by (simp_all add: pool_wf_def)
  have f: "events q = events p" "queue q = (queue p)(k := l)" "heap_wf (pool_lt p) (timers q)"
    "in_heap q = (if tv_sec (ev_timeout (events p e)) \<noteq> 0 then insert e (in_heap p) else in_heap p)"
    "active_iods q = active_iods p" "free_iods q = free_iods p" "free_events q = free_events p" "ev_brk q = ev_brk p"
    "nsock_tod q = nsock_tod p" "clock q = clock p" "pool_pending q = pool_pending p"
    and l: "set l = insert e (set (queue p k))" "distinct l" "grouped (\<lambda>a. ev_iod (events p a)) l"
      "\<And>j. find (\<lambda>a. ev_iod (events p a) = Some j) l =
        (if j = i then Some e else find (\<lambda>a. ev_iod (events p a) = Some j) (queue p k))"
    and other: "\<And>j. j \<noteq> i \<Longrightarrow> iods q j = iods p j" and it: "iod_counting (iods p i) k e ev (iods q i)"
    using q by (simp_all add: linked_def)
  have d: "e \<notin> queued p" "e \<notin> in_heap p" "e \<notin> D" "e \<notin> set (free_events p)" "e < ev_brk p"
    using det by (simp_all add: detached_def)
  have nk: "e \<notin> set (queue p k')" for k' using d(1) by (auto simp: queued_def)
  have i: "i \<in> set (active_iods p)" using use by (simp add: usable_def)
  have sq: "set (queue q k') = (if k' = k then insert e (set (queue p k)) else set (queue p k'))" for k' by (simp add: f(2) l(1))
  have qd: "queued q = insert e (queued p)" unfolding queued_def sq by (auto split: if_splits)
  have o: "opens q = insert e (opens p)" using e(1) by (auto simp: opens_def qd f(1,4))
  have oe: "open_evs q j k' = (if j = i \<and> k' = k then insert e (open_evs p i k) else open_evs p j k')" for j k'
    using e(1,3) nk [of k'] unfolding open_evs_def sq f(1) by auto
  have ne: "e \<notin> opens p" "e \<notin> open_evs p i k" using d nk by (auto simp: opens_def open_evs_def)
  have "lists_ok q"
    unfolding lists_ok_def
  proof (intro conjI allI ballI)
    fix k' a assume a: "a \<in> set (queue q k')"
    show "kind_of (ev_type (events q a)) = Some k'" "ev_type (events q a) \<noteq> NSE_TYPE_CONNECT_SSL"
      "\<exists>j \<in> set (active_iods q). ev_iod (events q a) = Some j"
      using a lo e(3-5) i unfolding lists_ok_def sq f(1,5) by (auto split: if_splits)
  qed (use lo l(2) d in \<open>auto simp: lists_ok_def qd f(2,5-8)\<close>)
  moreover have "firsts_ok q"
    unfolding firsts_ok_def f(1,5)
  proof (intro conjI allI ballI)
    show "grouped (\<lambda>e. ev_iod (events p e)) (queue q k')" for k' using fo l(3) by (simp add: firsts_ok_def f(2))
    show "first_ev (iods q j) k' = find (\<lambda>e. ev_iod (events p e) = Some j) (queue q k')" if "j \<in> set (active_iods p)" for j k'
    proof -
      have "first_ev (iods q i) = (first_ev (iods p i))(k := Some e)" using it unfolding iod_counting_def by simp
      then have fe: "first_ev (iods q j) k' = (if j = i \<and> k' = k then Some e else first_ev (iods p j) k')"
        using other [of j] by (cases "j = i") simp_all
      have p0: "first_ev (iods p j) k' = find (\<lambda>e. ev_iod (events p e) = Some j) (queue p k')"
        using fo that by (simp add: firsts_ok_def)
      show ?thesis unfolding fe p0 f(2) by (simp add: l(4))
    qed
  qed
  moreover have "timers_ok q"
    unfolding timers_ok_def f(1)
  proof (intro conjI ballI impI)
    show "heap_wf (pool_lt p) (timers q)" by (rule f(3))
    have t0: "\<forall>a \<in> in_heap p. a < ev_brk p \<and> a \<notin> set (free_events p) \<and> tv_sec (ev_timeout (events p a)) \<noteq> 0 \<and>
        (a \<in> queued p \<or> ev_type (events p a) = NSE_TYPE_TIMER \<and> ev_iod (events p a) = None)"
      "\<forall>a \<in> queued p. tv_sec (ev_timeout (events p a)) \<noteq> 0 \<longrightarrow> a \<in> in_heap p"
      using ti by (simp_all add: timers_ok_def)
    fix a
    show "a < ev_brk q" "a \<notin> set (free_events q)" "tv_sec (ev_timeout (events p a)) \<noteq> 0"
      "a \<in> queued q \<or> ev_type (events p a) = NSE_TYPE_TIMER \<and> ev_iod (events p a) = None" if "a \<in> in_heap q"
      using that t0(1) d unfolding f(4,7,8) qd by (auto split: if_splits)
    show "a \<in> in_heap q" if "a \<in> queued q" "tv_sec (ev_timeout (events p a)) \<noteq> 0"
      using that t0(2) unfolding f(4) qd by auto
  qed
  moreover have "done_ok D q" using dk d e(1) unfolding done_ok_def qd f(1,4,7,8) by auto
  moreover have "clock_ok q" "writes_ok q" using ck e(2) unfolding clock_ok_def writes_ok_def f(1,9,10) qd by auto
  moreover have "counts_ok 0 (\<lambda>_. 0) q"
    unfolding counts_ok_def f(5,11)
  proof (intro conjI ballI)
    show "pool_pending p = 0 + int (card (opens q))" using co ne(1) by (simp add: counts_ok_def o)
    fix j assume j: "j \<in> set (active_iods p)"
    note cp = co [unfolded counts_ok_def, THEN conjunct2, rule_format, OF j]
    have c: "readsd_count (iods q j) = int (card (open_evs q j Connects)) + int (card (open_evs q j Reads)) \<and>
        writesd_count (iods q j) = int (card (open_evs q j Connects)) + int (card (open_evs q j Writes)) \<and>
        iod_pending (iods q j) = 0 + int (card (open_evs q j Connects)) + int (card (open_evs q j Reads)) + int (card (open_evs q j Writes))"
    proof (cases "j = i")
      case False
      then show ?thesis using cp other [OF False] e(3) by (simp add: oe charge_def)
    next
      case True
      then show ?thesis using cp it ne(2) e(3) unfolding True iod_counting_def
        by (cases k) (simp_all add: oe charge_def reads_kind_def writes_kind_def)
    qed
    then show "readsd_count (iods q j) = int (card (open_evs q j Connects)) + int (card (open_evs q j Reads))"
      "writesd_count (iods q j) = int (card (open_evs q j Connects)) + int (card (open_evs q j Writes))"
      "iod_pending (iods q j) = 0 + int (card (open_evs q j Connects)) + int (card (open_evs q j Reads)) + int (card (open_evs q j Writes))"
      by simp_all
  qed
  moreover have "watch_ok q"
    unfolding watch_ok_def f(5)
  proof (rule ballI)
    fix j assume j: "j \<in> set (active_iods p)"
    note wp = wo [unfolded watch_ok_def, rule_format, OF j]
    show "(registered (iods q j) \<longrightarrow> 0 \<le> sd (iods q j) \<and>
           (bit (watched_events (iods q j)) 0 \<longleftrightarrow> readsd_count (iods q j) > 0) \<and>
           (bit (watched_events (iods q j)) 1 \<longleftrightarrow> writesd_count (iods q j) > 0)) \<and>
        (\<not> registered (iods q j) \<longrightarrow> readsd_count (iods q j) = 0 \<and> writesd_count (iods q j) = 0) \<and>
        (state (iods q j) = NSIOD_STATE_DELETED \<longrightarrow> (\<forall>k. open_evs q j k = {}))"
    proof (cases "j = i")
      case False
      then show ?thesis using wp other [OF False] by (simp add: oe)
    next
      case True
      then show ?thesis using it use unfolding iod_counting_def usable_def by auto
    qed
  qed
  ultimately show "pool_wf D 0 (\<lambda>_. 0) q" by (simp add: pool_wf_def)
  have "a \<noteq> e" if "a \<in> D" for a using that d(3) by auto
  then show "pins D p q" unfolding pins_def sq f(1,4,5) by auto
qed

lemma insert_first:
  assumes l: "distinct l" "e \<notin> set l" "grouped f l" and fe: "f e = c"
  shows "\<exists>l'. (case find (\<lambda>a. f a = c) l of Some b \<Rightarrow> list_insert_before l b e | None \<Rightarrow> Inr (l @ [e])) = Inr l' \<and>
    set l' = insert e (set l) \<and> distinct l' \<and> grouped f l' \<and>
    (\<forall>j. find (\<lambda>a. f a = j) l' = (if j = c then Some e else find (\<lambda>a. f a = j) l))"
proof (cases "find (\<lambda>a. f a = c) l")
  case None
  then have n: "c \<notin> f ` set l" by (auto simp: find_None_iff)
  have "find (\<lambda>a. f a = j) (l @ [e]) = (if j = c then Some e else find (\<lambda>a. f a = j) l)" for j
    using None fe by (auto simp: find_append split: option.split)
  then show ?thesis using None l n fe by (simp add: grouped_append1)
next
  case (Some b)
  then have b: "b \<in> set l" "f b = c" using find_SomeD by fastforce+
  obtain l1 l2 where s: "l = l1 @ b # l2" "b \<notin> set l1" "list_insert_before l b e = Inr (l1 @ e # b # l2)"
    using insert_before_wf [OF b(1), of e] by blast
  have n: "c \<notin> f ` set l1"
  proof
    assume "c \<in> f ` set l1"
    then have "find (\<lambda>a. f a = c) l1 \<noteq> None" by (auto simp: find_None_iff)
    then obtain a where a: "find (\<lambda>a. f a = c) l1 = Some a" by blast
    then have "find (\<lambda>a. f a = c) l = Some a" by (simp add: s(1) find_append)
    then show False using Some a s(2) by (auto dest: find_SomeD)
  qed
  then have n1: "find (\<lambda>a. f a = c) l1 = None" by (auto simp: find_None_iff)
  have "grouped f (l1 @ e # b # l2)" by (rule grouped_insert) (use l(3) s(1) fe b(2) n in auto)
  moreover have "find (\<lambda>a. f a = j) (l1 @ e # b # l2) = (if j = c then Some e else find (\<lambda>a. f a = j) l)" for j
    using n1 fe by (auto simp: s(1) find_append split: option.split)
  ultimately show ?thesis using l s Some by auto
qed

lemma push_step:
  assumes hw: "heap_wf (pool_lt p) (timers p)" and v: "\<not> gh_hnode_is_valid (expirables p) e"
  shows "(if tv_sec (ev_timeout (events p e)) \<noteq> 0 then bind_out (gh_heap_push (timers p) e) (\<lambda>h. Inr (p\<lparr>expirables := h\<rparr>)) else Inr p)
      = Inl Fatal_exit \<or>
    (\<exists>h. (if tv_sec (ev_timeout (events p e)) \<noteq> 0 then bind_out (gh_heap_push (timers p) e) (\<lambda>h. Inr (p\<lparr>expirables := h\<rparr>)) else Inr p)
        = Inr (p\<lparr>expirables := h\<rparr>) \<and> heap_wf (pool_lt p) (timers (p\<lparr>expirables := h\<rparr>)) \<and>
       heap_nodes h = (if tv_sec (ev_timeout (events p e)) \<noteq> 0 then insert e (in_heap p) else in_heap p))"
proof (cases "tv_sec (ev_timeout (events p e)) \<noteq> 0")
  case False
  then show ?thesis using hw by (intro disjI2 exI [of _ "expirables p"]) simp
next
  case True
  have v': "\<not> gh_hnode_is_valid (timers p) e" using v by (simp add: timers_def gh_hnode_is_valid_def)
  show ?thesis
  proof (cases "gh_heap.count (timers p) < highwm (timers p) \<or> (highwm (timers p) + 128) * 8 < 2 ^ 31")
    case room: True
    from expirable.push_ok [OF hw v' room] obtain h where
      h: "gh_heap_push (timers p) e = Inr h" "heap_wf (pool_lt p) h" "heap_nodes h = insert e (heap_nodes (timers p))" by blast
    have "timers (p\<lparr>expirables := h\<rparr>) = h" using h(2) by (cases h) (simp add: timers_def heap_wf_def)
    moreover have "heap_nodes (timers p) = in_heap p" by (simp add: timers_def)
    ultimately show ?thesis using h True by (intro disjI2 exI [of _ h]) simp
  next
    case no_room: False
    then have "gh_heap.count (timers p) = highwm (timers p)" using hw by (auto simp: heap_wf_def slots_ok_def)
    then show ?thesis using push_no_room [OF hw _ _ v'] no_room True by simp
  qed
qed

lemma balanced_iod:
  assumes "pool_wf D x xi p" and "i \<in> set (active_iods p)"
  shows "balanced (iods p i)"
  using assms by (auto simp: pool_wf_def counts_ok_def watch_ok_def balanced_def)

lemma inc_read_rec:
  assumes "balanced (iods p i)"
  shows "recounted p i (readsd_count (iods p i) + 1) (writesd_count (iods p i))
    (bind_out (socket_count_read_inc p i) (\<lambda>(_, p). update_events p i EV_READ EV_NONE))"
proof -
  let ?r = "readsd_count (iods p i) + 1" and ?w = "writesd_count (iods p i)"
  have eq: "set_iod p i (\<lambda>d. d\<lparr>readsd_count := readsd_count d + 1\<rparr>) = set_iod p i (\<lambda>d. d\<lparr>readsd_count := ?r, writesd_count := ?w\<rparr>)"
    by (rule set_counts) simp_all
  show ?thesis using update_inc [OF assms, of EV_READ ?r ?w] assms
    by (simp add: socket_count_read_inc_def eq balanced_def)
qed

lemma inc_write_rec:
  assumes "balanced (iods p i)"
  shows "recounted p i (readsd_count (iods p i)) (writesd_count (iods p i) + 1)
    (bind_out (socket_count_write_inc p i) (\<lambda>(_, p). update_events p i EV_WRITE EV_NONE))"
proof -
  let ?r = "readsd_count (iods p i)" and ?w = "writesd_count (iods p i) + 1"
  have eq: "set_iod p i (\<lambda>d. d\<lparr>writesd_count := writesd_count d + 1\<rparr>) = set_iod p i (\<lambda>d. d\<lparr>readsd_count := ?r, writesd_count := ?w\<rparr>)"
    by (rule set_counts) simp_all
  show ?thesis using update_inc [OF assms, of EV_WRITE ?r ?w] assms
    by (simp add: socket_count_write_inc_def eq balanced_def)
qed

lemma inc_both_rec:
  assumes "balanced (iods p i)"
  shows "recounted p i (readsd_count (iods p i) + 1) (writesd_count (iods p i) + 1)
    (bind_out (socket_count_read_inc p i) (\<lambda>(_, p). bind_out (socket_count_write_inc p i) (\<lambda>(_, p).
       update_events p i (EV_READ OR EV_WRITE) EV_NONE)))"
proof -
  let ?r = "readsd_count (iods p i) + 1" and ?w = "writesd_count (iods p i) + 1"
  have eq: "set_iod (set_iod p i (\<lambda>d. d\<lparr>readsd_count := readsd_count d + 1\<rparr>)) i (\<lambda>d. d\<lparr>writesd_count := writesd_count d + 1\<rparr>) =
      set_iod p i (\<lambda>d. d\<lparr>readsd_count := ?r, writesd_count := ?w\<rparr>)"
    unfolding set_iod_twice by (rule set_counts) simp_all
  show ?thesis using update_inc [OF assms, of "EV_READ OR EV_WRITE" ?r ?w] assms
    by (simp add: socket_count_read_inc_def socket_count_write_inc_def eq balanced_def bit_or_iff)
qed

lemma add_linked:
  assumes wf: "pool_wf D x xi p" and det: "detached D p e" and e: "ev_iod (events p e) = Some i" "kind_of (ev_type (events p e)) = Some k"
    and i: "i \<in> set (active_iods p)"
    and h: "heap_wf (pool_lt p) (timers (p\<lparr>expirables := h\<rparr>))"
      "heap_nodes h = (if tv_sec (ev_timeout (events p e)) \<noteq> 0 then insert e (in_heap p) else in_heap p)"
    and m: "recounted (p\<lparr>expirables := h\<rparr>) i (readsd_count (iods p i) + (if reads_kind k then 1 else 0))
      (writesd_count (iods p i) + (if writes_kind k then 1 else 0)) m"
  shows "bind_out m (\<lambda>p. iod_add_event p i e) = Inl Fatal_exit \<or>
    (\<exists>l ev q. bind_out m (\<lambda>p. iod_add_event p i e) = Inr q \<and> linked p e i k l ev q)"
proof -
  define r where "r = readsd_count (iods p i) + (if reads_kind k then 1 else 0)"
  define w where "w = writesd_count (iods p i) + (if writes_kind k then 1 else 0)"
  consider "m = Inl Fatal_exit"
    | si ev where "m = Inr ((set_iod (p\<lparr>expirables := h\<rparr>) i (\<lambda>d. d\<lparr>readsd_count := r, writesd_count := w, watched_events := ev,
        registered := True\<rparr>))\<lparr>sinfo := si\<rparr>)" "bit ev 0 \<longleftrightarrow> r > 0" "bit ev 1 \<longleftrightarrow> w > 0"
    using m unfolding recounted_def r_def w_def by blast
  then show ?thesis
  proof cases
    case (2 si ev)
    have lo: "lists_ok p" and fo: "firsts_ok p" using wf by (simp_all add: pool_wf_def)
    have "distinct (queue p k)" "grouped (\<lambda>a. ev_iod (events p a)) (queue p k)" "e \<notin> set (queue p k)"
      using lo fo det by (auto simp: lists_ok_def firsts_ok_def detached_def queued_def)
    from insert_first [OF this(1,3,2) e(1)] obtain l where
      l: "(case find (\<lambda>a. ev_iod (events p a) = Some i) (queue p k) of
            Some b \<Rightarrow> list_insert_before (queue p k) b e | None \<Rightarrow> Inr (queue p k @ [e])) = Inr l"
        "set l = insert e (set (queue p k))" "distinct l" "grouped (\<lambda>a. ev_iod (events p a)) l"
        "\<forall>j. find (\<lambda>a. ev_iod (events p a) = j) l = (if j = Some i then Some e else find (\<lambda>a. ev_iod (events p a) = j) (queue p k))"
      by blast
    have fe: "first_ev (iods p i) k = find (\<lambda>a. ev_iod (events p a) = Some i) (queue p k)" using fo i by (simp add: firsts_ok_def)
    let ?p = "(set_iod (p\<lparr>expirables := h\<rparr>) i (\<lambda>d. d\<lparr>readsd_count := r, writesd_count := w, watched_events := ev,
        registered := True\<rparr>))\<lparr>sinfo := si\<rparr>"
    let ?q = "set_iod (set_queue ?p k l) i (\<lambda>d. d\<lparr>first_ev := (first_ev d)(k := Some e)\<rparr>)"
    have "iod_add_event ?p i e = bind_out (case first_ev (iods p i) k of
        Some f \<Rightarrow> list_insert_before (queue p k) f e | None \<Rightarrow> Inr (queue p k @ [e])) (\<lambda>l.
      Inr (set_iod (set_queue ?p k l) i (\<lambda>d. d\<lparr>first_ev := (first_ev d)(k := Some e)\<rparr>)))"
      using e(2) by (cases "first_ev (iods p i) k") (simp_all add: iod_add_event_def)
    then have "bind_out m (\<lambda>p. iod_add_event p i e) = Inr ?q" unfolding 2(1) fe l(1) bind_out_simps .
    moreover have tq: "timers ?q = timers (p\<lparr>expirables := h\<rparr>)" by (simp add: timers_def)
    have "linked p e i k l ev ?q"
      unfolding linked_def tq using h l(2-5) 2(2,3) by (simp add: iod_counting_def r_def [symmetric] w_def [symmetric])
    ultimately show ?thesis by blast
  qed simp
qed

text \<open>What adding an event to the pool starts from.\<close>

definition newly :: "nat set \<Rightarrow> 'h npool \<Rightarrow> nat \<Rightarrow> bool" where
  "newly D p e \<longleftrightarrow> pool_wf D 0 (charge p e) p \<and> detached D p e \<and> \<not> gh_hnode_is_valid (expirables p) e \<and>
     \<not> event_done (events p e) \<and> unsent (events p e)"

lemma created_newly: "created D p t iod ms e q \<Longrightarrow> newly D q e"
  by (simp add: created_def newly_def unsent_def)

text \<open>Which event can be added: one on a usable iod, or a timer that expires.\<close>

definition addable :: "'h npool \<Rightarrow> nat \<Rightarrow> bool" where
  "addable p e \<longleftrightarrow>
     (case ev_iod (events p e) of
        Some i \<Rightarrow> usable p i \<and> (\<exists>k. kind_of (ev_type (events p e)) = Some k) \<and> ev_type (events p e) \<noteq> NSE_TYPE_CONNECT_SSL
      | None \<Rightarrow> ev_type (events p e) = NSE_TYPE_TIMER \<and> tv_sec (ev_timeout (events p e)) \<noteq> 0)"

lemma timer_linked_wf:
  assumes wf: "pool_wf D 1 (charge p e) p" and det: "detached D p e"
    and e: "\<not> event_done (events p e)" "ev_iod (events p e) = None" "ev_type (events p e) = NSE_TYPE_TIMER"
      "tv_sec (ev_timeout (events p e)) \<noteq> 0"
    and h: "heap_wf (pool_lt p) (timers (p\<lparr>expirables := h\<rparr>))" "heap_nodes h = insert e (in_heap p)"
  shows "pool_wf D 0 (\<lambda>_. 0) (p\<lparr>expirables := h\<rparr>)" "pins D p (p\<lparr>expirables := h\<rparr>)"
proof -
  let ?q = "p\<lparr>expirables := h\<rparr>"
  have d: "e \<notin> queued p" "e \<notin> in_heap p" "e \<notin> D" "e \<notin> set (free_events p)" "e < ev_brk p" using det by (simp_all add: detached_def)
  have f: "queue ?q = queue p" "queued ?q = queued p" "\<And>j k. open_evs ?q j k = open_evs p j k" "iods ?q = iods p"
    "events ?q = events p" "free_events ?q = free_events p" "ev_brk ?q = ev_brk p" "active_iods ?q = active_iods p"
    "nsock_tod ?q = nsock_tod p" "clock ?q = clock p" "pool_pending ?q = pool_pending p" "in_heap ?q = insert e (in_heap p)"
    "free_iods ?q = free_iods p"
    using h(2) by (simp_all add: queued_def open_evs_def)
  have o: "opens ?q = insert e (opens p)" "e \<notin> opens p" using e(1) d unfolding opens_def f by auto
  have c: "charge p e = (\<lambda>_. 0)" by (simp add: charge_def e(2))
  have lo: "lists_ok p" and fo: "firsts_ok p" and ti: "timers_ok p" and dk: "done_ok D p" and co: "counts_ok 1 (\<lambda>_. 0) p"
    and wo: "watch_ok p" and ck: "clock_ok p" "writes_ok p" using wf by (simp_all add: pool_wf_def c)
  have "lists_ok ?q" using lo unfolding lists_ok_def f .
  moreover have "firsts_ok ?q" using fo unfolding firsts_ok_def f .
  moreover have "timers_ok ?q" using ti h(1) d e(2-4) unfolding timers_ok_def f by auto
  moreover have "done_ok D ?q" using dk d e(1) unfolding done_ok_def f by auto
  moreover have "counts_ok 0 (\<lambda>_. 0) ?q" using co o(2) unfolding counts_ok_def f o(1) by simp
  moreover have "watch_ok ?q" using wo unfolding watch_ok_def f .
  moreover have "clock_ok ?q" "writes_ok ?q" using ck unfolding clock_ok_def writes_ok_def f by simp_all
  ultimately show "pool_wf D 0 (\<lambda>_. 0) ?q" by (simp add: pool_wf_def)
  show "pins D p ?q" using d(3) unfolding pins_def f by auto
qed

lemma adopt:
  assumes "pool_wf D x xi p" and "event_done (events p e)" "e < ev_brk p" "e \<notin> set (free_events p)"
  shows "pool_wf (insert e D) x xi p"
  using assms unfolding pool_wf_def done_ok_def by auto

lemma disown:
  assumes "pool_wf (insert e D) x xi p" and "e \<notin> queued p" "e \<notin> in_heap p"
  shows "pool_wf D x xi p"
  using assms unfolding pool_wf_def done_ok_def by blast

text \<open>The counting of an event of each kind.\<close>

lemma counted_kind:
  assumes "balanced (iods p i)" and "0 \<le> sd (iods p i)" and e: "ev_iod (events p e) = Some i" "kind_of (ev_type (events p e)) = Some k"
    "ev_type (events p e) \<noteq> NSE_TYPE_CONNECT_SSL"
  shows "\<exists>m. recounted p i (readsd_count (iods p i) + (if reads_kind k then 1 else 0))
      (writesd_count (iods p i) + (if writes_kind k then 1 else 0)) m \<and>
    (case ev_type (events p e) of
       NSE_TYPE_TIMER \<Rightarrow> Inr p
     | NSE_TYPE_PCAP_READ \<Rightarrow> Inl Fatal_exit
     | NSE_TYPE_READ \<Rightarrow>
         bind_out (valid_iod p e) (\<lambda>i. bind_out (socket_count_read_inc p i) (\<lambda>(_, p).
         bind_out (update_events p i EV_READ EV_NONE) (\<lambda>p. iod_add_event p i e)))
     | NSE_TYPE_WRITE \<Rightarrow>
         bind_out (valid_iod p e) (\<lambda>i. bind_out (socket_count_write_inc p i) (\<lambda>(_, p).
         bind_out (update_events p i EV_WRITE EV_NONE) (\<lambda>p. iod_add_event p i e)))
     | _ \<Rightarrow>
         bind_out (valid_iod p e) (\<lambda>i. bind_out (socket_count_read_inc p i) (\<lambda>(_, p).
         bind_out (socket_count_write_inc p i) (\<lambda>(_, p).
         bind_out (update_events p i (EV_READ OR EV_WRITE) EV_NONE) (\<lambda>p. iod_add_event p i e))))) =
    bind_out m (\<lambda>p. iod_add_event p i e)"
proof -
  have v: "valid_iod p e = Inr i" using assms(2) e(1) by (simp add: valid_iod_def the_iod_def)
  have n: "0 \<le> readsd_count (iods p i)" "0 \<le> writesd_count (iods p i)" using assms(1) by (simp_all add: balanced_def)
  consider "ev_type (events p e) = NSE_TYPE_CONNECT" "k = Connects" | "ev_type (events p e) = NSE_TYPE_READ" "k = Reads"
    | "ev_type (events p e) = NSE_TYPE_WRITE" "k = Writes"
    using e(2,3) by (cases "ev_type (events p e)") (auto simp: kind_of_def)
  then show ?thesis
  proof cases
    case 1
    then show ?thesis using inc_both_rec [OF assms(1)] v n
      by (intro exI [of _ "bind_out (socket_count_read_inc p i) (\<lambda>(_, p). bind_out (socket_count_write_inc p i) (\<lambda>(_, p).
            update_events p i (EV_READ OR EV_WRITE) EV_NONE))"])
        (simp add: reads_kind_def writes_kind_def socket_count_read_inc_def socket_count_write_inc_def)
  next
    case 2
    then show ?thesis using inc_read_rec [OF assms(1)] v n
      by (intro exI [of _ "bind_out (socket_count_read_inc p i) (\<lambda>(_, p). update_events p i EV_READ EV_NONE)"])
        (simp add: reads_kind_def writes_kind_def socket_count_read_inc_def)
  next
    case 3
    then show ?thesis using inc_write_rec [OF assms(1)] v n
      by (intro exI [of _ "bind_out (socket_count_write_inc p i) (\<lambda>(_, p). update_events p i EV_WRITE EV_NONE)"])
        (simp add: reads_kind_def writes_kind_def socket_count_write_inc_def)
  qed
qed

context nsock_client begin

lemma done_at_once:
  assumes wf: "pool_wf D 1 (charge p e) p" and det: "detached D p e" and us: "\<And>i. ev_iod (events p e) = Some i \<Longrightarrow> i \<in> set (active_iods p)"
    and f: "ev_iod (f (events p e)) = ev_iod (events p e)" "event_done (f (events p e))"
  defines "q \<equiv> set_ev p e f"
  shows "event_dispatch_and_delete call q e True = Inl Fatal_exit \<or>
    (\<exists>r. event_dispatch_and_delete call q e True = Inr r \<and> pool_wf D 0 (\<lambda>_. 0) r \<and> pins D p r)"
proof -
  have d: "e \<notin> queued p" "e \<notin> in_heap p" "e \<notin> D" "e \<notin> set (free_events p)" "e < ev_brk p" using det by (simp_all add: detached_def)
  have "pool_wf D 1 (charge p e) q" unfolding q_def by (rule fresh_ev [OF wf d(1-3)])
  then have "pool_wf (insert e D) 1 (charge p e) q" by (rule adopt) (use d f(2) in \<open>simp_all add: q_def\<close>)
  moreover have "charge q e = charge p e" by (simp add: charge_def q_def f(1))
  ultimately have w: "pool_wf (insert e D) 1 (charge q e) q" by simp
  have "event_dispatch_and_delete call q e True = Inl Fatal_exit \<or>
    (\<exists>r. event_dispatch_and_delete call q e True = Inr r \<and> pool_wf (insert e D) 0 (\<lambda>_. 0) r \<and> pins (insert e D - {e}) q r \<and>
       (e \<in> insert e D \<longrightarrow> stays e q r) \<and> event_done (events r e))"
    by (rule dispatch_ok [OF w]) (use us f in \<open>simp_all add: q_def\<close>)
  moreover have "pool_wf D 0 (\<lambda>_. 0) r" if "pool_wf (insert e D) 0 (\<lambda>_. 0) r" "stays e q r" for r
    by (rule disown [OF that(1)]) (use that(2) d(1,2) in \<open>auto simp: stays_def queued_def q_def\<close>)
  moreover have "pins D p r" if "pins (insert e D - {e}) q r" for r
  proof (rule pins_trans)
    show "pins D p q" using d(3) by (auto simp: pins_def q_def)
    show "pins D q r" using that d(3) by simp
  qed
  ultimately show ?thesis by blast
qed

lemma add_event_ok:
  assumes new: "newly D p e" and ad: "addable p e"
  shows "nsock_pool_add_event call p e = Inl Fatal_exit \<or>
    (\<exists>q. nsock_pool_add_event call p e = Inr q \<and> pool_wf D 0 (\<lambda>_. 0) q \<and> pins D p q)"
proof -
  define p1 where "p1 = p\<lparr>pool_pending := pool_pending p + 1\<rparr>"
  have f1: "events p1 = events p" "iods p1 = iods p" "queue p1 = queue p" "expirables p1 = expirables p" "timers p1 = timers p"
    "active_iods p1 = active_iods p" "free_events p1 = free_events p" "ev_brk p1 = ev_brk p" "charge p1 e = charge p e"
    by (simp_all add: p1_def timers_def charge_def)
  have wf: "pool_wf D 1 (charge p1 e) p1" unfolding f1
    by (rule same_data_wf [of p _ D 0 "charge p e"])
      (use new in \<open>simp_all add: newly_def p1_def same_data_def same_counts_def\<close>)
  have det: "detached D p1 e" using new by (simp add: newly_def detached_def f1 queued_def)
  have v: "\<not> gh_hnode_is_valid (expirables p1) e" and nd: "\<not> event_done (events p1 e)" and us: "unsent (events p1 e)"
    using new by (simp_all add: newly_def f1)
  have pins1: "pins D p q" if "pins D p1 q" for q
    by (rule pins_trans [OF _ that]) (simp add: pins_def f1)
  show ?thesis
  proof (cases "ev_type (events p e) = NSE_TYPE_READ \<and> (\<forall>i. ev_iod (events p e) = Some i \<longrightarrow> iod_eof (iods p i))")
    case True
    then obtain i where i: "ev_iod (events p e) = Some i" "usable p i" using ad by (auto simp: addable_def split: option.splits)
    let ?f = "\<lambda>v. v\<lparr>ev_status := NSE_STATUS_EOF, event_done := True, ev_eof := True\<rparr>"
    have "nsock_pool_add_event call p e =
        event_dispatch_and_delete call (set_ev (complete p1 e NSE_STATUS_EOF) e (\<lambda>v. v\<lparr>ev_eof := True\<rparr>)) e True"
      using True i(1) by (simp add: nsock_pool_add_event_def p1_def the_iod_def complete_def)
    also have "set_ev (complete p1 e NSE_STATUS_EOF) e (\<lambda>v. v\<lparr>ev_eof := True\<rparr>) = set_ev p1 e ?f" by (simp add: complete_def set_ev_def)
    finally have "nsock_pool_add_event call p e = event_dispatch_and_delete call (set_ev p1 e ?f) e True" .
    moreover have "\<And>j. ev_iod (events p1 e) = Some j \<Longrightarrow> j \<in> set (active_iods p1)" using i by (simp add: f1 usable_def)
    ultimately show ?thesis using done_at_once [OF wf det, of ?f] pins1 by auto
  next
    case False
    define m where "m = (if tv_sec (ev_timeout (events p1 e)) \<noteq> 0
        then bind_out (gh_heap_push (timers p1) e) (\<lambda>h. Inr (p1\<lparr>expirables := h\<rparr>)) else Inr p1)"
    define f where "f = (\<lambda>p :: 'h npool. case ev_type (events p e) of
       NSE_TYPE_TIMER \<Rightarrow> Inr p
     | NSE_TYPE_PCAP_READ \<Rightarrow> Inl Fatal_exit
     | NSE_TYPE_READ \<Rightarrow>
         bind_out (valid_iod p e) (\<lambda>i. bind_out (socket_count_read_inc p i) (\<lambda>(_, p).
         bind_out (update_events p i EV_READ EV_NONE) (\<lambda>p. iod_add_event p i e)))
     | NSE_TYPE_WRITE \<Rightarrow>
         bind_out (valid_iod p e) (\<lambda>i. bind_out (socket_count_write_inc p i) (\<lambda>(_, p).
         bind_out (update_events p i EV_WRITE EV_NONE) (\<lambda>p. iod_add_event p i e)))
     | _ \<Rightarrow>
         bind_out (valid_iod p e) (\<lambda>i. bind_out (socket_count_read_inc p i) (\<lambda>(_, p).
         bind_out (socket_count_write_inc p i) (\<lambda>(_, p).
         bind_out (update_events p i (EV_READ OR EV_WRITE) EV_NONE) (\<lambda>p. iod_add_event p i e)))))"
    have nr: "(if ev_type (events p1 e) = NSE_TYPE_READ
         then bind_out (the_iod p1 e) (\<lambda>i.
                Inr (if iod_eof (iods p1 i)
                     then set_ev (complete p1 e NSE_STATUS_EOF) e (\<lambda>v. v\<lparr>ev_eof := True\<rparr>) else p1))
         else Inr p1) = Inr p1"
      using False by (auto simp: f1 the_iod_def split: option.split)
    have eq: "nsock_pool_add_event call p e = bind_out m f"
      unfolding nsock_pool_add_event_def Let_def p1_def [symmetric] nr bind_out_simps if_not_P [OF nd] m_def f_def ..
    have hw: "heap_wf (pool_lt p1) (timers p1)" using wf by (simp add: pool_wf_def timers_ok_def)
    from push_step [OF hw v] consider "m = Inl Fatal_exit"
      | h where "m = Inr (p1\<lparr>expirables := h\<rparr>)" "heap_wf (pool_lt p1) (timers (p1\<lparr>expirables := h\<rparr>))"
          "heap_nodes h = (if tv_sec (ev_timeout (events p1 e)) \<noteq> 0 then insert e (in_heap p1) else in_heap p1)"
      unfolding m_def by blast
    then show ?thesis
    proof cases
      case 1
      then show ?thesis by (simp add: eq)
    next
      case (2 h)
      show ?thesis
      proof (cases "ev_iod (events p e)")
        case None
        then have t: "ev_type (events p1 e) = NSE_TYPE_TIMER" "tv_sec (ev_timeout (events p1 e)) \<noteq> 0"
          using ad by (simp_all add: addable_def f1)
        have "ev_iod (events p1 e) = None" using None by (simp add: f1)
        note tl = timer_linked_wf [OF wf det nd this t 2(2)]
        have "heap_nodes h = insert e (in_heap p1)" using 2(3) t(2) by simp
        then show ?thesis using tl pins1 t(1) 2(1) by (auto simp: eq f_def)
      next
        case (Some i)
        then obtain k where k: "kind_of (ev_type (events p1 e)) = Some k" "ev_type (events p1 e) \<noteq> NSE_TYPE_CONNECT_SSL"
          and u: "usable p1 i" using ad by (auto simp: addable_def usable_def f1)
        have i: "i \<in> set (active_iods p1)" "0 \<le> sd (iods p1 i)" "ev_iod (events p1 e) = Some i"
          using u Some by (simp_all add: usable_def f1)
        let ?p = "p1\<lparr>expirables := h\<rparr>"
        have "balanced (iods p1 i)" by (rule balanced_iod [OF wf i(1)])
        then have "\<exists>m'. recounted ?p i (readsd_count (iods ?p i) + (if reads_kind k then 1 else 0))
            (writesd_count (iods ?p i) + (if writes_kind k then 1 else 0)) m' \<and> f ?p = bind_out m' (\<lambda>p. iod_add_event p i e)"
          unfolding f_def by (intro counted_kind) (use i k in simp_all)
        then obtain m' where m': "recounted ?p i (readsd_count (iods p1 i) + (if reads_kind k then 1 else 0))
            (writesd_count (iods p1 i) + (if writes_kind k then 1 else 0)) m'" "f ?p = bind_out m' (\<lambda>p. iod_add_event p i e)"
          by auto
        from add_linked [OF wf det i(3) k(1) i(1) 2(2,3) m'(1)] show ?thesis
        proof (elim disjE exE conjE)
          fix l ev q assume q: "bind_out m' (\<lambda>p. iod_add_event p i e) = Inr q" "linked p1 e i k l ev q"
          from linked_wf [OF wf det nd us i(3) k u q(2)] pins1 show ?thesis using q(1) m'(2) 2(1) by (simp add: eq)
        qed (use m'(2) 2(1) in \<open>simp add: eq\<close>)
      qed
    qed
  qed
qed

end

end
