(* ===== verification/Nsock_Cancel.thy ===== *)
theory Nsock_Cancel
  imports Nsock_Request
begin

text \<open>
  Cancelling events and deleting iods: what is taken away, what stays, and that the loops end.
\<close>

section \<open>Cancelling an event\<close>

lemma remove_charge: "ev_iod (events q e) = ev_iod (events p e) \<Longrightarrow> charge q e = charge p e"
  by (simp add: charge_def)

text \<open>The part of \<open>nevent_delete\<close> before the dispatch.\<close>

lemma cancel_prepared:
  assumes wf: "pool_wf D 0 (\<lambda>_. 0) p" and e: "e \<in> queued p \<union> in_heap p" "\<not> event_done (events p e)"
  shows "handle_result p e NSE_STATUS_CANCELLED = Inl Fatal_exit \<or>
    (\<exists>r q. handle_result p e NSE_STATUS_CANCELLED = Inr r \<and> event_done (events r e) \<and> nevent_unref r e = Inr q \<and>
       pool_wf D 1 (charge q e) q \<and> pins D p q \<and> event_done (events q e) \<and> ev_status (events q e) = NSE_STATUS_CANCELLED \<and>
       e \<in> set (free_events q) \<and> ev_iod (events q e) = ev_iod (events p e) \<and> (\<forall>k. queue q k = remove1 e (queue p k)) \<and>
       (\<forall>a. a \<noteq> e \<longrightarrow> events q a = events p a) \<and> (\<forall>j. sd (iods q j) = sd (iods p j) \<and> state (iods q j) = state (iods p j)) \<and>
       active_iods q = active_iods p \<and> calls q = calls p \<and> in_heap q = in_heap p - {e} \<and> free_events q = free_events p @ [e])"
proof -
  have eD: "e \<notin> D" using wf e(2) by (auto simp: pool_wf_def done_ok_def)
  have "\<exists>v. ready D p e v (handle_result p e NSE_STATUS_CANCELLED) \<and> event_done v \<and> ev_status v = NSE_STATUS_CANCELLED"
    using wf e(1)
  proof (cases rule: queue_or_timer)
    case (1 k i)
    have "handling NSE_STATUS_CANCELLED" by (simp add: handling_def)
    from queue_handled [OF wf 1(1) e(2) 1(2) this] obtain v where
      v: "handled D 0 (\<lambda>_. 0) i p e v (handle_result p e NSE_STATUS_CANCELLED)" "forced NSE_STATUS_CANCELLED v" by blast
    then show ?thesis using handled_ready [OF v(1) 1(2)] by (auto simp: forced_def)
  next
    case 2
    then show ?thesis using timer_ready [OF wf 2(1) e(2) 2(2), of NSE_STATUS_CANCELLED]
      by (intro exI [of _ "events (complete p e NSE_STATUS_CANCELLED) e"])
        (simp add: handle_result_def handle_timer_result_def complete_def)
  qed
  then consider "handle_result p e NSE_STATUS_CANCELLED = Inl Fatal_exit"
    | r where "handle_result p e NSE_STATUS_CANCELLED = Inr r" "touched p r e" "event_done (events r e)"
        "ev_status (events r e) = NSE_STATUS_CANCELLED" "pool_wf (insert e D) 1 (charge p e) r"
    by (auto simp: ready_def)
  then show ?thesis
  proof cases
    case (2 r)
    note t = touched_fields [OF 2(2)]
    have "e \<in> queued r \<union> in_heap r" using e(1) t(2,10) by simp
    from unref_ok [OF 2(5) eD this] obtain q where
      q: "nevent_unref r e = Inr q" "pool_wf D 1 (charge p e) q" "pins D r q" "free_events q = free_events r @ [e]"
        "events q = (events r)(e := no_timeout (events r e))" "\<forall>k. queue q k = remove1 e (queue r k)"
        "sd \<circ> iods q = sd \<circ> iods r" "state \<circ> iods q = state \<circ> iods r" "active_iods q = active_iods r" "calls q = calls r"
        "in_heap q = in_heap r - {e}" by blast
    have i: "ev_iod (events q e) = ev_iod (events p e)" using q(5) t(12) [of e] by simp
    have "charge q e = charge p e" by (rule remove_charge [OF i])
    moreover have "pins D p q" by (rule pins_trans [OF touched_pins [OF 2(2) eD] q(3)])
    moreover have "\<forall>j. sd (iods q j) = sd (iods p j) \<and> state (iods q j) = state (iods p j)"
      using q(7,8) t(16,17) by (metis comp_apply)
    moreover have "\<forall>a. a \<noteq> e \<longrightarrow> events q a = events p a" using q(5) t(14) by simp
    ultimately show ?thesis
      using 2(1,3,4) q(1,2,4-6,9-11) i t(1,2,3,5,19) by (intro disjI2 exI [of _ r] exI [of _ q]) simp
  qed simp
qed

context nsock_client begin

lemma nevent_delete_ok:
  assumes wf: "pool_wf D 0 (\<lambda>_. 0) p" and e: "e \<in> queued p \<union> in_heap p"
  shows "nevent_delete call p e notify = Inl Fatal_exit \<or>
    (\<exists>r q. nevent_delete call p e notify = Inr (r, q) \<and> pool_wf D 0 (\<lambda>_. 0) q \<and> pins D p q)"
proof (cases "event_done (events p e)")
  case True
  then show ?thesis using wf by (simp add: nevent_delete_def)
next
  case False
  have eD: "e \<notin> D" using wf False by (auto simp: pool_wf_def done_ok_def)
  from cancel_prepared [OF wf e False] show ?thesis
  proof (elim disjE exE conjE)
    fix r q
    assume q: "handle_result p e NSE_STATUS_CANCELLED = Inr r" "event_done (events r e)" "nevent_unref r e = Inr q"
      "pool_wf D 1 (charge q e) q" "pins D p q" "event_done (events q e)" "ev_status (events q e) = NSE_STATUS_CANCELLED"
      "e \<in> set (free_events q)" "ev_iod (events q e) = ev_iod (events p e)" "active_iods q = active_iods p"
    have "i \<in> set (active_iods q)" if "ev_iod (events q e) = Some i" for i
      using wf e
    proof (cases rule: queue_or_timer)
      case (1 k j)
      then show ?thesis using that q(9,10) by simp
    next
      case 2
      then show ?thesis using that q(9) by simp
    qed
    from dispatch_ok [OF q(4) this q(6), of notify] q(7,8) have
      "event_dispatch_and_delete call q e notify = Inl Fatal_exit \<or>
       (\<exists>s. event_dispatch_and_delete call q e notify = Inr s \<and> pool_wf D 0 (\<lambda>_. 0) s \<and> pins (D - {e}) q s)" by blast
    moreover have "D - {e} = D" using eD by simp
    ultimately show ?thesis using False q(1-3) pins_trans [OF q(5)] by (auto simp: nevent_delete_def)
  qed (use False in \<open>simp add: nevent_delete_def\<close>)
qed

end

text \<open>A cancellation that notifies nobody takes exactly the event away.\<close>

definition taken :: "nat \<Rightarrow> 'h npool \<Rightarrow> 'h npool \<Rightarrow> bool" where
  "taken e p q \<longleftrightarrow>
     (\<forall>k. queue q k = remove1 e (queue p k)) \<and> in_heap q = in_heap p - {e} \<and> (\<forall>a. a \<noteq> e \<longrightarrow> events q a = events p a) \<and>
     (\<forall>j. sd (iods q j) = sd (iods p j) \<and> state (iods q j) = state (iods p j)) \<and> active_iods q = active_iods p \<and>
     calls q = calls p \<and> free_events q = free_events p @ [e]"

lemma silent_delete:
  assumes wf: "pool_wf D 0 (\<lambda>_. 0) p" and e: "e \<in> queued p \<union> in_heap p" "\<not> event_done (events p e)"
  shows "nevent_delete call p e False = Inl Fatal_exit \<and> handle_result p e NSE_STATUS_CANCELLED = Inl Fatal_exit \<or>
    (\<exists>q. nevent_delete call p e False = Inr (1, q) \<and> pool_wf D 0 (\<lambda>_. 0) q \<and> pins D p q \<and> taken e p q)"
proof -
  have eD: "e \<notin> D" using wf e(2) by (auto simp: pool_wf_def done_ok_def)
  from cancel_prepared [OF wf e] show ?thesis
  proof (elim disjE exE conjE)
    fix r q
    assume q: "handle_result p e NSE_STATUS_CANCELLED = Inr r" "event_done (events r e)" "nevent_unref r e = Inr q"
      "pool_wf D 1 (charge q e) q" "pins D p q" "event_done (events q e)" "e \<in> set (free_events q)"
      "ev_iod (events q e) = ev_iod (events p e)" "active_iods q = active_iods p"
      "\<forall>k. queue q k = remove1 e (queue p k)" "\<forall>a. a \<noteq> e \<longrightarrow> events q a = events p a"
      "\<forall>j. sd (iods q j) = sd (iods p j) \<and> state (iods q j) = state (iods p j)" "calls q = calls p"
      "in_heap q = in_heap p - {e}" "free_events q = free_events p @ [e]"
    define q1 where "q1 = q\<lparr>pool_pending := pool_pending q - 1\<rparr>"
    define q2 where "q2 = (case ev_iod (events q e) of None \<Rightarrow> q1 | Some i \<Rightarrow> set_iod q1 i (\<lambda>d. d\<lparr>iod_pending := iod_pending d - 1\<rparr>))"
    have act: "i \<in> set (active_iods q)" if "ev_iod (events q e) = Some i" for i
      using wf e(1)
    proof (cases rule: queue_or_timer)
      case (1 k j)
      then show ?thesis using that q(8,9) by simp
    next
      case 2
      then show ?thesis using that q(8) by simp
    qed
    have n: "0 \<le> pool_pending q - 1" using q(4) by (simp add: pool_wf_def counts_ok_def)
    have ni: "0 \<le> iod_pending (iods q i) - 1" if "ev_iod (events q e) = Some i" for i
      using q(4) act [OF that] that by (auto simp: pool_wf_def counts_ok_def charge_def)
    have m: "event_dispatch_and_delete call q e False = Inr (event_delete q2 e)"
      using n ni q(6) unfolding q2_def q1_def by (cases "ev_iod (events q e)") (simp_all add: event_dispatch_and_delete_def Let_def)
    have f2: "events q2 = events q" "queue q2 = queue q" "expirables q2 = expirables q" "active_iods q2 = active_iods q"
      "free_events q2 = free_events q" "calls q2 = calls q" "sd (iods q2 j) = sd (iods q j)" "state (iods q2 j) = state (iods q j)" for j
      by (auto simp: q2_def q1_def split: option.split)
    have "same_data q q2" by (auto simp: q2_def q1_def same_data_def same_counts_def split: option.split)
    then have "pool_wf D 0 (\<lambda>_. 0) q2"
      by (rule same_data_wf [OF _ q(4)]) (auto simp: q2_def q1_def charge_def split: option.split)
    then have w: "pool_wf D 0 (\<lambda>_. 0) (event_delete q2 e)" by (rule event_delete_wf) (simp add: f2 q(7))
    have "pins D q q2" by (auto simp: pins_def f2)
    moreover have "D - {e} = D" using eD by simp
    ultimately have "pins D p (event_delete q2 e)"
      using pins_trans [OF q(5)] pins_trans [of D q q2] event_delete_pins(1) [of D e q2] by metis
    moreover have "taken e p (event_delete q2 e)" using q(9-15) unfolding taken_def by (simp add: event_delete_def f2)
    ultimately show ?thesis using w m q(1-3) e(2) by (simp add: nevent_delete_def)
  qed (use e(2) in \<open>simp add: nevent_delete_def\<close>)
qed

section \<open>Deleting an iod\<close>

text \<open>The engine gives up only on descriptors that are too large for the sets of select.\<close>

lemma update_too_large:
  assumes "update_events p i a b = Inl Fatal_exit"
  shows "sd (iods p i) \<ge> FD_SETSIZE"
  using assms
  by (auto simp: update_events_def Let_def select_iod_register_def select_iod_modify_def fd_update_def checked_fd_set_def
      checked_fd_clr_def bind_out_def split: if_splits sum.splits)

lemma dec_too_large:
  "bind_out (socket_count_read_dec p i) (\<lambda>(ev, p). update_events p i EV_NONE ev) = Inl Fatal_exit \<Longrightarrow> sd (iods p i) \<ge> FD_SETSIZE"
  "bind_out (socket_count_write_dec p i) (\<lambda>(ev, p). update_events p i EV_NONE ev) = Inl Fatal_exit \<Longrightarrow> sd (iods p i) \<ge> FD_SETSIZE"
  "bind_out (socket_count_read_dec p i) (\<lambda>(ev_r, p). bind_out (socket_count_write_dec p i) (\<lambda>(ev_w, p).
     update_events p i EV_NONE (ev_r OR ev_w))) = Inl Fatal_exit \<Longrightarrow> sd (iods p i) \<ge> FD_SETSIZE"
  by (auto simp: socket_count_read_dec_def socket_count_write_dec_def bind_out_def split: if_splits dest!: update_too_large)

lemma cancel_too_large:
  assumes wf: "pool_wf D x xi p" and e: "e \<in> set (queue p k)" "ev_iod (events p e) = Some i"
    and f: "handle_result p e NSE_STATUS_CANCELLED = Inl Fatal_exit"
  shows "sd (iods p i) \<ge> FD_SETSIZE"
proof (cases k)
  case Connects
  then show ?thesis using f e queue_types(1) [OF wf e(1)] dec_too_large(3) [of "complete p e NSE_STATUS_CANCELLED" i]
    by (auto simp: handle_result_def handle_connect_result_def split: if_splits)
next
  case Reads
  then show ?thesis using f e queue_types(2) [OF wf e(1)] dec_too_large(1) [of "complete p e NSE_STATUS_CANCELLED" i]
    by (auto simp: handle_result_def handle_read_result_def the_iod_def split: if_splits)
next
  case Writes
  then show ?thesis using f e queue_types(3) [OF wf e(1)] dec_too_large(2) [of "complete p e NSE_STATUS_CANCELLED" i]
    by (auto simp: handle_result_def handle_write_result_def the_iod_def split: if_splits)
qed

text \<open>Nothing is taken from the free events and nothing comes into the heap.\<close>

definition shrunk :: "'h npool \<Rightarrow> 'h npool \<Rightarrow> bool" where
  "shrunk p q \<longleftrightarrow> set (free_events p) \<subseteq> set (free_events q) \<and> in_heap q \<subseteq> in_heap p"

lemma shrunk_refl [simp]: "shrunk p p"
  by (simp add: shrunk_def)

lemma shrunk_trans: "shrunk p q \<Longrightarrow> shrunk q r \<Longrightarrow> shrunk p r"
  by (auto simp: shrunk_def)

text \<open>Among the events of a list, those of the iod that are not done are taken away.\<close>

definition cleared :: "nat \<Rightarrow> evkind set \<Rightarrow> 'h npool \<Rightarrow> 'h npool \<Rightarrow> bool" where
  "cleared i ks p q \<longleftrightarrow>
     (\<forall>k. queue q k = (if k \<in> ks then filter (\<lambda>e. ev_iod (events p e) \<noteq> Some i \<or> event_done (events p e)) (queue p k) else queue p k)) \<and>
     (\<forall>k. \<forall>e \<in> set (queue q k). events q e = events p e) \<and>
     (\<forall>j. sd (iods q j) = sd (iods p j) \<and> state (iods q j) = state (iods p j)) \<and> active_iods q = active_iods p \<and>
     calls q = calls p \<and> shrunk p q"

lemma clearedD: "cleared i ks p q \<Longrightarrow> e \<in> set (queue q k) \<Longrightarrow> events q e = events p e"
  unfolding cleared_def by blast

lemma next_in_append: "e \<notin> set l \<Longrightarrow> next_in (l @ e # s) e = (if s = [] then None else Some (hd s))"
  by (induction l) (auto simp: next_in_Cons neq_Nil_conv)

text \<open>
  The loop over one list: \<open>l\<close> is what it has passed, \<open>s\<close> the events of the iod that are left and \<open>r\<close> the rest.
\<close>

definition head_of :: "'a list \<Rightarrow> 'a option" where
  "head_of l = (if l = [] then None else Some (hd l))"

lemma delete_loop_clears:
  assumes "pool_wf D 0 (\<lambda>_. 0) p" and "queue p k = l @ s @ r" and "\<forall>e \<in> set s. ev_iod (events p e) = Some i"
    and "r = [] \<or> ev_iod (events p (hd r)) \<noteq> Some i"
  shows "\<exists>m. delete_loop call i False p (head_of (s @ r)) = Some m \<and>
    (m = Inl Fatal_exit \<and> sd (iods p i) \<ge> FD_SETSIZE \<or>
     (\<exists>q. m = Inr q \<and> pool_wf D 0 (\<lambda>_. 0) q \<and> pins D p q \<and>
        queue q = (queue p)(k := l @ filter (\<lambda>e. event_done (events p e)) s @ r) \<and>
        (\<forall>a. a \<in> set s \<and> \<not> event_done (events p a) \<or> events q a = events p a) \<and>
        (\<forall>j. sd (iods q j) = sd (iods p j) \<and> state (iods q j) = state (iods p j)) \<and> active_iods q = active_iods p \<and>
        calls q = calls p \<and> shrunk p q))"
  using assms
proof (induction s arbitrary: p l)
  case Nil
  have "delete_loop call i False p (head_of r) = Some (Inr p)"
    using Nil.prems(4) by (subst delete_loop.simps) (auto simp: head_of_def)
  moreover have "queue p = (queue p)(k := l @ r)" using Nil.prems(2) by (auto simp: fun_eq_iff)
  ultimately show ?case using Nil.prems(1) by simp
next
  case (Cons e s)
  have e: "e \<in> set (queue p k)" "ev_iod (events p e) = Some i" using Cons.prems(2,3) by auto
  have lo: "lists_ok p" using Cons.prems(1) by (simp add: pool_wf_def)
  then have dk: "distinct (queue p k)" by (simp add: lists_ok_def)
  then have el: "e \<notin> set l" "e \<notin> set (s @ r)" using Cons.prems(2) by auto
  have nx: "gh_lnode_next p e = head_of (s @ r)"
    using list_of_queue [OF lo e(1)] Cons.prems(2) el(1) next_in_append [of e l "s @ r"]
    by (auto simp: gh_lnode_next_def head_of_def)
  have step: "delete_loop call i False p (head_of ((e # s) @ r)) = (case nevent_delete call p e False of
      Inl x \<Rightarrow> Some (Inl x) | Inr (_, p) \<Rightarrow> delete_loop call i False p (head_of (s @ r)))"
  proof -
    have h: "head_of ((e # s) @ r) = Some e" by (simp add: head_of_def)
    show ?thesis unfolding h by (subst delete_loop.simps) (simp add: e(2) nx)
  qed
  show ?case
  proof (cases "event_done (events p e)")
    case True
    have "queue p k = (l @ [e]) @ s @ r" using Cons.prems(2) by simp
    moreover have "\<forall>e \<in> set s. ev_iod (events p e) = Some i" using Cons.prems(3) by simp
    ultimately obtain m where
      "delete_loop call i False p (head_of (s @ r)) = Some m"
      and mm: "m = Inl Fatal_exit \<and> sd (iods p i) \<ge> FD_SETSIZE \<or>
     (\<exists>q. m = Inr q \<and> pool_wf D 0 (\<lambda>_. 0) q \<and> pins D p q \<and>
        queue q = (queue p)(k := (l @ [e]) @ filter (\<lambda>e. event_done (events p e)) s @ r) \<and>
        (\<forall>a. a \<in> set s \<and> \<not> event_done (events p a) \<or> events q a = events p a) \<and>
        (\<forall>j. sd (iods q j) = sd (iods p j) \<and> state (iods q j) = state (iods p j)) \<and> active_iods q = active_iods p \<and>
        calls q = calls p \<and> shrunk p q)"
      using Cons.IH [OF Cons.prems(1) _ _ Cons.prems(4), of "l @ [e]"] by blast
    moreover have "nevent_delete call p e False = Inr (0, p)" using True by (simp add: nevent_delete_def)
    ultimately have m: "delete_loop call i False p (head_of ((e # s) @ r)) = Some m" unfolding step by simp
    from mm show ?thesis
    proof (elim disjE exE conjE)
      fix q assume q: "m = Inr q" "pool_wf D 0 (\<lambda>_. 0) q" "pins D p q"
        "queue q = (queue p)(k := (l @ [e]) @ filter (\<lambda>e. event_done (events p e)) s @ r)"
        "\<forall>a. a \<in> set s \<and> \<not> event_done (events p a) \<or> events q a = events p a"
        "\<forall>j. sd (iods q j) = sd (iods p j) \<and> state (iods q j) = state (iods p j)" "active_iods q = active_iods p"
        "calls q = calls p" "shrunk p q"
      have "queue q = (queue p)(k := l @ filter (\<lambda>e. event_done (events p e)) (e # s) @ r)" using q(4) True by simp
      moreover have "\<forall>a. a \<in> set (e # s) \<and> \<not> event_done (events p a) \<or> events q a = events p a" using q(5) by auto
      ultimately show ?thesis using m q(1-3,6-9) by blast
    qed (use m in blast)
  next
    case False
    have eq: "e \<in> queued p \<union> in_heap p" using e(1) by (simp add: in_queue)
    from silent_delete [OF Cons.prems(1) eq False, of call] show ?thesis
    proof (elim disjE exE conjE)
      assume "nevent_delete call p e False = Inl Fatal_exit" "handle_result p e NSE_STATUS_CANCELLED = Inl Fatal_exit"
      then show ?thesis unfolding step using cancel_too_large [OF Cons.prems(1) e] by simp
    next
      fix q assume q: "nevent_delete call p e False = Inr (1, q)" "pool_wf D 0 (\<lambda>_. 0) q" "pins D p q" "taken e p q"
      have t: "queue q k' = remove1 e (queue p k')" "a \<noteq> e \<Longrightarrow> events q a = events p a" "sd (iods q j) = sd (iods p j)"
        "state (iods q j) = state (iods p j)" "active_iods q = active_iods p" "calls q = calls p"
        "shrunk p q" for a j k'
        using q(4) by (auto simp: taken_def shrunk_def)
      have qk: "queue q k = l @ s @ r" using Cons.prems(2) el by (simp add: t(1) remove1_append)
      have other: "queue q k' = queue p k'" if "k' \<noteq> k" for k'
      proof -
        have "e \<notin> set (queue p k')" using lo e(1) that unfolding lists_ok_def by (metis option.inject)
        then show ?thesis by (simp add: t(1) remove1_idem)
      qed
      have ev: "events q a = events p a" if "a \<in> set (s @ r)" for a using that el(2) t(2) by metis
      have "\<forall>a \<in> set s. ev_iod (events q a) = Some i" using ev Cons.prems(3) by simp
      moreover have "r = [] \<or> ev_iod (events q (hd r)) \<noteq> Some i" using ev Cons.prems(4) by (cases r) auto
      ultimately obtain m where m: "delete_loop call i False q (head_of (s @ r)) = Some m"
        "m = Inl Fatal_exit \<and> sd (iods q i) \<ge> FD_SETSIZE \<or>
     (\<exists>s'. m = Inr s' \<and> pool_wf D 0 (\<lambda>_. 0) s' \<and> pins D q s' \<and>
        queue s' = (queue q)(k := l @ filter (\<lambda>e. event_done (events q e)) s @ r) \<and>
        (\<forall>a. a \<in> set s \<and> \<not> event_done (events q a) \<or> events s' a = events q a) \<and>
        (\<forall>j. sd (iods s' j) = sd (iods q j) \<and> state (iods s' j) = state (iods q j)) \<and> active_iods s' = active_iods q \<and>
        calls s' = calls q \<and> shrunk q s')" using Cons.IH [OF q(2) qk] by blast
      have fs: "filter (\<lambda>e. event_done (events q e)) s = filter (\<lambda>e. event_done (events p e)) (e # s)"
        using False ev by (simp cong: filter_cong)
      have qq: "(queue q)(k := x) = (queue p)(k := x)" for x using other by (auto simp: fun_eq_iff)
      from m(2) show ?thesis
      proof (elim disjE exE conjE)
        assume "m = Inl Fatal_exit" "sd (iods q i) \<ge> FD_SETSIZE"
        then show ?thesis unfolding step using q(1) m(1) t(3) by simp
      next
        fix z assume z: "m = Inr z" "pool_wf D 0 (\<lambda>_. 0) z" "pins D q z"
          "queue z = (queue q)(k := l @ filter (\<lambda>e. event_done (events q e)) s @ r)"
          "\<forall>a. a \<in> set s \<and> \<not> event_done (events q a) \<or> events z a = events q a"
          "\<forall>j. sd (iods z j) = sd (iods q j) \<and> state (iods z j) = state (iods q j)" "active_iods z = active_iods q"
          "calls z = calls q" "shrunk q z"
        have "a \<in> set (e # s) \<and> \<not> event_done (events p a) \<or> events z a = events p a" for a
        proof (cases "a = e")
          case True
          then show ?thesis using \<open>\<not> event_done (events p e)\<close> by simp
        next
          case ne: False
          then show ?thesis using z(5) [THEN spec, of a] t(2) [OF ne] by auto
        qed
        moreover have "queue z = (queue p)(k := l @ filter (\<lambda>e. event_done (events p e)) (e # s) @ r)"
          using z(4) by (simp only: fs qq)
        ultimately show ?thesis unfolding step using q(1) m(1) z(1,2,6-9) t(1-6) pins_trans [OF q(3) z(3)] shrunk_trans [OF t(7) z(9)] by auto
      qed
    qed
  qed
qed

lemma find_head: "find P l = head_of (dropWhile (\<lambda>x. \<not> P x) l)"
  by (induction l) (auto simp: head_of_def)

lemma grouped_dropWhile: "grouped f l \<Longrightarrow> grouped f (dropWhile P l)"
  by (induction l) (auto simp: grouped_Cons)

lemma grouped_rest:
  assumes "grouped f l" and "l \<noteq> [] \<Longrightarrow> f (hd l) = c" and "x \<in> set (dropWhile (\<lambda>x. f x = c) l)"
  shows "f x \<noteq> c"
  using assms
proof (induction l)
  case (Cons y l)
  then have y: "f y = c" by simp
  have l: "l = [] \<or> f (hd l) = c \<or> c \<notin> f ` set l" and g: "grouped f l" using Cons.prems(1) y by (auto simp: grouped_Cons)
  have x: "x \<in> set (dropWhile (\<lambda>x. f x = c) l)" using Cons.prems(3) y by simp
  then have "l \<noteq> []" "x \<in> set l" by (auto dest: set_dropWhileD)
  with l show ?case using Cons.IH [OF g _ x] by (metis image_eqI)
qed simp

lemma list_clears:
  assumes wf: "pool_wf D 0 (\<lambda>_. 0) p" and i: "i \<in> set (active_iods p)"
  shows "\<exists>m. delete_loop call i False p (first_ev (iods p i) k) = Some m \<and>
    (m = Inl Fatal_exit \<and> sd (iods p i) \<ge> FD_SETSIZE \<or>
     (\<exists>q. m = Inr q \<and> pool_wf D 0 (\<lambda>_. 0) q \<and> pins D p q \<and> cleared i {k} p q))"
proof -
  let ?P = "\<lambda>e. ev_iod (events p e) = Some i"
  define l where "l = takeWhile (\<lambda>e. \<not> ?P e) (queue p k)"
  define t where "t = dropWhile (\<lambda>e. \<not> ?P e) (queue p k)"
  define s where "s = takeWhile ?P t"
  define r where "r = dropWhile ?P t"
  have qk: "queue p k = l @ s @ r" by (simp add: l_def s_def r_def t_def)
  have "grouped (\<lambda>e. ev_iod (events p e)) t" unfolding t_def
    by (rule grouped_dropWhile) (use wf in \<open>simp add: pool_wf_def firsts_ok_def\<close>)
  moreover have "?P (hd t)" if "t \<noteq> []"
    using hd_dropWhile [of "\<lambda>e. \<not> ?P e" "queue p k"] that unfolding t_def by blast
  ultimately have rn: "\<not> ?P e" if "e \<in> set r" for e
    by (rule grouped_rest [where l = t]) (use that in \<open>unfold r_def\<close>)
  have sP: "\<forall>e \<in> set s. ?P e" unfolding s_def by (auto dest: set_takeWhileD)
  have lP: "\<forall>e \<in> set l. \<not> ?P e" unfolding l_def by (auto dest: set_takeWhileD)
  have "r = [] \<or> \<not> ?P (hd r)" using rn by (cases r) auto
  moreover have "first_ev (iods p i) k = head_of (s @ r)"
    using wf i by (simp add: pool_wf_def firsts_ok_def find_head s_def r_def t_def)
  ultimately obtain m where m: "delete_loop call i False p (first_ev (iods p i) k) = Some m"
    "m = Inl Fatal_exit \<and> sd (iods p i) \<ge> FD_SETSIZE \<or>
     (\<exists>q. m = Inr q \<and> pool_wf D 0 (\<lambda>_. 0) q \<and> pins D p q \<and>
        queue q = (queue p)(k := l @ filter (\<lambda>e. event_done (events p e)) s @ r) \<and>
        (\<forall>a. a \<in> set s \<and> \<not> event_done (events p a) \<or> events q a = events p a) \<and>
        (\<forall>j. sd (iods q j) = sd (iods p j) \<and> state (iods q j) = state (iods p j)) \<and> active_iods q = active_iods p \<and>
        calls q = calls p \<and> shrunk p q)"
    using delete_loop_clears [OF wf qk sP, of call] by auto
  have fl: "filter (\<lambda>e. ev_iod (events p e) \<noteq> Some i \<or> event_done (events p e)) (queue p k) =
      l @ filter (\<lambda>e. event_done (events p e)) s @ r"
  proof -
    let ?Q = "\<lambda>e. ev_iod (events p e) \<noteq> Some i \<or> event_done (events p e)"
    have "filter ?Q r = r" by (rule filter_True) (use rn in blast)
    moreover have "filter ?Q l = l" by (rule filter_True) (use lP in blast)
    moreover have "filter ?Q s = filter (\<lambda>e. event_done (events p e)) s"
      by (rule filter_cong [OF refl]) (use sP in blast)
    ultimately show ?thesis unfolding qk by (simp only: filter_append)
  qed
  from m(2) show ?thesis
  proof (elim disjE exE conjE)
    fix q assume q: "m = Inr q" "pool_wf D 0 (\<lambda>_. 0) q" "pins D p q"
      "queue q = (queue p)(k := l @ filter (\<lambda>e. event_done (events p e)) s @ r)"
      "\<forall>a. a \<in> set s \<and> \<not> event_done (events p a) \<or> events q a = events p a"
      "\<forall>j. sd (iods q j) = sd (iods p j) \<and> state (iods q j) = state (iods p j)" "active_iods q = active_iods p"
      "calls q = calls p" "shrunk p q"
    have lo: "lists_ok p" using wf by (simp add: pool_wf_def)
    have "events q a = events p a" if a: "a \<in> set (queue q k')" for a k'
    proof (rule ccontr)
      assume "events q a \<noteq> events p a"
      then have as: "a \<in> set s" "\<not> event_done (events p a)" using q(5) by auto
      then have "a \<in> set (queue p k)" by (simp add: qk)
      then have k: "k' = k" using a q(4) lo unfolding lists_ok_def by (metis fun_upd_other option.inject)
      have "distinct (queue p k)" using lo by (simp add: lists_ok_def)
      then show False using as a unfolding q(4) qk k by auto
    qed
    then have "cleared i {k} p q" unfolding cleared_def using q(4,6-9) fl by simp
    then show ?thesis using m(1) q(1-3) by blast
  qed (use m(1) in blast)
qed

lemma cleared_refl: "cleared i {} p p"
  by (simp add: cleared_def)

lemma cleared_trans:
  assumes pq: "cleared i A p q" and qr: "cleared i B q r"
  shows "cleared i (A \<union> B) p r"
proof -
  have "queue r k = (if k \<in> A \<union> B then filter (\<lambda>e. ev_iod (events p e) \<noteq> Some i \<or> event_done (events p e)) (queue p k) else queue p k)" for k
  proof (cases "k \<in> B")
    case True
    have "filter (\<lambda>e. ev_iod (events q e) \<noteq> Some i \<or> event_done (events q e)) (queue q k) =
        filter (\<lambda>e. ev_iod (events p e) \<noteq> Some i \<or> event_done (events p e)) (queue q k)"
      using pq by (intro filter_cong) (auto simp: cleared_def)
    then show ?thesis using True pq qr unfolding cleared_def by (simp cong: filter_cong)
  qed (use pq qr in \<open>simp add: cleared_def\<close>)
  moreover have "events r e = events p e" if "e \<in> set (queue r k)" for e k
  proof -
    have "e \<in> set (queue q k)" using qr that unfolding cleared_def by (auto split: if_splits)
    then show ?thesis using pq qr that unfolding cleared_def by metis
  qed
  moreover have "shrunk p r" using pq qr shrunk_trans unfolding cleared_def by blast
  ultimately show ?thesis using pq qr unfolding cleared_def by auto
qed

lemma cleared_first:
  assumes "pool_wf D x xi p" and "pool_wf D' y yi q" and "i \<in> set (active_iods p)" and c: "cleared i ks p q" and "k \<notin> ks"
  shows "first_ev (iods q i) k = first_ev (iods p i) k"
proof -
  have "queue q k = queue p k" "active_iods q = active_iods p" using c assms(5) by (simp_all add: cleared_def)
  moreover have "events q e = events p e" if "e \<in> set (queue q k)" for e using clearedD [OF c that] .
  ultimately have e: "queue q k = queue p k" "active_iods q = active_iods p" "\<And>e. e \<in> set (queue p k) \<Longrightarrow> events q e = events p e"
    by metis+
  then have "find (\<lambda>e. ev_iod (events q e) = Some i) (queue q k) = find (\<lambda>e. ev_iod (events p e) = Some i) (queue p k)"
    by (intro find_cong) (auto simp: e)
  then show ?thesis using assms(1-3) e(2) by (simp add: pool_wf_def firsts_ok_def)
qed

text \<open>When nothing is pending any more, there is nothing left to clear.\<close>

lemma cleared_idle:
  assumes wf: "pool_wf D 0 (\<lambda>_. 0) p" and i: "i \<in> set (active_iods p)" "\<not> iod_pending (iods p i) > 0"
  shows "open_evs p i k = {}" "cleared i UNIV p p"
proof -
  have "int (card (open_evs p i Connects)) + int (card (open_evs p i Reads)) + int (card (open_evs p i Writes)) \<le> 0"
    using wf i by (auto simp: pool_wf_def counts_ok_def)
  then have "card (open_evs p i Connects) = 0" "card (open_evs p i Reads) = 0" "card (open_evs p i Writes) = 0" by linarith+
  then have "card (open_evs p i k) = 0" for k by (cases k) simp_all
  then show o: "open_evs p i k = {}" for k by simp
  have "filter (\<lambda>e. ev_iod (events p e) \<noteq> Some i \<or> event_done (events p e)) (queue p k) = queue p k" for k
    using o [of k] by (auto simp: open_evs_def filter_id_conv)
  then show "cleared i UNIV p p" by (simp add: cleared_def)
qed

lemma lists_clear:
  assumes "pool_wf D 0 (\<lambda>_. 0) p0" and i: "i \<in> set (active_iods p0)"
    and "pool_wf D 0 (\<lambda>_. 0) p" and "pins D p0 p" and "cleared i A p0 p" and "A \<inter> set ks = {}" and "A \<union> set ks = UNIV" and "distinct ks"
  shows "\<exists>m. delete_lists call i False (map (first_ev (iods p0 i)) ks) p = Some m \<and>
    (m = Inl Fatal_exit \<and> sd (iods p0 i) \<ge> FD_SETSIZE \<or>
     (\<exists>q. m = Inr q \<and> pool_wf D 0 (\<lambda>_. 0) q \<and> pins D p0 q \<and> cleared i UNIV p0 q))"
  using assms(3-)
proof (induction ks arbitrary: p A)
  case Nil
  then show ?case by simp
next
  case (Cons k ks)
  have act: "active_iods p = active_iods p0" "sd (iods p i) = sd (iods p0 i)" using Cons.prems(3) by (simp_all add: cleared_def)
  then have ip: "i \<in> set (active_iods p)" using i by simp
  show ?case
  proof (cases "iod_pending (iods p i) > 0")
    case False
    have "cleared i (A \<union> UNIV) p0 p" by (rule cleared_trans [OF Cons.prems(3) cleared_idle(2) [OF Cons.prems(1) ip False]])
    then show ?thesis using Cons.prems(1,2) False by simp
  next
    case True
    have f: "first_ev (iods p i) k = first_ev (iods p0 i) k"
      by (rule cleared_first [OF assms(1) Cons.prems(1) i Cons.prems(3)]) (use Cons.prems(4) in auto)
    from list_clears [OF Cons.prems(1) ip, of call k] obtain m where
      m: "delete_loop call i False p (first_ev (iods p0 i) k) = Some m"
        "m = Inl Fatal_exit \<and> sd (iods p i) \<ge> FD_SETSIZE \<or>
         (\<exists>q. m = Inr q \<and> pool_wf D 0 (\<lambda>_. 0) q \<and> pins D p q \<and> cleared i {k} p q)" unfolding f by blast
    from m(2) show ?thesis
    proof (elim disjE exE conjE)
      assume "m = Inl Fatal_exit" "sd (iods p i) \<ge> FD_SETSIZE"
      then show ?thesis using m(1) True act(2) by simp
    next
      fix q assume q: "m = Inr q" "pool_wf D 0 (\<lambda>_. 0) q" "pins D p q" "cleared i {k} p q"
      have "cleared i (A \<union> {k}) p0 q" by (rule cleared_trans [OF Cons.prems(3) q(4)])
      from Cons.IH [OF q(2) pins_trans [OF Cons.prems(2) q(3)] this] Cons.prems(4-6) show ?thesis
        using m(1) q(1) True by auto
    qed
  qed
qed

text \<open>Closing the descriptor of an iod that has nothing pending.\<close>

definition closed :: "nat \<Rightarrow> 'h npool \<Rightarrow> 'h npool \<Rightarrow> bool" where
  "closed i p q \<longleftrightarrow>
     q = p\<lparr>iods := (iods p)(i := iods q i), sinfo := sinfo q\<rparr> \<and> state (iods q i) = NSIOD_STATE_DELETED \<and>
     \<not> registered (iods q i) \<and> readsd_count (iods q i) = readsd_count (iods p i) \<and>
     writesd_count (iods q i) = writesd_count (iods p i) \<and> iod_pending (iods q i) = iod_pending (iods p i) \<and>
     first_ev (iods q i) = first_ev (iods p i)"

lemma closed_wf:
  assumes wf: "pool_wf D 0 (\<lambda>_. 0) p" and i: "i \<in> set (active_iods p)" "\<not> iod_pending (iods p i) > 0" and q: "closed i p q"
  shows "pool_wf D 0 (\<lambda>_. 0) q" "pins D p q"
proof -
  have d: "q = p\<lparr>iods := (iods p)(i := iods q i), sinfo := sinfo q\<rparr>" "state (iods q i) = NSIOD_STATE_DELETED" "\<not> registered (iods q i)"
    "readsd_count (iods q i) = readsd_count (iods p i)" "writesd_count (iods q i) = writesd_count (iods p i)"
    "iod_pending (iods q i) = iod_pending (iods p i)" "first_ev (iods q i) = first_ev (iods p i)" using q unfolding closed_def by blast+
  have "queue (p\<lparr>iods := x, sinfo := y\<rparr>) = queue p" "expirables (p\<lparr>iods := x, sinfo := y\<rparr>) = expirables p"
    "active_iods (p\<lparr>iods := x, sinfo := y\<rparr>) = active_iods p" "free_iods (p\<lparr>iods := x, sinfo := y\<rparr>) = free_iods p"
    "free_events (p\<lparr>iods := x, sinfo := y\<rparr>) = free_events p" "pool_pending (p\<lparr>iods := x, sinfo := y\<rparr>) = pool_pending p"
    "nsock_tod (p\<lparr>iods := x, sinfo := y\<rparr>) = nsock_tod p" "ev_brk (p\<lparr>iods := x, sinfo := y\<rparr>) = ev_brk p"
    "clock (p\<lparr>iods := x, sinfo := y\<rparr>) = clock p" "events (p\<lparr>iods := x, sinfo := y\<rparr>) = events p"
    "iods (p\<lparr>iods := x, sinfo := y\<rparr>) = x" for x y by simp_all
  then have f: "queue q = queue p" "expirables q = expirables p" "active_iods q = active_iods p" "free_iods q = free_iods p"
    "free_events q = free_events p" "pool_pending q = pool_pending p" "nsock_tod q = nsock_tod p" "ev_brk q = ev_brk p"
    "clock q = clock p" "events q = events p" "iods q = (iods p)(i := iods q i)" using d(1) by metis+
  then have fi: "iods q j = (if j = i then iods q i else iods p j)" for j by (metis fun_upd_def)
  have qd: "queued q = queued p" "opens q = opens p" "open_evs q = open_evs p" "timers q = timers p"
    by (simp_all add: queued_def opens_def open_evs_def fun_eq_iff timers_def f)
  have none: "open_evs p i k = {}" for k using cleared_idle(1) [OF wf i] .
  have z: "readsd_count (iods p i) = 0" "writesd_count (iods p i) = 0" using wf i(1) none by (auto simp: pool_wf_def counts_ok_def)
  show "pool_wf D 0 (\<lambda>_. 0) q" unfolding pool_wf_def
  proof (intro conjI)
    show "lists_ok q" using wf unfolding pool_wf_def lists_ok_def f qd by blast
    show "firsts_ok q" using wf d(7) unfolding pool_wf_def firsts_ok_def f(1,3,10) by (metis fi)
    show "timers_ok q" using wf unfolding pool_wf_def timers_ok_def f qd by blast
    show "done_ok D q" using wf unfolding pool_wf_def done_ok_def f qd by blast
    show "counts_ok 0 (\<lambda>_. 0) q" using wf d(4-6) unfolding pool_wf_def counts_ok_def f(3,6) qd by (metis fi)
    show "watch_ok q" using wf d(2-5) z none unfolding pool_wf_def watch_ok_def f(3) qd by (metis fi)
    show "clock_ok q" using wf unfolding pool_wf_def clock_ok_def f by blast
    show "writes_ok q" using wf unfolding pool_wf_def writes_ok_def f qd by blast
  qed
  show "pins D p q" by (simp add: pins_def f)
qed

lemma close_iod_ok:
  assumes wf: "pool_wf D 0 (\<lambda>_. 0) p" and i: "i \<in> set (active_iods p)" "iod_pending (iods p i) = 0"
  shows "close_iod p i = Inl Fatal_exit \<and> sd (iods p i) \<ge> FD_SETSIZE \<or>
    (\<exists>q. close_iod p i = Inr q \<and> closed i p q)"
proof -
  have "\<not> iod_pending (iods p i) > 0" using i(2) by simp
  then have none: "open_evs p i k = {}" for k using cleared_idle(1) [OF wf i(1)] by simp
  have z: "readsd_count (iods p i) = 0" "writesd_count (iods p i) = 0" using wf i(1) none by (auto simp: pool_wf_def counts_ok_def)
  have r: "registered (iods p i) \<Longrightarrow> 0 \<le> sd (iods p i)" using wf i(1) by (auto simp: pool_wf_def watch_ok_def)
  have "closed i p q" if "close_iod p i = Inr q" for q
    using that i(2) z r unfolding closed_def
    by (auto simp: close_iod_def socket_count_zero_def select_iod_unregister_def Let_def set_iod_def split: if_splits)
  moreover have "(\<exists>q. close_iod p i = Inr q) \<or> close_iod p i = Inl Fatal_exit \<and> sd (iods p i) \<ge> FD_SETSIZE"
    using i(2) r by (auto simp: close_iod_def socket_count_zero_def select_iod_unregister_def Let_def set_iod_def)
  ultimately show ?thesis by blast
qed

text \<open>What is left of the pool when an iod has been deleted without notifying the handlers.\<close>

definition iod_gone :: "nat \<Rightarrow> 'h npool \<Rightarrow> 'h npool \<Rightarrow> bool" where
  "iod_gone i p q \<longleftrightarrow>
     (\<forall>k. queue q k = filter (\<lambda>e. ev_iod (events p e) \<noteq> Some i \<or> event_done (events p e)) (queue p k)) \<and>
     (\<forall>k. \<forall>e \<in> set (queue q k). events q e = events p e) \<and> state (iods q i) = NSIOD_STATE_DELETED \<and>
     (\<forall>j. j \<noteq> i \<longrightarrow> sd (iods q j) = sd (iods p j) \<and> state (iods q j) = state (iods p j)) \<and>
     active_iods q = active_iods p \<and> calls q = calls p \<and> shrunk p q"

lemma cleared_gone: "cleared i UNIV p q \<Longrightarrow> state (iods q i) = NSIOD_STATE_DELETED \<Longrightarrow> iod_gone i p q"
  unfolding cleared_def iod_gone_def by auto

lemma closed_gone:
  assumes "cleared i UNIV p q" and "closed i q r"
  shows "iod_gone i p r"
proof -
  have r: "r = q\<lparr>iods := (iods q)(i := iods r i), sinfo := sinfo r\<rparr>" "state (iods r i) = NSIOD_STATE_DELETED"
    using assms(2) unfolding closed_def by blast+
  have "queue (q\<lparr>iods := x, sinfo := y\<rparr>) = queue q" "active_iods (q\<lparr>iods := x, sinfo := y\<rparr>) = active_iods q"
    "calls (q\<lparr>iods := x, sinfo := y\<rparr>) = calls q" "events (q\<lparr>iods := x, sinfo := y\<rparr>) = events q" for x y by simp_all
  then have f: "queue r = queue q" "active_iods r = active_iods q" "calls r = calls q" "events r = events q" using r(1) by metis+
  have sh: "shrunk p (q\<lparr>iods := x, sinfo := y\<rparr>) \<longleftrightarrow> shrunk p q" for x y by (simp add: shrunk_def)
  have sh: "shrunk p r \<longleftrightarrow> shrunk p q" using r(1) sh by metis
  have "iods (q\<lparr>iods := x, sinfo := y\<rparr>) = x" for x y by simp
  then have "iods r = (iods q)(i := iods r i)" using r(1) by metis
  then have "iods r j = iods q j" if "j \<noteq> i" for j using that by (metis fun_upd_other)
  then show ?thesis using assms(1) r(2) unfolding cleared_def iod_gone_def f sh by auto
qed

lemma cleared_pending:
  assumes wf: "pool_wf D 0 (\<lambda>_. 0) q" and i: "i \<in> set (active_iods q)" and c: "cleared i UNIV p q"
  shows "iod_pending (iods q i) = 0"
proof -
  have "open_evs q i k = {}" for k
  proof -
    have "events q e = events p e" if "e \<in> set (queue q k)" for e by (rule clearedD [OF c that])
    moreover have "set (queue q k) \<subseteq> {e. ev_iod (events p e) \<noteq> Some i \<or> event_done (events p e)}"
      using c by (auto simp: cleared_def)
    ultimately show ?thesis unfolding open_evs_def by force
  qed
  then show ?thesis using wf i by (simp add: pool_wf_def counts_ok_def)
qed

text \<open>
  Deleting an iod without notification ends whatever is pending, calls no handler, and takes away exactly the
  events of the iod that are not done; it fails only on a descriptor that is too large for select.
\<close>

lemma silent_iod_delete:
  assumes wf: "pool_wf D 0 (\<lambda>_. 0) p" and i: "i \<in> set (active_iods p)"
  shows "\<exists>m. nsock_iod_delete call p i NSOCK_PENDING_SILENT = Some m \<and>
    (m = Inl Fatal_exit \<and> sd (iods p i) \<ge> FD_SETSIZE \<or>
     (\<exists>q. m = Inr q \<and> pool_wf D 0 (\<lambda>_. 0) q \<and> pins D p q \<and> iod_gone i p q))"
proof -
  have fin: "close_iod q i = Inl Fatal_exit \<and> sd (iods p i) \<ge> FD_SETSIZE \<or>
      (\<exists>r. close_iod q i = Inr r \<and> pool_wf D 0 (\<lambda>_. 0) r \<and> pins D p r \<and> iod_gone i p r)"
    if q: "pool_wf D 0 (\<lambda>_. 0) q" "pins D p q" "cleared i UNIV p q" for q
  proof -
    have iq: "i \<in> set (active_iods q)" and sq: "sd (iods q i) = sd (iods p i)" using q(3) i by (simp_all add: cleared_def)
    have z: "iod_pending (iods q i) = 0" by (rule cleared_pending [OF q(1) iq q(3)])
    from close_iod_ok [OF q(1) iq z] show ?thesis
    proof (elim disjE exE conjE)
      fix r assume r: "close_iod q i = Inr r" "closed i q r"
      have nz: "\<not> iod_pending (iods q i) > 0" using z by simp
      show ?thesis using r(1) closed_wf [OF q(1) iq nz r(2)] pins_trans [OF q(2)] closed_gone [OF q(3) r(2)] by blast
    qed (simp add: sq)
  qed
  show ?thesis
  proof (cases "state (iods p i) = NSIOD_STATE_DELETED")
    case True
    then have "open_evs p i k = {}" for k using wf i by (simp add: pool_wf_def watch_ok_def)
    then have "\<not> iod_pending (iods p i) > 0" using wf i by (simp add: pool_wf_def counts_ok_def)
    then have "iod_gone i p p" using cleared_gone [OF cleared_idle(2) [OF wf i] True] by blast
    then show ?thesis using True wf by (simp add: nsock_iod_delete_def)
  next
    case ns: False
    show ?thesis
    proof (cases "iod_pending (iods p i) > 0")
      case False
      then show ?thesis using ns fin [OF wf pins_refl cleared_idle(2) [OF wf i False]] by (simp add: nsock_iod_delete_def)
    next
      case True
      have e: "{} \<inter> set [Connects, Reads, Writes] = {}" "{} \<union> set [Connects, Reads, Writes] = UNIV" "distinct [Connects, Reads, Writes]"
        using evkind.exhaust by auto
      from lists_clear [OF wf i wf pins_refl cleared_refl e, of call] obtain m where
        m: "delete_lists call i False (map (first_ev (iods p i)) [Connects, Reads, Writes]) p = Some m"
          "m = Inl Fatal_exit \<and> sd (iods p i) \<ge> FD_SETSIZE \<or>
           (\<exists>q. m = Inr q \<and> pool_wf D 0 (\<lambda>_. 0) q \<and> pins D p q \<and> cleared i UNIV p q)" by blast
      have s: "nsock_iod_delete call p i NSOCK_PENDING_SILENT = Some (bind_out m (\<lambda>p. close_iod p i))"
        using ns True m(1) by (simp add: nsock_iod_delete_def del: delete_lists.simps)
      from m(2) show ?thesis
      proof (elim disjE exE conjE)
        fix q assume q: "m = Inr q" "pool_wf D 0 (\<lambda>_. 0) q" "pins D p q" "cleared i UNIV p q"
        show ?thesis unfolding s q(1) using fin [OF q(2-4)] by simp
      qed (simp add: s)
    qed
  qed
qed

end
