(* ===== verification/Nsock_Connect.thy ===== *)
theory Nsock_Connect
  imports Nsock_Cancel
begin

text \<open>
  Connections (nsock/src/nsock_connect.c), as built without OpenSSL and without a chain of proxies: the socket of an iod is
  made and told to connect; an error that is known at once is delivered before the request returns, and otherwise the event
  waits in the list of connects.  What the system answers is an argument.  The options that are set on the new socket
  (local address, IP options, device, broadcast) are system calls whose results are only logged.
\<close>

section \<open>Sockets\<close>

datatype sock_type = SOCK_STREAM | SOCK_DGRAM

definition IPPROTO_TCP :: int where "IPPROTO_TCP = 6"
definition IPPROTO_UDP :: int where "IPPROTO_UDP = 17"
definition IPPROTO_SCTP :: int where "IPPROTO_SCTP = 132"

text \<open>The size of the field \<open>peer\<close>.\<close>

definition SOCKADDR_STORAGE_SIZE :: nat where "SOCKADDR_STORAGE_SIZE = 128"

text \<open>The answers to \<open>socket\<close> and \<open>connect\<close>.\<close>

record net =
  sys_socket :: "sa_family \<Rightarrow> sock_type \<Rightarrow> int \<Rightarrow> errno + int"
  sys_connect :: "int \<Rightarrow> sockaddr_storage \<Rightarrow> nat \<Rightarrow> errno option"

definition nsock_make_socket :: "net \<Rightarrow> 'h npool \<Rightarrow> nat \<Rightarrow> sa_family \<Rightarrow> sock_type \<Rightarrow> int \<Rightarrow> (errno + int) \<times> 'h npool" where
  "nsock_make_socket sys p i family ty proto =
     (case sys_socket sys family ty proto of
        Inl err \<Rightarrow> (Inl err, set_iod p i (\<lambda>d. d\<lparr>sd := -1\<rparr>))
      | Inr fd \<Rightarrow> (Inr fd, set_iod p i (\<lambda>d. d\<lparr>sd := fd, lastproto := proto\<rparr>)))"

definition nsock_setup_udp :: "net \<Rightarrow> 'h npool \<Rightarrow> nat \<Rightarrow> sa_family \<Rightarrow> (int \<times> 'h npool) outcome" where
  "nsock_setup_udp sys p i af =
     (if state (iods p i) \<noteq> NSIOD_STATE_INITIAL \<and> state (iods p i) \<noteq> NSIOD_STATE_UNKNOWN then Inl Assert_failed
      else (case nsock_make_socket sys p i af SOCK_DGRAM IPPROTO_UDP of
              (Inl err, p) \<Rightarrow> Inr (-1, p)
            | (Inr fd, p) \<Rightarrow> Inr (fd, p)))"

section \<open>Requests of connections\<close>

text \<open>The port goes into the address; 16 bits of it for the internet families.\<close>

definition with_port :: "sockaddr_storage \<Rightarrow> int \<Rightarrow> sockaddr_storage outcome" where
  "with_port ss port =
     (if ss_family ss = AF_INET \<or> ss_family ss = AF_INET6 then Inr (ss\<lparr>ss_port := port mod 2 ^ 16\<rparr>)
      else if ss_family ss = AF_UNIX then Inr ss
      else if ss_family ss = AF_VSOCK then Inr (ss\<lparr>ss_port := port\<rparr>)
      else Inl Fatal_exit)"

definition connect_failed :: "'h npool \<Rightarrow> nat \<Rightarrow> errno \<Rightarrow> 'h npool" where
  "connect_failed p nse err =
     set_ev p nse (\<lambda>v. v\<lparr>event_done := True, ev_status := NSE_STATUS_ERROR, ev_errnum := Some err\<rparr>)"

definition nsock_connect_internal ::
  "net \<Rightarrow> 'h npool \<Rightarrow> nat \<Rightarrow> sock_type \<Rightarrow> int \<Rightarrow> sockaddr_storage \<Rightarrow> nat \<Rightarrow> int \<Rightarrow> 'h npool outcome" where
  "nsock_connect_internal sys p nse ty proto ss sslen port =
     bind_out (the_iod p nse) (\<lambda>i.
     case nsock_make_socket sys p i (ss_family ss) ty proto of
       (Inl err, p) \<Rightarrow> Inr (connect_failed p nse err)
     | (Inr fd, p) \<Rightarrow>
         bind_out (with_port ss port) (\<lambda>ss.
         if \<not> sslen \<le> SOCKADDR_STORAGE_SIZE then Inl Assert_failed
         else let p = set_iod p i (\<lambda>d. d\<lparr>peer := ss, peerlen := sslen\<rparr>)
              in case sys_connect sys fd ss sslen of
                   None \<Rightarrow> Inr p
                 | Some err \<Rightarrow>
                     Inr (if proto = IPPROTO_UDP \<or> (err \<noteq> EINPROGRESS \<and> err \<noteq> EAGAIN) then connect_failed p nse err else p)))"

definition nsock_connect ::
  "'h handlers \<Rightarrow> net \<Rightarrow> 'h npool \<Rightarrow> nat \<Rightarrow> 'h \<Rightarrow> int \<Rightarrow> sock_type \<Rightarrow> int \<Rightarrow> sockaddr_storage \<Rightarrow> nat \<Rightarrow> int \<Rightarrow> (u64 \<times> 'h npool) outcome" where
  "nsock_connect call sys p i handler timeout_msecs ty proto ss sslen port =
     (if state (iods p i) \<noteq> NSIOD_STATE_INITIAL \<and> state (iods p i) \<noteq> NSIOD_STATE_UNKNOWN then Inl Assert_failed
      else bind_out (event_new p NSE_TYPE_CONNECT (Some i) timeout_msecs handler) (\<lambda>(nse, p).
           bind_out (nsock_connect_internal sys p nse ty proto ss sslen port) (\<lambda>p.
           bind_out (nsock_pool_add_event call p nse) (\<lambda>q. Inr (ev_id (events q nse), q)))))"

definition nsock_connect_unixsock_stream ::
  "'h handlers \<Rightarrow> net \<Rightarrow> 'h npool \<Rightarrow> nat \<Rightarrow> 'h \<Rightarrow> int \<Rightarrow> sockaddr_storage \<Rightarrow> nat \<Rightarrow> (u64 \<times> 'h npool) outcome" where
  "nsock_connect_unixsock_stream call sys p i handler timeout_msecs ss sslen =
     nsock_connect call sys p i handler timeout_msecs SOCK_STREAM 0 ss sslen 0"

definition nsock_connect_unixsock_datagram ::
  "'h handlers \<Rightarrow> net \<Rightarrow> 'h npool \<Rightarrow> nat \<Rightarrow> 'h \<Rightarrow> sockaddr_storage \<Rightarrow> nat \<Rightarrow> (u64 \<times> 'h npool) outcome" where
  "nsock_connect_unixsock_datagram call sys p i handler ss sslen =
     nsock_connect call sys p i handler (-1) SOCK_DGRAM 0 ss sslen 0"

definition nsock_connect_vsock_stream ::
  "'h handlers \<Rightarrow> net \<Rightarrow> 'h npool \<Rightarrow> nat \<Rightarrow> 'h \<Rightarrow> int \<Rightarrow> sockaddr_storage \<Rightarrow> nat \<Rightarrow> int \<Rightarrow> (u64 \<times> 'h npool) outcome" where
  "nsock_connect_vsock_stream call sys p i handler timeout_msecs ss sslen port =
     nsock_connect call sys p i handler timeout_msecs SOCK_STREAM 0 ss sslen port"

definition nsock_connect_vsock_datagram ::
  "'h handlers \<Rightarrow> net \<Rightarrow> 'h npool \<Rightarrow> nat \<Rightarrow> 'h \<Rightarrow> sockaddr_storage \<Rightarrow> nat \<Rightarrow> int \<Rightarrow> (u64 \<times> 'h npool) outcome" where
  "nsock_connect_vsock_datagram call sys p i handler ss sslen port =
     nsock_connect call sys p i handler (-1) SOCK_DGRAM 0 ss sslen port"

definition nsock_connect_tcp ::
  "'h handlers \<Rightarrow> net \<Rightarrow> 'h npool \<Rightarrow> nat \<Rightarrow> 'h \<Rightarrow> int \<Rightarrow> sockaddr_storage \<Rightarrow> nat \<Rightarrow> int \<Rightarrow> (u64 \<times> 'h npool) outcome" where
  "nsock_connect_tcp call sys p i handler timeout_msecs ss sslen port =
     nsock_connect call sys p i handler timeout_msecs SOCK_STREAM IPPROTO_TCP ss sslen port"

definition nsock_connect_sctp ::
  "'h handlers \<Rightarrow> net \<Rightarrow> 'h npool \<Rightarrow> nat \<Rightarrow> 'h \<Rightarrow> int \<Rightarrow> sockaddr_storage \<Rightarrow> nat \<Rightarrow> int \<Rightarrow> (u64 \<times> 'h npool) outcome" where
  "nsock_connect_sctp call sys p i handler timeout_msecs ss sslen port =
     nsock_connect call sys p i handler timeout_msecs SOCK_STREAM IPPROTO_SCTP ss sslen port"

definition nsock_connect_udp ::
  "'h handlers \<Rightarrow> net \<Rightarrow> 'h npool \<Rightarrow> nat \<Rightarrow> 'h \<Rightarrow> sockaddr_storage \<Rightarrow> nat \<Rightarrow> int \<Rightarrow> (u64 \<times> 'h npool) outcome" where
  "nsock_connect_udp call sys p i handler ss sslen port =
     nsock_connect call sys p i handler (-1) SOCK_DGRAM IPPROTO_UDP ss sslen port"

text \<open>Without OpenSSL the requests of encrypted connections end the process.\<close>

definition nsock_connect_ssl :: "'h npool \<Rightarrow> (u64 \<times> 'h npool) outcome" where
  "nsock_connect_ssl p = Inl Fatal_exit"

definition nsock_reconnect_ssl :: "'h npool \<Rightarrow> (u64 \<times> 'h npool) outcome" where
  "nsock_reconnect_ssl p = Inl Fatal_exit"

section \<open>The invariant\<close>

text \<open>An iod without a socket; the system returns descriptors that are not negative.\<close>

definition socketless :: "'h npool \<Rightarrow> nat \<Rightarrow> bool" where
  "socketless p i \<longleftrightarrow> i \<in> set (active_iods p) \<and> sd (iods p i) = -1 \<and>
     (state (iods p i) = NSIOD_STATE_INITIAL \<or> state (iods p i) = NSIOD_STATE_UNKNOWN)"

definition sound_net :: "net \<Rightarrow> sa_family \<Rightarrow> sock_type \<Rightarrow> int \<Rightarrow> bool" where
  "sound_net sys af ty proto \<longleftrightarrow> (case sys_socket sys af ty proto of Inl err \<Rightarrow> True | Inr fd \<Rightarrow> 0 \<le> fd)"

text \<open>The iod is not watched, so its descriptor may change.\<close>

definition rewired :: "niod \<Rightarrow> niod \<Rightarrow> bool" where
  "rewired d d' \<longleftrightarrow> d' = d\<lparr>sd := sd d', peer := peer d', peerlen := peerlen d', lastproto := lastproto d'\<rparr>"

lemma rewired_sel:
  assumes "rewired d d'"
  shows "iod_pending d' = iod_pending d" "first_ev d' = first_ev d" "readsd_count d' = readsd_count d"
    "writesd_count d' = writesd_count d" "watched_events d' = watched_events d" "state d' = state d" "registered d' = registered d"
    "so_error d' = so_error d" "iod_eof d' = iod_eof d"
  by (subst assms [unfolded rewired_def], simp)+

lemma rewired_wf:
  assumes wf: "pool_wf D x xi p" and u: "\<not> registered (iods p i)" and r: "rewired (iods p i) (f (iods p i))"
  shows "pool_wf D x xi (set_iod p i f)"
proof -
  let ?q = "set_iod p i f"
  have qd: "queued ?q = queued p" "opens ?q = opens p" "open_evs ?q = open_evs p" "timers ?q = timers p"
    by (simp_all add: queued_def opens_def open_evs_def timers_def fun_eq_iff)
  note sel = rewired_sel [OF r]
  have "lists_ok ?q" "timers_ok ?q" "done_ok D ?q" "clock_ok ?q" "writes_ok ?q"
    using wf unfolding pool_wf_def lists_ok_def timers_ok_def done_ok_def clock_ok_def writes_ok_def qd by simp_all
  moreover have "firsts_ok ?q" "counts_ok x xi ?q"
    using wf sel unfolding pool_wf_def firsts_ok_def counts_ok_def qd by simp_all
  moreover have "watch_ok ?q" using wf sel u unfolding pool_wf_def watch_ok_def qd by simp
  ultimately show ?thesis by (simp add: pool_wf_def)
qed
lemma event_new_iods:
  assumes "event_new p t (Some i) ms h = Inr (e, q)"
  shows "iods q = (iods p)(i := (iods p i)\<lparr>iod_pending := iod_pending (iods p i) + 1\<rparr>)" "active_iods q = active_iods p"
    "calls q = calls p"
  using assms by (auto simp: event_new_def Let_def get_new_event_id_def bind_out_def split: if_splits sum.splits list.splits)

lemma newly_rewired:
  assumes "newly D p e" and "\<not> registered (iods p i)" and "rewired (iods p i) (f (iods p i))"
  shows "newly D (set_iod p i f) e"
proof -
  have "pool_wf D 0 (charge p e) (set_iod p i f)" using rewired_wf [where f = f, OF _ assms(2,3)] assms(1) by (simp add: newly_def)
  moreover have "charge (set_iod p i f) e = charge p e" by (simp add: charge_def)
  ultimately show ?thesis using assms(1) by (simp add: newly_def detached_def queued_def)
qed

lemma set_iod_compose: "set_iod (set_iod p i f) i g = set_iod p i (g \<circ> f)"
  by (simp add: set_iod_def)

text \<open>The connection fails at once or goes on, on an iod that differs only in what belongs to its socket.\<close>

lemma connect_internal_cases:
  assumes "the_iod p e = Inr i" and "sslen \<le> SOCKADDR_STORAGE_SIZE" and "sound_net sys (ss_family ss) ty proto"
  shows "nsock_connect_internal sys p e ty proto ss sslen port = Inl Fatal_exit \<or>
    (\<exists>f. rewired (iods p i) (f (iods p i)) \<and>
       (nsock_connect_internal sys p e ty proto ss sslen port = Inr (set_iod p i f) \<and> 0 \<le> sd (f (iods p i)) \<or>
        (\<exists>err. nsock_connect_internal sys p e ty proto ss sslen port = Inr (connect_failed (set_iod p i f) e err))))"
proof (cases "sys_socket sys (ss_family ss) ty proto")
  case (Inl err)
  then show ?thesis using assms(1)
    by (intro disjI2 exI [of _ "\<lambda>d. d\<lparr>sd := -1\<rparr>"]) (auto simp: nsock_connect_internal_def nsock_make_socket_def rewired_def)
next
  case (Inr fd)
  have fd: "0 \<le> fd" using assms(3) Inr by (simp add: sound_net_def)
  show ?thesis
  proof (cases "with_port ss port")
    case (Inl err)
    then have "err = Fatal_exit" by (simp add: with_port_def split: if_splits)
    then show ?thesis using Inl Inr assms(1) by (simp add: nsock_connect_internal_def nsock_make_socket_def)
  next
    case (Inr ss')
    define f where "f = (\<lambda>d :: niod. d\<lparr>sd := fd, lastproto := proto, peer := ss', peerlen := sslen\<rparr>)"
    have two: "set_iod (set_iod p i (\<lambda>d. d\<lparr>sd := fd, lastproto := proto\<rparr>)) i (\<lambda>d. d\<lparr>peer := ss', peerlen := sslen\<rparr>) = set_iod p i f"
      by (simp add: set_iod_compose f_def comp_def)
    have eq: "nsock_connect_internal sys p e ty proto ss sslen port =
        (case sys_connect sys fd ss' sslen of
           None \<Rightarrow> Inr (set_iod p i f)
         | Some err \<Rightarrow> Inr (if proto = IPPROTO_UDP \<or> (err \<noteq> EINPROGRESS \<and> err \<noteq> EAGAIN)
             then connect_failed (set_iod p i f) e err else set_iod p i f))"
      using \<open>sys_socket sys (ss_family ss) ty proto = Inr fd\<close> Inr assms(1,2)
      unfolding two [symmetric] by (simp add: nsock_connect_internal_def nsock_make_socket_def Let_def)
    have "rewired (iods p i) (f (iods p i))" "0 \<le> sd (f (iods p i))" using fd by (simp_all add: rewired_def f_def)
    then show ?thesis unfolding eq by (intro disjI2 exI [of _ f]) (auto split: option.split)
  qed
qed

lemma pending_newly:
  assumes "newly D p e"
  shows "pool_wf D 1 (charge p e) (p\<lparr>pool_pending := pool_pending p + 1\<rparr>)"
  by (rule same_data_wf [of p _ D 0 "charge p e"]) (use assms in \<open>simp_all add: newly_def same_data_def same_counts_def\<close>)

context nsock_client begin

lemma add_failed_ok:
  assumes new: "newly D p e" and t: "ev_type (events p e) = NSE_TYPE_CONNECT" and i: "ev_iod (events p e) = Some i" "i \<in> set (active_iods p)"
  shows "nsock_pool_add_event call (connect_failed p e err) e = Inl Fatal_exit \<or>
    (\<exists>q. nsock_pool_add_event call (connect_failed p e err) e = Inr q \<and> pool_wf D 0 (\<lambda>_. 0) q \<and> pins D p q)"
proof -
  let ?p = "p\<lparr>pool_pending := pool_pending p + 1\<rparr>"
  let ?f = "\<lambda>v. v\<lparr>event_done := True, ev_status := NSE_STATUS_ERROR, ev_errnum := Some err\<rparr>"
  have "nsock_pool_add_event call (connect_failed p e err) e =
      event_dispatch_and_delete call ((connect_failed p e err)\<lparr>pool_pending := pool_pending p + 1\<rparr>) e True"
    using t by (simp add: nsock_pool_add_event_def connect_failed_def)
  also have "(connect_failed p e err)\<lparr>pool_pending := pool_pending p + 1\<rparr> = set_ev ?p e ?f" by (simp add: connect_failed_def set_ev_def)
  finally have eq: "nsock_pool_add_event call (connect_failed p e err) e = event_dispatch_and_delete call (set_ev ?p e ?f) e True" .
  have "charge ?p e = charge p e" by (simp add: charge_def)
  then have w: "pool_wf D 1 (charge ?p e) ?p" using pending_newly [OF new] by simp
  have det: "detached D ?p e" using new by (simp add: newly_def detached_def queued_def)
  have "\<And>j. ev_iod (events ?p e) = Some j \<Longrightarrow> j \<in> set (active_iods ?p)" using i by simp
  from done_at_once [OF w det this, of ?f] have "event_dispatch_and_delete call (set_ev ?p e ?f) e True = Inl Fatal_exit \<or>
    (\<exists>r. event_dispatch_and_delete call (set_ev ?p e ?f) e True = Inr r \<and> pool_wf D 0 (\<lambda>_. 0) r \<and> pins D ?p r)" by simp
  moreover have "pins D p r" if "pins D ?p r" for r by (rule pins_trans [OF _ that]) (simp add: pins_def)
  ultimately show ?thesis unfolding eq by blast
qed

lemma connect_ok:
  assumes wf: "pool_wf D 0 (\<lambda>_. 0) p" and ms: "-1 \<le> ms" and i: "socketless p i" and ss: "sslen \<le> SOCKADDR_STORAGE_SIZE"
    and net: "sound_net sys (ss_family ss) ty proto"
  shows "nsock_connect call sys p i h ms ty proto ss sslen port = Inl Fatal_exit \<or>
    (\<exists>v q. nsock_connect call sys p i h ms ty proto ss sslen port = Inr (v, q) \<and> pool_wf D 0 (\<lambda>_. 0) q \<and> pins D p q)"
proof -
  have st: "state (iods p i) = NSIOD_STATE_INITIAL \<or> state (iods p i) = NSIOD_STATE_UNKNOWN" "sd (iods p i) = -1" "i \<in> set (active_iods p)"
    using i by (simp_all add: socketless_def)
  then have "state (iods p j) \<noteq> NSIOD_STATE_DELETED" if "Some i = Some j" for j using that by auto
  from event_new_ok [OF wf ms this] obtain e q where
    q: "event_new p NSE_TYPE_CONNECT (Some i) ms h = Inr (e, q)" "created D p NSE_TYPE_CONNECT (Some i) ms e q" by blast
  have c: "ev_iod (events q e) = Some i" "ev_type (events q e) = NSE_TYPE_CONNECT" "pins D p q" "newly D q e"
    using q(2) created_newly [OF q(2)] by (simp_all add: created_def)
  have iq: "i \<in> set (active_iods q)" using event_new_iods(2) [OF q(1)] st(3) by simp
  have "sd (iods q i) = -1" using event_new_iods(1) [OF q(1)] st(2) by simp
  then have u: "\<not> registered (iods q i)" using c(4) iq by (auto simp: newly_def pool_wf_def watch_ok_def)
  have "the_iod q e = Inr i" using c(1) by (simp add: the_iod_def)
  note cases = connect_internal_cases [OF this ss net, of port]
  define m where "m = nsock_connect_internal sys q e ty proto ss sslen port"
  have eq: "nsock_connect call sys p i h ms ty proto ss sslen port =
      bind_out m (\<lambda>p. bind_out (nsock_pool_add_event call p e) (\<lambda>q. Inr (ev_id (events q e), q)))"
    using st(1) q(1) by (auto simp: nsock_connect_def m_def)
  have add: "bind_out (nsock_pool_add_event call s e) (\<lambda>q. Inr (ev_id (events q e), q)) = Inl Fatal_exit \<or>
      (\<exists>v t. bind_out (nsock_pool_add_event call s e) (\<lambda>q. Inr (ev_id (events q e), q)) = Inr (v, t) \<and> pool_wf D 0 (\<lambda>_. 0) t \<and> pins D p t)"
    if "nsock_pool_add_event call s e = Inl Fatal_exit \<or> (\<exists>t. nsock_pool_add_event call s e = Inr t \<and> pool_wf D 0 (\<lambda>_. 0) t \<and> pins D q t)" for s
    using that pins_trans [OF c(3)] by auto
  from cases [folded m_def] show ?thesis
  proof (elim disjE exE conjE)
    fix f assume f: "rewired (iods q i) (f (iods q i))" "m = Inr (set_iod q i f)" "0 \<le> sd (f (iods q i))"
    have new: "newly D (set_iod q i f) e" by (rule newly_rewired [where f = f, OF c(4) u f(1)])
    have "state (iods q i) \<noteq> NSIOD_STATE_DELETED" using event_new_iods(1) [OF q(1)] st(1) by auto
    then have "addable (set_iod q i f) e" using c(1,2) iq f(3) rewired_sel(6) [OF f(1)]
      by (simp add: addable_def usable_def kind_of_def)
    from add_event_ok [OF new this] have "nsock_pool_add_event call (set_iod q i f) e = Inl Fatal_exit \<or>
      (\<exists>t. nsock_pool_add_event call (set_iod q i f) e = Inr t \<and> pool_wf D 0 (\<lambda>_. 0) t \<and> pins D (set_iod q i f) t)" .
    moreover have "pins D q t" if "pins D (set_iod q i f) t" for t by (rule pins_trans [OF _ that]) (simp add: pins_def)
    ultimately show ?thesis using add [of "set_iod q i f"] f(2) unfolding eq by auto
  next
    fix f err assume f: "rewired (iods q i) (f (iods q i))" "m = Inr (connect_failed (set_iod q i f) e err)"
    have new: "newly D (set_iod q i f) e" by (rule newly_rewired [where f = f, OF c(4) u f(1)])
    from add_failed_ok [OF new, of i err] have "nsock_pool_add_event call (connect_failed (set_iod q i f) e err) e = Inl Fatal_exit \<or>
      (\<exists>t. nsock_pool_add_event call (connect_failed (set_iod q i f) e err) e = Inr t \<and> pool_wf D 0 (\<lambda>_. 0) t \<and> pins D (set_iod q i f) t)"
      using c(1,2) iq by simp
    moreover have "pins D q t" if "pins D (set_iod q i f) t" for t by (rule pins_trans [OF _ that]) (simp add: pins_def)
    ultimately show ?thesis using add [of "connect_failed (set_iod q i f) e err"] f(2) unfolding eq by auto
  qed (simp add: eq)
qed

end

lemma setup_udp_ok:
  assumes wf: "pool_wf D 0 (\<lambda>_. 0) p" and i: "socketless p i"
  shows "\<exists>v q. nsock_setup_udp sys p i af = Inr (v, q) \<and> pool_wf D 0 (\<lambda>_. 0) q \<and> pins D p q \<and> queue q = queue p \<and>
    expirables q = expirables p \<and> free_events q = free_events p"
proof -
  have u: "\<not> registered (iods p i)" using wf i by (auto simp: socketless_def pool_wf_def watch_ok_def)
  have st: "\<not> (state (iods p i) \<noteq> NSIOD_STATE_INITIAL \<and> state (iods p i) \<noteq> NSIOD_STATE_UNKNOWN)" using i by (auto simp: socketless_def)
  have *: "pool_wf D 0 (\<lambda>_. 0) (set_iod p i f) \<and> pins D p (set_iod p i f)" if "rewired (iods p i) (f (iods p i))" for f
    using rewired_wf [where f = f, OF wf u that] by (simp add: pins_def)
  show ?thesis
  proof (cases "sys_socket sys af SOCK_DGRAM IPPROTO_UDP")
    case (Inl err)
    then show ?thesis using * [of "\<lambda>d. d\<lparr>sd := -1\<rparr>"] unfolding nsock_setup_udp_def if_not_P [OF st]
      by (simp add: nsock_make_socket_def rewired_def)
  next
    case (Inr fd)
    then show ?thesis using * [of "\<lambda>d. d\<lparr>sd := fd, lastproto := IPPROTO_UDP\<rparr>"] unfolding nsock_setup_udp_def if_not_P [OF st]
      by (simp add: nsock_make_socket_def rewired_def)
  qed
qed

end
