(* ===== verification/Nsock_Client.thy ===== *)
theory Nsock_Client
  imports Nsock_Connect
begin

text \<open>
  Programs that use the library: every request keeps the invariant of the pool, so do handlers that are
  programs of requests, and with them the whole loop.
\<close>

section \<open>Requests of events\<close>

lemma newly_data:
  assumes new: "newly D p e" and v: "ev_iod (f (events p e)) = ev_iod (events p e)" "\<not> event_done (f (events p e))"
    "written_so_far (f (events p e)) = 0"
  shows "newly D (set_ev p e f) e"
proof -
  have n: "pool_wf D 0 (charge p e) p" "detached D p e" "\<not> gh_hnode_is_valid (expirables p) e"
    using new by (simp_all add: newly_def)
  have "pool_wf D 0 (charge p e) (set_ev p e f)" by (rule fresh_ev [OF n(1)]) (use n(2) in \<open>simp_all add: detached_def\<close>)
  moreover have "charge (set_ev p e f) e = charge p e" by (rule remove_charge) (simp add: v(1))
  moreover have "detached D (set_ev p e f) e" using n(2) by (simp add: detached_def queued_def)
  ultimately show ?thesis using n(3) v(2,3) by (simp add: newly_def unsent_def)
qed

lemma set_ev_id: "set_ev p e (\<lambda>v. v) = p"
  by (simp add: set_ev_def)

definition kept :: "nat set \<Rightarrow> 'h npool \<Rightarrow> ('v \<times> 'h npool) outcome \<Rightarrow> bool" where
  "kept D p m \<longleftrightarrow> m = Inl Fatal_exit \<or> (\<exists>v q. m = Inr (v, q) \<and> pool_wf D 0 (\<lambda>_. 0) q \<and> pins D p q)"

context nsock_client begin

lemma request_ok:
  assumes wf: "pool_wf D 0 (\<lambda>_. 0) p" and ms: "-1 \<le> ms"
    and a: "t = NSE_TYPE_TIMER \<and> iod = None \<and> ms \<noteq> -1 \<or> t \<in> {NSE_TYPE_CONNECT, NSE_TYPE_READ, NSE_TYPE_WRITE} \<and> (\<exists>i. iod = Some i \<and> usable p i)"
    and f: "\<And>v. ev_iod (f v) = ev_iod v \<and> ev_type (f v) = ev_type v \<and> ev_timeout (f v) = ev_timeout v \<and>
      event_done (f v) = event_done v \<and> written_so_far (f v) = written_so_far v"
  shows "kept D p (bind_out (event_new p t iod ms h) (\<lambda>(e, p).
    bind_out (nsock_pool_add_event call (set_ev p e f) e) (\<lambda>q. Inr (g e q, q))))"
proof -
  have "state (iods p i) \<noteq> NSIOD_STATE_DELETED" if "iod = Some i" for i using a that by (auto simp: usable_def)
  from event_new_ok [OF wf ms this] obtain e q where
    q: "event_new p t iod ms h = Inr (e, q)" "created D p t iod ms e q" by blast
  have c: "ev_iod (events q e) = iod" "ev_type (events q e) = t" "\<not> event_done (events q e)" "written_so_far (events q e) = 0"
    "tv_sec (ev_timeout (events q e)) \<noteq> 0 \<longleftrightarrow> ms \<noteq> -1" "pins D p q" "\<And>i. usable q i \<longleftrightarrow> usable p i"
    using q(2) by (simp_all add: created_def)
  have n: "newly D (set_ev q e f) e"
    by (rule newly_data [OF created_newly [OF q(2)]]) (use f c in auto)
  have "usable (set_ev q e f) i \<longleftrightarrow> usable p i" for i using c(7) by (simp add: usable_def)
  then have ad: "addable (set_ev q e f) e" using a c(1,2,5) f by (auto simp: addable_def kind_of_def)
  have "pins D q (set_ev q e f)" using q(2) by (auto simp: pins_def created_def detached_def)
  then have "pins D p (set_ev q e f)" by (rule pins_trans [OF c(6)])
  then show ?thesis using add_event_ok [OF n ad] q(1) pins_trans unfolding kept_def by fastforce
qed

lemma timer_create_ok:
  assumes "pool_wf D 0 (\<lambda>_. 0) p" and "0 \<le> ms"
  shows "kept D p (nsock_timer_create call p h ms)"
  using request_ok [OF assms(1), of ms NSE_TYPE_TIMER None "\<lambda>v. v" h "\<lambda>e q. ev_id (events q e)"] assms(2)
  by (simp add: nsock_timer_create_def set_ev_id)

lemma read_request_ok:
  assumes "pool_wf D 0 (\<lambda>_. 0) p" and "-1 \<le> ms" and "usable p i"
  shows "kept D p (nsock_read_request call p i h ms rt num)"
  using request_ok [OF assms(1,2), of NSE_TYPE_READ "Some i" "\<lambda>v. v\<lparr>read_type := rt, read_num := num\<rparr>" h "\<lambda>e q. ev_id (events q e)"]
    assms(3)
  by (simp add: nsock_read_request_def)

lemma write_ok:
  assumes "pool_wf D 0 (\<lambda>_. 0) p" and "-1 \<le> ms" and "usable p i" and "datalen \<le> int (length data)"
  shows "kept D p (nsock_write call p i h ms data datalen)"
  using request_ok [OF assms(1,2), of NSE_TYPE_WRITE "Some i"
      "\<lambda>v. v\<lparr>iobuf := iobuf v @ (if datalen < 0 then takeWhile (\<lambda>c. c \<noteq> NUL) data else take (nat datalen) data)\<rparr>" h
      "\<lambda>e q. ev_id (events q e)"] assms(3,4)
  by (simp add: nsock_write_def)

end

text \<open>The search for a timer by its identifier looks at all positions of the heap.\<close>

lemma find_timer_ok:
  assumes wf: "pool_wf D x xi p"
  shows "\<exists>r. find_timer p eid i = Inr r \<and>
    (case r of Some e \<Rightarrow> e \<in> in_heap p \<and> ev_id (events p e) = eid
     | None \<Rightarrow> \<forall>j. i \<le> j \<and> j < gh_heap.count (timers p) \<longrightarrow> ev_id (events p (node (timers p) j)) \<noteq> eid)"
  using wf
proof (induction p eid i rule: find_timer.induct)
  case (1 p eid i)
  have ok: "slots_ok (timers p)" using 1(2) by (simp add: pool_wf_def timers_ok_def heap_wf_def)
  show ?case
  proof (cases "i < gh_heap.count (timers p)")
    case False
    then have "\<forall>j. i \<le> j \<and> j < gh_heap.count (timers p) \<longrightarrow> ev_id (events p (node (timers p) j)) \<noteq> eid" by auto
    then show ?thesis using False by (subst find_timer.simps) (simp add: gh_heap_count_def)
  next
    case True
    have f: "gh_heap_find (timers p) i = Inr (Some (node (timers p) i))"
      using wf_slot(3) [OF ok True] True by (simp add: gh_heap_find_def)
    show ?thesis
    proof (cases "ev_id (events p (node (timers p) i)) = eid")
      case e: True
      have "node (timers p) i \<in> heap_nodes (timers p)" using True by (auto simp: heap_nodes_def)
      then have "node (timers p) i \<in> in_heap p" by (simp add: timers_def)
      then show ?thesis using True f e by (subst find_timer.simps) (simp add: gh_heap_count_def)
    next
      case ne: False
      have c: "i < gh_heap_count (timers p)" using True by (simp add: gh_heap_count_def)
      have s: "find_timer p eid i = find_timer p eid (i + 1)" using c f ne by (subst find_timer.simps) simp
      obtain r where r: "find_timer p eid (i + 1) = Inr r"
        "case r of Some e \<Rightarrow> e \<in> in_heap p \<and> ev_id (events p e) = eid
         | None \<Rightarrow> \<forall>j. i + 1 \<le> j \<and> j < gh_heap.count (timers p) \<longrightarrow> ev_id (events p (node (timers p) j)) \<noteq> eid"
        using 1(1) [OF c f refl ne 1(2)] by blast
      have "\<forall>j. i \<le> j \<and> j < gh_heap.count (timers p) \<longrightarrow> ev_id (events p (node (timers p) j)) \<noteq> eid" if "r = None"
      proof (intro allI impI)
        fix j assume j: "i \<le> j \<and> j < gh_heap.count (timers p)"
        show "ev_id (events p (node (timers p) j)) \<noteq> eid" using r(2) that ne j by (cases "j = i") simp_all
      qed
      then show ?thesis using r unfolding s by (cases r) simp_all
    qed
  qed
qed

section \<open>New iods\<close>

lemma free_iods_wf:
  assumes "pool_wf D x xi p" and "distinct l" and "set l \<inter> set (active_iods p) = {}"
  shows "pool_wf D x xi (p\<lparr>free_iods := l\<rparr>)"
  using assms
  by (auto simp: pool_wf_def lists_ok_def firsts_ok_def timers_ok_def done_ok_def counts_ok_def watch_ok_def clock_ok_def
      writes_ok_def queued_def opens_def open_evs_def timers_def)

lemma add_iod_wf:
  assumes wf: "pool_wf D 0 (\<lambda>_. 0) p" and j: "j \<notin> set (active_iods p)" "j \<notin> set (free_iods p)"
    and d: "first_ev d = (\<lambda>_. None)" "iod_pending d = 0" "readsd_count d = 0" "writesd_count d = 0" "\<not> registered d"
  defines "q \<equiv> set_iod (p\<lparr>active_iods := active_iods p @ [j]\<rparr>) j (\<lambda>_. d)"
  shows "pool_wf D 0 (\<lambda>_. 0) q"
proof -
  have lo: "lists_ok p" and fo: "firsts_ok p" using wf by (simp_all add: pool_wf_def)
  have f: "queue q = queue p" "expirables q = expirables p" "active_iods q = active_iods p @ [j]" "free_iods q = free_iods p"
    "free_events q = free_events p" "pool_pending q = pool_pending p" "nsock_tod q = nsock_tod p" "ev_brk q = ev_brk p"
    "clock q = clock p" "events q = events p" "\<And>i. iods q i = (if i = j then d else iods p i)" by (simp_all add: q_def)
  have qd: "queued q = queued p" "opens q = opens p" "open_evs q = open_evs p" "timers q = timers p"
    by (simp_all add: queued_def opens_def open_evs_def fun_eq_iff timers_def f)
  have nj: "ev_iod (events p e) \<noteq> Some j" if "e \<in> set (queue p k)" for e k
    using lo that j(1) unfolding lists_ok_def by (metis option.inject)
  have oj: "open_evs p j k = {}" for k using nj by (auto simp: open_evs_def)
  have fj: "find (\<lambda>e. ev_iod (events p e) = Some j) (queue p k) = None" for k using nj by (auto simp: find_None_iff)
  show ?thesis unfolding pool_wf_def
  proof (intro conjI)
    have "distinct (active_iods p @ [j])" "set (active_iods p @ [j]) \<inter> set (free_iods p) = {}"
      using lo j by (auto simp: lists_ok_def)
    then show "lists_ok q" using lo unfolding lists_ok_def f qd by (auto; metis)
    show "firsts_ok q" using fo d(1) fj by (auto simp: firsts_ok_def f)
    show "timers_ok q" using wf unfolding pool_wf_def timers_ok_def f qd by blast
    show "done_ok D q" using wf unfolding pool_wf_def done_ok_def f qd by blast
    show "counts_ok 0 (\<lambda>_. 0) q" using wf d(2-4) oj by (auto simp: pool_wf_def counts_ok_def f qd)
    show "watch_ok q" using wf d(3-5) oj by (auto simp: pool_wf_def watch_ok_def f qd)
    show "clock_ok q" using wf unfolding pool_wf_def clock_ok_def f by blast
    show "writes_ok q" using wf unfolding pool_wf_def writes_ok_def f qd by blast
  qed
qed

lemma iod_new_ok:
  assumes wf: "pool_wf D 0 (\<lambda>_. 0) p" and addr: "addr \<notin> set (active_iods p) \<union> set (free_iods p)"
    and new: "nsock_iod_new2 p addr fd dup answers = (r, q)" and fd: "fd = -1 \<or> 0 \<le> fd" and dup: "dup = -1 \<or> 0 \<le> dup"
  shows "pool_wf D 0 (\<lambda>_. 0) q" "pins D p q" "free_events q = free_events p"
    "r = Some i \<Longrightarrow> i \<in> set (active_iods q) \<and> i \<notin> set (active_iods p) \<and> (usable q i \<longleftrightarrow> fd \<noteq> -1)"
proof -
  define j where "j = (case free_iods p of [] \<Rightarrow> addr | j # r \<Rightarrow> j)"
  define p1 where "p1 = (case free_iods p of [] \<Rightarrow> p | j # r \<Rightarrow> p\<lparr>free_iods := r\<rparr>)"
  have lo: "lists_ok p" using wf by (simp add: pool_wf_def)
  have j: "j \<notin> set (active_iods p)" "j \<notin> set (free_iods p1)"
    using addr lo by (auto simp: j_def p1_def lists_ok_def split: list.split)
  have fr: "distinct (free_iods p1)" "set (free_iods p1) \<inter> set (active_iods p) = {}"
    using lo by (auto simp: p1_def lists_ok_def split: list.split)
  have f1: "queue p1 = queue p" "expirables p1 = expirables p" "active_iods p1 = active_iods p" "free_events p1 = free_events p"
    "pool_pending p1 = pool_pending p" "nsock_tod p1 = nsock_tod p" "ev_brk p1 = ev_brk p" "clock p1 = clock p"
    "events p1 = events p" "iods p1 = iods p"
    by (simp_all add: p1_def split: list.split)
  define d0 where "d0 = \<lparr>sd = -1, iod_pending = 0, first_ev = (\<lambda>_. None), readsd_count = 0, writesd_count = 0,
               watched_events = 0, state = NSIOD_STATE_INITIAL, registered = False, iod_eof = False, iod_stdin = False,
               read_count = 0, write_count = 0, in_reads = in_reads answers, out_writes = out_writes answers,
               so_error = so_error answers, sent = [],
               peer = \<lparr>ss_family = AF_UNSPEC, ss_port = 0, ss_data = []\<rparr>, peerlen = 0, lastproto = 0\<rparr>"
  define d where "d = (if fd = -1 then d0 else if fd = STDIN_FILENO then d0\<lparr>sd := STDIN_FILENO, state := NSIOD_STATE_UNKNOWN\<rparr>
     else d0\<lparr>sd := dup, state := NSIOD_STATE_UNKNOWN\<rparr>)"
  have n: "nsock_iod_new2 p addr fd dup answers =
     (if fd \<noteq> -1 \<and> fd \<noteq> STDIN_FILENO \<and> dup = -1 then (None, p1)
      else (Some j, set_iod (p1\<lparr>active_iods := active_iods p1 @ [j]\<rparr>) j (\<lambda>_. d)))"
    by (simp add: nsock_iod_new2_def Let_def j_def p1_def d_def d0_def split: list.split)
  have w1: "pool_wf D 0 (\<lambda>_. 0) p1"
    using free_iods_wf [OF wf, of "free_iods p1"] fr wf by (auto simp: p1_def split: list.split)
  have pi: "pins D p p1" by (simp add: pins_def f1)
  have "j \<notin> set (active_iods p1)" using j(1) by (simp add: f1)
  then have w2: "pool_wf D 0 (\<lambda>_. 0) (set_iod (p1\<lparr>active_iods := active_iods p1 @ [j]\<rparr>) j (\<lambda>_. d))"
    using j(2) by (intro add_iod_wf [OF w1]) (simp_all add: d_def d0_def)
  have q: "q = p1 \<or> q = set_iod (p1\<lparr>active_iods := active_iods p1 @ [j]\<rparr>) j (\<lambda>_. d)" using new unfolding n by (auto split: if_splits)
  show "pool_wf D 0 (\<lambda>_. 0) q" using q w1 w2 by blast
  show "pins D p q" using q pi by (auto simp: pins_def f1)
  show "free_events q = free_events p" using q f1(4) by auto
  show "i \<in> set (active_iods q) \<and> i \<notin> set (active_iods p) \<and> (usable q i \<longleftrightarrow> fd \<noteq> -1)" if "r = Some i"
    using new that j(1) fd dup unfolding n by (auto simp: usable_def f1 d_def d0_def STDIN_FILENO_def split: if_splits)
qed

section \<open>Cancelling\<close>

context nsock_client begin

lemma event_cancel_ok:
  assumes wf: "pool_wf D 0 (\<lambda>_. 0) p"
  shows "kept D p (nsock_event_cancel call p eid notify)"
proof -
  have none: "kept D p (Inr (0, p))" using wf by (simp add: kept_def)
  have del: "kept D p (nevent_delete call p e notify)" if "e \<in> queued p \<union> in_heap p" for e
    using nevent_delete_ok [OF wf that] by (simp add: kept_def)
  show ?thesis
  proof (cases "get_event_id_type eid")
    case None
    then show ?thesis by (simp add: nsock_event_cancel_def kept_def)
  next
    case (Some t)
    obtain r where r: "find_timer p eid 0 = Inr r" "\<forall>e. r = Some e \<longrightarrow> e \<in> in_heap p"
      using find_timer_ok [OF wf, of eid 0] by (fastforce split: option.splits)
    have timer: "kept D p (bind_out (find_timer p eid 0) (\<lambda>r. case r of None \<Rightarrow> Inr (0, p) | Some nse \<Rightarrow> nevent_delete call p nse notify))"
      using r none del by (cases r) simp_all
    have list: "kept D p (case find (\<lambda>nse. ev_id (events p nse) = eid) (queue p k) of
        None \<Rightarrow> Inr (0, p) | Some nse \<Rightarrow> nevent_delete call p nse notify)" for k
    proof (cases "find (\<lambda>nse. ev_id (events p nse) = eid) (queue p k)")
      case (Some e)
      then have "e \<in> queued p" by (auto simp: queued_def dest: find_SomeD)
      then show ?thesis using del Some by simp
    qed (simp add: none)
    show ?thesis using Some timer list by (cases t) (simp_all add: nsock_event_cancel_def kind_of_def kept_def)
  qed
qed

end

text \<open>A handler that is told that its event was cancelled takes no structure from the free ones.\<close>

definition frees_only :: "'h handlers \<Rightarrow> bool" where
  "frees_only call \<longleftrightarrow>
     (\<forall>D h e p q. pool_wf D 0 (\<lambda>_. 0) p \<longrightarrow> ev_status (events p e) = NSE_STATUS_CANCELLED \<longrightarrow> call h e p = Inr q \<longrightarrow>
        set (free_events p) \<subseteq> set (free_events q))"

lemma event_delete_free [simp]: "free_events (event_delete p e) = free_events p"
  by (simp add: event_delete_def)

lemma nevent_delete_free:
  assumes fo: "frees_only call" and wf: "pool_wf D 0 (\<lambda>_. 0) p" and e: "e \<in> queued p \<union> in_heap p"
    and r: "nevent_delete call p e notify = Inr (v, q)"
  shows "set (free_events p) \<subseteq> set (free_events q)"
proof (cases "event_done (events p e)")
  case True
  then show ?thesis using r by (simp add: nevent_delete_def)
next
  case False
  from cancel_prepared [OF wf e False] r False obtain s where
    s: "pool_wf D 1 (charge s e) s" "event_done (events s e)" "ev_status (events s e) = NSE_STATUS_CANCELLED"
      "ev_iod (events s e) = ev_iod (events p e)" "active_iods s = active_iods p" "free_events s = free_events p @ [e]"
      "event_dispatch_and_delete call s e notify = Inr q"
    by (auto simp: nevent_delete_def bind_out_def split: sum.splits)
  have act: "i \<in> set (active_iods s)" if "ev_iod (events s e) = Some i" for i
    using wf e by (cases rule: queue_or_timer) (use that s(4,5) in auto)
  from dispatch_counts [OF s(1) act s(2), of call notify] obtain t where
    t: "pool_wf D 0 (\<lambda>_. 0) t" "events t = events s" "free_events t = free_events s"
      "event_dispatch_and_delete call s e notify = bind_out
         (if notify then call (ev_handler (events s e)) e
            (t\<lparr>calls := calls t @ [(ev_handler (events s e), ev_id (events s e), ev_status (events s e))]\<rparr>)
          else Inr t) (\<lambda>p. Inr (event_delete p e))" by blast
  define t' where "t' = t\<lparr>calls := calls t @ [(ev_handler (events s e), ev_id (events s e), ev_status (events s e))]\<rparr>"
  have t': "pool_wf D 0 (\<lambda>_. 0) t'" "ev_status (events t' e) = NSE_STATUS_CANCELLED" "free_events t' = free_events s"
    using t(1-3) s(3) by (simp_all add: t'_def)
  show ?thesis
  proof (cases notify)
    case True
    then obtain u where u: "call (ev_handler (events s e)) e t' = Inr u" "q = event_delete u e"
      using t(4) s(7) unfolding t'_def [symmetric] by (auto simp: bind_out_def split: sum.splits)
    have "set (free_events t') \<subseteq> set (free_events u)" using fo t'(1,2) u(1) unfolding frees_only_def by blast
    then show ?thesis using u(2) t'(3) s(6) by simp
  next
    case False
    then have "q = event_delete t e" using t(4) s(7) by simp
    then show ?thesis using t(3) s(6) by auto
  qed
qed

lemma event_cancel_free:
  assumes fo: "frees_only call" and wf: "pool_wf D 0 (\<lambda>_. 0) p" and r: "nsock_event_cancel call p eid notify = Inr (v, q)"
  shows "set (free_events p) \<subseteq> set (free_events q)"
proof -
  have "q = p \<or> (\<exists>e \<in> queued p \<union> in_heap p. nevent_delete call p e notify = Inr (v, q))"
  proof (cases "get_event_id_type eid")
    case None
    then show ?thesis using r by (simp add: nsock_event_cancel_def)
  next
    case (Some t)
    obtain x where x: "find_timer p eid 0 = Inr x" "\<forall>e. x = Some e \<longrightarrow> e \<in> in_heap p"
      using find_timer_ok [OF wf, of eid 0] by (fastforce split: option.splits)
    have list: "q = p \<or> (\<exists>e \<in> queued p \<union> in_heap p. nevent_delete call p e notify = Inr (v, q))"
      if "(case find (\<lambda>nse. ev_id (events p nse) = eid) (queue p k) of
        None \<Rightarrow> Inr (0, p) | Some nse \<Rightarrow> nevent_delete call p nse notify) = Inr (v, q)" for k
      using that by (auto simp: queued_def split: option.splits dest: find_SomeD)
    show ?thesis
    proof (cases "t = NSE_TYPE_TIMER")
      case True
      then show ?thesis using Some r x by (cases x) (auto simp: nsock_event_cancel_def)
    next
      case False
      then show ?thesis using Some r list by (cases t) (auto simp: nsock_event_cancel_def kind_of_def)
    qed
  qed
  then show ?thesis using nevent_delete_free [OF fo wf] by blast
qed

section \<open>Programs\<close>

text \<open>
  What a program asks of the library.  \<open>New_iod\<close> has the address of a new structure, the duplicate of the
  descriptor and what the system will answer on it.
\<close>

datatype 'h nsock_call =
    Create_timer 'h int
  | Read_lines nat 'h int int
  | Read_bytes nat 'h int int
  | Read_any nat 'h int
  | Write_data nat 'h int cstr int
  | Connect_tcp net nat 'h int sockaddr_storage nat int
  | Connect_sctp net nat 'h int sockaddr_storage nat int
  | Connect_udp net nat 'h sockaddr_storage nat int
  | Connect_unix_stream net nat 'h int sockaddr_storage nat
  | Connect_unix_dgram net nat 'h sockaddr_storage nat
  | Connect_vsock_stream net nat 'h int sockaddr_storage nat int
  | Connect_vsock_dgram net nat 'h sockaddr_storage nat int
  | Setup_udp net nat sa_family
  | Cancel_event u64 bool
  | New_iod nat int int niod
  | Delete_iod nat
  | Quit_loop

text \<open>A program goes on as the results are: identifiers of events and iods, or whether something was cancelled.\<close>

datatype 'h program = Finished | Ask "'h nsock_call" "int \<Rightarrow> 'h program"

text \<open>
  The documented use of the library: iods that exist and were not deleted, timeouts that are not negative (-1 for none,
  which a timer must not have), data that is there, structures that are new; a socket is made only for an iod that has none.  A handler that is told that its event was
  cancelled must not create events, since the library has already put the structure of the event among the free ones.
\<close>

definition creates_event :: "'h nsock_call \<Rightarrow> bool" where
  "creates_event r \<longleftrightarrow> (case r of Cancel_event _ _ \<Rightarrow> False | New_iod _ _ _ _ \<Rightarrow> False | Delete_iod _ \<Rightarrow> False
     | Setup_udp _ _ _ \<Rightarrow> False | Quit_loop \<Rightarrow> False | _ \<Rightarrow> True)"

definition can_connect :: "net \<Rightarrow> 'h npool \<Rightarrow> nat \<Rightarrow> int \<Rightarrow> sock_type \<Rightarrow> int \<Rightarrow> sockaddr_storage \<Rightarrow> nat \<Rightarrow> bool" where
  "can_connect sys p i ms ty proto ss sslen \<longleftrightarrow>
     socketless p i \<and> -1 \<le> ms \<and> sslen \<le> SOCKADDR_STORAGE_SIZE \<and> sound_net sys (ss_family ss) ty proto"

definition permitted :: "'h npool \<Rightarrow> 'h nsock_call \<Rightarrow> bool" where
  "permitted p r \<longleftrightarrow>
     (case r of
        Create_timer h ms \<Rightarrow> 0 \<le> ms
      | Read_lines i h ms n \<Rightarrow> usable p i \<and> -1 \<le> ms
      | Read_bytes i h ms n \<Rightarrow> usable p i \<and> -1 \<le> ms
      | Read_any i h ms \<Rightarrow> usable p i \<and> -1 \<le> ms
      | Write_data i h ms d len \<Rightarrow> usable p i \<and> -1 \<le> ms \<and> len \<le> int (length d)
      | Connect_tcp sys i h ms ss n port \<Rightarrow> can_connect sys p i ms SOCK_STREAM IPPROTO_TCP ss n
      | Connect_sctp sys i h ms ss n port \<Rightarrow> can_connect sys p i ms SOCK_STREAM IPPROTO_SCTP ss n
      | Connect_udp sys i h ss n port \<Rightarrow> can_connect sys p i (-1) SOCK_DGRAM IPPROTO_UDP ss n
      | Connect_unix_stream sys i h ms ss n \<Rightarrow> can_connect sys p i ms SOCK_STREAM 0 ss n
      | Connect_unix_dgram sys i h ss n \<Rightarrow> can_connect sys p i (-1) SOCK_DGRAM 0 ss n
      | Connect_vsock_stream sys i h ms ss n port \<Rightarrow> can_connect sys p i ms SOCK_STREAM 0 ss n
      | Connect_vsock_dgram sys i h ss n port \<Rightarrow> can_connect sys p i (-1) SOCK_DGRAM 0 ss n
      | Setup_udp sys i af \<Rightarrow> socketless p i \<and> sound_net sys af SOCK_DGRAM IPPROTO_UDP
      | Cancel_event eid notify \<Rightarrow> True
      | New_iod addr fd dup answers \<Rightarrow>
          addr \<notin> set (active_iods p) \<union> set (free_iods p) \<and> (fd = -1 \<or> 0 \<le> fd) \<and> (dup = -1 \<or> 0 \<le> dup)
      | Delete_iod i \<Rightarrow> i \<in> set (active_iods p)
      | Quit_loop \<Rightarrow> True)"

definition nsock_loop_quit :: "'h npool \<Rightarrow> 'h npool" where
  "nsock_loop_quit p = p\<lparr>quit := True\<rparr>"

text \<open>A deletion that would not return has no result; this is shown not to happen.\<close>

definition perform :: "'h handlers \<Rightarrow> 'h npool \<Rightarrow> 'h nsock_call \<Rightarrow> (int \<times> 'h npool) outcome" where
  "perform call p r =
     (case r of
        Create_timer h ms \<Rightarrow> map_sum id (map_prod uint id) (nsock_timer_create call p h ms)
      | Read_lines i h ms n \<Rightarrow> map_sum id (map_prod uint id) (nsock_readlines call p i h ms n)
      | Read_bytes i h ms n \<Rightarrow> map_sum id (map_prod uint id) (nsock_readbytes call p i h ms n)
      | Read_any i h ms \<Rightarrow> map_sum id (map_prod uint id) (nsock_read call p i h ms)
      | Write_data i h ms d len \<Rightarrow> map_sum id (map_prod uint id) (nsock_write call p i h ms d len)
      | Connect_tcp sys i h ms ss n port \<Rightarrow> map_sum id (map_prod uint id) (nsock_connect_tcp call sys p i h ms ss n port)
      | Connect_sctp sys i h ms ss n port \<Rightarrow> map_sum id (map_prod uint id) (nsock_connect_sctp call sys p i h ms ss n port)
      | Connect_udp sys i h ss n port \<Rightarrow> map_sum id (map_prod uint id) (nsock_connect_udp call sys p i h ss n port)
      | Connect_unix_stream sys i h ms ss n \<Rightarrow> map_sum id (map_prod uint id) (nsock_connect_unixsock_stream call sys p i h ms ss n)
      | Connect_unix_dgram sys i h ss n \<Rightarrow> map_sum id (map_prod uint id) (nsock_connect_unixsock_datagram call sys p i h ss n)
      | Connect_vsock_stream sys i h ms ss n port \<Rightarrow> map_sum id (map_prod uint id) (nsock_connect_vsock_stream call sys p i h ms ss n port)
      | Connect_vsock_dgram sys i h ss n port \<Rightarrow> map_sum id (map_prod uint id) (nsock_connect_vsock_datagram call sys p i h ss n port)
      | Setup_udp sys i af \<Rightarrow> nsock_setup_udp sys p i af
      | Cancel_event eid notify \<Rightarrow> nsock_event_cancel call p eid notify
      | New_iod addr fd dup answers \<Rightarrow>
          (case nsock_iod_new2 p addr fd dup answers of (r, p) \<Rightarrow> Inr (case r of None \<Rightarrow> 0 | Some i \<Rightarrow> int i, p))
      | Delete_iod i \<Rightarrow>
          (case nsock_iod_delete call p i NSOCK_PENDING_SILENT of
             None \<Rightarrow> Inl Assert_failed
           | Some m \<Rightarrow> map_sum id (Pair 0) m)
      | Quit_loop \<Rightarrow> Inr (0, nsock_loop_quit p))"

text \<open>The requests that are not permitted are skipped.\<close>

primrec exec :: "'h handlers \<Rightarrow> bool \<Rightarrow> 'h program \<Rightarrow> 'h npool \<Rightarrow> 'h npool outcome" where
  "exec call cancelled Finished p = Inr p"
| "exec call cancelled (Ask r k) p =
     (if permitted p r \<and> \<not> (cancelled \<and> creates_event r)
      then bind_out (perform call p r) (\<lambda>(v, p). exec call cancelled (k v) p)
      else exec call cancelled (k 0) p)"

text \<open>The handlers of a program; \<open>n\<close> bounds the nesting of their calls, and the process ends where the stack does.\<close>

primrec handlers_of :: "('h \<Rightarrow> 'h nevent \<Rightarrow> 'h program) \<Rightarrow> nat \<Rightarrow> 'h handlers" where
  "handlers_of prog 0 = (\<lambda>h e p. Inl Fatal_exit)"
| "handlers_of prog (Suc n) =
     (\<lambda>h e p. exec (handlers_of prog n) (ev_status (events p e) = NSE_STATUS_CANCELLED) (prog h (events p e)) p)"

lemma nsock_loop_quit_wf: "pool_wf D x xi p \<Longrightarrow> pool_wf D x xi (nsock_loop_quit p)"
  by (auto simp: nsock_loop_quit_def pool_wf_def lists_ok_def firsts_ok_def timers_ok_def done_ok_def counts_ok_def watch_ok_def
      clock_ok_def writes_ok_def queued_def opens_def open_evs_def timers_def)

lemmas connect_defs = can_connect_def nsock_connect_tcp_def nsock_connect_sctp_def nsock_connect_udp_def nsock_connect_unixsock_stream_def
  nsock_connect_unixsock_datagram_def nsock_connect_vsock_stream_def nsock_connect_vsock_datagram_def

lemma kept_map: "kept D p m \<Longrightarrow> kept D p (map_sum id (map_prod f id) m)"
  by (auto simp: kept_def)

context nsock_client begin

lemma connect_kept:
  assumes "pool_wf D 0 (\<lambda>_. 0) p" and "-1 \<le> ms" and "socketless p i" and "sslen \<le> SOCKADDR_STORAGE_SIZE"
    and "sound_net sys (ss_family ss) ty proto"
  shows "kept D p (nsock_connect call sys p i h ms ty proto ss sslen port)"
  using connect_ok [OF assms] by (simp add: kept_def)

lemma perform_ok:
  assumes wf: "pool_wf D 0 (\<lambda>_. 0) p" and ok: "permitted p r"
  shows "kept D p (perform call p r)"
proof (cases r)
  case (New_iod addr fd dup answers)
  obtain s q where n: "nsock_iod_new2 p addr fd dup answers = (s, q)" by fastforce
  show ?thesis using iod_new_ok(1,2) [OF wf _ n] ok New_iod n by (simp add: permitted_def perform_def kept_def)
next
  case (Delete_iod i)
  then have i: "i \<in> set (active_iods p)" using ok by (simp add: permitted_def)
  show ?thesis using silent_iod_delete [OF wf i, of call] Delete_iod by (auto simp: perform_def kept_def)
next
  case Quit_loop
  then show ?thesis using nsock_loop_quit_wf [OF wf] by (simp add: perform_def kept_def pins_def nsock_loop_quit_def)
next
  case (Setup_udp sys i af)
  then have "socketless p i" using ok by (simp add: permitted_def)
  from setup_udp_ok [OF wf this, of sys af] show ?thesis using Setup_udp by (auto simp: perform_def kept_def)
qed (use ok in \<open>auto simp: permitted_def perform_def nsock_readlines_def nsock_readbytes_def nsock_read_def connect_defs
    intro: kept_map timer_create_ok read_request_ok write_ok event_cancel_ok connect_kept wf\<close>)

lemma exec_ok: "pool_wf D 0 (\<lambda>_. 0) p \<Longrightarrow> keeps D p (exec call c prog p)"
proof (induction prog arbitrary: p)
  case Finished
  then show ?case by (simp add: keeps_def)
next
  case (Ask r k)
  show ?case
  proof (cases "permitted p r \<and> \<not> (c \<and> creates_event r)")
    case True
    then have "kept D p (perform call p r)" using perform_ok Ask.prems by blast
    then show ?thesis using True Ask.IH [OF rangeI] unfolding kept_def
      by (elim disjE exE conjE) (simp_all add: keeps_def [of _ _ "Inl _"] keeps_trans)
  next
    case False
    show ?thesis unfolding exec.simps if_not_P [OF False] by (rule Ask.IH [OF rangeI Ask.prems])
  qed
qed

end

lemma perform_free:
  assumes fo: "frees_only call" and wf: "pool_wf D 0 (\<lambda>_. 0) p" and ok: "permitted p r" "\<not> creates_event r"
    and q: "perform call p r = Inr (v, q)"
  shows "set (free_events p) \<subseteq> set (free_events q)"
proof (cases r)
  case (New_iod addr fd dup answers)
  obtain s t where n: "nsock_iod_new2 p addr fd dup answers = (s, t)" by fastforce
  then show ?thesis using iod_new_ok(3) [OF wf _ n] ok New_iod q by (simp add: permitted_def perform_def)
next
  case (Delete_iod i)
  then have i: "i \<in> set (active_iods p)" using ok by (simp add: permitted_def)
  from silent_iod_delete [OF wf i, of call] show ?thesis using q Delete_iod by (auto simp: perform_def iod_gone_def shrunk_def)
next
  case Quit_loop
  then show ?thesis using q by (auto simp: perform_def nsock_loop_quit_def)
next
  case (Setup_udp sys i af)
  then have "socketless p i" using ok by (simp add: permitted_def)
  from setup_udp_ok [OF wf this, of sys af] show ?thesis using q Setup_udp by (auto simp: perform_def)
next
  case (Cancel_event eid notify)
  then show ?thesis using event_cancel_free [OF fo wf] q by (simp add: perform_def)
qed (use ok in \<open>simp_all add: creates_event_def\<close>)

lemma exec_free:
  assumes c: "nsock_client call" and fo: "frees_only call"
  shows "pool_wf D 0 (\<lambda>_. 0) p \<Longrightarrow> exec call True prog p = Inr q \<Longrightarrow> set (free_events p) \<subseteq> set (free_events q)"
proof (induction prog arbitrary: p)
  case (Ask r k)
  show ?case
  proof (cases "permitted p r \<and> \<not> creates_event r")
    case True
    then have p: "permitted p r" "\<not> creates_event r" by simp_all
    then obtain v s where s: "perform call p r = Inr (v, s)" "exec call True (k v) s = Inr q"
      using Ask.prems(2) by (cases "perform call p r") auto
    have "pool_wf D 0 (\<lambda>_. 0) s" using nsock_client.perform_ok [OF c Ask.prems(1) p(1)] s(1) by (simp add: kept_def)
    from Ask.IH [OF rangeI this s(2)] show ?thesis using perform_free [OF fo Ask.prems(1) p s(1)] by blast
  next
    case False
    then have "exec call True (k 0) p = Inr q" using Ask.prems(2) by (simp split: if_splits)
    then show ?thesis using Ask.IH [OF rangeI Ask.prems(1)] by blast
  qed
qed simp

text \<open>The handlers of every program are what the lemmas on the pool suppose of handlers.\<close>

lemma handlers_of_client: "nsock_client (handlers_of prog n) \<and> frees_only (handlers_of prog n)"
proof (induction n)
  case 0
  show ?case by (simp add: nsock_client_def frees_only_def keeps_def)
next
  case (Suc n)
  then have c: "nsock_client (handlers_of prog n)" and f: "frees_only (handlers_of prog n)" by blast+
  have "frees_only (handlers_of prog (Suc n))"
    unfolding frees_only_def using exec_free [OF c f] by auto
  moreover from this have "nsock_client (handlers_of prog (Suc n))"
    using nsock_client.exec_ok [OF c] unfolding nsock_client_def frees_only_def handlers_of.simps by blast
  ultimately show ?case by blast
qed

interpretation client: nsock_client "handlers_of prog n" for prog :: "'h \<Rightarrow> 'h nevent \<Rightarrow> 'h program" and n
  using handlers_of_client by blast

end
