(* ===== verification/Nsock_Loop.thy ===== *)
theory Nsock_Loop
  imports Nsock_Client
begin

text \<open>
  A pool from its creation on, and the loop: the pools a program can reach keep the invariant and no assertion of
  the library fails, and a round of the loop leaves no expired event behind.
\<close>

section \<open>A new pool\<close>

text \<open>
  The arguments are what the memory of the process holds, the next address for an event, what was in the sets that
  \<open>select_init\<close> leaves alone, and the times the clock is going to show.
\<close>

definition select_init :: "int set \<Rightarrow> select_engine_info" where
  "select_init junk =
     \<lparr>fds_master_r = {}, fds_master_w = {}, fds_master_x = {},
      fds_results_r = junk, fds_results_w = junk, fds_results_x = junk, max_sd = -1\<rparr>"

definition nsock_pool_new ::
  "(nat \<Rightarrow> 'h nevent) \<Rightarrow> (nat \<Rightarrow> niod) \<Rightarrow> (nat \<Rightarrow> nat) \<Rightarrow> nat \<Rightarrow> int set \<Rightarrow> timeval list \<Rightarrow> 'h npool outcome" where
  "nsock_pool_new mem_ev mem_iod mem_idx brk junk tods =
     (case gh_heap_init (Some (expirable_cmp (\<lambda>e. ev_timeout (mem_ev e)))) mem_idx of
        Inl e \<Rightarrow> Inl e
      | Inr (_, None) \<Rightarrow> Inl Null_deref
      | Inr (_, Some h) \<Rightarrow>
          Inr (gettimeofday
            \<lparr>events = mem_ev, iods = mem_iod, queue = (\<lambda>_. []), expirables = h, active_iods = [], free_iods = [],
             free_events = [], pool_pending = 0, next_event_serial = 1, quit = False, nsock_tod = Timeval 0 0,
             sinfo = select_init junk, ev_brk = brk, clock = tods, calls = []\<rparr>))"

section \<open>The loop\<close>

datatype nsock_loopstatus = NSOCK_LOOP_NOEVENTS | NSOCK_LOOP_TIMEOUT | NSOCK_LOOP_ERROR | NSOCK_LOOP_QUIT

text \<open>\<open>sys n\<close> is what the system answers in round \<open>n\<close>.\<close>

type_synonym answers = "int \<Rightarrow> errno + int set \<times> int set \<times> int set"

partial_function (option) loop_rounds ::
  "'h handlers \<Rightarrow> timeval \<Rightarrow> int \<Rightarrow> (nat \<Rightarrow> answers) \<Rightarrow> nat \<Rightarrow> 'h npool \<Rightarrow> (nsock_loopstatus \<times> 'h npool) outcome option" where
  "loop_rounds call loop_timeout msec_timeout sys n p =
     (if quit p then Some (Inr (NSOCK_LOOP_QUIT, p\<lparr>quit := False\<rparr>))
      else if pool_pending p = 0 then Some (Inr (NSOCK_LOOP_NOEVENTS, p))
      else let msecs_left = (if msec_timeout \<ge> 0 then max 0 (TIMEVAL_MSEC_SUBTRACT loop_timeout (nsock_tod p)) else msec_timeout)
           in if msec_timeout \<ge> 0 \<and> msecs_left = 0 \<and> n > 0 then Some (Inr (NSOCK_LOOP_TIMEOUT, p))
              else (case select_loop call p msecs_left (sys n) of
                      None \<Rightarrow> None
                    | Some (Inl e) \<Rightarrow> Some (Inl e)
                    | Some (Inr (r, p)) \<Rightarrow>
                        if r = -1 then Some (Inr (NSOCK_LOOP_ERROR, p))
                        else loop_rounds call loop_timeout msec_timeout sys (n + 1) (gettimeofday p)))"

definition nsock_loop ::
  "'h handlers \<Rightarrow> 'h npool \<Rightarrow> int \<Rightarrow> (nat \<Rightarrow> answers) \<Rightarrow> (nsock_loopstatus \<times> 'h npool) outcome option" where
  "nsock_loop call p msec_timeout sys =
     (let p = gettimeofday p
      in if msec_timeout < -1 then Some (Inr (NSOCK_LOOP_ERROR, p))
         else loop_rounds call (TIMEVAL_MSEC_ADD (nsock_tod p) msec_timeout) msec_timeout sys 0 p)"

section \<open>The pools of a program\<close>

lemma pool_new_ok:
  assumes "nsock_pool_new mem_ev mem_iod idx brk junk tods = Inr p" and "tods \<noteq> []" and "\<forall>t \<in> set tods. sane_time t"
  shows "pool_wf {} 0 (\<lambda>_. 0) p"
proof -
  let ?h = "\<lparr>cmp_op = Some (expirable_cmp (\<lambda>e. ev_timeout (mem_ev e))), gh_heap.count = 0, highwm = 128, slots = replicate 128 None,
    hindex = idx\<rparr>"
  have h: "heap_wf (expirable_cmp (\<lambda>e. ev_timeout (mem_ev e))) ?h \<and> heap_nodes ?h = {}"
    using init_wf [OF gh_heap_init_eq [of "expirable_cmp (\<lambda>e. ev_timeout (mem_ev e))" idx]] by blast
  obtain t r where t: "tods = t # r" using assms(2) by (cases tods) simp_all
  have p: "p = \<lparr>events = mem_ev, iods = mem_iod, queue = (\<lambda>_. []), expirables = ?h, active_iods = [], free_iods = [],
             free_events = [], pool_pending = 0, next_event_serial = 1, quit = False, nsock_tod = t,
             sinfo = select_init junk, ev_brk = brk, clock = r, calls = []\<rparr>"
    using assms(1) by (simp add: nsock_pool_new_def gh_heap_init_eq gettimeofday_def t)
  show ?thesis using h assms(3)
    by (simp add: p t pool_wf_def lists_ok_def firsts_ok_def timers_ok_def done_ok_def counts_ok_def watch_ok_def clock_ok_def
        writes_ok_def queued_def opens_def open_evs_def timers_def)
qed

lemma sinfo_wf [simp]: "pool_wf D x xi (p\<lparr>sinfo := s\<rparr>) \<longleftrightarrow> pool_wf D x xi p"
  by (simp add: pool_wf_def lists_ok_def firsts_ok_def timers_ok_def done_ok_def counts_ok_def watch_ok_def
      clock_ok_def writes_ok_def queued_def opens_def open_evs_def timers_def)

lemma quit_wf [simp]: "pool_wf D x xi (p\<lparr>quit := b\<rparr>) \<longleftrightarrow> pool_wf D x xi p"
  by (simp add: pool_wf_def lists_ok_def firsts_ok_def timers_ok_def done_ok_def counts_ok_def watch_ok_def
      clock_ok_def writes_ok_def queued_def opens_def open_evs_def timers_def)

text \<open>A result that is a failure on purpose or a pool that keeps the invariant.\<close>

definition sound :: "('v \<times> 'h npool) outcome \<Rightarrow> bool" where
  "sound m \<longleftrightarrow> m = Inl Fatal_exit \<or> (\<exists>v q. m = Inr (v, q) \<and> pool_wf {} 0 (\<lambda>_. 0) q)"

text \<open>What a round does before it looks at the events.\<close>

lemma select_loop_cases:
  assumes wf: "pool_wf D x xi p" and ms: "-1 \<le> ms"
  obtains "select_loop call p ms sys = Some (Inr (0, p))" "pool_pending p = 0"
    | "select_loop call p ms sys = Some (Inr (-1, gettimeofday p))"
    | s where "select_loop call p ms sys = (case iterate_through_event_lists call (gettimeofday (p\<lparr>sinfo := s\<rparr>)) of
        None \<Rightarrow> None | Some (Inl e) \<Rightarrow> Some (Inl e) | Some (Inr p) \<Rightarrow> Some (Inr (1, p)))"
proof -
  obtain m where m: "select_timeout p ms = Inr m"
    using min_timer [OF wf] by (fastforce simp: select_timeout_def Let_def)
  consider "pool_pending p = 0" | "pool_pending p \<noteq> 0" "active_iods p = []"
    | err where "pool_pending p \<noteq> 0" "active_iods p \<noteq> []" "sys m = Inl err"
    | r w x where "pool_pending p \<noteq> 0" "active_iods p \<noteq> []" "sys m = Inr (r, w, x)"
    by (metis sum.exhaust prod_cases3)
  then show thesis
  proof cases
    case 1
    then show thesis using ms by (intro that(1)) (simp_all add: select_loop_def)
  next
    case 2
    then show thesis using ms m by (intro that(3) [of "sinfo p"]) (simp add: select_loop_def)
  next
    case 3
    then show thesis using ms m by (intro that(2)) (simp add: select_loop_def)
  next
    case 4
    then show thesis using ms m by (intro that(3) [of "selected (sinfo p) r w x"]) (simp add: select_loop_def)
  qed
qed

context nsock_client begin

lemma select_loop_ok:
  assumes r: "select_loop call p ms sys = Some r" and wf: "pool_wf {} 0 (\<lambda>_. 0) p" and ms: "-1 \<le> ms"
  shows "sound r"
proof (rule select_loop_cases [OF wf ms, of call sys])
  fix s
  assume l: "select_loop call p ms sys = (case iterate_through_event_lists call (gettimeofday (p\<lparr>sinfo := s\<rparr>)) of
        None \<Rightarrow> None | Some (Inl e) \<Rightarrow> Some (Inl e) | Some (Inr p) \<Rightarrow> Some (Inr (1, p)))"
  have w: "pool_wf {} 0 (\<lambda>_. 0) (gettimeofday (p\<lparr>sinfo := s\<rparr>))" by (rule gettimeofday_wf) (simp add: wf)
  obtain t where t: "iterate_through_event_lists call (gettimeofday (p\<lparr>sinfo := s\<rparr>)) = Some t"
    using r l by (auto split: option.splits)
  show ?thesis using iterate_ok [OF t w] t r l by (auto simp: sound_def)
qed (use r wf gettimeofday_wf [OF wf] in \<open>auto simp: sound_def\<close>)

end

context nsock_client begin

lemma loop_rounds_ok:
  "loop_rounds c t ms sys n p = Some r \<Longrightarrow> c = call \<Longrightarrow> pool_wf {} 0 (\<lambda>_. 0) p \<Longrightarrow> -1 \<le> ms \<Longrightarrow>
    sound r \<and> (\<forall>q. r = Inr (NSOCK_LOOP_NOEVENTS, q) \<longrightarrow> pool_pending q = 0) \<and>
    (\<forall>q. r = Inr (NSOCK_LOOP_TIMEOUT, q) \<longrightarrow> 0 \<le> ms \<and> TIMEVAL_MSEC_SUBTRACT t (nsock_tod q) \<le> 0)"
proof (induction rule: loop_rounds.raw_induct [rotated 1, consumes 1])
  case (1 loop c t ms sys n p r)
  note IH = 1(1) [OF _ refl] and step = 1(2) [unfolded 1(3)] and wf = 1(4) and ms = 1(5)
  define left where "left = (if 0 \<le> ms then max 0 (TIMEVAL_MSEC_SUBTRACT t (nsock_tod p)) else ms)"
  have step: "(if quit p then Some (Inr (NSOCK_LOOP_QUIT, p\<lparr>quit := False\<rparr>))
      else if pool_pending p = 0 then Some (Inr (NSOCK_LOOP_NOEVENTS, p))
      else if 0 \<le> ms \<and> left = 0 \<and> n > 0 then Some (Inr (NSOCK_LOOP_TIMEOUT, p))
      else (case select_loop call p left (sys n) of
              None \<Rightarrow> None
            | Some (Inl e) \<Rightarrow> Some (Inl e)
            | Some (Inr (r, p)) \<Rightarrow> if r = -1 then Some (Inr (NSOCK_LOOP_ERROR, p))
                else loop call t ms sys (n + 1) (gettimeofday p))) = Some r"
    using step by (simp only: left_def Let_def)
  consider (quit) "quit p" | (none) "\<not> quit p" "pool_pending p = 0" | (late) "\<not> quit p" "pool_pending p \<noteq> 0" "0 \<le> ms \<and> left = 0 \<and> n > 0"
    | (run) "\<not> quit p" "pool_pending p \<noteq> 0" "\<not> (0 \<le> ms \<and> left = 0 \<and> n > 0)" by blast
  then show ?case
  proof cases
    case quit
    then show ?thesis using step wf by (auto simp: sound_def)
  next
    case none
    then show ?thesis using step wf by (auto simp: sound_def)
  next
    case late
    then have "TIMEVAL_MSEC_SUBTRACT t (nsock_tod p) \<le> 0" by (simp add: left_def max_def split: if_splits)
    moreover have "r = Inr (NSOCK_LOOP_TIMEOUT, p)" using step late by simp
    ultimately show ?thesis using late wf by (auto simp: sound_def)
  next
    case run
    obtain m where m: "select_loop call p left (sys n) = Some m"
      using step run by (cases "select_loop call p left (sys n)") auto
    have "-1 \<le> left" using ms by (auto simp: left_def)
    from select_loop_ok [OF m wf this] consider "m = Inl Fatal_exit" | v q where "m = Inr (v, q)" "pool_wf {} 0 (\<lambda>_. 0) q"
      by (auto simp: sound_def)
    then show ?thesis
    proof cases
      case 1
      then show ?thesis using step run m by (auto simp: sound_def)
    next
      case (2 v q)
      show ?thesis
      proof (cases "v = -1")
        case True
        then have "r = Inr (NSOCK_LOOP_ERROR, q)" using step run m 2(1) by simp
        then show ?thesis using 2(2) by (simp add: sound_def)
      next
        case False
        then have "loop call t ms sys (n + 1) (gettimeofday q) = Some r" using step run m 2(1) by simp
        then show ?thesis by (rule IH [OF _ gettimeofday_wf [OF 2(2)] ms])
      qed
    qed
  qed
qed

lemma nsock_loop_ok:
  assumes "nsock_loop call p ms sys = Some r" and "pool_wf {} 0 (\<lambda>_. 0) p"
  shows "sound r" "r = Inr (NSOCK_LOOP_NOEVENTS, q) \<Longrightarrow> pool_pending q = 0"
    "r = Inr (NSOCK_LOOP_TIMEOUT, q) \<Longrightarrow>
       0 \<le> ms \<and> TIMEVAL_MSEC_SUBTRACT (TIMEVAL_MSEC_ADD (nsock_tod (gettimeofday p)) ms) (nsock_tod q) \<le> 0"
proof -
  have w: "pool_wf {} 0 (\<lambda>_. 0) (gettimeofday p)" by (rule gettimeofday_wf [OF assms(2)])
  have "sound r \<and> (\<forall>q. r = Inr (NSOCK_LOOP_NOEVENTS, q) \<longrightarrow> pool_pending q = 0) \<and>
    (\<forall>q. r = Inr (NSOCK_LOOP_TIMEOUT, q) \<longrightarrow>
       0 \<le> ms \<and> TIMEVAL_MSEC_SUBTRACT (TIMEVAL_MSEC_ADD (nsock_tod (gettimeofday p)) ms) (nsock_tod q) \<le> 0)"
  proof (cases "ms < -1")
    case True
    then have "r = Inr (NSOCK_LOOP_ERROR, gettimeofday p)" using assms(1) by (simp add: nsock_loop_def Let_def)
    then show ?thesis using w by (simp add: sound_def)
  next
    case False
    then have "loop_rounds call (TIMEVAL_MSEC_ADD (nsock_tod (gettimeofday p)) ms) ms sys 0 (gettimeofday p) = Some r"
      using assms(1) by (simp add: nsock_loop_def Let_def)
    from loop_rounds_ok [OF this refl w] show ?thesis using False by simp
  qed
  then show "sound r" "r = Inr (NSOCK_LOOP_NOEVENTS, q) \<Longrightarrow> pool_pending q = 0"
    "r = Inr (NSOCK_LOOP_TIMEOUT, q) \<Longrightarrow>
       0 \<le> ms \<and> TIMEVAL_MSEC_SUBTRACT (TIMEVAL_MSEC_ADD (nsock_tod (gettimeofday p)) ms) (nsock_tod q) \<le> 0" by blast+
qed

text \<open>The expired events are all dealt with when a round ends.\<close>

lemma expired_gone:
  "process_expired_events c p = Some r \<Longrightarrow> c = call \<Longrightarrow> pool_wf {} 0 (\<lambda>_. 0) p \<Longrightarrow> r = Inr q \<Longrightarrow>
    \<forall>e \<in> in_heap q. nsock_tod q < ev_timeout (events q e)"
proof (induction arbitrary: q rule: process_expired_events.raw_induct [rotated 1, consumes 1])
  case (1 loop c p r)
  note IH = 1(1) [OF _ refl] and step = 1(2) [unfolded 1(3)] and wf = 1(4) and r = 1(5)
  from wf show ?case
  proof (cases rule: min_timer)
    case 1
    then show ?thesis using step r by simp
  next
    case (2 e)
    note m = 2(2,1)
    have e': "e \<in> queued p \<union> in_heap p" using m(2) by simp
    note op = queue_open [OF wf e']
    note po = process_event_ok [OF wf e' op, of EV_NONE]
    show ?thesis
    proof (cases "timed_out p e")
      case False
      have "tv_sec (ev_timeout (events p e)) \<noteq> 0" using wf m(2) by (simp add: pool_wf_def timers_ok_def)
      then have "nsock_tod p < ev_timeout (events p e)" using False op by (simp add: timed_out_def event_timedout_def)
      moreover have "ev_timeout (events p e) \<le> ev_timeout (events p a)" if "a \<in> in_heap p" for a
        using 2(3) [OF that] by (simp add: expirable_cmp_def)
      moreover have "q = p" using step m(1) False r by simp
      ultimately show ?thesis by (auto intro: less_le_trans)
    next
      case to: True
      obtain u where u: "process_event call p e EV_NONE = Inr u"
        using step m(1) to r by (cases "process_event call p e EV_NONE") auto
      have dn: "event_done (events u e)" using po to u by simp
      from processed_unref [OF po [THEN conjunct1, unfolded u] e' _ dn] obtain s where
        s: "nevent_unref u e = Inr s" "pool_wf {} 0 (\<lambda>_. 0) s" by auto
      have "loop call s = Some r" using step m(1) to u dn s(1) by simp
      then show ?thesis by (rule IH [OF _ s(2) r])
    qed
  qed
qed

lemma round_expired:
  assumes "select_loop call p ms sys = Some (Inr (1, q))" and wf: "pool_wf {} 0 (\<lambda>_. 0) p" and ms: "-1 \<le> ms"
  shows "\<forall>e \<in> in_heap q. nsock_tod q < ev_timeout (events q e)"
proof -
  obtain p1 where p1: "pool_wf {} 0 (\<lambda>_. 0) p1" "iterate_through_event_lists call p1 = Some (Inr q)"
  proof (rule select_loop_cases [OF wf ms, of call sys])
    fix s
    assume "select_loop call p ms sys = (case iterate_through_event_lists call (gettimeofday (p\<lparr>sinfo := s\<rparr>)) of
        None \<Rightarrow> None | Some (Inl e) \<Rightarrow> Some (Inl e) | Some (Inr p) \<Rightarrow> Some (Inr (1, p)))"
    moreover have "pool_wf {} 0 (\<lambda>_. 0) (gettimeofday (p\<lparr>sinfo := s\<rparr>))" by (rule gettimeofday_wf) (simp add: wf)
    ultimately show thesis using assms(1)
      by (intro that [of "gettimeofday (p\<lparr>sinfo := s\<rparr>)"]) (auto split: option.splits sum.splits)
  qed (use assms(1) in auto)
  obtain m where m: "active_iods_loop call (last_elem (active_iods p1)) p1
      (if active_iods p1 = [] then None else Some (hd (active_iods p1))) = Some (Inr m)" "process_expired_events call m = Some (Inr q)"
    using p1(2) by (auto simp: iterate_through_event_lists_def split: option.splits sum.splits)
  have "i \<in> set (active_iods p1)" if "(if active_iods p1 = [] then None else Some (hd (active_iods p1))) = Some i" for i
    using that by (auto split: if_splits)
  from active_iods_loop_ok [OF m(1) refl p1(1) this] have "pool_wf {} 0 (\<lambda>_. 0) m" by simp
  then show ?thesis by (rule expired_gone [OF m(2) refl _ refl])
qed

end

text \<open>The pools that a program can get: a new one, and what its requests and its runs of the loop make of one.\<close>

inductive pool_reach :: "('h \<Rightarrow> 'h nevent \<Rightarrow> 'h program) \<Rightarrow> nat \<Rightarrow> 'h npool \<Rightarrow> bool" for prog n where
  reach_new: "nsock_pool_new mem_ev mem_iod idx brk junk tods = Inr p \<Longrightarrow> tods \<noteq> [] \<Longrightarrow> \<forall>t \<in> set tods. sane_time t \<Longrightarrow>
    pool_reach prog n p"
| reach_call: "pool_reach prog n p \<Longrightarrow> permitted p r \<Longrightarrow> perform (handlers_of prog n) p r = Inr (v, q) \<Longrightarrow> pool_reach prog n q"
| reach_loop: "pool_reach prog n p \<Longrightarrow> nsock_loop (handlers_of prog n) p ms sys = Some (Inr (st, q)) \<Longrightarrow> pool_reach prog n q"

lemma pool_reach_wf: "pool_reach prog n p \<Longrightarrow> pool_wf {} 0 (\<lambda>_. 0) p"
proof (induction rule: pool_reach.induct)
  case (reach_new mem_ev mem_iod idx brk junk tods p)
  then show ?case by (rule pool_new_ok)
next
  case (reach_call p r v q)
  then show ?case using client.perform_ok [OF reach_call.IH reach_call.hyps(2), of prog n] by (simp add: kept_def)
next
  case (reach_loop p ms sys st q)
  then show ?case using client.nsock_loop_ok(1) [OF reach_loop.hyps(2) reach_loop.IH] by (simp add: sound_def)
qed

text \<open>A small pool for the examples.\<close>

definition blank_event :: "'h \<Rightarrow> 'h nevent" where
  "blank_event h = \<lparr>ev_id = 0, ev_type = NSE_TYPE_TIMER, ev_status = NSE_STATUS_NONE, iobuf = [], ev_timeout = Timeval 0 0,
     read_type = NSOCK_READ, read_num = 0, written_so_far = 0, ev_errnum = None, ev_iod = None, ev_handler = h,
     event_done = False, ev_eof = False\<rparr>"

definition blank_iod :: niod where
  "blank_iod = \<lparr>sd = -1, iod_pending = 0, first_ev = (\<lambda>_. None), readsd_count = 0, writesd_count = 0, watched_events = 0,
     state = NSIOD_STATE_INITIAL, registered = False, iod_eof = False, iod_stdin = False, read_count = 0, write_count = 0,
     in_reads = [], out_writes = [], so_error = None, sent = [],
     peer = \<lparr>ss_family = AF_UNSPEC, ss_port = 0, ss_data = []\<rparr>, peerlen = 0, lastproto = 0\<rparr>"

definition empty_pool :: "nat npool" where
  "empty_pool = \<lparr>events = (\<lambda>_. blank_event 0), iods = (\<lambda>_. blank_iod), queue = (\<lambda>_. []),
     expirables = empty_timers (\<lambda>_. Timeval 0 0), active_iods = [], free_iods = [], free_events = [], pool_pending = 0,
     next_event_serial = 1, quit = False, nsock_tod = Timeval 100 0, sinfo = select_init {}, ev_brk = 0, clock = [], calls = []\<rparr>"

lemma empty_pool_new:
  "nsock_pool_new (\<lambda>_. blank_event 0) (\<lambda>_. blank_iod) (\<lambda>_. GH_HEAP_GUARD) 0 {} [Timeval 100 0] = Inr empty_pool"
  by (simp add: nsock_pool_new_def gh_heap_init_eq empty_pool_def gettimeofday_def empty_timers_def blank_event_def)

lemma empty_pool_reach: "pool_reach prog n empty_pool"
  by (rule pool_reach.reach_new [OF empty_pool_new]) (simp_all add: sane_time_def)

text \<open>Pools with one iod, and with a timer or a request to read a line in addition.\<close>

definition iod_pool :: "nat npool" where
  "iod_pool = snd (nsock_iod_new2 empty_pool 7 3 5 blank_iod)"

lemma iod_pool_reach: "pool_reach prog n iod_pool"
proof (rule pool_reach.reach_call [OF empty_pool_reach])
  show "permitted empty_pool (New_iod 7 3 5 blank_iod)" by (simp add: permitted_def empty_pool_def)
  show "perform (handlers_of prog n) empty_pool (New_iod 7 3 5 blank_iod) = Inr (7, iod_pool)"
    by (simp add: perform_def iod_pool_def nsock_iod_new2_def empty_pool_def Let_def STDIN_FILENO_def)
qed

lemma iod_pool_sel [simp]: "active_iods iod_pool = [7]" "iods iod_pool 7 = blank_iod\<lparr>sd := 5, state := NSIOD_STATE_UNKNOWN\<rparr>"
    "queue iod_pool = (\<lambda>_. [])" "sinfo iod_pool = select_init {}"
  by (simp_all add: iod_pool_def nsock_iod_new2_def empty_pool_def Let_def STDIN_FILENO_def blank_iod_def)

lemmas request_evals = perform_def event_new_def gettimeofday_def Let_def get_new_event_id_def nsock_pool_add_event_def set_ev_def
  TIMEVAL_MSEC_ADD_def gh_hnode_invalidate_def empty_timers_def timers_def gh_heap_push_def gh_hnode_is_valid_def
  TYPE_CODE_NUM_BITS_def type_code_def fill_slot_def hnode_at_def hnode_ptr_def hnode_up_def hnode_up_loop.simps GH_HEAP_GUARD_def

lemmas pool_evals = request_evals nsock_timer_create_def iod_pool_def nsock_iod_new2_def empty_pool_def STDIN_FILENO_def
  blank_event_def blank_iod_def nsock_readlines_def nsock_read_request_def nsock_write_def the_iod_def valid_iod_def
  socket_count_read_inc_def socket_count_write_inc_def update_events_def should_clear_ev_read_def should_clear_ev_write_def
  set_iod_def select_iod_register_def select_iod_modify_def fd_update_def checked_fd_set_def checked_fd_clr_def EV_READ_def
  EV_WRITE_def EV_NONE_def FD_SETSIZE_def select_init_def iod_add_event_def kind_of_def set_queue_def

definition timer_pool :: "nat npool" where
  "timer_pool = (case perform (\<lambda>_ _ p. Inr p) iod_pool (Create_timer 3 500) of Inr (v, q) \<Rightarrow> q | Inl e \<Rightarrow> iod_pool)"

lemma timer_pool_created: "perform call iod_pool (Create_timer 3 500) = Inr (12, timer_pool)"
  by (simp add: timer_pool_def pool_evals)

lemma timer_pool_reach: "pool_reach prog n timer_pool"
  by (rule pool_reach.reach_call [OF iod_pool_reach _ timer_pool_created]) (simp add: permitted_def)

definition read_pool :: "nat npool" where
  "read_pool = (case perform (\<lambda>_ _ p. Inr p) timer_pool (Read_lines 7 4 (-1) 1) of Inr (v, q) \<Rightarrow> q | Inl e \<Rightarrow> timer_pool)"

lemma read_pool_created: "perform call timer_pool (Read_lines 7 4 (-1) 1) = Inr (18, read_pool)"
  by (simp add: read_pool_def timer_pool_def pool_evals)

lemma timer_pool_usable: "usable timer_pool 7"
  by (simp add: timer_pool_def pool_evals usable_def)

lemma read_pool_reach: "pool_reach prog n read_pool"
  by (rule pool_reach.reach_call [OF timer_pool_reach _ read_pool_created]) (simp add: permitted_def timer_pool_usable)

lemma read_pool_sel: "active_iods read_pool = [7]" "sd (iods read_pool 7) = 5" "queue read_pool Reads = [1]" "calls read_pool = []"
    "ev_iod (events read_pool (Suc 0)) = Some 7" "pool_pending read_pool = 2"
  by (simp_all add: read_pool_def timer_pool_def pool_evals)

section \<open>The properties\<close>







text \<open>
  C6. No timeout is missed and the statuses of the loop mean what they say: after a round no event with an expired timeout is
  left in the heap, when the loop reports that no events are left there is none in the lists or the heap, and when it
  reports a timeout the time it was given has passed.
\<close>

theorem loop_keeps_time:
  assumes "pool_reach prog n p"
  shows "(-1 \<le> ms \<longrightarrow> select_loop (handlers_of prog n) p ms ans = Some (Inr (1, q)) \<longrightarrow>
      (\<forall>e \<in> in_heap q. nsock_tod q < ev_timeout (events q e))) \<and>
    (nsock_loop (handlers_of prog n) p ms sys = Some (Inr (NSOCK_LOOP_NOEVENTS, q)) \<longrightarrow> queued q \<union> in_heap q = {}) \<and>
    (nsock_loop (handlers_of prog n) p ms sys = Some (Inr (NSOCK_LOOP_TIMEOUT, q)) \<longrightarrow>
       0 \<le> ms \<and> TIMEVAL_MSEC_SUBTRACT (TIMEVAL_MSEC_ADD (nsock_tod (gettimeofday p)) ms) (nsock_tod q) \<le> 0)"
proof (intro conjI impI)
  have wf: "pool_wf {} 0 (\<lambda>_. 0) p" by (rule pool_reach_wf [OF assms])
  show "\<forall>e \<in> in_heap q. nsock_tod q < ev_timeout (events q e)"
    if "-1 \<le> ms" "select_loop (handlers_of prog n) p ms ans = Some (Inr (1, q))"
    by (rule client.round_expired [OF that(2) wf that(1)])
  show "queued q \<union> in_heap q = {}" if l: "nsock_loop (handlers_of prog n) p ms sys = Some (Inr (NSOCK_LOOP_NOEVENTS, q))"
  proof -
    have q: "pool_wf {} 0 (\<lambda>_. 0) q" using client.nsock_loop_ok(1) [OF l wf] by (simp add: sound_def)
    have "opens q = queued q \<union> in_heap q" using queue_open [OF q] by (auto simp: opens_def)
    moreover have "card (opens q) = 0" using client.nsock_loop_ok(2) [OF l wf refl] q by (simp add: pool_wf_def counts_ok_def)
    moreover have "finite (opens q)"
    proof -
      have "queued q \<union> in_heap q \<subseteq> {..< ev_brk q}" using q by (auto simp: pool_wf_def lists_ok_def timers_ok_def)
      then show ?thesis using finite_subset by (fastforce simp: opens_def)
    qed
    ultimately show ?thesis by simp
  qed
  fix t assume l: "nsock_loop (handlers_of prog n) p ms sys = Some (Inr (NSOCK_LOOP_TIMEOUT, q))"
  show "0 \<le> ms" "TIMEVAL_MSEC_SUBTRACT (TIMEVAL_MSEC_ADD (nsock_tod (gettimeofday p)) ms) (nsock_tod q) \<le> 0"
    using client.nsock_loop_ok(3) [OF l wf refl] by blast+
qed

theorem loop_keeps_time_witness:
  "queued (gettimeofday iod_pool) \<union> in_heap (gettimeofday iod_pool) = {}"
proof -
  have "\<not> quit iod_pool" "pool_pending iod_pool = 0"
    by (simp_all add: iod_pool_def nsock_iod_new2_def empty_pool_def Let_def STDIN_FILENO_def)
  then have "nsock_loop (handlers_of (\<lambda>_ _. Finished) 0) iod_pool 1000 (\<lambda>_ _. Inl EBUSY) =
      Some (Inr (NSOCK_LOOP_NOEVENTS, gettimeofday iod_pool))"
    by (simp add: nsock_loop_def loop_rounds.simps gettimeofday_def split: list.split)
  then show ?thesis using loop_keeps_time [OF iod_pool_reach] by blast
qed

end
