(* ===== verification/Nsock_Progress.thy ===== *)
theory Nsock_Progress
  imports Nsock_Loop
begin

text \<open>
  A round of the loop returns when the handlers create no events: every call of a handler takes an event out of
  the lists and the heap, and between two calls the loops walk along lists that stay as they are.
\<close>

section \<open>Handlers that create no events\<close>

definition eases :: "'h npool \<Rightarrow> 'h npool \<Rightarrow> bool" where
  "eases p q \<longleftrightarrow> (\<forall>k. length (queue q k) \<le> length (queue p k)) \<and> gh_heap.count (expirables q) \<le> gh_heap.count (expirables p)"

lemma eases_refl [simp]: "eases p p"
  by (simp add: eases_def)

lemma eases_trans: "eases p q \<Longrightarrow> eases q r \<Longrightarrow> eases p r"
  unfolding eases_def by (meson order_trans)

text \<open>Operations that leave the lists, the heap and the active iods alone.\<close>

definition same_lists :: "'h npool \<Rightarrow> 'h npool \<Rightarrow> bool" where
  "same_lists p q \<longleftrightarrow> queue q = queue p \<and> expirables q = expirables p \<and> active_iods q = active_iods p"

lemma same_lists_refl [simp]: "same_lists p p"
  by (simp add: same_lists_def)

lemma same_lists_set [simp]: "same_lists p (set_ev q e f) = same_lists p q" "same_lists p (set_iod q i g) = same_lists p q"
    "same_lists p (complete q e st) = same_lists p q" "same_lists p (q\<lparr>sinfo := s\<rparr>) = same_lists p q"
  by (simp_all add: same_lists_def complete_def)

lemma same_lists_eases: "same_lists p q \<Longrightarrow> eases p q"
  by (simp add: same_lists_def eases_def)

lemma same_lists_modify: "select_iod_modify p i a b = Inr q \<Longrightarrow> same_lists p q"
  by (auto simp: select_iod_modify_def Let_def bind_out_def split: if_splits sum.splits)

lemma same_lists_register: "select_iod_register p i a = Inr q \<Longrightarrow> same_lists p q"
  by (auto simp: select_iod_register_def bind_out_def split: if_splits sum.splits dest!: same_lists_modify)
    (auto simp: same_lists_def)

lemma same_lists_update: "update_events p i a b = Inr q \<Longrightarrow> same_lists p q"
  by (auto simp: update_events_def Let_def split: if_splits dest: same_lists_modify same_lists_register)

lemma same_lists_trans: "same_lists p q \<Longrightarrow> same_lists q r \<Longrightarrow> same_lists p r"
  by (simp add: same_lists_def)

lemma same_lists_dec:
  "socket_count_read_dec p i = Inr (v, q) \<Longrightarrow> same_lists p q" "socket_count_write_dec p i = Inr (v, q) \<Longrightarrow> same_lists p q"
  by (auto simp: socket_count_read_dec_def socket_count_write_dec_def split: if_splits)

lemma same_lists_iod_write: "iod_write p i str = (v, q) \<Longrightarrow> same_lists p q"
  by (auto simp: iod_write_def Let_def split: list.splits write_result.splits)

lemma same_lists_do_actual_read: "do_actual_read p i e = (v, q) \<Longrightarrow> same_lists p q"
  by (auto simp: do_actual_read_def Let_def split: prod.splits read_end.splits if_splits)

lemma same_lists_bind:
  assumes "bind_out m f = Inr q" and "\<And>r. m = Inr r \<Longrightarrow> same_lists p r" and "\<And>r. f r = Inr q \<Longrightarrow> same_lists r q"
  shows "same_lists p q"
  using assms same_lists_trans by (cases m) auto

lemma same_lists_tail:
  "bind_out (socket_count_read_dec p i) (\<lambda>(ev, p). update_events p i EV_NONE ev) = Inr q \<Longrightarrow> same_lists p q"
  "bind_out (socket_count_write_dec p i) (\<lambda>(ev, p). update_events p i EV_NONE ev) = Inr q \<Longrightarrow> same_lists p q"
  "bind_out (socket_count_read_dec p i) (\<lambda>(ev_r, p). bind_out (socket_count_write_dec p i) (\<lambda>(ev_w, p).
     update_events p i EV_NONE (ev_r OR ev_w))) = Inr q \<Longrightarrow> same_lists p q"
  by (auto simp: bind_out_def split: sum.splits dest!: same_lists_update same_lists_dec intro: same_lists_trans)
    (blast intro: same_lists_trans)

lemma same_lists_connect:
  assumes "handle_connect_result p e st = Inr q"
  shows "same_lists p q"
proof (cases "ev_iod (events p e)")
  case (Some i)
  show ?thesis
    by (rule same_lists_bind [OF assms [unfolded handle_connect_result_def Some option.case]])
      (auto simp: Let_def split: if_splits dest: same_lists_tail(3))
qed (use assms in \<open>simp add: handle_connect_result_def\<close>)

lemma same_lists_write:
  assumes "handle_write_result p e st = Inr q"
  shows "same_lists p q"
proof (cases "ev_iod (events p e)")
  case (Some i)
  then have i: "the_iod p e = Inr i" by (simp add: the_iod_def)
  obtain v r where w: "iod_write p i (drop (written_so_far (events p e)) (iobuf (events p e))) = (v, r)" by fastforce
  have sr: "same_lists p r" by (rule same_lists_iod_write [OF w])
  show ?thesis
    by (rule same_lists_bind [OF assms [unfolded handle_write_result_def i bind_out_simps]])
      (use w sr in \<open>auto simp: Let_def split: if_splits sum.splits dest: same_lists_tail(2)\<close>)
qed (use assms in \<open>simp add: handle_write_result_def the_iod_def\<close>)

lemma same_lists_read:
  assumes "handle_read_result p e st = Inr q"
  shows "same_lists p q"
proof (cases "ev_iod (events p e)")
  case (Some i)
  then have i: "the_iod p e = Inr i" by (simp add: the_iod_def)
  obtain v r where w: "do_actual_read p i e = (v, r)" by fastforce
  have sr: "same_lists p r" by (rule same_lists_do_actual_read [OF w])
  show ?thesis
    by (rule same_lists_bind [OF assms [unfolded handle_read_result_def i bind_out_simps]])
      (use w sr in \<open>auto simp: Let_def split: if_splits nsock_read_types.splits dest: same_lists_tail(1)\<close>)
qed (use assms in \<open>simp add: handle_read_result_def the_iod_def\<close>)

lemma same_lists_handle: "handle_result p e st = Inr q \<Longrightarrow> same_lists p q"
  by (auto simp: handle_result_def handle_timer_result_def split: nse_type.splits
      dest: same_lists_connect same_lists_read same_lists_write)

text \<open>Unlinking an event takes it out of its list, or a timer out of the heap.\<close>

lemma list_remove_length: "list_remove l e = Inr l' \<Longrightarrow> length l' < length l"
  using length_pos_if_in_set [of e l] by (auto simp: list_remove_def length_remove1 split: if_splits)

lemma unref_eases:
  assumes "nevent_unref p e = Inr q"
  shows "eases p q" "active_iods q = active_iods p"
    "ev_type (events p e) \<noteq> NSE_TYPE_TIMER \<Longrightarrow> kind_of (ev_type (events p e)) = Some k \<Longrightarrow> length (queue q k) < length (queue p k)"
    "tv_sec (ev_timeout (events p e)) \<noteq> 0 \<Longrightarrow> gh_heap.count (expirables q) < gh_heap.count (expirables p)"
proof -
  obtain r where r: "update_first_events p e = Inr r" using assms by (cases "update_first_events p e") (auto simp: nevent_unref_def)
  have sr: "same_lists p r" "events r = events p"
    using r by (auto simp: update_first_events_def split: option.splits if_splits)
  let ?s = "if ev_type (events r e) = NSE_TYPE_TIMER then Inr r
        else (case kind_of (ev_type (events r e)) of
                None \<Rightarrow> Inl Fatal_exit
              | Some k \<Rightarrow> bind_out (list_remove (queue r k) e) (\<lambda>l. Inr (set_queue r k l)))"
  let ?t = "\<lambda>s. if tv_sec (ev_timeout (events s e)) \<noteq> 0
        then let p = set_ev s e (\<lambda>v. v\<lparr>ev_timeout := Timeval 0 0\<rparr>)
             in bind_out (gh_heap_remove (timers p) e) (\<lambda>h. Inr (p\<lparr>expirables := h\<rparr>))
        else Inr s"
  have u: "nevent_unref p e = bind_out ?s (\<lambda>s. bind_out (?t s) (\<lambda>p. Inr (p\<lparr>free_events := free_events p @ [e]\<rparr>)))"
    by (simp add: nevent_unref_def r)
  obtain s where s: "?s = Inr s" using assms unfolding u by (cases ?s) auto
  obtain t where t: "?t s = Inr t" "q = t\<lparr>free_events := free_events t @ [e]\<rparr>"
    using assms unfolding u s bind_out_simps by (cases "?t s") auto
  have ss: "events s = events r" "expirables s = expirables r" "active_iods s = active_iods r"
    "\<And>k. length (queue s k) \<le> length (queue r k)"
    "ev_type (events r e) \<noteq> NSE_TYPE_TIMER \<Longrightarrow> kind_of (ev_type (events r e)) = Some k \<Longrightarrow> length (queue s k) < length (queue r k)" for k
    using s by (auto simp: bind_out_def split: if_splits option.splits sum.splits dest!: list_remove_length)
  have tt: "queue t = queue s" "active_iods t = active_iods s" "gh_heap.count (expirables t) \<le> gh_heap.count (expirables s)"
    "tv_sec (ev_timeout (events s e)) \<noteq> 0 \<Longrightarrow> gh_heap.count (expirables t) < gh_heap.count (expirables s)"
    using t(1) by (auto simp: Let_def bind_out_def timers_def split: if_splits sum.splits dest!: gh_heap_remove_count)
  show "eases p q" "active_iods q = active_iods p"
    "ev_type (events p e) \<noteq> NSE_TYPE_TIMER \<Longrightarrow> kind_of (ev_type (events p e)) = Some k \<Longrightarrow> length (queue q k) < length (queue p k)"
    "tv_sec (ev_timeout (events p e)) \<noteq> 0 \<Longrightarrow> gh_heap.count (expirables q) < gh_heap.count (expirables p)"
    using sr ss tt t(2) by (simp_all add: same_lists_def eases_def)
qed

text \<open>The contract of handlers that create no events.\<close>

locale nsock_passive = nsock_client call for call :: "'h handlers" +
  assumes call_eases: "call h e p = Inr q \<Longrightarrow> eases p q"
begin

lemma dispatch_eases:
  assumes "event_dispatch_and_delete call p e notify = Inr q"
  shows "eases p q"
proof -
  let ?p = "p\<lparr>pool_pending := pool_pending p - 1\<rparr>"
  let ?m = "case ev_iod (events ?p e) of None \<Rightarrow> Inr ?p | Some i \<Rightarrow>
     let p = set_iod ?p i (\<lambda>d. d\<lparr>iod_pending := iod_pending d - 1\<rparr>)
     in if \<not> iod_pending (iods p i) \<ge> 0 then Inl Assert_failed else Inr p"
  let ?c = "\<lambda>p. if notify then let v = events p e in call (ev_handler v) e (p\<lparr>calls := calls p @ [(ev_handler v, ev_id v, ev_status v)]\<rparr>)
     else Inr p"
  have "bind_out ?m (\<lambda>p. bind_out (?c p) (\<lambda>p. Inr (event_delete p e))) = Inr q"
    using assms by (simp add: event_dispatch_and_delete_def Let_def split: if_splits)
  then obtain r s where r: "?m = Inr r" "?c r = Inr s" "q = event_delete s e"
    by (auto simp only: bind_out_Inr)
  have "eases p r" using r(1) by (auto simp: eases_def Let_def split: option.splits if_splits)
  moreover have "eases r s"
  proof (cases notify)
    case True
    then have "eases (r\<lparr>calls := calls r @ [(ev_handler (events r e), ev_id (events r e), ev_status (events r e))]\<rparr>) s"
      using r(2) by (auto simp: Let_def dest: call_eases)
    then show ?thesis by (simp add: eases_def)
  qed (use r(2) in simp)
  moreover have "eases s q" by (simp add: r(3) eases_def event_delete_def)
  ultimately show ?thesis using eases_trans by blast
qed

lemma nevent_delete_eases:
  assumes "nevent_delete call p e notify = Inr (v, q)"
  shows "eases p q"
proof (cases "event_done (events p e)")
  case False
  then obtain r s where r: "handle_result p e NSE_STATUS_CANCELLED = Inr r" "nevent_unref r e = Inr s"
    "event_dispatch_and_delete call s e notify = Inr q"
    using assms by (auto simp: nevent_delete_def bind_out_def split: if_splits sum.splits)
  then show ?thesis using same_lists_eases [OF same_lists_handle [OF r(1)]] unref_eases(1) [OF r(2)] dispatch_eases [OF r(3)]
    eases_trans by blast
qed (use assms in \<open>simp add: nevent_delete_def\<close>)

text \<open>Processing an event leaves the lists alone, or it completes the event.\<close>

lemma process_event_eases:
  assumes "process_event call p e ev = Inr q"
  shows "eases p q" "event_done (events q e) \<or> same_lists p q"
proof -
  let ?m = "if event_done (events p e) then Inr p
        else if ev_type (events p e) = NSE_TYPE_PCAP_READ then Inl Fatal_exit
        else if ev_type (events p e) = NSE_TYPE_TIMER
        then Inr (if timed_out p e then handle_timer_result p e NSE_STATUS_SUCCESS else p)
        else bind_out (if concerned (ev_type (events p e)) ev then handle_result p e NSE_STATUS_SUCCESS else Inr p) (\<lambda>p.
             if timed_out p e then handle_result p e NSE_STATUS_TIMEOUT else Inr p)"
  obtain r where r: "?m = Inr r" "(if event_done (events r e) then event_dispatch_and_delete call r e True else Inr r) = Inr q"
    using assms unfolding process_event_def by (auto simp only: bind_out_Inr)
  have sr: "same_lists p r"
    using r(1) by (auto simp: handle_timer_result_def bind_out_def split: if_splits sum.splits
        dest!: same_lists_handle intro: same_lists_trans)
  then show "eases p q" using r(2) same_lists_eases [OF sr] dispatch_eases [of r e True q] eases_trans by (auto split: if_splits)
  show "event_done (events q e) \<or> same_lists p q"
  proof (cases "event_done (events r e)")
    case True
    then have "event_dispatch_and_delete call r e True = Inr q" using r(2) by simp
    then have "event_done (events q e)"
      by (auto simp: event_dispatch_and_delete_def Let_def bind_out_def event_delete_def split: if_splits sum.splits)
    then show ?thesis ..
  qed (use r(2) sr in simp)
qed

end

section \<open>The loops return\<close>

text \<open>How much of a list is left.\<close>

definition rest :: "'a list \<Rightarrow> 'a option \<Rightarrow> nat" where
  "rest l c = (case c of None \<Rightarrow> 0 | Some e \<Rightarrow> length (dropWhile (\<lambda>x. x \<noteq> e) l))"

lemma rest_next: "distinct l \<Longrightarrow> e \<in> set l \<Longrightarrow> rest l (next_in l e) < rest l (Some e)"
proof (induction l)
  case (Cons x l)
  show ?case
  proof (cases "x = e")
    case True
    show ?thesis
    proof (cases l)
      case (Cons y r)
      then have "y \<noteq> e" using Cons.prems(1) True by auto
      then show ?thesis using True Cons by (auto simp: rest_def)
    qed (simp add: True rest_def)
  next
    case False
    then have e: "e \<in> set l" using Cons.prems(2) by simp
    then have n: "next_in (x # l) e = next_in l e" using False by (cases l) auto
    have "next_in l e \<noteq> Some x" using next_in_set [of l e x] Cons.prems(1) by auto
    then have "rest (x # l) (next_in l e) = rest l (next_in l e)" by (auto simp: rest_def split: option.split)
    moreover have "rest (x # l) (Some e) = rest l (Some e)" using False by (simp add: rest_def)
    ultimately show ?thesis using Cons.IH Cons.prems(1) e n by simp
  qed
qed simp

lemma rest_remove:
  assumes "distinct l" and "e \<in> set l"
  shows "rest (remove1 e l) (next_in l e) < rest l (Some e)"
proof -
  have "rest (remove1 e l) (Some n) \<le> rest l (Some n)" if "n \<noteq> e" for n
    using that by (induction l) (auto simp: rest_def length_remove1)
  then have "rest (remove1 e l) (next_in l e) \<le> rest l (next_in l e)"
    using next_in_set [of l e] assms(1) by (cases "next_in l e") (auto simp: rest_def [of _ None])
  then show ?thesis using rest_next [OF assms] by simp
qed

definition load :: "'h npool \<Rightarrow> nat" where
  "load p = length (queue p Connects) + length (queue p Reads) + length (queue p Writes) + gh_heap.count (expirables p)"

lemma eases_load: "eases p q \<Longrightarrow> load q \<le> load p"
  unfolding eases_def load_def by (simp add: add_mono)

lemma eases_load_less:
  assumes "eases p q" and "length (queue q k) < length (queue p k) \<or> gh_heap.count (expirables q) < gh_heap.count (expirables p)"
  shows "load q < load p"
proof -
  have a: "length (queue q j) \<le> length (queue p j)" "gh_heap.count (expirables q) \<le> gh_heap.count (expirables p)" for j
    using assms(1) by (simp_all add: eases_def)
  show ?thesis using assms(2) a(1) [of Connects] a(1) [of Reads] a(1) [of Writes] a(2) by (cases k) (auto simp: load_def)
qed

text \<open>What a part of a round does: it leaves the lists as they are, or it takes something out.\<close>

definition advances :: "'h npool \<Rightarrow> 'h npool \<Rightarrow> bool" where
  "advances p q \<longleftrightarrow> eases p q \<and> (same_lists p q \<or> load q < load p)"

lemma advances_refl [simp]: "advances p p"
  by (simp add: advances_def)

lemma advances_trans: "advances p q \<Longrightarrow> advances q r \<Longrightarrow> advances p r"
  unfolding advances_def using eases_trans eases_load same_lists_trans by (metis le_less_trans less_le_trans)

context nsock_passive begin

lemma iod_events_return:
  "pool_wf {} 0 (\<lambda>_. 0) p \<Longrightarrow> (\<And>e. current = Some e \<Longrightarrow> e \<in> set (queue p k)) \<Longrightarrow>
    \<exists>r. iod_events_loop call i ev lst p current = Some r \<and> (\<forall>q. r = Inr q \<longrightarrow> advances p q)"
proof (induction "(p, current)" arbitrary: p current rule: wf_induct_rule
    [OF wf_measures [of "[\<lambda>(p, c). length (queue p k), \<lambda>(p, c). rest (queue p k) c]"]])
  case (1 p current)
  note wf = 1(2)
  show ?case
  proof (cases current)
    case None
    then show ?thesis by (subst iod_events_loop.simps) simp
  next
    case (Some e)
    have e: "e \<in> set (queue p k)" using 1(3) Some by simp
    then have e': "e \<in> queued p \<union> in_heap p" by (simp add: in_queue)
    note pr = process_event_ok [OF wf e' queue_open [OF wf e'], THEN conjunct1]
    have dk: "distinct (queue p k)" using wf by (simp add: pool_wf_def lists_ok_def)
    show ?thesis
    proof (cases "gh_lnode_prev p e = lst \<or> ev_iod (events p e) \<noteq> Some i")
      case True
      then show ?thesis using Some by (subst iod_events_loop.simps) auto
    next
      case False
      show ?thesis
      proof (cases "process_event call p e ev")
        case (Inl x)
        then show ?thesis using Some False by (subst iod_events_loop.simps) simp
      next
        case (Inr q)
        note prq = pr [of ev, unfolded Inr]
        have eq: "e \<in> set (queue q k)" using prq e by (simp add: processed_def stays_def)
        show ?thesis
        proof (cases "event_done (events q e)")
          case True
          from processed_unref [OF prq e' _ True] obtain s where
            s: "nevent_unref q e = Inr s" "pool_wf {} 0 (\<lambda>_. 0) s" "pins {} p s" "queue s k = remove1 e (queue q k)"
            by auto
          have wq: "pool_wf {e} 0 (\<lambda>_. 0) q" using prq True by (simp add: processed_def)
          have n: "n \<in> set (queue s k)" if "gh_lnode_next q e = Some n" for n
            using next_event [OF wq eq that] s(4) by simp
          have ps: "eases p s" using process_event_eases(1) [OF Inr] unref_eases(1) [OF s(1)] eases_trans by blast
          have "length (queue s k) < length (queue q k)" using s(4) eq length_pos_if_in_set [OF eq] by (simp add: length_remove1)
          then have l: "length (queue s k) < length (queue p k)"
            using process_event_eases(1) [OF Inr] by (auto simp: eases_def intro: less_le_trans)
          then have "((s, gh_lnode_next q e), (p, current)) \<in> measures [\<lambda>(p, c). length (queue p k), \<lambda>(p, c). rest (queue p k) c]"
            by simp
          from 1(1) [OF this s(2) n] obtain r where
            r: "iod_events_loop call i ev lst s (gh_lnode_next q e) = Some r" "\<forall>q. r = Inr q \<longrightarrow> advances s q" by blast
          have "advances p s" using ps eases_load_less [OF ps] l by (auto simp: advances_def)
          then show ?thesis using Some False Inr True s(1) r advances_trans by (subst iod_events_loop.simps) (auto simp: Let_def)
        next
          case nd: False
          then have wq: "pool_wf {} 0 (\<lambda>_. 0) q" and pq: "same_lists p q"
            using prq process_event_eases(2) [OF Inr] by (auto simp: processed_def)
          have "gh_lnode_next q e = next_in (queue p k) e"
            using list_of_queue [of q e k] wq eq pq by (simp add: gh_lnode_next_def pool_wf_def same_lists_def)
          then have "rest (queue q k) (gh_lnode_next q e) < rest (queue p k) current"
            using rest_next [OF dk e] pq Some by (simp add: same_lists_def)
          then have "((q, gh_lnode_next q e), (p, current)) \<in> measures [\<lambda>(p, c). length (queue p k), \<lambda>(p, c). rest (queue p k) c]"
            using pq by (simp add: same_lists_def)
          from 1(1) [OF this wq next_event(1) [OF wq eq]] obtain r where
            r: "iod_events_loop call i ev lst q (gh_lnode_next q e) = Some r" "\<forall>z. r = Inr z \<longrightarrow> advances q z" by blast
          have "advances p q" using pq same_lists_eases [OF pq] by (simp add: advances_def)
          then show ?thesis using Some False Inr nd r advances_trans by (subst iod_events_loop.simps) (auto simp: Let_def)
        qed
      qed
    qed
  qed
qed

lemma process_lists_return:
  "pool_wf {} 0 (\<lambda>_. 0) p \<Longrightarrow> i \<in> set (active_iods p) \<Longrightarrow>
    \<exists>r. process_lists call i ev ks p = Some r \<and> (\<forall>q. r = Inr q \<longrightarrow> advances p q)"
proof (induction ks arbitrary: p)
  case Nil
  then show ?case by simp
next
  case (Cons k ks)
  have f: "e \<in> set (queue p k)" if "first_ev (iods p i) k = Some e" for e
    using that Cons.prems by (auto simp: pool_wf_def firsts_ok_def dest: find_SomeD)
  obtain m where m: "iod_events_loop call i ev (last_elem (queue p k)) p (first_ev (iods p i) k) = Some m"
    "\<forall>q. m = Inr q \<longrightarrow> advances p q" using iod_events_return [OF Cons.prems(1) f] by blast
  have km: "keeps {} p m" by (rule iod_events_loop_ok [OF m(1) refl Cons.prems(1) f])
  show ?case
  proof (cases m)
    case (Inl x)
    then show ?thesis using m by simp
  next
    case (Inr q)
    then have q: "pool_wf {} 0 (\<lambda>_. 0) q" "i \<in> set (active_iods q)" using km Cons.prems(2) by (auto simp: keeps_def pins_def)
    from Cons.IH [OF q] show ?thesis using m Inr advances_trans by auto
  qed
qed

lemma process_expired_return:
  "pool_wf {} 0 (\<lambda>_. 0) p \<Longrightarrow> \<exists>r. process_expired_events call p = Some r"
proof (induction "gh_heap.count (expirables p)" arbitrary: p rule: less_induct)
  case less
  note wf = less.prems
  from wf show ?case
  proof (cases rule: min_timer)
    case 1
    then show ?thesis by (subst process_expired_events.simps) simp
  next
    case (2 e)
    have e': "e \<in> queued p \<union> in_heap p" using 2(1) by simp
    note po = process_event_ok [OF wf e' queue_open [OF wf e'], of EV_NONE]
    show ?thesis
    proof (cases "timed_out p e")
      case False
      then show ?thesis using 2(2) by (subst process_expired_events.simps) simp
    next
      case to: True
      show ?thesis
      proof (cases "process_event call p e EV_NONE")
        case (Inl x)
        then show ?thesis using 2(2) to by (subst process_expired_events.simps) simp
      next
        case (Inr q)
        have dn: "event_done (events q e)" using po to Inr by simp
        note pr = po [THEN conjunct1, unfolded Inr]
        from processed_unref [OF pr e' _ dn] obtain s where
          s: "nevent_unref q e = Inr s" "pool_wf {} 0 (\<lambda>_. 0) s" by auto
        have "e \<in> in_heap q" "pool_wf {e} 0 (\<lambda>_. 0) q" using pr dn 2(1) by (auto simp: processed_def stays_def)
        then have "tv_sec (ev_timeout (events q e)) \<noteq> 0" by (simp add: pool_wf_def timers_ok_def)
        then have "gh_heap.count (expirables s) < gh_heap.count (expirables p)"
          using unref_eases(4) [OF s(1)] process_event_eases(1) [OF Inr] by (auto simp: eases_def intro: less_le_trans)
        from less.hyps [OF this s(2)] show ?thesis using 2(2) to Inr dn s(1) by (subst process_expired_events.simps) simp
      qed
    qed
  qed
qed

lemma active_iods_return:
  "pool_wf {} 0 (\<lambda>_. 0) p \<Longrightarrow> (\<And>i. current = Some i \<Longrightarrow> i \<in> set (active_iods p)) \<Longrightarrow>
    \<exists>r. active_iods_loop call lst p current = Some r"
proof (induction "(p, current)" arbitrary: p current rule: wf_induct_rule
    [OF wf_measures [of "[\<lambda>(p, c). load p, \<lambda>(p, c). rest (active_iods p) c]"]])
  case (1 p current)
  note wf = 1(2)
  show ?case
  proof (cases current)
    case None
    then show ?thesis by (subst active_iods_loop.simps) simp
  next
    case (Some i)
    have i: "i \<in> set (active_iods p)" using 1(3) Some by simp
    have dp: "distinct (active_iods p)" using wf by (simp add: pool_wf_def lists_ok_def)
    let ?m = "if state (iods p i) \<noteq> NSIOD_STATE_DELETED \<and> iod_pending (iods p i) \<noteq> 0
              then (case get_evmask p i of Inl e \<Rightarrow> Some (Inl e) | Inr ev \<Rightarrow> process_iod_events call p i ev)
              else Some (Inr p)"
    have "\<exists>m. ?m = Some m \<and> (\<forall>q. m = Inr q \<longrightarrow> advances p q \<and> pool_wf {} 0 (\<lambda>_. 0) q \<and> i \<in> set (active_iods q))"
    proof (cases "state (iods p i) \<noteq> NSIOD_STATE_DELETED \<and> iod_pending (iods p i) \<noteq> 0")
      case True
      then show ?thesis
      proof (cases "get_evmask p i")
        case (Inr ev)
        obtain r where r: "process_lists call i ev [Connects, Reads, Writes] p = Some r" "\<forall>q. r = Inr q \<longrightarrow> advances p q"
          using process_lists_return [OF wf i] by blast
        have "keeps {} p r" by (rule process_lists_ok [OF r(1) wf i])
        then show ?thesis using True Inr r i by (auto simp: process_iod_events_def keeps_def pins_def)
      qed simp
    next
      case False
      show ?thesis unfolding if_not_P [OF False] using wf i by simp
    qed
    then obtain m where m: "?m = Some m" "\<forall>q. m = Inr q \<longrightarrow> advances p q \<and> pool_wf {} 0 (\<lambda>_. 0) q \<and> i \<in> set (active_iods q)"
      by blast
    show ?thesis
    proof (cases "prev_in (active_iods p) i = lst")
      case True
      then show ?thesis using Some by (subst active_iods_loop.simps) simp
    next
      case False
      show ?thesis
      proof (cases m)
        case (Inl x)
        then show ?thesis using Some False m(1) by (subst active_iods_loop.simps) simp
      next
        case (Inr q)
        then have q: "advances p q" "pool_wf {} 0 (\<lambda>_. 0) q" "i \<in> set (active_iods q)" using m(2) by blast+
        have di: "distinct (active_iods q)" using q(2) by (simp add: pool_wf_def lists_ok_def)
        have n: "n \<in> set (active_iods q) \<and> n \<noteq> i" if "next_in (active_iods q) i = Some n" for n
          using next_in_set [OF that di] by simp
        have down: "((s, next_in (active_iods q) i), (p, current)) \<in> measures [\<lambda>(p, c). load p, \<lambda>(p, c). rest (active_iods p) c]"
          if "load s = load q" "rest (active_iods s) (next_in (active_iods q) i) < rest (active_iods q) (Some i)" for s
          using q(1) that eases_load [of p q] Some by (auto simp: advances_def same_lists_def load_def)
        show ?thesis
        proof (cases "state (iods q i) = NSIOD_STATE_DELETED")
          case True
          let ?q = "q\<lparr>active_iods := remove1 i (active_iods q), free_iods := i # free_iods q\<rparr>"
          have "((?q, next_in (active_iods q) i), (p, current)) \<in> measures [\<lambda>(p, c). load p, \<lambda>(p, c). rest (active_iods p) c]"
            by (rule down) (use rest_remove [OF di q(3)] in \<open>simp_all add: load_def\<close>)
          moreover have "k \<in> set (active_iods ?q)" if "next_in (active_iods q) i = Some k" for k using n [OF that] di by simp
          ultimately obtain r where "active_iods_loop call lst ?q (next_in (active_iods q) i) = Some r"
            using 1(1) retire_ok [OF q(2,3) True] by blast
          then show ?thesis using Some False m(1) Inr True q(3)
            by (subst active_iods_loop.simps) (simp add: Let_def list_remove_def)
        next
          case nd: False
          have "((q, next_in (active_iods q) i), (p, current)) \<in> measures [\<lambda>(p, c). load p, \<lambda>(p, c). rest (active_iods p) c]"
            by (rule down) (use rest_next [OF di q(3)] in simp_all)
          then obtain r where "active_iods_loop call lst q (next_in (active_iods q) i) = Some r" using 1(1) q(2) n by blast
          then show ?thesis using Some False m(1) Inr nd by (subst active_iods_loop.simps) (simp add: Let_def)
        qed
      qed
    qed
  qed
qed

lemma iterate_returns:
  assumes wf: "pool_wf {} 0 (\<lambda>_. 0) p"
  shows "\<exists>r. iterate_through_event_lists call p = Some r"
proof -
  have h: "i \<in> set (active_iods p)" if "(if active_iods p = [] then None else Some (hd (active_iods p))) = Some i" for i
    using that by (auto split: if_splits)
  from active_iods_return [OF wf h] obtain m where
    m: "active_iods_loop call (last_elem (active_iods p)) p (if active_iods p = [] then None else Some (hd (active_iods p))) = Some m"
    by blast
  show ?thesis
  proof (cases m)
    case (Inl x)
    then show ?thesis using m by (simp add: iterate_through_event_lists_def)
  next
    case (Inr q)
    then have "pool_wf {} 0 (\<lambda>_. 0) q" using active_iods_loop_ok [OF m refl wf h] by simp
    then show ?thesis using m Inr process_expired_return by (simp add: iterate_through_event_lists_def)
  qed
qed

lemma select_loop_returns:
  assumes wf: "pool_wf {} 0 (\<lambda>_. 0) p" and ms: "-1 \<le> ms"
  shows "\<exists>r. select_loop call p ms sys = Some r"
proof (rule select_loop_cases [OF wf ms, of call sys])
  fix s
  assume l: "select_loop call p ms sys = (case iterate_through_event_lists call (gettimeofday (p\<lparr>sinfo := s\<rparr>)) of
        None \<Rightarrow> None | Some (Inl e) \<Rightarrow> Some (Inl e) | Some (Inr p) \<Rightarrow> Some (Inr (1, p)))"
  have w: "pool_wf {} 0 (\<lambda>_. 0) (gettimeofday (p\<lparr>sinfo := s\<rparr>))" by (rule gettimeofday_wf) (simp add: wf)
  from iterate_returns [OF this] show ?thesis unfolding l by (auto split: sum.split)
qed simp_all

end

section \<open>Programs that create no events\<close>

text \<open>Handlers that skip every request of a new event, as in a program that is about to end.\<close>

primrec passive_handlers :: "('h \<Rightarrow> 'h nevent \<Rightarrow> 'h program) \<Rightarrow> nat \<Rightarrow> 'h handlers" where
  "passive_handlers prog 0 = (\<lambda>h e p. Inl Fatal_exit)"
| "passive_handlers prog (Suc n) = (\<lambda>h e p. exec (passive_handlers prog n) True (prog h (events p e)) p)"

context nsock_passive begin

lemma event_cancel_eases:
  assumes "nsock_event_cancel call p eid notify = Inr (v, q)"
  shows "eases p q"
proof (cases "get_event_id_type eid")
  case None
  then show ?thesis using assms by (simp add: nsock_event_cancel_def)
next
  case (Some t)
  then show ?thesis using assms
    by (cases t) (auto simp: nsock_event_cancel_def kind_of_def bind_out_def split: sum.splits option.splits dest: nevent_delete_eases)
qed

lemma delete_loop_eases:
  "delete_loop c i notify p current = Some r \<Longrightarrow> c = call \<Longrightarrow> r = Inr q \<Longrightarrow> eases p q"
proof (induction arbitrary: q rule: delete_loop.raw_induct [rotated 1, consumes 1])
  case (1 loop c i notify p current r)
  note IH = 1(1) [OF _ refl] and step = 1(2) [unfolded 1(3)] and r = 1(4)
  show ?case
  proof (cases current)
    case None
    then show ?thesis using step r by simp
  next
    case (Some e)
    show ?thesis
    proof (cases "ev_iod (events p e) \<noteq> Some i")
      case True
      then show ?thesis using step r Some by simp
    next
      case False
      then obtain v s where s: "nevent_delete call p e notify = Inr (v, s)"
        using step r Some by (cases "nevent_delete call p e notify") (auto simp: Let_def)
      then have "loop call i notify s (gh_lnode_next p e) = Some r" using step Some False by (simp add: Let_def)
      then show ?thesis using IH r nevent_delete_eases [OF s] eases_trans by blast
    qed
  qed
qed

lemma delete_lists_eases:
  "delete_lists call i notify fs p = Some (Inr q) \<Longrightarrow> eases p q"
proof (induction fs arbitrary: p)
  case (Cons f fs)
  show ?case
  proof (cases "iod_pending (iods p i) > 0")
    case True
    then obtain s where s: "delete_loop call i notify p f = Some (Inr s)" "delete_lists call i notify fs s = Some (Inr q)"
      using Cons.prems by (auto split: option.splits sum.splits)
    show ?thesis using delete_loop_eases [OF s(1) refl refl] Cons.IH [OF s(2)] eases_trans by blast
  qed (use Cons.prems in simp)
qed simp

lemma iod_delete_eases:
  assumes "nsock_iod_delete call p i m = Some (Inr q)"
  shows "eases p q"
proof -
  have c: "eases s q" if "close_iod s i = Inr q" for s
    using that by (auto simp: close_iod_def socket_count_zero_def select_iod_unregister_def Let_def bind_out_def eases_def
        split: if_splits sum.splits)
  show ?thesis
  proof (cases "state (iods p i) = NSIOD_STATE_DELETED \<or> \<not> iod_pending (iods p i) > 0")
    case True
    then show ?thesis using assms c by (auto simp: nsock_iod_delete_def split: if_splits)
  next
    case False
    then obtain s where s: "delete_lists call i (m = NSOCK_PENDING_NOTIFY) (map (first_ev (iods p i)) [Connects, Reads, Writes]) p = Some (Inr s)"
      "close_iod s i = Inr q"
      using assms by (auto simp: nsock_iod_delete_def bind_out_def simp del: delete_lists.simps split: if_splits option.splits sum.splits)
    show ?thesis using delete_lists_eases [OF s(1)] c [OF s(2)] eases_trans by blast
  qed
qed

lemma exec_eases:
  "exec call True prog p = Inr q \<Longrightarrow> eases p q"
proof (induction prog arbitrary: p)
  case (Ask r k)
  show ?case
  proof (cases "permitted p r \<and> \<not> (True \<and> creates_event r)")
    case True
    then obtain v s where s: "perform call p r = Inr (v, s)" "exec call True (k v) s = Inr q"
      using Ask.prems by (cases "perform call p r") auto
    have "eases p s"
    proof (cases r)
      case (New_iod addr fd dup answers)
      then show ?thesis using s(1)
        by (auto simp: perform_def nsock_iod_new2_def Let_def eases_def split: if_splits prod.splits list.splits)
    next
      case (Delete_iod i)
      then show ?thesis using s(1) by (auto simp: perform_def map_sum_def split: option.splits sum.splits dest: iod_delete_eases)
    next
      case Quit_loop
      then show ?thesis using s(1) by (auto simp: perform_def nsock_loop_quit_def eases_def)
    next
      case (Setup_udp sys i af)
      then show ?thesis using s(1)
        by (auto simp: perform_def nsock_setup_udp_def nsock_make_socket_def eases_def split: if_splits sum.splits)
    next
      case (Cancel_event eid notify)
      then show ?thesis using s(1) event_cancel_eases by (simp add: perform_def)
    qed (use True in \<open>simp_all add: creates_event_def\<close>)
    then show ?thesis using Ask.IH [OF rangeI s(2)] eases_trans by blast
  next
    case False
    have "exec call True (k 0) p = Inr q" using Ask.prems unfolding exec.simps if_not_P [OF False] .
    then show ?thesis by (rule Ask.IH [OF rangeI])
  qed
qed simp

end

lemma passive_handlers_client: "nsock_passive (passive_handlers prog n) \<and> frees_only (passive_handlers prog n)"
proof (induction n)
  case 0
  show ?case by (simp add: nsock_passive_def nsock_passive_axioms_def nsock_client_def frees_only_def keeps_def)
next
  case (Suc n)
  then have p: "nsock_passive (passive_handlers prog n)" and f: "frees_only (passive_handlers prog n)" by blast+
  then have c: "nsock_client (passive_handlers prog n)" by (simp add: nsock_passive_def)
  have "frees_only (passive_handlers prog (Suc n))"
    unfolding frees_only_def using exec_free [OF c f] by auto
  moreover from this have "nsock_client (passive_handlers prog (Suc n))"
    using nsock_client.exec_ok [OF c] unfolding nsock_client_def frees_only_def passive_handlers.simps by blast
  moreover have "nsock_passive_axioms (passive_handlers prog (Suc n))"
    using nsock_passive.exec_eases [OF p] by (simp add: nsock_passive_axioms_def)
  ultimately show ?case by (simp add: nsock_passive_def)
qed

interpretation idle: nsock_passive "passive_handlers prog n" for prog :: "'h \<Rightarrow> 'h nevent \<Rightarrow> 'h program" and n
  using passive_handlers_client by blast

text \<open>
  C4. A round of the loop returns on every pool a program can get, whatever the descriptors answer, when the handlers that run
  in it create no events, however they cancel events, delete iods and make new ones; then no event with an expired timeout
  is left.
\<close>

theorem round_returns:
  assumes "pool_reach prog n p" and "-1 \<le> ms"
  shows "\<exists>m. select_loop (passive_handlers prog' k) p ms sys = Some m \<and>
    (m = Inl Fatal_exit \<or>
     (\<exists>v q. m = Inr (v, q) \<and> pool_wf {} 0 (\<lambda>_. 0) q \<and>
        (v = 1 \<longrightarrow> (\<forall>e \<in> in_heap q. nsock_tod q < ev_timeout (events q e)))))"
proof -
  have wf: "pool_wf {} 0 (\<lambda>_. 0) p" by (rule pool_reach_wf [OF assms(1)])
  from idle.select_loop_returns [OF wf assms(2)] obtain m where
    m: "select_loop (passive_handlers prog' k) p ms sys = Some m" by blast
  have "sound m" by (rule idle.select_loop_ok [OF m wf assms(2)])
  then show ?thesis using m idle.round_expired [OF _ wf assms(2), of prog' k sys] by (auto simp: sound_def)
qed

theorem round_returns_witness:
  "\<exists>m. select_loop (passive_handlers (\<lambda>h v. Ask (Delete_iod 7) (\<lambda>_. Finished)) 1) read_pool 10 (\<lambda>_. Inr ({5}, {}, {})) = Some m"
proof -
  have "-1 \<le> (10 :: int)" by simp
  from round_returns [OF read_pool_reach this, of "\<lambda>h v. Ask (Delete_iod 7) (\<lambda>_. Finished)" 1 "\<lambda>_. Inr ({5}, {}, {})"]
  show ?thesis by blast
qed

end
