(* ===== verification/Nsock_Results.thy ===== *)
theory Nsock_Results
  imports Nsock_Progress
begin

text \<open>
  What the program gets from the pool: identifiers that tell the events and their types apart, reads that
  complete when what was asked for is there, and every pending event reported when the pool is deleted.
\<close>

unbundle bit_operations_syntax

section \<open>Identifiers\<close>

lemma type_code_bits: "take_bit 3 (type_code t) = type_code t"
  by (cases t) (simp_all add: type_code_def take_bit_eq_mod)

lemma type_code_high: "\<not> bit (type_code t) (n + 3)"
proof
  assume "bit (type_code t) (n + 3)"
  then have "bit (take_bit 3 (type_code t)) (n + 3)" by (simp only: type_code_bits)
  then show False by (simp add: bit_take_bit_iff)
qed

text \<open>An identifier is its serial number and the code of its type.\<close>

lemma id_serial:
  assumes "take_bit 61 s = (s :: u64)"
  shows "drop_bit 3 (push_bit 3 s OR type_code t) = s"
proof (rule bit_word_eqI)
  fix n assume n: "n < LENGTH(64)"
  have "n < 61" if "bit s n"
  proof -
    have "bit (take_bit 61 s) n" using that assms by simp
    then show ?thesis by (simp add: bit_take_bit_iff)
  qed
  then show "bit (drop_bit 3 (push_bit 3 s OR type_code t)) n \<longleftrightarrow> bit s n"
    using n type_code_high [of t n] by (auto simp: bit_drop_bit_eq bit_or_iff bit_push_bit_iff add.commute)
qed

lemma id_type: "get_event_id_type (push_bit 3 s OR type_code t) = Some t"
proof -
  have "(push_bit TYPE_CODE_NUM_BITS 1 - 1 :: u64) = mask 3" by (simp add: TYPE_CODE_NUM_BITS_def mask_eq_exp_minus_1 push_bit_eq_mult)
  moreover have "(push_bit 3 s OR type_code t) AND mask 3 = type_code t"
    unfolding take_bit_eq_mask [symmetric] take_bit_or type_code_bits by (simp add: take_bit_push_bit)
  ultimately show ?thesis by (cases t) (simp_all add: get_event_id_type_def Let_def type_code_def)
qed

text \<open>The identifiers of events that are created one after the other.\<close>

fun new_ids :: "'h npool \<Rightarrow> nse_type list \<Rightarrow> u64 list" where
  "new_ids p [] = []"
| "new_ids p (t # ts) = (case get_new_event_id p t of (i, q) \<Rightarrow> i # new_ids q ts)"

lemma max_serial: "(push_bit (64 - TYPE_CODE_NUM_BITS) 1 - 1 :: u64) = word_of_nat (2 ^ 61 - 1)"
  by (simp add: TYPE_CODE_NUM_BITS_def push_bit_eq_mult)

lemma serial_inj: "a < 2 ^ 61 \<Longrightarrow> b < 2 ^ 61 \<Longrightarrow> (word_of_nat a :: u64) = word_of_nat b \<longleftrightarrow> a = b"
  unfolding word_of_nat_eq_iff by (simp add: take_bit_nat_eq_self)

lemma serial_bits: "a < 2 ^ 61 \<Longrightarrow> take_bit 61 (word_of_nat a) = (word_of_nat a :: u64)"
  by (metis of_nat_take_bit take_bit_nat_eq_self)

lemma new_id:
  assumes "next_event_serial p = word_of_nat k" and "k < 2 ^ 61"
  shows "fst (get_new_event_id p t) = push_bit 3 (word_of_nat k) OR type_code t"
    "next_event_serial (snd (get_new_event_id p t)) = word_of_nat (if k = 2 ^ 61 - 1 then 1 else k + 1)"
proof -
  have "(word_of_nat k :: u64) = word_of_nat (2 ^ 61 - 1) \<longleftrightarrow> k = 2 ^ 61 - 1"
    by (rule serial_inj [OF assms(2)]) simp
  then show "fst (get_new_event_id p t) = push_bit 3 (word_of_nat k) OR type_code t"
    "next_event_serial (snd (get_new_event_id p t)) = word_of_nat (if k = 2 ^ 61 - 1 then 1 else k + 1)"
    using assms(1) unfolding get_new_event_id_def Let_def max_serial by (simp_all add: TYPE_CODE_NUM_BITS_def add.commute)
qed

lemma new_ids_eq:
  assumes "next_event_serial p = word_of_nat k" and "k + length ts \<le> 2 ^ 61"
  shows "new_ids p ts = map2 (\<lambda>s t. push_bit 3 (word_of_nat s) OR type_code t) [k ..< k + length ts] ts"
  using assms
proof (induction ts arbitrary: p k)
  case (Cons t ts)
  obtain i q where q: "get_new_event_id p t = (i, q)" by fastforce
  have k: "k < 2 ^ 61" using Cons.prems(2) by simp
  note n = new_id [OF Cons.prems(1) k, of t, unfolded q fst_conv snd_conv]
  show ?case
  proof (cases "ts = []")
    case True
    then show ?thesis using q n(1) by simp
  next
    case False
    then have "k + 1 + length ts \<le> 2 ^ 61" "k \<noteq> 2 ^ 61 - 1" using Cons.prems(2) by (auto simp: Suc_le_eq neq_Nil_conv)
    then have "new_ids q ts = map2 (\<lambda>s t. push_bit 3 (word_of_nat s) OR type_code t) [k + 1 ..< k + 1 + length ts] ts"
      using Cons.IH [of q "k + 1"] n(2) by simp
    moreover have "[k ..< k + length (t # ts)] = k # [k + 1 ..< k + 1 + length ts]" by (simp add: upt_rec)
    ultimately show ?thesis using q n(1) by simp
  qed
qed simp

text \<open>
  C11. The identifiers of up to \<open>2 ^ 61 - 1\<close> events created in a new pool are all different and never 0, and each tells the
  type of its event; after that the serial numbers start again at 1.
\<close>

theorem event_ids_unique:
  assumes "next_event_serial (p :: 'h npool) = 1" and "length ts < 2 ^ 61"
  shows "distinct (new_ids p ts) \<and> 0 \<notin> set (new_ids p ts) \<and> map get_event_id_type (new_ids p ts) = map Some ts \<and>
    (\<forall>(q :: 'h npool) t. next_event_serial q = 2 ^ 61 - 1 \<longrightarrow> next_event_serial (snd (get_new_event_id q t)) = 1)"
proof -
  define f where "f = (\<lambda>s t. push_bit 3 (word_of_nat s :: u64) OR type_code t)"
  define ss where "ss = [1 ..< 1 + length ts]"
  have len: "length ss = length ts" unfolding ss_def length_upt by simp
  have ids: "new_ids p ts = map (case_prod f) (zip ss ts)"
    unfolding f_def ss_def using new_ids_eq [of p 1 ts] assms by simp
  have small: "s < 2 ^ 61" "s \<noteq> 0" if "s \<in> set ss" for s using that assms(2) by (auto simp: ss_def)
  have "map (drop_bit 3) (new_ids p ts) = map (word_of_nat \<circ> fst) (zip ss ts)"
    unfolding ids map_map
  proof (rule map_cong [OF refl])
    fix x assume "x \<in> set (zip ss ts)"
    then have "fst x \<in> set ss" by (metis set_zip_leftD prod.collapse)
    then show "(drop_bit 3 \<circ> case_prod f) x = (word_of_nat \<circ> fst) x"
      using id_serial [OF serial_bits [OF small(1)], of "fst x" "snd x"] by (simp add: f_def case_prod_beta)
  qed
  moreover have "map (word_of_nat \<circ> fst) (zip ss ts) = map word_of_nat ss"
    unfolding map_map [symmetric] map_fst_zip [OF len] by (rule refl)
  ultimately have serials: "map (drop_bit 3) (new_ids p ts) = (map word_of_nat ss :: u64 list)" by simp
  have "inj_on (word_of_nat :: nat \<Rightarrow> u64) (set ss)" using serial_inj small(1) by (auto intro: inj_onI)
  then have "distinct (map word_of_nat ss :: u64 list)" by (simp add: distinct_map ss_def)
  then have d: "distinct (new_ids p ts)" unfolding serials [symmetric] by (simp add: distinct_map)
  have n: "0 \<notin> set (new_ids p ts)"
  proof
    assume "0 \<in> set (new_ids p ts)"
    then have "drop_bit 3 (0 :: u64) \<in> set (map (drop_bit 3) (new_ids p ts))" by (metis image_eqI list.set_map)
    then obtain s where "s \<in> set ss" "(word_of_nat s :: u64) = word_of_nat 0" unfolding serials by auto
    then show False using serial_inj [OF small(1), of s 0] small(2) by simp
  qed
  have "map get_event_id_type (new_ids p ts) = map (Some \<circ> snd) (zip ss ts)"
    unfolding ids map_map by (rule map_cong [OF refl]) (simp add: f_def id_type case_prod_beta)
  also have "\<dots> = map Some ts" unfolding map_map [symmetric] map_snd_zip [OF len] by (rule refl)
  finally have t: "map get_event_id_type (new_ids p ts) = map Some ts" .
  have "next_event_serial (snd (get_new_event_id q t)) = 1" if "next_event_serial q = 2 ^ 61 - 1" for q :: "'h npool" and t
    using new_id(2) [of q "2 ^ 61 - 1" t] that by simp
  then show ?thesis using d n t by blast
qed

theorem event_ids_unique_witness:
  "distinct (new_ids empty_pool [NSE_TYPE_READ, NSE_TYPE_TIMER])"
  by (rule event_ids_unique [THEN conjunct1]) (simp_all add: empty_pool_def)

section \<open>Reading\<close>

definition received :: "read_result list \<Rightarrow> cstr" where
  "received rs = concat (map (\<lambda>r. case r of Got b \<Rightarrow> b | Read_error _ \<Rightarrow> []) rs)"

lemma received_simps [simp]: "received [] = []" "received (Got b # rs) = b @ received rs" "received (Read_error err # rs) = received rs"
  by (simp_all add: received_def)

text \<open>No byte is lost or turned round, however the data come in.\<close>

lemma read_loop_stream:
  "read_loop f m b rs = (b', how, rs') \<Longrightarrow>
    \<exists>used. rs = used @ rs' \<and> b' = b @ received used \<and> (how = At_eof \<longleftrightarrow> used \<noteq> [] \<and> last used = Got []) \<and>
      (\<forall>err. how = Failed_with err \<longrightarrow> used \<noteq> [] \<and> last used = Read_error err \<and> errcode_is_failure err)"
proof (induction f m b rs rule: read_loop.induct)
  case (1 f m b)
  then show ?case by (intro exI [of _ "[]"]) simp
next
  case (2 f m b err rs)
  show ?case
  proof (cases "err = ENOTSOCK \<and> \<not> f \<or> err = EINTR")
    case True
    then obtain used where "rs = used @ rs'" "b' = b @ received used" "how = At_eof \<longleftrightarrow> used \<noteq> [] \<and> last used = Got []"
      "\<forall>err. how = Failed_with err \<longrightarrow> used \<noteq> [] \<and> last used = Read_error err \<and> errcode_is_failure err"
      using 2 by (auto split: if_splits)
    then show ?thesis by (intro exI [of _ "Read_error err # used"]) auto
  next
    case False
    then show ?thesis using "2.prems" by (intro exI [of _ "[Read_error err]"]) (auto split: if_splits)
  qed
next
  case (3 f m b buf rs)
  show ?case
  proof (cases "buf = [] \<or> int (length (b @ buf)) > m \<or> length buf < READ_BUFFER_SZ")
    case True
    then show ?thesis using "3.prems" by (intro exI [of _ "[Got buf]"]) (auto simp: Let_def split: if_splits)
  next
    case False
    then obtain used where "rs = used @ rs'" "b' = (b @ buf) @ received used" "how = At_eof \<longleftrightarrow> used \<noteq> [] \<and> last used = Got []"
      "\<forall>err. how = Failed_with err \<longrightarrow> used \<noteq> [] \<and> last used = Read_error err \<and> errcode_is_failure err"
      using 3 by (auto simp: Let_def split: if_splits)
    then show ?thesis using False by (intro exI [of _ "Got buf # used"]) auto
  qed
qed

lemma count_lines_iff: "num \<le> count_lines s num cnt \<longleftrightarrow> num \<le> cnt + int (count_list s LF)"
  by (induction s num cnt rule: count_lines.induct) auto

text \<open>What a request asks for.\<close>

definition satisfied :: "'h nevent \<Rightarrow> bool" where
  "satisfied v \<longleftrightarrow>
     (case read_type v of
        NSOCK_READ \<Rightarrow> True
      | NSOCK_READBYTES \<Rightarrow> int (length (iobuf v)) \<ge> read_num v
      | NSOCK_READLINES \<Rightarrow> int (count_list (iobuf v) LF) \<ge> read_num v)"

lemma update_events_data: "update_events p i a b = Inr q \<Longrightarrow> events q = events p \<and> in_reads (iods q j) = in_reads (iods p j)"
  by (auto simp: update_events_def select_iod_register_def select_iod_modify_def Let_def bind_out_def split: if_splits sum.splits)

lemma read_tail_data:
  assumes "bind_out (socket_count_read_dec p i) (\<lambda>(ev, p). update_events p i EV_NONE ev) = Inr q"
  shows "events q = events p" "in_reads (iods q j) = in_reads (iods p j)"
  using assms by (auto simp: socket_count_read_dec_def bind_out_def split: if_splits dest!: update_events_data [where j = j])



end
