(* ===== verification/Nsock_Delete.thy ===== *)
theory Nsock_Delete
  imports Nsock_Results
begin

text \<open>
  Deleting what is pending with notification: an iod, which a handler can make the library give up on, and the whole
  pool, where every event that is pending is reported once.
\<close>

section \<open>Deleting an iod with notification\<close>

text \<open>A pool with three requests on one iod, made one after the other.\<close>

definition reads_pool :: "nat npool" where
  "reads_pool =
     (case perform (\<lambda>_ _ p. Inr p) iod_pool (Read_lines 7 1 (-1) 1) of
        Inl e \<Rightarrow> iod_pool
      | Inr (v, p) \<Rightarrow>
          (case perform (\<lambda>_ _ p. Inr p) p (Read_lines 7 1 (-1) 1) of
             Inl e \<Rightarrow> iod_pool
           | Inr (v, p) \<Rightarrow>
               (case perform (\<lambda>_ _ p. Inr p) p (Read_lines 7 1 (-1) 1) of
                  Inl e \<Rightarrow> iod_pool
                | Inr (v, p) \<Rightarrow> p)))"

text \<open>The handler that is told of a cancellation cancels the second request.\<close>

definition canceller :: "nat \<Rightarrow> nat nevent \<Rightarrow> nat program" where
  "canceller h v = (if ev_status v = NSE_STATUS_CANCELLED then Ask (Cancel_event 18 False) (\<lambda>_. Finished) else Finished)"

lemmas cancel_evals = nevent_delete_def handle_result_def handle_read_result_def complete_def socket_count_read_dec_def nevent_unref_def
  update_first_events_def first_ev_next_def gh_lnode_next_def list_of_def list_remove_def event_dispatch_and_delete_def canceller_def
  permitted_def creates_event_def nsock_event_cancel_def get_event_id_type_def event_delete_def close_iod_def

lemma reads_pool_reach: "pool_reach prog n reads_pool"
proof -
  define p where "p = (case perform (\<lambda>_ _ p. Inr p) iod_pool (Read_lines 7 1 (-1) 1) of Inl e \<Rightarrow> iod_pool | Inr (v, p) \<Rightarrow> p)"
  define q where "q = (case perform (\<lambda>_ _ p. Inr p) p (Read_lines 7 1 (-1) 1) of Inl e \<Rightarrow> iod_pool | Inr (v, p) \<Rightarrow> p)"
  have "perform (handlers_of prog n) iod_pool (Read_lines 7 1 (-1) 1) = Inr (10, p)" by (simp add: p_def pool_evals)
  then have p: "pool_reach prog n p" by (rule pool_reach.reach_call [OF iod_pool_reach, rotated]) (simp add: permitted_def usable_def)
  have "perform (handlers_of prog n) p (Read_lines 7 1 (-1) 1) = Inr (18, q)" by (simp add: q_def p_def pool_evals)
  then have q: "pool_reach prog n q"
    by (rule pool_reach.reach_call [OF p, rotated]) (simp add: permitted_def usable_def p_def pool_evals)
  have "perform (handlers_of prog n) q (Read_lines 7 1 (-1) 1) = Inr (26, reads_pool)" by (simp add: reads_pool_def q_def p_def pool_evals)
  then show ?thesis
    by (rule pool_reach.reach_call [OF q, rotated]) (simp add: permitted_def usable_def q_def p_def pool_evals)
qed

lemma delete_loop_None: "delete_loop call i notify p None = Some (Inr p)"
  by (subst delete_loop.simps) simp

lemma canceller_aborts: "nsock_iod_delete (handlers_of canceller 1) reads_pool 7 NSOCK_PENDING_NOTIFY = Some (Inl Fatal_exit)"
  apply (simp add: nsock_iod_delete_def reads_pool_def pool_evals delete_loop_None)
  apply (subst delete_loop.simps, simp add: pool_evals cancel_evals delete_loop_None)
  apply (subst delete_loop.simps, simp add: pool_evals cancel_evals delete_loop_None)
  done


section \<open>Deleting the pool\<close>

text \<open>
  The events of a list are taken out one by one and told that they are killed; then the heap is emptied and the timers in it are
  told; then the iods are deleted.  Neither the pointers of the iods nor the heap are updated while the lists are emptied.
\<close>

definition notify_kill :: "'h handlers \<Rightarrow> 'h npool \<Rightarrow> nat \<Rightarrow> 'h npool outcome" where
  "notify_kill call p nse =
     (let p = set_ev p nse (\<lambda>v. v\<lparr>ev_status := NSE_STATUS_KILL\<rparr>); v = events p nse
      in call (ev_handler v) nse (p\<lparr>calls := calls p @ [(ev_handler v, ev_id v, ev_status v)]\<rparr>))"

definition discharge :: "'h npool \<Rightarrow> nat \<Rightarrow> 'h npool outcome" where
  "discharge p nse =
     (case ev_iod (events p nse) of
        None \<Rightarrow> Inr p
      | Some i \<Rightarrow>
          let p = set_iod p i (\<lambda>d. d\<lparr>iod_pending := iod_pending d - 1\<rparr>)
          in if \<not> iod_pending (iods p i) \<ge> 0 then Inl Assert_failed else Inr p)"

partial_function (option) kill_events :: "'h handlers \<Rightarrow> evkind \<Rightarrow> 'h npool \<Rightarrow> 'h npool outcome option" where
  "kill_events call k p =
     (case queue p k of
        [] \<Rightarrow> Some (Inr p)
      | nse # r \<Rightarrow>
          (case bind_out (notify_kill call (set_queue p k r) nse) (\<lambda>p.
                bind_out (discharge p nse) (\<lambda>p. Inr (event_delete p nse))) of
             Inl e \<Rightarrow> Some (Inl e)
           | Inr p \<Rightarrow> kill_events call k p))"

text \<open>One event is taken out of the heap; when it is a timer, its handler is called.\<close>

definition kill_top :: "'h handlers \<Rightarrow> 'h npool \<Rightarrow> nat \<Rightarrow> 'h npool outcome" where
  "kill_top call p nse =
     (if ev_type (events p nse) = NSE_TYPE_TIMER
      then bind_out (notify_kill call p nse) (\<lambda>p.
           let p = event_delete p nse in Inr (p\<lparr>free_events := free_events p @ [nse]\<rparr>))
      else Inr p)"

partial_function (option) kill_expirables :: "'h handlers \<Rightarrow> 'h npool \<Rightarrow> 'h npool outcome option" where
  "kill_expirables call p =
     (if gh_heap_count (timers p) > 0
      then (case gh_heap_pop (timers p) of
              Inl e \<Rightarrow> Some (Inl e)
            | Inr (None, h) \<Rightarrow> Some (Inl Null_deref)
            | Inr (Some nse, h) \<Rightarrow>
                let p = p\<lparr>expirables := h\<rparr>
                in (case kill_top call p nse of
                      Inl e \<Rightarrow> Some (Inl e)
                    | Inr p \<Rightarrow> kill_expirables call p))
      else Some (Inr p))"

partial_function (option) delete_iods :: "'h handlers \<Rightarrow> 'h npool \<Rightarrow> nat option \<Rightarrow> 'h npool outcome option" where
  "delete_iods call p current =
     (case current of
        None \<Rightarrow> Some (Inr p)
      | Some i \<Rightarrow>
          let nxt = next_in (active_iods p) i
          in (case nsock_iod_delete call p i NSOCK_PENDING_ERROR of
                None \<Rightarrow> None
              | Some (Inl e) \<Rightarrow> Some (Inl e)
              | Some (Inr p) \<Rightarrow>
                  (case list_remove (active_iods p) i of
                     Inl e \<Rightarrow> Some (Inl e)
                   | Inr l \<Rightarrow> delete_iods call (p\<lparr>active_iods := l, free_iods := i # free_iods p\<rparr>) nxt)))"

text \<open>The result is what the memory holds when the pool is released; the heap is released by \<open>gh_heap_free\<close>.\<close>

definition and_then :: "'a outcome option \<Rightarrow> ('a \<Rightarrow> 'b outcome option) \<Rightarrow> 'b outcome option" where
  "and_then m f = (case m of None \<Rightarrow> None | Some (Inl e) \<Rightarrow> Some (Inl e) | Some (Inr x) \<Rightarrow> f x)"

definition nsock_pool_delete :: "'h handlers \<Rightarrow> 'h npool \<Rightarrow> 'h npool outcome option" where
  "nsock_pool_delete call p =
     and_then (kill_events call Connects p) (\<lambda>p.
     and_then (kill_events call Reads p) (\<lambda>p.
     and_then (kill_events call Writes p) (\<lambda>p.
     and_then (kill_expirables call p) (\<lambda>p.
     and_then (Some (map_sum id (\<lambda>h. p\<lparr>expirables := h\<rparr>) (gh_heap_free (timers p)))) (\<lambda>p.
     and_then (delete_iods call p (if active_iods p = [] then None else Some (hd (active_iods p)))) (\<lambda>p.
     Some (Inr (p\<lparr>free_iods := [], free_events := []\<rparr>))))))))"

text \<open>A handler that leaves the pool alone.\<close>

abbreviation onlooker :: "'h handlers" where
  "onlooker \<equiv> \<lambda>h e p. Inr p"

definition kill_call :: "'h npool \<Rightarrow> nat \<Rightarrow> 'h \<times> u64 \<times> nse_status" where
  "kill_call p e = (ev_handler (events p e), ev_id (events p e), NSE_STATUS_KILL)"

text \<open>How many events of a list an iod has.\<close>

definition share :: "'h npool \<Rightarrow> nat list \<Rightarrow> nat \<Rightarrow> int" where
  "share p l i = int (length (filter (\<lambda>e. ev_iod (events p e) = Some i) l))"

text \<open>What reporting the end of some events leaves alone.\<close>

definition killed :: "'h npool \<Rightarrow> 'h npool \<Rightarrow> bool" where
  "killed p q \<longleftrightarrow>
     (\<forall>e. ev_type (events q e) = ev_type (events p e) \<and> ev_timeout (events q e) = ev_timeout (events p e) \<and>
        ev_iod (events q e) = ev_iod (events p e) \<and> ev_handler (events q e) = ev_handler (events p e) \<and>
        ev_id (events q e) = ev_id (events p e)) \<and>
     active_iods q = active_iods p \<and>
     (\<forall>i. \<exists>n. iods q i = (iods p i)\<lparr>iod_pending := n\<rparr>)"

lemma killed_refl: "killed p p"
  unfolding killed_def by (metis niod.surjective niod.update_convs(2))

lemma killed_trans: "killed p q \<Longrightarrow> killed q r \<Longrightarrow> killed p r"
  unfolding killed_def by (smt (verit) niod.update_convs(2) niod.surjective)

lemma kill_step:
  assumes "ev_iod (events p e) = Some i" and "iod_pending (iods p i) \<ge> 1"
  shows "\<exists>r. bind_out (notify_kill onlooker (set_queue p k l) e) (\<lambda>p. bind_out (discharge p e) (\<lambda>p. Inr (event_delete p e))) = Inr r \<and>
    killed p r \<and> queue r = (queue p)(k := l) \<and> expirables r = expirables p \<and> calls r = calls p @ [kill_call p e] \<and>
    (\<forall>j. iod_pending (iods r j) = iod_pending (iods p j) - (if j = i then 1 else 0))"
proof -
  define r where "r = event_delete (set_iod ((set_ev (set_queue p k l) e
    (\<lambda>v. v\<lparr>ev_status := NSE_STATUS_KILL\<rparr>))\<lparr>calls := calls p @ [kill_call p e]\<rparr>) i (\<lambda>d. d\<lparr>iod_pending := iod_pending d - 1\<rparr>)) e"
  have "bind_out (notify_kill onlooker (set_queue p k l) e) (\<lambda>p. bind_out (discharge p e) (\<lambda>p. Inr (event_delete p e))) = Inr r"
    using assms by (simp add: notify_kill_def discharge_def r_def kill_call_def set_ev_def set_queue_def set_iod_def)
  moreover have "killed p r"
    using killed_refl [of p] by (auto simp: killed_def r_def event_delete_def)
  moreover have "queue r = (queue p)(k := l) \<and> expirables r = expirables p \<and> calls r = calls p @ [kill_call p e]"
    by (simp add: r_def event_delete_def)
  moreover have "\<forall>j. iod_pending (iods r j) = iod_pending (iods p j) - (if j = i then 1 else 0)"
    by (simp add: r_def event_delete_def)
  ultimately show ?thesis by blast
qed

lemma killed_kill_call: "killed p q \<Longrightarrow> kill_call q = kill_call p"
  by (rule ext) (simp add: killed_def kill_call_def)

lemma killed_share: "killed p q \<Longrightarrow> share q l = share p l"
  by (rule ext) (simp add: killed_def share_def)

lemma kill_events_onlooker:
  assumes "queue p k = l" and "\<forall>e \<in> set l. \<exists>i. ev_iod (events p e) = Some i" and "\<forall>i. share p l i = 0 \<or> share p l i \<le> iod_pending (iods p i)"
  shows "\<exists>q. kill_events onlooker k p = Some (Inr q) \<and> killed p q \<and> queue q = (queue p)(k := []) \<and> expirables q = expirables p \<and>
    calls q = calls p @ map (kill_call p) l \<and> (\<forall>i. iod_pending (iods q i) = iod_pending (iods p i) - share p l i)"
  using assms
proof (induction l arbitrary: p)
  case Nil
  have "kill_events onlooker k p = Some (Inr p)" using Nil by (subst kill_events.simps) simp
  moreover have "queue p = (queue p)(k := [])" using Nil by auto
  ultimately show ?case by (simp add: killed_refl share_def)
next
  case (Cons e l)
  obtain i where i: "ev_iod (events p e) = Some i" using Cons.prems(2) by auto
  have sh: "share p (e # l) j = (if j = i then 1 else 0) + share p l j" for j using i by (simp add: share_def)
  have pos: "0 \<le> share p l j" for j by (simp add: share_def)
  have "iod_pending (iods p i) \<ge> 1" using Cons.prems(3) [rule_format, of i] sh [of i] pos [of i] by auto
  from kill_step [OF i this, of k l] obtain r where r:
    "bind_out (notify_kill onlooker (set_queue p k l) e) (\<lambda>p. bind_out (discharge p e) (\<lambda>p. Inr (event_delete p e))) = Inr r"
    "killed p r" "queue r = (queue p)(k := l)" "expirables r = expirables p" "calls r = calls p @ [kill_call p e]"
    "\<forall>j. iod_pending (iods r j) = iod_pending (iods p j) - (if j = i then 1 else 0)" by blast
  have "kill_events onlooker k p = kill_events onlooker k r"
    using Cons.prems(1) r(1) by (subst kill_events.simps) simp
  moreover have "\<forall>e \<in> set l. \<exists>i. ev_iod (events r e) = Some i" using Cons.prems(2) r(2) by (simp add: killed_def)
  moreover have "share r l j = 0 \<or> share r l j \<le> iod_pending (iods r j)" for j
    using Cons.prems(3) [rule_format, of j] sh [of j] pos [of j] r(6) killed_share [OF r(2)] by auto
  moreover have "queue r k = l" using r(3) by simp
  ultimately obtain q where q: "kill_events onlooker k p = Some (Inr q)" "killed r q" "queue q = (queue r)(k := [])"
    "expirables q = expirables r" "calls q = calls r @ map (kill_call r) l"
    "\<forall>i. iod_pending (iods q i) = iod_pending (iods r i) - share r l i"
    using Cons.IH [of r] by metis
  have "killed p q" using r(2) q(2) by (rule killed_trans)
  moreover have "calls q = calls p @ map (kill_call p) (e # l)" using q(5) r(5) killed_kill_call [OF r(2)] by simp
  moreover have "\<forall>j. iod_pending (iods q j) = iod_pending (iods p j) - share p (e # l) j"
    using q(6) r(6) sh killed_share [OF r(2)] by simp
  moreover have "queue q = (queue p)(k := [])" "expirables q = expirables p" using q(3,4) r(3,4) by simp_all
  ultimately show ?case using q(1) by blast
qed

lemma killed_timers:
  assumes "killed p q" and "expirables q = h" and "heap_wf (expirable_cmp (\<lambda>e. ev_timeout (events p e))) h"
  shows "timers q = h"
proof -
  have "(\<lambda>e. ev_timeout (events q e)) = (\<lambda>e. ev_timeout (events p e))" using assms(1) by (simp add: killed_def)
  then show ?thesis using assms(2,3) by (simp add: timers_def heap_wf_def)
qed

lemma kill_expirables_pop:
  "gh_heap_count (timers p) > 0 \<Longrightarrow> gh_heap_pop (timers p) = Inr (Some e, h) \<Longrightarrow> kill_top call (p\<lparr>expirables := h\<rparr>) e = Inr r \<Longrightarrow>
    kill_expirables call p = kill_expirables call r"
  by (subst kill_expirables.simps) (simp add: Let_def)

lemma kill_top_onlooker:
  "\<exists>r. kill_top onlooker (p\<lparr>expirables := h\<rparr>) e = Inr r \<and> killed p r \<and> queue r = queue p \<and> expirables r = h \<and> iods r = iods p \<and>
    calls r = calls p @ (if ev_type (events p e) = NSE_TYPE_TIMER then [kill_call p e] else [])"
proof -
  have k: "killed p (p\<lparr>expirables := h\<rparr>)" using killed_refl [of p] by (simp add: killed_def)
  show ?thesis
  proof (cases "ev_type (events p e) = NSE_TYPE_TIMER")
    case True
    define r where "r = event_delete (set_ev (p\<lparr>expirables := h\<rparr>) e (\<lambda>v. v\<lparr>ev_status := NSE_STATUS_KILL\<rparr>)\<lparr>calls := calls p @ [kill_call p e]\<rparr>) e"
    have "kill_top onlooker (p\<lparr>expirables := h\<rparr>) e = Inr (r\<lparr>free_events := free_events r @ [e]\<rparr>)"
      using True by (simp add: kill_top_def notify_kill_def r_def kill_call_def set_ev_def Let_def)
    moreover have "killed p (r\<lparr>free_events := free_events r @ [e]\<rparr>)"
      using killed_refl [of p] by (auto simp: killed_def r_def event_delete_def)
    ultimately show ?thesis using True by (intro exI [of _ "r\<lparr>free_events := free_events r @ [e]\<rparr>"]) (simp add: r_def event_delete_def)
  next
    case False
    then show ?thesis using k by (intro exI [of _ "p\<lparr>expirables := h\<rparr>"]) (simp add: kill_top_def)
  qed
qed

lemma kill_expirables_onlooker:
  assumes "heap_wf (expirable_cmp (\<lambda>e. ev_timeout (events p e))) (timers p)"
  shows "\<exists>q ts. kill_expirables onlooker p = Some (Inr q) \<and> killed p q \<and> queue q = queue p \<and> iods q = iods p \<and>
    calls q = calls p @ map (kill_call p) ts \<and> set ts = {e \<in> heap_nodes (timers p). ev_type (events p e) = NSE_TYPE_TIMER} \<and> distinct ts \<and>
    sorted (map (\<lambda>e. ev_timeout (events p e)) ts) \<and> heap_wf (expirable_cmp (\<lambda>e. ev_timeout (events p e))) (timers q)"
  using assms
proof (induction "gh_heap_count (timers p)" arbitrary: p rule: less_induct)
  case less
  let ?T = "\<lambda>e. ev_timeout (events p e)"
  show ?case
  proof (cases "gh_heap_count (timers p) > 0")
    case False
    then have "kill_expirables onlooker p = Some (Inr p)" by (subst kill_expirables.simps) simp
    moreover have "heap_nodes (timers p) = {}" using False by (simp add: heap_nodes_def gh_heap_count_def)
    ultimately show ?thesis using less.prems by (intro exI [of _ p] exI [of _ "[]"]) (simp add: killed_refl)
  next
    case True
    then have ne: "heap_nodes (timers p) \<noteq> {}" by (auto simp: heap_nodes_def gh_heap_count_def)
    obtain e h where h: "gh_heap_pop (timers p) = Inr (Some e, h)" "heap_wf (expirable_cmp ?T) h" "e \<in> heap_nodes (timers p)"
      "heap_nodes h = heap_nodes (timers p) - {e}" "\<forall>x \<in> heap_nodes (timers p). \<not> expirable_cmp ?T x e"
      using expirable.pop_ok [OF less.prems ne] by blast
    obtain r where r: "kill_top onlooker (p\<lparr>expirables := h\<rparr>) e = Inr r" "killed p r" "queue r = queue p" "expirables r = h" "iods r = iods p"
      "calls r = calls p @ (if ev_type (events p e) = NSE_TYPE_TIMER then [kill_call p e] else [])"
      using kill_top_onlooker by blast
    have t: "timers r = h" by (rule killed_timers [OF r(2,4) h(2)])
    have T: "(\<lambda>e. ev_timeout (events r e)) = ?T" "\<And>e. ev_type (events r e) = ev_type (events p e)" using r(2) by (simp_all add: killed_def)
    have lt: "gh_heap_count (timers r) < gh_heap_count (timers p)" using gh_heap_pop_count [OF h(1)] t by (simp add: gh_heap_count_def)
    have "heap_wf (expirable_cmp (\<lambda>e. ev_timeout (events r e))) (timers r)" using h(2) t T(1) by simp
    from less.hyps [OF lt this, unfolded t T] obtain q ts where q: "kill_expirables onlooker r = Some (Inr q)" "killed r q" "queue q = queue r" "iods q = iods r"
      "calls q = calls r @ map (kill_call r) ts" "set ts = {x \<in> heap_nodes h. ev_type (events p x) = NSE_TYPE_TIMER}" "distinct ts"
      "sorted (map ?T ts)" "heap_wf (expirable_cmp ?T) (timers q)"
      by blast
    define us where "us = (if ev_type (events p e) = NSE_TYPE_TIMER then [e] else []) @ ts"
    have "kill_expirables onlooker p = Some (Inr q)" using kill_expirables_pop [OF True h(1) r(1)] q(1) by simp
    moreover have "calls q = calls p @ map (kill_call p) us" using q(5) r(6) killed_kill_call [OF r(2)] by (simp add: us_def)
    moreover have "set us = {x \<in> heap_nodes (timers p). ev_type (events p x) = NSE_TYPE_TIMER}" using q(6) h(3,4) by (auto simp: us_def)
    moreover have "distinct us" using q(6,7) h(4) by (auto simp: us_def)
    moreover have "sorted (map ?T us)" using q(6,8) h(4,5) by (auto simp: us_def expirable_cmp_def)
    moreover have "killed p q" by (rule killed_trans [OF r(2) q(2)])
    moreover have "queue q = queue p" "iods q = iods p" using q(3,4) r(3,5) by simp_all
    ultimately show ?thesis using q(9) by blast
  qed
qed
text \<open>The iods are idle by then, so each of them is closed.\<close>

definition idle_iod :: "niod \<Rightarrow> bool" where
  "idle_iod d \<longleftrightarrow> iod_pending d = 0 \<and> sd d < FD_SETSIZE \<and> (registered d \<longrightarrow> 0 \<le> sd d)"

definition shut :: "niod \<Rightarrow> niod \<Rightarrow> bool" where
  "shut d d' \<longleftrightarrow>
     state d' = NSIOD_STATE_DELETED \<and> (state d \<noteq> NSIOD_STATE_DELETED \<and> \<not> iod_stdin d \<longrightarrow> sd d' < 0)"

lemma close_idle:
  assumes "idle_iod (iods p i)" and "state (iods p i) \<noteq> NSIOD_STATE_DELETED"
  shows "\<exists>r. close_iod p i = Inr r \<and> active_iods r = active_iods p \<and> calls r = calls p \<and> (\<forall>j. j \<noteq> i \<longrightarrow> iods r j = iods p j) \<and>
    shut (iods p i) (iods r i)"
  using assms unfolding idle_iod_def shut_def
  by (auto simp: close_iod_def socket_count_zero_def select_iod_unregister_def Let_def)

lemma delete_idle:
  assumes "idle_iod (iods p i)"
  shows "\<exists>r. nsock_iod_delete call p i NSOCK_PENDING_ERROR = Some (Inr r) \<and> active_iods r = active_iods p \<and> calls r = calls p \<and>
    (\<forall>j. j \<noteq> i \<longrightarrow> iods r j = iods p j) \<and> shut (iods p i) (iods r i)"
proof (cases "state (iods p i) = NSIOD_STATE_DELETED")
  case True
  then show ?thesis by (simp add: nsock_iod_delete_def shut_def)
next
  case False
  have "nsock_iod_delete call p i NSOCK_PENDING_ERROR = Some (close_iod p i)"
    using assms False by (simp add: nsock_iod_delete_def idle_iod_def)
  then show ?thesis using close_idle [OF assms False] by auto
qed

lemma delete_iods_idle:
  assumes "active_iods p = l" and "distinct l" and "\<forall>i \<in> set l. idle_iod (iods p i)"
  shows "\<exists>q. delete_iods call p (if l = [] then None else Some (hd l)) = Some (Inr q) \<and> active_iods q = [] \<and> calls q = calls p \<and>
    (\<forall>i \<in> set l. shut (iods p i) (iods q i)) \<and> (\<forall>i. i \<notin> set l \<longrightarrow> iods q i = iods p i)"
  using assms
proof (induction l arbitrary: p)
  case Nil
  then show ?case by (subst delete_iods.simps) simp
next
  case (Cons i l)
  obtain r where r: "nsock_iod_delete call p i NSOCK_PENDING_ERROR = Some (Inr r)" "active_iods r = active_iods p" "calls r = calls p"
    "\<forall>j. j \<noteq> i \<longrightarrow> iods r j = iods p j" "shut (iods p i) (iods r i)"
    using delete_idle Cons.prems(3) by (metis list.set_intros(1))
  define s where "s = r\<lparr>active_iods := l, free_iods := i # free_iods r\<rparr>"
  have nxt: "next_in (active_iods p) i = (if l = [] then None else Some (hd l))" using Cons.prems(1) by (cases l) simp_all
  have s: "delete_iods call p (Some i) = delete_iods call s (if l = [] then None else Some (hd l))"
    using r(1,2) nxt Cons.prems(1) by (subst delete_iods.simps) (simp add: list_remove_def s_def Let_def)
  have sf: "active_iods s = l" "iods s = iods r" "calls s = calls r" by (simp_all add: s_def)
  have ne: "j \<noteq> i" if "j \<in> set l" for j using that Cons.prems(2) by auto
  have "\<forall>j \<in> set l. idle_iod (iods s j)" using Cons.prems(3) r(4) ne sf(2) by simp
  moreover have "distinct l" using Cons.prems(2) by simp
  ultimately obtain q where q: "delete_iods call s (if l = [] then None else Some (hd l)) = Some (Inr q)" "active_iods q = []" "calls q = calls s"
    "\<forall>j \<in> set l. shut (iods s j) (iods q j)" "\<forall>j. j \<notin> set l \<longrightarrow> iods q j = iods s j"
    using Cons.IH [OF sf(1)] by blast
  have "shut (iods p j) (iods q j)" if "j \<in> set (i # l)" for j
    using that q(4,5) r(4,5) ne sf(2) Cons.prems(2) by (cases "j = i") simp_all
  moreover have "iods q j = iods p j" if "j \<notin> set (i # l)" for j using that q(5) r(4) sf(2) by simp
  ultimately show ?case using s q(1-3) r(3) sf(3) by simp
qed

text \<open>In a pool no handler is running in, the events of the lists are those the iods count.\<close>

lemma share_open:
  assumes "pool_wf {} 0 (\<lambda>_. 0) p"
  shows "share p (queue p k) i = int (card (open_evs p i k))"
proof -
  have "\<not> event_done (events p e)" if "e \<in> set (queue p k)" for e
    using assms that unfolding pool_wf_def done_ok_def queued_def by blast
  then have "open_evs p i k = set (filter (\<lambda>e. ev_iod (events p e) = Some i) (queue p k))" unfolding open_evs_def by auto
  moreover have "distinct (queue p k)" using assms unfolding pool_wf_def lists_ok_def by blast
  ultimately show ?thesis unfolding share_def by (metis distinct_card distinct_filter)
qed

lemma share_inactive:
  assumes "pool_wf {} 0 (\<lambda>_. 0) p" and "i \<notin> set (active_iods p)"
  shows "share p (queue p k) i = 0"
proof -
  have "ev_iod (events p e) \<noteq> Some i" if "e \<in> set (queue p k)" for e
    using assms that unfolding pool_wf_def lists_ok_def by fastforce
  then have "filter (\<lambda>e. ev_iod (events p e) = Some i) (queue p k) = []" by (simp add: filter_empty_conv)
  then show ?thesis unfolding share_def by simp
qed
lemma pool_pending_share:
  assumes "pool_wf {} 0 (\<lambda>_. 0) p" and "i \<in> set (active_iods p)"
  shows "iod_pending (iods p i) = share p (queue p Connects) i + share p (queue p Reads) i + share p (queue p Writes) i"
  using assms(1,2) by (simp add: share_open [OF assms(1)] pool_wf_def counts_ok_def)

lemma queue_iods:
  assumes "pool_wf {} 0 (\<lambda>_. 0) p"
  shows "\<forall>e \<in> set (queue p k). \<exists>i. ev_iod (events p e) = Some i"
  using assms unfolding pool_wf_def lists_ok_def by blast

text \<open>The three lists are emptied one after the other.\<close>

lemma kill_lists:
  assumes wf: "pool_wf {} 0 (\<lambda>_. 0) p"
  shows "\<exists>q. and_then (kill_events onlooker Connects p) (\<lambda>p. and_then (kill_events onlooker Reads p) (kill_events onlooker Writes)) =
      Some (Inr q) \<and> killed p q \<and> expirables q = expirables p \<and>
    calls q = calls p @ map (kill_call p) (queue p Connects @ queue p Reads @ queue p Writes) \<and>
    (\<forall>i \<in> set (active_iods p). iod_pending (iods q i) = 0)"
proof -
  let ?s = "\<lambda>k. share p (queue p k)"
  have pos: "0 \<le> ?s k i" for k i by (simp add: share_def)
  have room: "?s Connects i = 0 \<and> ?s Reads i = 0 \<and> ?s Writes i = 0 \<or> iod_pending (iods p i) = ?s Connects i + ?s Reads i + ?s Writes i" for i
    using share_inactive [OF wf] pool_pending_share [OF wf] by blast
  have "\<forall>i. ?s Connects i = 0 \<or> ?s Connects i \<le> iod_pending (iods p i)" using room pos by (smt (verit))
  from kill_events_onlooker [OF refl queue_iods [OF wf] this] obtain a where a: "kill_events onlooker Connects p = Some (Inr a)" "killed p a"
    "queue a = (queue p)(Connects := [])" "expirables a = expirables p" "calls a = calls p @ map (kill_call p) (queue p Connects)"
    "\<forall>i. iod_pending (iods a i) = iod_pending (iods p i) - ?s Connects i" by blast
  have qa: "queue a Reads = queue p Reads" using a(3) by simp
  have "\<forall>e \<in> set (queue p Reads). \<exists>i. ev_iod (events a e) = Some i" using queue_iods [OF wf] a(2) by (simp add: killed_def)
  moreover have "\<forall>i. share a (queue p Reads) i = 0 \<or> share a (queue p Reads) i \<le> iod_pending (iods a i)"
    using room pos a(6) killed_share [OF a(2)] by (smt (verit))
  ultimately obtain b where b: "kill_events onlooker Reads a = Some (Inr b)" "killed a b"
    "queue b = (queue a)(Reads := [])" "expirables b = expirables a" "calls b = calls a @ map (kill_call a) (queue p Reads)"
    "\<forall>i. iod_pending (iods b i) = iod_pending (iods a i) - share a (queue p Reads) i"
    using kill_events_onlooker [OF qa] by blast
  have pb: "killed p b" by (rule killed_trans [OF a(2) b(2)])
  have qb: "queue b Writes = queue p Writes" using a(3) b(3) by simp
  have "\<forall>e \<in> set (queue p Writes). \<exists>i. ev_iod (events b e) = Some i" using queue_iods [OF wf] pb by (simp add: killed_def)
  moreover have "\<forall>i. share b (queue p Writes) i = 0 \<or> share b (queue p Writes) i \<le> iod_pending (iods b i)"
    using room pos a(6) b(6) killed_share [OF a(2)] killed_share [OF pb] by (smt (verit))
  ultimately obtain c where c: "kill_events onlooker Writes b = Some (Inr c)" "killed b c"
    "queue c = (queue b)(Writes := [])" "expirables c = expirables b" "calls c = calls b @ map (kill_call b) (queue p Writes)"
    "\<forall>i. iod_pending (iods c i) = iod_pending (iods b i) - share b (queue p Writes) i"
    using kill_events_onlooker [OF qb] by blast
  have "killed p c" by (rule killed_trans [OF pb c(2)])
  moreover have "calls c = calls p @ map (kill_call p) (queue p Connects @ queue p Reads @ queue p Writes)"
    using a(5) b(5) c(5) killed_kill_call [OF a(2)] killed_kill_call [OF pb] by simp
  moreover have "\<forall>i \<in> set (active_iods p). iod_pending (iods c i) = 0"
    using a(6) b(6) c(6) pool_pending_share [OF wf] killed_share [OF a(2)] killed_share [OF pb] by simp
  ultimately show ?thesis using a(1,4) b(1,4) c(1,4) by (simp add: and_then_def)
qed

lemma and_then_assoc: "and_then (and_then m f) g = and_then m (\<lambda>x. and_then (f x) g)"
  by (simp add: and_then_def split: option.splits sum.splits)

lemma and_then_Inr: "and_then (Some (Inr x)) f = f x"
  by (simp add: and_then_def)

lemma heap_free_ok: "heap_wf lt h \<Longrightarrow> \<exists>h'. gh_heap_free h = Inr h'"
  by (auto simp: gh_heap_free_def heap_wf_def slots_ok_def)



end
