(* ===== verification/Nsock_Outcome.thy ===== *)
theory Nsock_Outcome
  imports Nsock_Results
begin

text \<open>
  What connects and writes come to: an error that is known at once is reported before the request returns, a connect that
  goes on is watched until its descriptor is ready and then reports what the socket says, and a write sends its data once
  and in order.
\<close>

section \<open>Connecting\<close>

text \<open>The error a connect over TCP meets at once, if any.\<close>

definition early_error :: "net \<Rightarrow> sockaddr_storage \<Rightarrow> nat \<Rightarrow> int \<Rightarrow> errno option" where
  "early_error sys ss sslen port =
     (case sys_socket sys (ss_family ss) SOCK_STREAM IPPROTO_TCP of
        Inl err \<Rightarrow> Some err
      | Inr fd \<Rightarrow>
          (case with_port ss port of
             Inl e \<Rightarrow> None
           | Inr ss \<Rightarrow>
               (case sys_connect sys fd ss sslen of
                  None \<Rightarrow> None
                | Some err \<Rightarrow> if err = EINPROGRESS \<or> err = EAGAIN then None else Some err)))"

lemma connect_internal_early:
  assumes "the_iod p e = Inr i" and "sslen \<le> SOCKADDR_STORAGE_SIZE" and "sound_net sys (ss_family ss) SOCK_STREAM IPPROTO_TCP"
  shows "nsock_connect_internal sys p e SOCK_STREAM IPPROTO_TCP ss sslen port = Inl Fatal_exit \<and> early_error sys ss sslen port = None \<or>
    (\<exists>f. rewired (iods p i) (f (iods p i)) \<and>
       (case early_error sys ss sslen port of
          None \<Rightarrow> nsock_connect_internal sys p e SOCK_STREAM IPPROTO_TCP ss sslen port = Inr (set_iod p i f) \<and>
            sys_socket sys (ss_family ss) SOCK_STREAM IPPROTO_TCP = Inr (sd (f (iods p i))) \<and> 0 \<le> sd (f (iods p i))
        | Some err \<Rightarrow> nsock_connect_internal sys p e SOCK_STREAM IPPROTO_TCP ss sslen port = Inr (connect_failed (set_iod p i f) e err)))"
proof (cases "sys_socket sys (ss_family ss) SOCK_STREAM IPPROTO_TCP")
  case (Inl err)
  then show ?thesis using assms(1)
    by (intro disjI2 exI [of _ "\<lambda>d. d\<lparr>sd := -1\<rparr>"])
      (simp add: nsock_connect_internal_def nsock_make_socket_def rewired_def early_error_def)
next
  case fd: (Inr fd)
  have pos: "0 \<le> fd" using assms(3) fd by (simp add: sound_net_def)
  show ?thesis
  proof (cases "with_port ss port")
    case (Inl err)
    then have "err = Fatal_exit" by (simp add: with_port_def split: if_splits)
    then show ?thesis using Inl fd assms(1) by (simp add: nsock_connect_internal_def nsock_make_socket_def early_error_def)
  next
    case (Inr ss')
    define f where "f = (\<lambda>d :: niod. d\<lparr>sd := fd, lastproto := IPPROTO_TCP, peer := ss', peerlen := sslen\<rparr>)"
    have two: "set_iod (set_iod p i (\<lambda>d. d\<lparr>sd := fd, lastproto := IPPROTO_TCP\<rparr>)) i (\<lambda>d. d\<lparr>peer := ss', peerlen := sslen\<rparr>) = set_iod p i f"
      by (simp add: set_iod_compose f_def comp_def)
    have eq: "nsock_connect_internal sys p e SOCK_STREAM IPPROTO_TCP ss sslen port =
        (case early_error sys ss sslen port of
           None \<Rightarrow> Inr (set_iod p i f)
         | Some err \<Rightarrow> Inr (connect_failed (set_iod p i f) e err))"
      using fd Inr assms(1,2) unfolding two [symmetric]
      by (simp add: nsock_connect_internal_def nsock_make_socket_def Let_def early_error_def IPPROTO_TCP_def IPPROTO_UDP_def
          split: option.split)
    have "rewired (iods p i) (f (iods p i))" "0 \<le> sd (f (iods p i))" "sd (f (iods p i)) = fd" using pos by (simp_all add: rewired_def f_def)
    then show ?thesis unfolding eq using fd by (intro disjI2 exI [of _ f]) (simp split: option.split)
  qed
qed

lemma update_events_keeps:
  assumes "update_events p i a b = Inr q"
  shows "events q = events p" "queue q = queue p" "calls q = calls p" "first_ev (iods q j) = first_ev (iods p j)"
    "sd (iods q j) = sd (iods p j)" "so_error (iods q j) = so_error (iods p j)"
  using assms
  by (auto simp: update_events_def select_iod_register_def select_iod_modify_def Let_def bind_out_def split: if_splits sum.splits)

text \<open>Adding a connect puts it into the list and changes nothing else that can be seen.\<close>

lemma add_connect:
  assumes "nsock_pool_add_event call p e = Inr q" and "ev_type (events p e) = NSE_TYPE_CONNECT" and "\<not> event_done (events p e)"
    and "ev_iod (events p e) = Some i"
  shows "events q = events p" "queue q = (queue p)(Connects := queue q Connects)" "e \<in> set (queue q Connects)" "calls q = calls p"
    "sd (iods q i) = sd (iods p i)" "so_error (iods q i) = so_error (iods p i)"
proof -
  let ?p = "p\<lparr>pool_pending := pool_pending p + 1\<rparr>"
  define m where "m = (if tv_sec (ev_timeout (events ?p e)) \<noteq> 0
       then bind_out (gh_heap_push (timers ?p) e) (\<lambda>h. Inr (?p\<lparr>expirables := h\<rparr>)) else Inr ?p)"
  define f where "f = (\<lambda>p :: 'a npool. bind_out (valid_iod p e) (\<lambda>i. bind_out (socket_count_read_inc p i) (\<lambda>(_, p).
       bind_out (socket_count_write_inc p i) (\<lambda>(_, p). bind_out (update_events p i (EV_READ OR EV_WRITE) EV_NONE) (\<lambda>p. iod_add_event p i e)))))"
  have nr: "(if ev_type (events ?p e) = NSE_TYPE_READ
         then bind_out (the_iod ?p e) (\<lambda>i.
                Inr (if iod_eof (iods ?p i)
                     then set_ev (complete ?p e NSE_STATUS_EOF) e (\<lambda>v. v\<lparr>ev_eof := True\<rparr>) else ?p))
         else Inr ?p) = Inr ?p" using assms(2) by simp
  have nd: "\<not> event_done (events ?p e)" using assms(3) by simp
  have mr: "events r = events p \<and> queue r = queue p \<and> calls r = calls p \<and> iods r = iods p" if "m = Inr r" for r
    using that unfolding m_def by (auto simp: bind_out_def split: if_splits sum.splits)
  have eq: "nsock_pool_add_event call p e = bind_out m (\<lambda>p. case ev_type (events p e) of
       NSE_TYPE_TIMER \<Rightarrow> Inr p
     | NSE_TYPE_PCAP_READ \<Rightarrow> Inl Fatal_exit
     | NSE_TYPE_READ \<Rightarrow>
         bind_out (valid_iod p e) (\<lambda>i. bind_out (socket_count_read_inc p i) (\<lambda>(_, p).
         bind_out (update_events p i EV_READ EV_NONE) (\<lambda>p. iod_add_event p i e)))
     | NSE_TYPE_WRITE \<Rightarrow>
         bind_out (valid_iod p e) (\<lambda>i. bind_out (socket_count_write_inc p i) (\<lambda>(_, p).
         bind_out (update_events p i EV_WRITE EV_NONE) (\<lambda>p. iod_add_event p i e)))
     | _ \<Rightarrow> f p)"
    unfolding nsock_pool_add_event_def Let_def nr bind_out_simps if_not_P [OF nd] m_def f_def ..
  have "\<exists>r. m = Inr r \<and> f r = Inr q"
  proof (cases m)
    case (Inr r)
    have "ev_type (events r e) = NSE_TYPE_CONNECT" using mr [OF Inr] assms(2) by simp
    then show ?thesis using eq assms(1) Inr by simp
  qed (use eq assms(1) in simp)
  then obtain r where r: "m = Inr r" "f r = Inr q" by blast
  have f: "events r = events p" "queue r = queue p" "calls r = calls p" "iods r = iods p" using mr [OF r(1)] by simp_all
  have v: "valid_iod r e = Inr i" using r(2) assms(4) f(1) by (auto simp: f_def valid_iod_def the_iod_def split: if_splits)
  define s where "s = set_iod (set_iod r i (\<lambda>d. d\<lparr>readsd_count := readsd_count d + 1\<rparr>)) i (\<lambda>d. d\<lparr>writesd_count := writesd_count d + 1\<rparr>)"
  obtain t where t: "update_events s i (EV_READ OR EV_WRITE) EV_NONE = Inr t" "iod_add_event t i e = Inr q"
    using r(2) v unfolding f_def by (auto simp: socket_count_read_inc_def socket_count_write_inc_def s_def bind_out_def split: if_splits sum.splits)
  note k = update_events_keeps [OF t(1)]
  have g: "events t = events p" "queue t = queue p" "calls t = calls p" "sd (iods t i) = sd (iods p i)" "so_error (iods t i) = so_error (iods p i)"
    using k by (simp_all add: s_def f)
  have ins: "e \<in> set l" if "list_insert_before x f e = Inr l" for x f l
    using that by (induction x arbitrary: l) (auto split: if_splits sum.splits simp: map_sum_def)
  have kd: "kind_of (ev_type (events t e)) = Some Connects" using assms(2) by (simp add: g kind_of_def)
  obtain l where l: "(case first_ev (iods t i) Connects of Some f \<Rightarrow> list_insert_before (queue t Connects) f e
      | None \<Rightarrow> Inr (queue t Connects @ [e])) = Inr l"
    "q = set_iod (set_queue t Connects l) i (\<lambda>d. d\<lparr>first_ev := (first_ev d)(Connects := Some e)\<rparr>)"
    using t(2) kd unfolding iod_add_event_def by (auto simp: bind_out_Inr simp del: fun_upd_apply)
  have "e \<in> set l" using l(1) ins by (auto split: option.splits)
  show "events q = events p" "queue q = (queue p)(Connects := queue q Connects)" "e \<in> set (queue q Connects)" "calls q = calls p"
    "sd (iods q i) = sd (iods p i)" "so_error (iods q i) = so_error (iods p i)"
    using l(2) g \<open>e \<in> set l\<close> by simp_all
qed
lemma connect_result_status:
  assumes "handle_connect_result p e NSE_STATUS_SUCCESS = Inr q" and "ev_iod (events p e) = Some i" and "ev_type (events p e) = NSE_TYPE_CONNECT"
  shows "event_done (events q e)"
    "ev_status (events q e) = (case so_error (iods p i) of None \<Rightarrow> NSE_STATUS_SUCCESS | Some _ \<Rightarrow> NSE_STATUS_ERROR)"
    "\<And>err. so_error (iods p i) = Some err \<Longrightarrow> ev_errnum (events q e) = Some err"
proof -
  let ?st = "case so_error (iods p i) of None \<Rightarrow> NSE_STATUS_SUCCESS | Some _ \<Rightarrow> NSE_STATUS_ERROR"
  let ?f = "\<lambda>v. v\<lparr>ev_status := ?st, ev_errnum := (case so_error (iods p i) of None \<Rightarrow> ev_errnum v | Some err \<Rightarrow> Some err), event_done := True\<rparr>"
  have "events q e = ?f (events p e)"
    using assms
    by (auto simp: handle_connect_result_def Let_def bind_out_Inr socket_count_read_dec_def socket_count_write_dec_def
        split: if_splits option.splits dest!: update_events_keeps(1))
  then show "event_done (events q e)" "ev_status (events q e) = ?st"
    "\<And>err. so_error (iods p i) = Some err \<Longrightarrow> ev_errnum (events q e) = Some err" by simp_all
qed

lemma event_new_more:
  assumes "event_new p t (Some i) ms h = Inr (e, q)"
  shows "pool_pending q = pool_pending p" "ev_handler (events q e) = h"
  using assms by (auto simp: event_new_def Let_def get_new_event_id_def bind_out_def split: if_splits sum.splits list.splits)

text \<open>A failed connect is dispatched at once.\<close>

lemma dispatch_failed:
  assumes new: "newly D p e" and t: "ev_type (events p e) = NSE_TYPE_CONNECT" and i: "ev_iod (events p e) = Some i" "i \<in> set (active_iods p)"
  shows "\<exists>q. nsock_pool_add_event call (connect_failed p e err) e =
      bind_out (call (ev_handler (events p e)) e q) (\<lambda>r. Inr (event_delete r e)) \<and>
    queue q = queue p \<and> pool_pending q = pool_pending p \<and> ev_errnum (events q e) = Some err \<and>
    calls q = calls p @ [(ev_handler (events p e), ev_id (events q e), NSE_STATUS_ERROR)]"
proof -
  have w: "counts_ok 0 (charge p e) p" using new by (simp add: newly_def pool_wf_def)
  then have c: "0 \<le> pool_pending p" "1 \<le> iod_pending (iods p i)" using i by (simp_all add: counts_ok_def charge_def)
  define x where "x = connect_failed p e err"
  define y where "y = set_iod x i (\<lambda>d. d\<lparr>iod_pending := iod_pending d - 1\<rparr>)"
  define q where "q = y\<lparr>calls := calls y @ [(ev_handler (events p e), ev_id (events p e), NSE_STATUS_ERROR)]\<rparr>"
  have x: "events x e = (events p e)\<lparr>event_done := True, ev_status := NSE_STATUS_ERROR, ev_errnum := Some err\<rparr>" "iods x = iods p"
    "pool_pending x = pool_pending p" "queue x = queue p" "calls x = calls p" by (simp_all add: x_def connect_failed_def)
  have "nsock_pool_add_event call x e = event_dispatch_and_delete call (x\<lparr>pool_pending := pool_pending x + 1\<rparr>) e True"
    using t x by (simp add: nsock_pool_add_event_def)
  also have "\<dots> = bind_out (call (ev_handler (events p e)) e q) (\<lambda>r. Inr (event_delete r e))"
  proof -
    have "x\<lparr>pool_pending := pool_pending x\<rparr> = x" by simp
    then have same: "x\<lparr>pool_pending := pool_pending p\<rparr> = x" unfolding x(3) .
    show ?thesis using x i(1) c by (simp add: event_dispatch_and_delete_def q_def y_def same)
  qed
  finally show ?thesis unfolding x_def [symmetric]
    by (intro exI [of _ q]) (simp add: q_def y_def x)
qed

text \<open>
  C8. A connect over TCP on an iod without a socket reports an error that is known at once - no socket, or a refusal of
  \<open>connect\<close> - by one call of the handler before the request returns, and leaves nothing pending.  Otherwise the handler is not
  called, the event waits in the list of connects on the new descriptor, which is watched for reading and writing, and when the
  descriptor becomes ready the event is done and its status is what the socket says.
\<close>

theorem connect_outcome:
  assumes "pool_reach prog n p" and "permitted p (Connect_tcp sys i h ms ss len port)"
  defines "m \<equiv> nsock_connect_tcp (handlers_of prog n) sys p i h ms ss len port"
  shows "case early_error sys ss len port of
      Some err \<Rightarrow> (\<exists>e q. m = bind_out (handlers_of prog n h e q) (\<lambda>r. Inr (ev_id (events r e), event_delete r e)) \<and>
        queue q = queue p \<and> pool_pending q = pool_pending p \<and> calls q = calls p @ [(h, ev_id (events q e), NSE_STATUS_ERROR)] \<and>
        ev_errnum (events q e) = Some err)
    | None \<Rightarrow> m = Inl Fatal_exit \<or>
        (\<exists>e q. m = Inr (ev_id (events q e), q) \<and> pool_reach prog n q \<and> calls q = calls p \<and> e \<in> set (queue q Connects) \<and> e \<notin> queued p \<and>
          (\<forall>k. k \<noteq> Connects \<longrightarrow> queue q k = queue p k) \<and> ev_iod (events q e) = Some i \<and> ev_handler (events q e) = h \<and>
          sys_socket sys (ss_family ss) SOCK_STREAM IPPROTO_TCP = Inr (sd (iods q i)) \<and>
          bit (watched_events (iods q i)) 0 \<and> bit (watched_events (iods q i)) 1 \<and>
          (handle_connect_result q e NSE_STATUS_SUCCESS = Inl Fatal_exit \<or>
           (\<exists>r. handle_connect_result q e NSE_STATUS_SUCCESS = Inr r \<and> event_done (events r e) \<and>
              ev_status (events r e) = (case so_error (iods p i) of None \<Rightarrow> NSE_STATUS_SUCCESS | Some _ \<Rightarrow> NSE_STATUS_ERROR))))"
proof -
  have wf: "pool_wf {} 0 (\<lambda>_. 0) p" by (rule pool_reach_wf [OF assms(1)])
  have ok: "socketless p i" "-1 \<le> ms" "len \<le> SOCKADDR_STORAGE_SIZE" "sound_net sys (ss_family ss) SOCK_STREAM IPPROTO_TCP"
    using assms(2) by (simp_all add: permitted_def can_connect_def)
  then have st: "state (iods p i) = NSIOD_STATE_INITIAL \<or> state (iods p i) = NSIOD_STATE_UNKNOWN" "sd (iods p i) = -1" "i \<in> set (active_iods p)"
    by (simp_all add: socketless_def)
  then have "state (iods p j) \<noteq> NSIOD_STATE_DELETED" if "Some i = Some j" for j using that by auto
  from event_new_ok [OF wf ok(2) this] obtain e q where
    q: "event_new p NSE_TYPE_CONNECT (Some i) ms h = Inr (e, q)" "created {} p NSE_TYPE_CONNECT (Some i) ms e q" by blast
  have c: "ev_iod (events q e) = Some i" "ev_type (events q e) = NSE_TYPE_CONNECT" "newly {} q e" "queue q = queue p" "e \<notin> queued q"
    "\<not> event_done (events q e)"
    using q(2) created_newly [OF q(2)] by (simp_all add: created_def detached_def)
  note new = event_new_iods [OF q(1)] event_new_more [OF q(1)]
  have iq: "i \<in> set (active_iods q)" using new(2) st(3) by simp
  have "sd (iods q i) = -1" using new(1) st(2) by simp
  then have u: "\<not> registered (iods q i)" using c(3) iq by (auto simp: newly_def pool_wf_def watch_ok_def)
  have ti: "the_iod q e = Inr i" using c(1) by (simp add: the_iod_def)
  define mi where "mi = nsock_connect_internal sys q e SOCK_STREAM IPPROTO_TCP ss len port"
  let ?call = "handlers_of prog n"
  have eq: "m = bind_out mi (\<lambda>p. bind_out (nsock_pool_add_event ?call p e) (\<lambda>q. Inr (ev_id (events q e), q)))"
    using st(1) q(1) by (auto simp: m_def nsock_connect_tcp_def nsock_connect_def mi_def)
  from connect_internal_early [OF ti ok(3,4), of port] show ?thesis
  proof (elim disjE exE conjE)
    assume "nsock_connect_internal sys q e SOCK_STREAM IPPROTO_TCP ss len port = Inl Fatal_exit" "early_error sys ss len port = None"
    then show ?thesis by (simp add: eq mi_def)
  next
    fix f
    assume f: "rewired (iods q i) (f (iods q i))"
      "case early_error sys ss len port of
         None \<Rightarrow> nsock_connect_internal sys q e SOCK_STREAM IPPROTO_TCP ss len port = Inr (set_iod q i f) \<and>
            sys_socket sys (ss_family ss) SOCK_STREAM IPPROTO_TCP = Inr (sd (f (iods q i))) \<and> 0 \<le> sd (f (iods q i))
       | Some err \<Rightarrow> nsock_connect_internal sys q e SOCK_STREAM IPPROTO_TCP ss len port = Inr (connect_failed (set_iod q i f) e err)"
    let ?s = "set_iod q i f"
    have ns: "newly {} ?s e" by (rule newly_rewired [where f = f, OF c(3) u f(1)])
    have cs: "ev_iod (events ?s e) = Some i" "ev_type (events ?s e) = NSE_TYPE_CONNECT" "i \<in> set (active_iods ?s)"
      "\<not> event_done (events ?s e)"
      using c(1,2,6) iq by simp_all
    show ?thesis
    proof (cases "early_error sys ss len port")
      case (Some err)
      then have mi: "mi = Inr (connect_failed ?s e err)" using f(2) by (simp add: mi_def)
      from dispatch_failed [OF ns cs(2,1,3), of ?call err] obtain t where
        t: "nsock_pool_add_event ?call (connect_failed ?s e err) e = bind_out (?call h e t) (\<lambda>r. Inr (event_delete r e))"
        "queue t = queue p" "pool_pending t = pool_pending p" "ev_errnum (events t e) = Some err"
        "calls t = calls p @ [(h, ev_id (events t e), NSE_STATUS_ERROR)]"
        using c(4) new by auto
      have "m = bind_out (?call h e t) (\<lambda>r. Inr (ev_id (events r e), event_delete r e))"
        unfolding eq mi bind_out_simps t(1) by (cases "?call h e t") (simp_all add: event_delete_def)
      then show ?thesis using Some t(2-5) by auto
    next
      case None
      then have mi: "mi = Inr ?s" and so: "sys_socket sys (ss_family ss) SOCK_STREAM IPPROTO_TCP = Inr (sd (f (iods q i)))"
        and pos: "0 \<le> sd (f (iods q i))" using f(2) by (simp_all add: mi_def)
      have "state (iods q i) \<noteq> NSIOD_STATE_DELETED" using new(1) st(1) by auto
      then have "addable ?s e" using cs pos rewired_sel(6) [OF f(1)] by (simp add: addable_def usable_def kind_of_def)
      from client.add_event_ok [OF ns this, of prog n] show ?thesis
      proof (elim disjE exE conjE)
        fix t assume t: "nsock_pool_add_event ?call ?s e = Inr t" "pool_wf {} 0 (\<lambda>_. 0) t" "pins {} ?s t"
        note a = add_connect [OF t(1) cs(2,4,1)]
        have m: "m = Inr (ev_id (events t e), t)" by (simp add: eq mi t(1))
        have "perform ?call p (Connect_tcp sys i h ms ss len port) = Inr (uint (ev_id (events t e)), t)"
          using m by (simp add: perform_def m_def)
        then have reach: "pool_reach prog n t" by (rule pool_reach.reach_call [OF assms(1,2)])
        have ev: "ev_iod (events t e) = Some i" "ev_type (events t e) = NSE_TYPE_CONNECT" "\<not> event_done (events t e)" "ev_handler (events t e) = h"
          using a(1) cs new(5) by simp_all
        have it: "i \<in> set (active_iods t)" using t(3) cs(3) by (auto simp: pins_def)
        have "e \<in> open_evs t i Connects" using a(3) ev by (simp add: open_evs_def)
        moreover have "finite (open_evs t i Connects)" by (simp add: open_evs_def)
        ultimately have "0 < card (open_evs t i Connects)" by (auto simp: card_gt_0_iff)
        then have rw: "0 < readsd_count (iods t i)" "0 < writesd_count (iods t i)" using t(2) it by (simp_all add: pool_wf_def counts_ok_def)
        then have bits: "bit (watched_events (iods t i)) 0" "bit (watched_events (iods t i)) 1"
          using t(2) it by (auto simp: pool_wf_def watch_ok_def)
        have hc: "handle_connect_result t e NSE_STATUS_SUCCESS = Inl Fatal_exit \<or> (\<exists>r. handle_connect_result t e NSE_STATUS_SUCCESS = Inr r)"
          using connect_handled [OF t(2) a(3) ev(3,1), of NSE_STATUS_SUCCESS] by (auto simp: handled_def handling_def)
        have "so_error (iods t i) = so_error (iods p i)" using a(6) rewired_sel(8) [OF f(1)] new(1) by simp
        then have res: "event_done (events r e) \<and> ev_status (events r e) = (case so_error (iods p i) of None \<Rightarrow> NSE_STATUS_SUCCESS | Some _ \<Rightarrow> NSE_STATUS_ERROR)"
          if "handle_connect_result t e NSE_STATUS_SUCCESS = Inr r" for r
          using connect_result_status(1,2) [OF that ev(1,2)] by simp
        have "queue t k = queue p k" if "k \<noteq> Connects" for k
        proof -
          have "queue t k = ((queue ?s)(Connects := queue t Connects)) k" using a(2) by metis
          then show ?thesis using that c(4) by simp
        qed
        moreover have "calls t = calls p" using a(4) new(3) by simp
        moreover have "e \<notin> queued p" using c(4,5) by (simp add: queued_def)
        moreover have "sys_socket sys (ss_family ss) SOCK_STREAM IPPROTO_TCP = Inr (sd (iods t i))" using so a(5) by simp
        moreover have "handle_connect_result t e NSE_STATUS_SUCCESS = Inl Fatal_exit \<or>
            (\<exists>r. handle_connect_result t e NSE_STATUS_SUCCESS = Inr r \<and> event_done (events r e) \<and>
              ev_status (events r e) = (case so_error (iods p i) of None \<Rightarrow> NSE_STATUS_SUCCESS | Some _ \<Rightarrow> NSE_STATUS_ERROR))"
          using hc res by blast
        ultimately show ?thesis using None m reach a(3) ev(1,4) bits by (simp del: split_paired_Ex) blast
      qed (simp add: eq mi None)
    qed
  qed
qed
text \<open>A pool with an iod without a socket, and a network that refuses.\<close>

definition bare_pool :: "nat npool" where
  "bare_pool = snd (nsock_iod_new2 empty_pool 9 (-1) (-1) blank_iod)"

definition refusing :: net where
  "refusing = \<lparr>sys_socket = (\<lambda>_ _ _. Inr 4), sys_connect = (\<lambda>_ _ _. Some (Errno 111))\<rparr>"

definition web_server :: sockaddr_storage where
  "web_server = \<lparr>ss_family = AF_INET, ss_port = 0, ss_data = ''''\<rparr>"

lemma bare_pool_reach: "pool_reach prog n bare_pool"
proof (rule pool_reach.reach_call [OF empty_pool_reach])
  show "permitted empty_pool (New_iod 9 (-1) (-1) blank_iod)" by (simp add: permitted_def empty_pool_def)
  show "perform (handlers_of prog n) empty_pool (New_iod 9 (-1) (-1) blank_iod) = Inr (9, bare_pool)"
    by (simp add: perform_def bare_pool_def nsock_iod_new2_def empty_pool_def Let_def)
qed

theorem connect_outcome_witness:
  "\<exists>e q. nsock_connect_tcp (handlers_of (\<lambda>_ _. Finished) 1) refusing bare_pool 9 4 (-1) web_server 16 80 =
      bind_out (handlers_of (\<lambda>_ _. Finished) 1 4 e q) (\<lambda>r. Inr (ev_id (events r e), event_delete r e)) \<and>
    queue q = queue bare_pool \<and> pool_pending q = pool_pending bare_pool \<and>
    calls q = calls bare_pool @ [(4, ev_id (events q e), NSE_STATUS_ERROR)] \<and> ev_errnum (events q e) = Some (Errno 111)"
proof -
  have ok: "permitted bare_pool (Connect_tcp refusing 9 4 (-1) web_server 16 80)"
    by (simp add: permitted_def can_connect_def socketless_def bare_pool_def nsock_iod_new2_def empty_pool_def refusing_def
        SOCKADDR_STORAGE_SIZE_def sound_net_def)
  have "early_error refusing web_server 16 80 = Some (Errno 111)"
    by (simp add: early_error_def refusing_def web_server_def with_port_def)
  then show ?thesis using connect_outcome [OF bare_pool_reach ok, of "\<lambda>_ _. Finished" 1] by simp
qed

section \<open>Writing\<close>

lemma write_tail_data:
  assumes "bind_out (socket_count_write_dec p i) (\<lambda>(ev, p). update_events p i EV_NONE ev) = Inr q"
  shows "events q = events p" "sent (iods q j) = sent (iods p j)" "out_writes (iods q j) = out_writes (iods p j)"
  using assms
  by (auto simp: socket_count_write_dec_def update_events_def select_iod_register_def select_iod_modify_def Let_def bind_out_def
      split: if_splits sum.splits)

text \<open>What is still to be sent of a write.\<close>

definition unwritten :: "'h nevent \<Rightarrow> cstr" where
  "unwritten v = drop (written_so_far v) (iobuf v)"

text \<open>A pool with a pending write.\<close>

definition write_pool :: "nat npool" where
  "write_pool = (case perform (\<lambda>_ _ p. Inr p) iod_pool (Write_data 7 4 (-1) [CHR ''a'', CHR ''b''] 2) of Inr (v, q) \<Rightarrow> q | Inl e \<Rightarrow> iod_pool)"

lemma write_pool_created: "perform call iod_pool (Write_data 7 4 (-1) [CHR ''a'', CHR ''b''] 2) = Inr (11, write_pool)"
  by (simp add: write_pool_def pool_evals)

lemma write_pool_reach: "pool_reach prog n write_pool"
  by (rule pool_reach.reach_call [OF iod_pool_reach _ write_pool_created]) (simp add: permitted_def usable_def)

lemma write_pool_sel: "queue write_pool Writes = [0]" "ev_iod (events write_pool 0) = Some 7"
  by (simp_all add: write_pool_def pool_evals)


end
