(* ===== verification/Ncat_Socks.thy ===== *)
theory Ncat_Socks
  imports Prelude
begin

text \<open>
  The clients of SOCKS proxies in ncat/ncat_connect.c: SOCKS 4a and SOCKS 5 with user name and password.  The messages
  are built in structures of fixed size, whose bounds are kept; what the proxy sends is any sequence of segments, and a
  \<open>recv\<close> takes at most what one segment holds.  The first connection, name resolution and what the buffers on the stack
  hold before anything is received are parameters.
\<close>

section \<open>The connection\<close>

datatype segment = Segment cstr | Broken

record tcp =
  outgoing :: cstr
  send_results :: "nat option list"
  incoming :: "segment list"
  hung_up :: bool

text \<open>\<open>send\<close> fails, or takes a first part of the message; it takes all where \<open>send_results\<close> ends.\<close>

definition tcp_send :: "tcp \<Rightarrow> cstr \<Rightarrow> bool \<times> tcp" where
  "tcp_send c msg =
     (case send_results c of
        [] \<Rightarrow> (True, c\<lparr>outgoing := outgoing c @ msg\<rparr>)
      | None # r \<Rightarrow> (False, c\<lparr>send_results := r\<rparr>)
      | Some k # r \<Rightarrow> (True, c\<lparr>outgoing := outgoing c @ take k msg, send_results := r\<rparr>))"

text \<open>\<open>recv\<close> of at most \<open>n\<close> bytes; nothing is returned at the end of the stream.\<close>

fun tcp_recv :: "segment list \<Rightarrow> nat \<Rightarrow> cstr option \<times> segment list" where
  "tcp_recv [] n = (Some [], [])"
| "tcp_recv (Broken # r) n = (None, r)"
| "tcp_recv (Segment s # r) n = (if length s \<le> n then (Some s, r) else (Some (take n s), Segment (drop n s) # r))"

text \<open>Writing into an array.\<close>

definition put_at :: "cstr \<Rightarrow> nat \<Rightarrow> cstr \<Rightarrow> cstr outcome" where
  "put_at a i d = (if i + length d \<le> length a then Inr (take i a @ d @ drop (i + length d) a) else Inl Out_of_bounds)"

definition recv_into :: "tcp \<Rightarrow> cstr \<Rightarrow> nat \<Rightarrow> (bool \<times> cstr \<times> tcp) outcome" where
  "recv_into c buf n =
     (if n > length buf then Inl Out_of_bounds
      else (case tcp_recv (incoming c) n of
              (None, r) \<Rightarrow> Inr (False, buf, c\<lparr>incoming := r\<rparr>)
            | (Some d, r) \<Rightarrow> bind_out (put_at buf 0 d) (\<lambda>buf. Inr (True, buf, c\<lparr>incoming := r\<rparr>))))"

definition byte :: "nat \<Rightarrow> char" where "byte n = char_of n"

text \<open>\<open>htons\<close> of a port, as it lies in memory.\<close>

definition port_bytes :: "nat \<Rightarrow> cstr" where
  "port_bytes port = [byte (port div 256), byte (port mod 256)]"

datatype address = IPv4 cstr | IPv6 cstr | Other_address

text \<open>\<open>resolved4\<close> and \<open>resolved\<close> are what \<open>proxyresolve\<close> finds for the target: a bare IPv4 address, and an address.\<close>

record socks_options =
  target :: cstr
  portno :: nat
  proxy_auth :: "cstr option"
  dns_remote :: bool
  resolved4 :: "cstr option"
  resolved :: "address option"

definition SOCKS_BUFF_SIZE :: nat where "SOCKS_BUFF_SIZE = 512"

text \<open>\<open>close(sd)\<close> and -1, or the descriptor.\<close>

definition failed :: "tcp \<Rightarrow> (bool \<times> tcp option) outcome" where
  "failed c = Inr (False, Some (c\<lparr>hung_up := True\<rparr>))"

section \<open>SOCKS 4a\<close>

definition SOCKS4_VERSION :: nat where "SOCKS4_VERSION = 4"
definition SOCKS_CONNECT :: nat where "SOCKS_CONNECT = 1"
definition SOCKS4_CONN_ACC :: nat where "SOCKS4_CONN_ACC = 90"

text \<open>The user name and the host name after it in \<open>data\<close>; \<open>None\<close> where the name cannot be sent.\<close>

definition socks4_data :: "socks_options \<Rightarrow> (cstr \<times> cstr \<times> nat) option outcome" where
  "socks4_data opt =
     (let username = (case proxy_auth opt of None \<Rightarrow> [] | Some a \<Rightarrow> a); data = replicate SOCKS_BUFF_SIZE NUL
      in if length username \<ge> SOCKS_BUFF_SIZE then Inr None
         else bind_out (put_at data 0 (username @ [NUL])) (\<lambda>data.
              let datalen = length username + 1
              in case resolved4 opt of
                   Some a \<Rightarrow> Inr (Some (a, data, datalen))
                 | None \<Rightarrow>
                     if \<not> dns_remote opt then Inr None
                     else if datalen + length (target opt) \<ge> SOCKS_BUFF_SIZE then Inr None
                     else bind_out (put_at data datalen (target opt @ [NUL])) (\<lambda>data.
                          Inr (Some ([byte 0, byte 0, byte 0, byte 1], data, datalen + (length (target opt) + 1))))))"

definition do_proxy_socks4 :: "socks_options \<Rightarrow> cstr \<Rightarrow> tcp option \<Rightarrow> (bool \<times> tcp option) outcome" where
  "do_proxy_socks4 opt socksbuf conn =
     (if strchr (target opt) (CHR '':'') \<noteq> None then Inr (False, None)
      else case conn of
             None \<Rightarrow> Inr (False, None)
           | Some c \<Rightarrow>
               bind_out (socks4_data opt) (\<lambda>r.
               case r of
                 None \<Rightarrow> failed c
               | Some (address, data, datalen) \<Rightarrow>
                   (case tcp_send c ([byte SOCKS4_VERSION, byte SOCKS_CONNECT] @ port_bytes (portno opt) @ address @ take datalen data) of
                      (False, c) \<Rightarrow> failed c
                    | (True, c) \<Rightarrow>
                        bind_out (recv_into c socksbuf 8) (\<lambda>(ok, socksbuf, c).
                        if \<not> ok then failed c
                        else if code_of (socksbuf ! 1) \<noteq> SOCKS4_CONN_ACC then failed c
                        else Inr (True, Some c)))))"

section \<open>SOCKS 5\<close>

definition SOCKS5_VERSION :: nat where "SOCKS5_VERSION = 5"
definition SOCKS5_AUTH_NONE :: nat where "SOCKS5_AUTH_NONE = 0"
definition SOCKS5_AUTH_USERPASS :: nat where "SOCKS5_AUTH_USERPASS = 2"
definition SOCKS5_ATYP_IPv4 :: nat where "SOCKS5_ATYP_IPv4 = 1"
definition SOCKS5_ATYP_NAME :: nat where "SOCKS5_ATYP_NAME = 3"
definition SOCKS5_ATYP_IPv6 :: nat where "SOCKS5_ATYP_IPv6 = 4"
definition SOCKS5_USR_MAXLEN :: nat where "SOCKS5_USR_MAXLEN = 255"
definition SOCKS5_PWD_MAXLEN :: nat where "SOCKS5_PWD_MAXLEN = 255"
definition SOCKS5_DST_MAXLEN :: nat where "SOCKS5_DST_MAXLEN = 255"

text \<open>A step of the exchange: given up, or going on with the buffer and the connection.\<close>

type_synonym step = "(cstr \<times> tcp) option \<times> tcp"

definition going_on :: "cstr \<Rightarrow> tcp \<Rightarrow> step outcome" where "going_on buf c = Inr (Some (buf, c), c)"
definition given_up :: "tcp \<Rightarrow> step outcome" where "given_up c = Inr (None, c\<lparr>hung_up := True\<rparr>)"

definition then_step :: "step outcome \<Rightarrow> (cstr \<Rightarrow> tcp \<Rightarrow> step outcome) \<Rightarrow> step outcome" where
  "then_step m f = bind_out m (\<lambda>(r, c). case r of None \<Rightarrow> Inr (None, c) | Some (buf, c) \<Rightarrow> f buf c)"

definition socks5_greet :: "socks_options \<Rightarrow> cstr \<Rightarrow> tcp \<Rightarrow> step outcome" where
  "socks5_greet opt socksbuf c =
     (let methods = replicate 3 NUL; nmethods = 0 in
      bind_out (put_at methods nmethods [byte SOCKS5_AUTH_NONE]) (\<lambda>methods.
      bind_out (if proxy_auth opt \<noteq> None
                then map_sum id (\<lambda>m. (m, nmethods + 2)) (put_at methods (nmethods + 1) [byte SOCKS5_AUTH_USERPASS])
                else Inr (methods, nmethods + 1)) (\<lambda>(methods, nmethods).
      case tcp_send c ([byte SOCKS5_VERSION, byte nmethods] @ take nmethods methods) of
        (False, c) \<Rightarrow> given_up c
      | (True, c) \<Rightarrow>
          bind_out (recv_into c socksbuf 2) (\<lambda>(ok, socksbuf, c).
          if \<not> ok then given_up c
          else if code_of (socksbuf ! 0) \<noteq> SOCKS5_VERSION then given_up c
          else going_on socksbuf c))))"

definition socks5_userpass :: "socks_options \<Rightarrow> cstr \<Rightarrow> cstr \<Rightarrow> tcp \<Rightarrow> step outcome" where
  "socks5_userpass opt data socksbuf c =
     (case proxy_auth opt of
        None \<Rightarrow> given_up c
      | Some uptr \<Rightarrow>
          (case strchr uptr (CHR '':'') of
             None \<Rightarrow> given_up c
           | Some colon \<Rightarrow>
               let ulen = length (Prelude.span uptr colon); pptr = tl colon; plen = length pptr
               in if ulen > SOCKS5_USR_MAXLEN then given_up c
                  else if plen > SOCKS5_PWD_MAXLEN then given_up c
                  else bind_out (put_at data 0 [byte ulen]) (\<lambda>data.
                       bind_out (put_at data 1 (take ulen uptr)) (\<lambda>data.
                       bind_out (put_at data (1 + ulen) [byte plen]) (\<lambda>data.
                       bind_out (put_at data (2 + ulen) (take plen pptr)) (\<lambda>data.
                       let authlen = 2 + ulen + plen
                       in case tcp_send c (byte 1 # take authlen data) of
                            (False, c) \<Rightarrow> given_up c
                          | (True, c) \<Rightarrow>
                              bind_out (recv_into c socksbuf 2) (\<lambda>(ok, socksbuf, c).
                              if \<not> ok then given_up c
                              else if code_of (socksbuf ! 0) \<noteq> 1 \<or> code_of (socksbuf ! 1) \<noteq> 0 then given_up c
                              else going_on socksbuf c)))))))"

definition socks5_authenticate :: "socks_options \<Rightarrow> cstr \<Rightarrow> cstr \<Rightarrow> tcp \<Rightarrow> step outcome" where
  "socks5_authenticate opt data socksbuf c =
     (if code_of (socksbuf ! 1) = SOCKS5_AUTH_NONE then going_on socksbuf c
      else if code_of (socksbuf ! 1) = SOCKS5_AUTH_USERPASS then socks5_userpass opt data socksbuf c
      else given_up c)"

text \<open>The destination in \<open>dst\<close>: the type of the address, the array and what is used of it; \<open>None\<close> where it cannot be sent.\<close>

definition socks5_destination :: "socks_options \<Rightarrow> (nat \<times> cstr \<times> nat) option outcome" where
  "socks5_destination opt =
     (let dst = replicate SOCKS_BUFF_SIZE NUL
      in case resolved opt of
           None \<Rightarrow>
             if \<not> dns_remote opt then Inr None
             else let targetlen = length (target opt)
                  in if targetlen > SOCKS5_DST_MAXLEN then Inr None
                     else bind_out (put_at dst 0 [byte targetlen]) (\<lambda>dst.
                          bind_out (put_at dst 1 (target opt)) (\<lambda>dst. Inr (Some (SOCKS5_ATYP_NAME, dst, 1 + targetlen))))
         | Some (IPv4 a) \<Rightarrow> bind_out (put_at dst 0 (take 4 a)) (\<lambda>dst. Inr (Some (SOCKS5_ATYP_IPv4, dst, 4)))
         | Some (IPv6 a) \<Rightarrow> bind_out (put_at dst 0 (take 16 a)) (\<lambda>dst. Inr (Some (SOCKS5_ATYP_IPv6, dst, 16)))
         | Some Other_address \<Rightarrow> Inl Assert_failed)"

definition socks5_request :: "socks_options \<Rightarrow> cstr \<Rightarrow> tcp \<Rightarrow> step outcome" where
  "socks5_request opt socksbuf c =
     bind_out (socks5_destination opt) (\<lambda>r.
     case r of
       None \<Rightarrow> given_up c
     | Some (atyp, dst, dstlen) \<Rightarrow>
         bind_out (put_at dst dstlen (port_bytes (portno opt))) (\<lambda>dst.
         case tcp_send c ([byte SOCKS5_VERSION, byte SOCKS_CONNECT, byte 0, byte atyp] @ take (dstlen + 2) dst) of
           (False, c) \<Rightarrow> given_up c
         | (True, c) \<Rightarrow>
             bind_out (recv_into c socksbuf 4) (\<lambda>(ok, socksbuf, c).
             if \<not> ok then given_up c
             else if code_of (socksbuf ! 0) \<noteq> SOCKS5_VERSION then given_up c
             else if code_of (socksbuf ! 1) \<noteq> 0 then given_up c
             else going_on socksbuf c)))"

text \<open>The address the proxy has bound is read and thrown away; \<open>bndaddr\<close> is the array for it.\<close>

definition socks5_bound :: "cstr \<Rightarrow> cstr \<Rightarrow> tcp \<Rightarrow> step outcome" where
  "socks5_bound bndaddr socksbuf c =
     (let atyp = code_of (socksbuf ! 3);
          finish = (\<lambda>n socksbuf c. bind_out (recv_into c bndaddr n) (\<lambda>(ok, _, c). if \<not> ok then given_up c else going_on socksbuf c))
      in if atyp = SOCKS5_ATYP_IPv4 then finish (4 + 2) socksbuf c
         else if atyp = SOCKS5_ATYP_IPv6 then finish (16 + 2) socksbuf c
         else if atyp = SOCKS5_ATYP_NAME
         then bind_out (recv_into c socksbuf 1) (\<lambda>(ok, socksbuf, c).
              if \<not> ok then given_up c else finish (code_of (socksbuf ! 0) + 2) socksbuf c)
         else given_up c)"

text \<open>\<open>socksbuf\<close>, \<open>auth_data\<close> and \<open>bndaddr\<close> are arrays on the stack.\<close>

definition do_proxy_socks5 :: "socks_options \<Rightarrow> cstr \<Rightarrow> cstr \<Rightarrow> cstr \<Rightarrow> tcp option \<Rightarrow> (bool \<times> tcp option) outcome" where
  "do_proxy_socks5 opt socksbuf auth_data bndaddr conn =
     (case conn of
        None \<Rightarrow> Inr (False, None)
      | Some c \<Rightarrow>
          bind_out
            (then_step (socks5_greet opt socksbuf c) (\<lambda>socksbuf c.
             then_step (socks5_authenticate opt auth_data socksbuf c) (\<lambda>socksbuf c.
             then_step (socks5_request opt socksbuf c) (\<lambda>socksbuf c.
             socks5_bound bndaddr socksbuf c)))) (\<lambda>(r, c).
          case r of None \<Rightarrow> Inr (False, Some c) | Some (_, c) \<Rightarrow> Inr (True, Some c)))"
section \<open>What a server reads\<close>

text \<open>The messages as RFC 1928, RFC 1929 and the description of SOCKS 4a define them; a block is preceded by its length.\<close>

fun read_block :: "cstr \<Rightarrow> (cstr \<times> cstr) option" where
  "read_block [] = None"
| "read_block (n # s) = (if code_of n \<le> length s then Some (take (code_of n) s, drop (code_of n) s) else None)"

fun rfc_offer :: "cstr \<Rightarrow> (cstr \<times> cstr) option" where
  "rfc_offer (v # s) = (if code_of v = 5 then read_block s else None)"
| "rfc_offer [] = None"

fun rfc_userpass :: "cstr \<Rightarrow> (cstr \<times> cstr \<times> cstr) option" where
  "rfc_userpass (v # s) =
     (if code_of v = 1
      then (case read_block s of
              None \<Rightarrow> None
            | Some (user, s) \<Rightarrow> (case read_block s of None \<Rightarrow> None | Some (pass, s) \<Rightarrow> Some (user, pass, s)))
      else None)"
| "rfc_userpass [] = None"

datatype destination = Host cstr | Addr4 cstr | Addr6 cstr

fun read_port :: "cstr \<Rightarrow> (nat \<times> cstr) option" where
  "read_port (hi # lo # s) = Some (code_of hi * 256 + code_of lo, s)"
| "read_port s = None"

fun rfc_request :: "cstr \<Rightarrow> (destination \<times> nat \<times> cstr) option" where
  "rfc_request (v # c # z # t # s) =
     (if code_of v = 5 \<and> code_of c = 1 \<and> code_of z = 0
      then (case (if code_of t = 1 then Some (Addr4 (take 4 s), drop 4 s)
                  else if code_of t = 4 then Some (Addr6 (take 16 s), drop 16 s)
                  else if code_of t = 3 then map_option (map_prod Host id) (read_block s) else None) of
              None \<Rightarrow> None
            | Some (d, s) \<Rightarrow> map_option (Pair d) (read_port s))
      else None)"
| "rfc_request _ = None"

definition until_nul :: "cstr \<Rightarrow> cstr \<times> cstr" where
  "until_nul s = (takeWhile (\<lambda>c. c \<noteq> NUL) s, tl (dropWhile (\<lambda>c. c \<noteq> NUL) s))"

text \<open>Port, address, user name, and the host name where the address is 0.0.0.x.\<close>

fun rfc_socks4 :: "cstr \<Rightarrow> (nat \<times> cstr \<times> cstr \<times> cstr option) option" where
  "rfc_socks4 (v # c # hi # lo # a # b # d # e # s) =
     (if code_of v = 4 \<and> code_of c = 1
      then (case until_nul s of (user, s) \<Rightarrow>
              Some (code_of hi * 256 + code_of lo, [a, b, d, e], user,
                if code_of a = 0 \<and> code_of b = 0 \<and> code_of d = 0 \<and> code_of e \<noteq> 0 then Some (fst (until_nul s)) else None))
      else None)"
| "rfc_socks4 _ = None"

section \<open>The messages\<close>

lemma byte_code [simp]: "code_of (byte n) = n mod 256"
  by (simp add: byte_def)

lemma port_read: "port < 65536 \<Longrightarrow> read_port (port_bytes port @ s) = Some (port, s)"
  by (simp add: port_bytes_def)

lemma block_read: "length b < 256 \<Longrightarrow> read_block (byte (length b) # b @ s) = Some (b, s)"
  by simp

lemma put_at_ok: "i + length d \<le> length a \<Longrightarrow> put_at a i d = Inr (take i a @ d @ drop (i + length d) a)"
  by (simp add: put_at_def)

lemma put_at_length: "put_at a i d = Inr a' \<Longrightarrow> length a' = length a"
  by (auto simp: put_at_def split: if_splits)

text \<open>Arrays filled from the left.\<close>

lemma put_next:
  assumes "put_at a i d = Inr a'" and "take i a = s"
  shows "take (i + length d) a' = s @ d" "length a' = length a"
  using assms by (auto simp: put_at_def split: if_splits)

lemma tcp_recv_length: "tcp_recv r n = (Some d, r') \<Longrightarrow> length d \<le> n"
  by (induction r n rule: tcp_recv.induct) (auto split: if_splits)

lemma recv_into_ok:
  assumes "n \<le> length buf"
  shows "\<exists>ok buf' r. recv_into c buf n = Inr (ok, buf', c\<lparr>incoming := r\<rparr>) \<and> length buf' = length buf"
proof (cases "tcp_recv (incoming c) n")
  case (Pair d r)
  show ?thesis
  proof (cases d)
    case None
    then show ?thesis using Pair assms by (auto simp: recv_into_def)
  next
    case (Some b)
    have "length b \<le> n" using Pair Some tcp_recv_length by simp
    then show ?thesis using Pair Some assms by (auto simp: recv_into_def put_at_def)
  qed
qed

lemma recv_into_sel:
  assumes "recv_into c buf n = Inr (ok, buf', c')"
  shows "outgoing c' = outgoing c" "send_results c' = send_results c" "length buf' = length buf"
  using assms by (auto simp: recv_into_def bind_out_Inr put_at_def split: if_splits option.splits prod.splits)
section \<open>No step leaves its arrays\<close>

definition step_ok :: "nat \<Rightarrow> step outcome \<Rightarrow> bool" where
  "step_ok n m \<longleftrightarrow> (\<exists>r c. m = Inr (r, c) \<and> (\<forall>buf d. r = Some (buf, d) \<longrightarrow> length buf = n))"

lemma going_on_ok [intro]: "length buf = n \<Longrightarrow> step_ok n (going_on buf c)"
  by (simp add: step_ok_def going_on_def)

lemma given_up_ok [intro, simp]: "step_ok n (given_up c)"
  by (simp add: step_ok_def given_up_def)

lemma then_step_ok:
  assumes "step_ok n m" and "\<And>buf c. length buf = n \<Longrightarrow> step_ok n (f buf c)"
  shows "step_ok n (then_step m f)"
proof -
  obtain r c where m: "m = Inr (r, c)" "\<forall>buf d. r = Some (buf, d) \<longrightarrow> length buf = n" using assms(1) by (auto simp: step_ok_def)
  show ?thesis
  proof (cases r)
    case None
    then show ?thesis using m(1) by (simp add: then_step_def step_ok_def)
  next
    case (Some x)
    then show ?thesis using m assms(2) by (cases x) (simp add: then_step_def)
  qed
qed

lemma recv_step_ok:
  assumes "k \<le> length buf" and "\<And>ok buf' c'. length buf' = length buf \<Longrightarrow> step_ok n (f (ok, buf', c'))"
  shows "step_ok n (bind_out (recv_into c buf k) f)"
  using recv_into_ok [OF assms(1), of c] assms(2) by auto

lemma send_step_ok:
  assumes "\<And>c'. step_ok n (f c')"
  shows "step_ok n (case tcp_send c msg of (False, c) \<Rightarrow> given_up c | (True, c) \<Rightarrow> f c)"
  using assms by (auto split: prod.split bool.split)

lemma greet_ok: "length buf = 4 \<Longrightarrow> step_ok 4 (socks5_greet opt buf c)"
proof -
  assume b: "length buf = 4"
  have "step_ok 4 (case tcp_send c msg of (False, c) \<Rightarrow> given_up c
      | (True, c) \<Rightarrow> bind_out (recv_into c buf 2) (\<lambda>(ok, socksbuf, c).
          if \<not> ok then given_up c else if code_of (socksbuf ! 0) \<noteq> SOCKS5_VERSION then given_up c else going_on socksbuf c))" for msg
    by (intro send_step_ok recv_step_ok) (use b in auto)
  then show ?thesis by (simp add: socks5_greet_def Let_def put_at_ok)
qed

lemma userpass_ok: "length buf = 4 \<Longrightarrow> length data = SOCKS_BUFF_SIZE \<Longrightarrow> step_ok 4 (socks5_userpass opt data buf c)"
proof -
  assume b: "length buf = 4" "length data = SOCKS_BUFF_SIZE"
  have s: "step_ok 4 (case tcp_send c msg of (False, c) \<Rightarrow> given_up c
      | (True, c) \<Rightarrow> bind_out (recv_into c buf 2) (\<lambda>(ok, socksbuf, c).
          if \<not> ok then given_up c
          else if code_of (socksbuf ! 0) \<noteq> 1 \<or> code_of (socksbuf ! 1) \<noteq> 0 then given_up c else going_on socksbuf c))" for msg
    by (intro send_step_ok recv_step_ok) (use b in auto)
  show ?thesis
  proof (cases "proxy_auth opt")
    case None
    then show ?thesis by (simp add: socks5_userpass_def)
  next
    case (Some u)
    show ?thesis
    proof (cases "strchr u (CHR '':'')")
      case None
      then show ?thesis using Some by (simp add: socks5_userpass_def)
    next
      case c: (Some col)
      let ?ul = "length (Prelude.span u col)" and ?pl = "length (tl col)"
      show ?thesis
      proof (cases "?ul > SOCKS5_USR_MAXLEN \<or> ?pl > SOCKS5_PWD_MAXLEN")
        case True
        then show ?thesis using Some c by (auto simp: socks5_userpass_def Let_def)
      next
        case False
        then have l: "?ul \<le> 255" "?pl \<le> 255" by (simp_all add: SOCKS5_USR_MAXLEN_def SOCKS5_PWD_MAXLEN_def)
        obtain d1 where d1: "put_at data 0 [byte ?ul] = Inr d1" "length d1 = 512" using b(2) by (simp add: put_at_def SOCKS_BUFF_SIZE_def)
        obtain d2 where d2: "put_at d1 1 (take ?ul u) = Inr d2" "length d2 = 512" using d1(2) l by (simp add: put_at_def min_le_iff_disj)
        obtain d3 where d3: "put_at d2 (1 + ?ul) [byte ?pl] = Inr d3" "length d3 = 512" using d2(2) l by (simp add: put_at_def)
        obtain d4 where d4: "put_at d3 (2 + ?ul) (take ?pl (tl col)) = Inr d4" using d3(2) l by (simp add: put_at_def)
        show ?thesis using Some c False s d1(1) d2(1) d3(1) d4 by (simp add: socks5_userpass_def Let_def)
      qed
    qed
  qed
qed

lemma destination_ok:
  assumes "case resolved opt of None \<Rightarrow> True | Some (IPv4 a) \<Rightarrow> length a = 4 | Some (IPv6 a) \<Rightarrow> length a = 16 | Some Other_address \<Rightarrow> False"
  shows "\<exists>r. socks5_destination opt = Inr r \<and>
    (\<forall>atyp dst n. r = Some (atyp, dst, n) \<longrightarrow> length dst = SOCKS_BUFF_SIZE \<and> n \<le> 256 \<and>
       (case resolved opt of None \<Rightarrow> atyp = 3 \<and> dns_remote opt \<and> length (target opt) \<le> 255 \<and>
            take n dst = byte (length (target opt)) # target opt
        | Some (IPv4 a) \<Rightarrow> atyp = 1 \<and> take n dst = a | Some (IPv6 a) \<Rightarrow> atyp = 4 \<and> take n dst = a | _ \<Rightarrow> False))"
proof (cases "resolved opt")
  case None
  let ?d = "replicate SOCKS_BUFF_SIZE NUL"
  show ?thesis
  proof (cases "dns_remote opt \<and> length (target opt) \<le> SOCKS5_DST_MAXLEN")
    case False
    then show ?thesis using None by (auto simp: socks5_destination_def Let_def)
  next
    case True
    then have l: "length (target opt) \<le> 255" by (simp add: SOCKS5_DST_MAXLEN_def)
    obtain d1 where d1: "put_at ?d 0 [byte (length (target opt))] = Inr d1" by (simp add: put_at_def SOCKS_BUFF_SIZE_def)
    note p1 = put_next [OF d1, of "[]", simplified]
    obtain d2 where d2: "put_at d1 1 (target opt) = Inr d2" using p1(2) l by (simp add: put_at_def SOCKS_BUFF_SIZE_def)
    note p2 = put_next [OF d2, of "[byte (length (target opt))]"]
    show ?thesis using None True l d1 d2 p1 p2 by (simp add: socks5_destination_def Let_def SOCKS5_ATYP_NAME_def)
  qed
next
  case (Some a)
  then show ?thesis using assms
    by (cases a) (simp_all add: socks5_destination_def Let_def put_at_def SOCKS_BUFF_SIZE_def SOCKS5_ATYP_IPv4_def SOCKS5_ATYP_IPv6_def)
qed

lemma socks5_request_ok:
  assumes b: "length buf = 4" and r: "case resolved opt of None \<Rightarrow> True | Some (IPv4 a) \<Rightarrow> length a = 4 | Some (IPv6 a) \<Rightarrow> length a = 16 | Some Other_address \<Rightarrow> False"
  shows "step_ok 4 (socks5_request opt buf c)"
proof -
  have s: "step_ok 4 (case tcp_send c msg of (False, c) \<Rightarrow> given_up c
      | (True, c) \<Rightarrow> bind_out (recv_into c buf 4) (\<lambda>(ok, socksbuf, c).
          if \<not> ok then given_up c else if code_of (socksbuf ! 0) \<noteq> SOCKS5_VERSION then given_up c
          else if code_of (socksbuf ! 1) \<noteq> 0 then given_up c else going_on socksbuf c))" for msg
    by (intro send_step_ok recv_step_ok) (use b in auto)
  from destination_ok [OF r] obtain x where x: "socks5_destination opt = Inr x"
    "\<forall>atyp dst n. x = Some (atyp, dst, n) \<longrightarrow> length dst = SOCKS_BUFF_SIZE \<and> n \<le> 256" by blast
  show ?thesis
  proof (cases x)
    case None
    then show ?thesis using x(1) by (simp add: socks5_request_def)
  next
    case (Some y)
    obtain atyp dst n where y: "y = (atyp, dst, n)" by (cases y)
    then have l: "length dst = 512" "n \<le> 256" using x(2) Some by (simp_all add: SOCKS_BUFF_SIZE_def)
    obtain d where "put_at dst n (port_bytes (portno opt)) = Inr d" using l by (simp add: put_at_def port_bytes_def)
    then show ?thesis using x(1) Some y s by (simp add: socks5_request_def)
  qed
qed

lemma bound_ok:
  assumes "length buf = 4" and "length bnd = SOCKS5_DST_MAXLEN + 2"
  shows "step_ok 4 (socks5_bound bnd buf c)"
proof -
  have fin: "step_ok 4 (bind_out (recv_into c bnd n) (\<lambda>(ok, _, c). if \<not> ok then given_up c else going_on b c))"
    if "n \<le> 257" "length b = 4" for n b c
    by (rule recv_step_ok) (use that assms(2) in \<open>auto simp: SOCKS5_DST_MAXLEN_def\<close>)
  have name: "step_ok 4 (bind_out (recv_into c buf 1) (\<lambda>(ok, socksbuf, c).
      if \<not> ok then given_up c
      else bind_out (recv_into c bnd (code_of (socksbuf ! 0) + 2)) (\<lambda>(ok, _, c). if \<not> ok then given_up c else going_on socksbuf c)))"
    by (rule recv_step_ok) (use assms(1) fin code_of_less in \<open>auto simp: less_Suc_eq_le [symmetric]\<close>)
  show ?thesis using fin [OF _ assms(1), of 6 c] fin [OF _ assms(1), of 18 c] name by (simp add: socks5_bound_def Let_def)
qed
section \<open>What is sent\<close>

lemma tcp_send_all: "send_results c = [] \<Longrightarrow> tcp_send c msg = (True, c\<lparr>outgoing := outgoing c @ msg\<rparr>)"
  by (simp add: tcp_send_def)

text \<open>A step that goes on has sent \<open>msg\<close>, and no other send is refused or cut.\<close>

definition goes_on :: "step outcome \<Rightarrow> cstr \<Rightarrow> tcp \<Rightarrow> bool" where
  "goes_on m buf c \<longleftrightarrow> (\<exists>d. m = Inr (Some (buf, c), d))"

definition after_sending :: "tcp \<Rightarrow> cstr \<Rightarrow> tcp \<Rightarrow> bool" where
  "after_sending c msg c' \<longleftrightarrow> send_results c' = [] \<and> outgoing c' = outgoing c @ msg"

lemma not_given_up [simp]: "\<not> goes_on (given_up c) buf c'"
  by (simp add: goes_on_def given_up_def)

lemma goes_on_going_on [simp]: "goes_on (going_on b c) b' c' \<longleftrightarrow> b = b' \<and> c = c'"
  by (simp add: goes_on_def going_on_def)

lemma goes_on_then: "goes_on (then_step m f) b c \<longleftrightarrow> (\<exists>b' c'. goes_on m b' c' \<and> goes_on (f b' c') b c)"
  by (auto simp: goes_on_def then_step_def bind_out_Inr split: option.splits)

lemma goes_on_recv:
  assumes "goes_on (bind_out (recv_into c buf n) f) b c''"
  obtains ok buf' c' where "goes_on (f (ok, buf', c')) b c''" "outgoing c' = outgoing c" "send_results c' = send_results c"
proof -
  from assms obtain ok buf' c' where r: "recv_into c buf n = Inr (ok, buf', c')" and g: "goes_on (f (ok, buf', c')) b c''"
    by (auto simp: goes_on_def bind_out_Inr)
  from that [OF g recv_into_sel(1,2) [OF r]] show ?thesis .
qed

text \<open>A message is sent, a reply is received and checked.\<close>

lemma goes_on_exchange:
  assumes "goes_on (case tcp_send c msg of (False, c) \<Rightarrow> given_up c | (True, c) \<Rightarrow> bind_out (recv_into c buf n) f) b c'"
    and "send_results c = []"
    and f: "\<And>ok buf c. f (ok, buf, c) = given_up c \<or> f (ok, buf, c) = going_on buf c"
  shows "after_sending c msg c'"
proof -
  from assms(1,2) have "goes_on (bind_out (recv_into (c\<lparr>outgoing := outgoing c @ msg\<rparr>) buf n) f) b c'" by (simp add: tcp_send_all)
  then obtain ok buf' d where g: "goes_on (f (ok, buf', d)) b c'" and d: "outgoing d = outgoing c @ msg" "send_results d = []"
    using assms(2) by (auto elim!: goes_on_recv)
  have "d = c'" using f [of ok buf' d] g by auto
  then show ?thesis using d by (simp add: after_sending_def)
qed

definition offered :: "socks_options \<Rightarrow> cstr" where
  "offered opt = byte 0 # (if proxy_auth opt = None then [] else [byte 2])"

lemma greet_sends:
  assumes "goes_on (socks5_greet opt buf c) b c'" "send_results c = []"
  shows "after_sending c (byte 5 # byte (length (offered opt)) # offered opt) c'"
proof (cases "proxy_auth opt")
  case None
  then have "goes_on (case tcp_send c ([byte 5, byte 1] @ [byte 0]) of (False, c) \<Rightarrow> given_up c | (True, c) \<Rightarrow>
      bind_out (recv_into c buf 2) (\<lambda>(ok, buf, c). if \<not> ok then given_up c else if code_of (buf ! 0) \<noteq> SOCKS5_VERSION then given_up c
        else going_on buf c)) b c'"
    using assms(1) by (simp add: socks5_greet_def put_at_ok SOCKS5_VERSION_def SOCKS5_AUTH_NONE_def)
  then have "after_sending c ([byte 5, byte 1] @ [byte 0]) c'" by (rule goes_on_exchange [OF _ assms(2)]) auto
  then show ?thesis using None by (simp add: offered_def)
next
  case (Some u)
  then have "goes_on (case tcp_send c ([byte 5, byte 2] @ [byte 0, byte 2]) of (False, c) \<Rightarrow> given_up c | (True, c) \<Rightarrow>
      bind_out (recv_into c buf 2) (\<lambda>(ok, buf, c). if \<not> ok then given_up c else if code_of (buf ! 0) \<noteq> SOCKS5_VERSION then given_up c
        else going_on buf c)) b c'"
    using assms(1) by (simp add: socks5_greet_def put_at_ok SOCKS5_VERSION_def SOCKS5_AUTH_NONE_def SOCKS5_AUTH_USERPASS_def numeral_2_eq_2)
  then have "after_sending c ([byte 5, byte 2] @ [byte 0, byte 2]) c'" by (rule goes_on_exchange [OF _ assms(2)]) auto
  then show ?thesis using Some by (simp add: offered_def numeral_2_eq_2)
qed
lemma userpass_sends:
  assumes g: "goes_on (socks5_userpass opt data buf c) b c'" and s: "send_results c = []" and n: "length data = SOCKS_BUFF_SIZE"
  obtains user pass where "proxy_auth opt = Some (user @ CHR '':'' # pass)" "CHR '':'' \<notin> set user" "length user \<le> 255" "length pass \<le> 255"
    "after_sending c (byte 1 # byte (length user) # user @ byte (length pass) # pass) c'"
proof -
  obtain u where u: "proxy_auth opt = Some u" using g by (cases "proxy_auth opt") (simp_all add: socks5_userpass_def)
  obtain col where col: "strchr u (CHR '':'') = Some col" using g u by (cases "strchr u (CHR '':'')") (simp_all add: socks5_userpass_def)
  obtain user pass where w: "u = user @ col" "col = CHR '':'' # pass" "CHR '':'' \<notin> set user" using strchr_Some [OF col] by blast
  have span: "Prelude.span u col = user" using w by (simp add: Prelude.span_def)
  have l: "\<not> length user > SOCKS5_USR_MAXLEN" "\<not> length pass > SOCKS5_PWD_MAXLEN"
    using g u col span w(2) by (auto simp: socks5_userpass_def Let_def split: if_splits)
  then have l': "length user \<le> 255" "length pass \<le> 255" by (simp_all add: SOCKS5_USR_MAXLEN_def SOCKS5_PWD_MAXLEN_def)
  obtain d1 where d1: "put_at data 0 [byte (length user)] = Inr d1" using n by (simp add: put_at_def SOCKS_BUFF_SIZE_def)
  note p1 = put_next [OF d1, of "[]", simplified]
  obtain d2 where d2: "put_at d1 1 user = Inr d2" using p1(2) l' n by (simp add: put_at_def SOCKS_BUFF_SIZE_def)
  note p2 = put_next [OF d2 p1(1) [unfolded One_nat_def [symmetric]]]
  obtain d3 where d3: "put_at d2 (1 + length user) [byte (length pass)] = Inr d3"
    using p1(2) p2(2) l' n by (simp add: put_at_def SOCKS_BUFF_SIZE_def)
  note p3 = put_next [OF d3 p2(1)]
  obtain d4 where d4: "put_at d3 (2 + length user) pass = Inr d4"
    using p1(2) p2(2) p3(2) l' n by (simp add: put_at_def SOCKS_BUFF_SIZE_def)
  have "take (2 + length user) d3 = byte (length user) # user @ [byte (length pass)]" using p3(1) by simp
  note p4 = put_next [OF d4 this]
  have t: "take (2 + length user + length pass) d4 = byte (length user) # user @ byte (length pass) # pass" using p4(1) by simp
  have "goes_on (case tcp_send c (byte 1 # take (2 + length user + length pass) d4) of (False, c) \<Rightarrow> given_up c | (True, c) \<Rightarrow>
      bind_out (recv_into c buf 2) (\<lambda>(ok, buf, c). if \<not> ok then given_up c
        else if code_of (buf ! 0) \<noteq> 1 \<or> code_of (buf ! 1) \<noteq> 0 then given_up c else going_on buf c)) b c'"
    using g u col span w(1,2) l d1 d2 d3 d4 by (simp add: socks5_userpass_def Let_def)
  then have "after_sending c (byte 1 # take (2 + length user + length pass) d4) c'" by (rule goes_on_exchange [OF _ s]) auto
  then have "after_sending c (byte 1 # byte (length user) # user @ byte (length pass) # pass) c'" unfolding t .
  with that u w l' show ?thesis by simp
qed
text \<open>What the options resolve to, and where that is an address the structures have room for.\<close>

definition resolvable :: "socks_options \<Rightarrow> bool" where
  "resolvable opt \<longleftrightarrow>
     (case resolved opt of None \<Rightarrow> True | Some (IPv4 a) \<Rightarrow> length a = 4 | Some (IPv6 a) \<Rightarrow> length a = 16 | Some Other_address \<Rightarrow> False)"

fun destination_of :: "socks_options \<Rightarrow> destination" where
  "destination_of opt = (case resolved opt of Some (IPv4 a) \<Rightarrow> Addr4 a | Some (IPv6 a) \<Rightarrow> Addr6 a | _ \<Rightarrow> Host (target opt))"

lemma request_sends:
  assumes g: "goes_on (socks5_request opt buf c) b c'" and s: "send_results c = []" and r: "resolvable opt"
    and port: "portno opt < 65536"
  obtains msg where "after_sending c msg c'" "rfc_request msg = Some (destination_of opt, portno opt, [])"
    "resolved opt = None \<longrightarrow> dns_remote opt"
proof -
  from destination_ok [of opt] r obtain x where x: "socks5_destination opt = Inr x" and
    spec: "\<And>atyp dst n. x = Some (atyp, dst, n) \<Longrightarrow> length dst = SOCKS_BUFF_SIZE \<and> n \<le> 256 \<and>
       (case resolved opt of None \<Rightarrow> atyp = 3 \<and> dns_remote opt \<and> length (target opt) \<le> 255 \<and>
            take n dst = byte (length (target opt)) # target opt
        | Some (IPv4 a) \<Rightarrow> atyp = 1 \<and> take n dst = a | Some (IPv6 a) \<Rightarrow> atyp = 4 \<and> take n dst = a | _ \<Rightarrow> False)"
    unfolding resolvable_def by blast
  obtain atyp dst n where y: "x = Some (atyp, dst, n)" using g x by (cases x) (auto simp: socks5_request_def)
  note spec = spec [OF y]
  obtain d where d: "put_at dst n (port_bytes (portno opt)) = Inr d"
    using spec by (simp add: put_at_def port_bytes_def SOCKS_BUFF_SIZE_def)
  have t: "take (n + 2) d = take n dst @ port_bytes (portno opt)" using put_next(1) [OF d refl] by (simp add: port_bytes_def)
  let ?msg = "[byte 5, byte 1, byte 0, byte atyp] @ take n dst @ port_bytes (portno opt)"
  have "goes_on (case tcp_send c ([byte 5, byte 1, byte 0, byte atyp] @ take (n + 2) d) of (False, c) \<Rightarrow> given_up c | (True, c) \<Rightarrow>
      bind_out (recv_into c buf 4) (\<lambda>(ok, buf, c). if \<not> ok then given_up c
        else if code_of (buf ! 0) \<noteq> SOCKS5_VERSION then given_up c else if code_of (buf ! 1) \<noteq> 0 then given_up c else going_on buf c)) b c'"
    using g x y d by (simp add: socks5_request_def SOCKS5_VERSION_def SOCKS_CONNECT_def)
  then have "after_sending c ([byte 5, byte 1, byte 0, byte atyp] @ take (n + 2) d) c'" by (rule goes_on_exchange [OF _ s]) auto
  then have sent: "after_sending c ?msg c'" unfolding t .
  have "rfc_request ?msg = Some (destination_of opt, portno opt, [])"
  proof (cases "resolved opt")
    case None
    then have "atyp = 3" "length (target opt) < 256" "take n dst = byte (length (target opt)) # target opt" using spec by auto
    then show ?thesis using None port port_read [OF port, of "[]"] by (simp add: port_read)
  next
    case (Some a)
    then show ?thesis using spec r port port_read [OF port, of "[]"] by (cases a) (auto simp: resolvable_def)
  qed
  with that sent spec show ?thesis by (cases "resolved opt") auto
qed
lemma bound_sends:
  assumes "goes_on (socks5_bound bnd buf c) b c'" "send_results c = []"
  shows "after_sending c [] c'"
proof -
  have fin: "after_sending c [] c'" if "goes_on (bind_out (recv_into d bnd n) (\<lambda>(ok, _, c). if \<not> ok then given_up c else going_on buf c)) b c'"
    "outgoing d = outgoing c" "send_results d = []" for n buf d
    using that by (auto simp: after_sending_def elim!: goes_on_recv split: if_splits)
  show ?thesis using assms
    by (auto simp: socks5_bound_def Let_def after_sending_def elim!: goes_on_recv dest!: fin split: if_splits)
qed

lemma after_sending_trans: "after_sending c m d \<Longrightarrow> after_sending d n e \<Longrightarrow> after_sending c (m @ n) e"
  by (simp add: after_sending_def)

lemma offer_read: "rfc_offer ((byte 5 # byte (length (offered opt)) # offered opt) @ s) = Some (offered opt, s)"
  using block_read [of "offered opt" s] by (simp add: offered_def)

lemma userpass_read:
  assumes "length user \<le> 255" "length pass \<le> 255"
  shows "rfc_userpass ((byte 1 # byte (length user) # user @ byte (length pass) # pass) @ s) = Some (user, pass, s)"
  using block_read [of user "byte (length pass) # pass @ s"] block_read [of pass s] assms by simp

abbreviation socks4_user :: "socks_options \<Rightarrow> cstr" where
  "socks4_user opt \<equiv> (case proxy_auth opt of None \<Rightarrow> [] | Some a \<Rightarrow> a)"

lemma socks4_data_ok:
  "\<exists>r. socks4_data opt = Inr r \<and>
    (\<forall>a d n. r = Some (a, d, n) \<longrightarrow>
       (case resolved4 opt of
          Some b \<Rightarrow> a = b \<and> take n d = socks4_user opt @ [NUL]
        | None \<Rightarrow> dns_remote opt \<and> a = [byte 0, byte 0, byte 0, byte 1] \<and>
            take n d = socks4_user opt @ NUL # target opt @ [NUL]))"
proof (cases "length (socks4_user opt) \<ge> SOCKS_BUFF_SIZE")
  case True
  then show ?thesis by (simp add: socks4_data_def Let_def)
next
  case False
  let ?z = "replicate SOCKS_BUFF_SIZE NUL" and ?u = "socks4_user opt"
  obtain d1 where d1: "put_at ?z 0 (?u @ [NUL]) = Inr d1" using False by (simp add: put_at_def)
  note p1 = put_next [OF d1, of "[]", simplified]
  show ?thesis
  proof (cases "resolved4 opt")
    case (Some b)
    then show ?thesis using False d1 p1(1) by (simp add: socks4_data_def Let_def)
  next
    case None
    show ?thesis
    proof (cases "dns_remote opt \<and> \<not> length ?u + 1 + length (target opt) \<ge> SOCKS_BUFF_SIZE")
      case True
      then obtain d2 where d2: "put_at d1 (length ?u + 1) (target opt @ [NUL]) = Inr d2" using p1(2) by (simp add: put_at_def)
      have t: "take (length ?u + 1 + (length (target opt) + 1)) d2 = ?u @ NUL # target opt @ [NUL]"
        using put_next(1) [OF d2, of "?u @ [NUL]"] p1(1) by simp
      show ?thesis using None True False d1 d2 t by (simp add: socks4_data_def Let_def)
    qed (use None False d1 in \<open>auto simp: socks4_data_def Let_def\<close>)
  qed
qed

section \<open>The properties\<close>

text \<open>
  C36. No step of the two clients writes beyond a message or receives beyond an array, whatever the options hold and whatever
  the proxy answers, in any pieces: with the sizes the arrays are declared with, both return.  The address family assertion
  holds where the target resolves to an IPv4 or IPv6 address, or not at all.
\<close>

theorem socks_in_bounds:
  assumes "length socks4buf = 8" and "length socks5buf = 4" and "length auth = SOCKS_BUFF_SIZE" and "length bnd = SOCKS5_DST_MAXLEN + 2"
    and "resolvable opt"
  shows "(\<exists>r. do_proxy_socks4 opt socks4buf conn = Inr r) \<and> (\<exists>r. do_proxy_socks5 opt socks5buf auth bnd conn = Inr r)"
proof (intro conjI)
  show "\<exists>r. do_proxy_socks4 opt socks4buf conn = Inr r"
  proof (cases "conn = None \<or> strchr (target opt) (CHR '':'') \<noteq> None")
    case True
    then have "do_proxy_socks4 opt socks4buf conn = Inr (False, None)" by (auto simp: do_proxy_socks4_def)
    then show ?thesis by blast
  next
    case False
    then obtain c where c: "conn = Some c" by auto
    obtain x where x: "socks4_data opt = Inr x"
      using socks4_data_ok [of opt] by blast
    have recv: "\<exists>r. bind_out (recv_into d socks4buf 8) (\<lambda>(ok, socksbuf, c). if \<not> ok then failed c
        else if code_of (socksbuf ! 1) \<noteq> SOCKS4_CONN_ACC then failed c else Inr (True, Some c)) = Inr r" for d
      using recv_into_ok [of 8 socks4buf d] assms(1) by (auto simp: failed_def)
    show ?thesis using False c x recv
      by (cases x) (auto simp: do_proxy_socks4_def failed_def split: prod.split bool.split)
  qed
  show "\<exists>r. do_proxy_socks5 opt socks5buf auth bnd conn = Inr r"
  proof (cases conn)
    case None
    then have "do_proxy_socks5 opt socks5buf auth bnd conn = Inr (False, None)" by (simp add: do_proxy_socks5_def)
    then show ?thesis by blast
  next
    case (Some c)
    have auth: "step_ok 4 (socks5_authenticate opt auth buf d)" if "length buf = 4" for buf d
      using that assms(3) by (auto simp: socks5_authenticate_def userpass_ok)
    have "step_ok 4 (then_step (socks5_greet opt socks5buf c) (\<lambda>socksbuf c.
        then_step (socks5_authenticate opt auth socksbuf c) (\<lambda>socksbuf c.
        then_step (socks5_request opt socksbuf c) (\<lambda>socksbuf c. socks5_bound bnd socksbuf c))))"
      by (intro then_step_ok greet_ok auth socks5_request_ok bound_ok) (use assms in \<open>auto simp: resolvable_def\<close>)
    then show ?thesis using Some by (auto simp: do_proxy_socks5_def step_ok_def split: option.split)
  qed
qed
theorem socks_in_bounds_witness:
  "\<exists>ok c. do_proxy_socks5 \<lparr>target = ''h'', portno = 80, proxy_auth = Some ''u:p'', dns_remote = True, resolved4 = None, resolved = None\<rparr>
     (replicate 4 NUL) (replicate 512 NUL) (replicate 257 NUL) (Some \<lparr>outgoing = [], send_results = [], incoming = [Broken], hung_up = False\<rparr>)
     = Inr (ok, c)"
  using socks_in_bounds [of "replicate 8 NUL" "replicate 4 NUL" "replicate 512 NUL" "replicate 257 NUL"
    "\<lparr>target = ''h'', portno = 80, proxy_auth = Some ''u:p'', dns_remote = True, resolved4 = None, resolved = None\<rparr>"
    "Some \<lparr>outgoing = [], send_results = [], incoming = [Broken], hung_up = False\<rparr>"]
  by (simp add: SOCKS_BUFF_SIZE_def SOCKS5_DST_MAXLEN_def resolvable_def)

lemmas socks_evals = do_proxy_socks5_def do_proxy_socks4_def socks4_data_def socks5_greet_def socks5_authenticate_def socks5_userpass_def
  socks5_request_def socks5_destination_def socks5_bound_def then_step_def going_on_def given_up_def failed_def put_at_def recv_into_def
  tcp_send_def Prelude.span_def port_bytes_def SOCKS_BUFF_SIZE_def SOCKS4_VERSION_def SOCKS_CONNECT_def SOCKS4_CONN_ACC_def SOCKS5_VERSION_def
  SOCKS5_AUTH_NONE_def SOCKS5_AUTH_USERPASS_def SOCKS5_ATYP_IPv4_def SOCKS5_ATYP_NAME_def SOCKS5_ATYP_IPv6_def SOCKS5_USR_MAXLEN_def
  SOCKS5_PWD_MAXLEN_def SOCKS5_DST_MAXLEN_def

lemma until_nul_app: "NUL \<notin> set u \<Longrightarrow> until_nul (u @ NUL # s) = (u, s)"
  by (induction u) (auto simp: until_nul_def)

lemma recv_at_end: "incoming c = [] \<Longrightarrow> n \<le> length buf \<Longrightarrow> recv_into c buf n = Inr (True, buf, c)"
  by (simp add: recv_into_def put_at_def)

lemma destination_found:
  assumes "resolvable opt" "resolved opt = None \<longrightarrow> dns_remote opt \<and> length (target opt) \<le> SOCKS5_DST_MAXLEN"
  obtains atyp dst n where "socks5_destination opt = Inr (Some (atyp, dst, n))" "length dst = 512" "n \<le> 256"
proof -
  from destination_ok [of opt] assms(1) obtain r where r: "socks5_destination opt = Inr r"
    "\<forall>atyp dst n. r = Some (atyp, dst, n) \<longrightarrow> length dst = SOCKS_BUFF_SIZE \<and> n \<le> 256"
    unfolding resolvable_def by blast
  have "r \<noteq> None"
    using assms r(1) by (auto simp: socks5_destination_def resolvable_def bind_out_Inr Let_def split: option.splits address.splits)
  with r that show ?thesis by (auto simp: SOCKS_BUFF_SIZE_def)
qed

text \<open>The reply to the greeting, taken for the reply to the request.\<close>

lemma request_unanswered:
  assumes "send_results c = []" "incoming c = []" "length buf = 4" "code_of (buf ! 0) = 5" "code_of (buf ! 1) = 0"
    and "resolvable opt" "resolved opt = None \<longrightarrow> dns_remote opt \<and> length (target opt) \<le> SOCKS5_DST_MAXLEN"
  obtains c' where "goes_on (socks5_request opt buf c) buf c'" "incoming c' = []"
proof -
  obtain atyp dst n where d: "socks5_destination opt = Inr (Some (atyp, dst, n))" "length dst = 512" "n \<le> 256"
    using destination_found [OF assms(6,7)] .
  obtain dst' where p: "put_at dst n (port_bytes (portno opt)) = Inr dst'" using d(2,3) by (simp add: put_at_def port_bytes_def)
  let ?c = "c\<lparr>outgoing := outgoing c @ [byte SOCKS5_VERSION, byte SOCKS_CONNECT, byte 0, byte atyp] @ take (n + 2) dst'\<rparr>"
  have "goes_on (socks5_request opt buf c) buf ?c"
    using assms d(1) p by (simp add: socks5_request_def tcp_send_all recv_at_end SOCKS5_VERSION_def)
  with that assms(2) show ?thesis by simp
qed

lemma bound_unanswered:
  assumes "incoming c = []" "code_of (buf ! 3) \<in> {1, 4}" "length bnd = SOCKS5_DST_MAXLEN + 2"
  shows "goes_on (socks5_bound bnd buf c) buf c"
  using assms by (auto simp: socks5_bound_def Let_def recv_at_end SOCKS5_DST_MAXLEN_def SOCKS5_ATYP_IPv4_def SOCKS5_ATYP_IPv6_def)

text \<open>
  C39. A \<open>recv\<close> that returns fewer bytes than asked for is not noticed, although the comment says that exactly eight are read.  A
  SOCKS 4 proxy that closes the connection without an answer counts as having accepted it where the byte of the reply that was
  never received is 90, and a SOCKS 5 proxy that answers the greeting only and then closes counts as having connected the target
  where the byte for the type of the address is 1 or 4: the reply to the greeting is taken for the reply to the request.
\<close>

theorem socks_short_reply:
  assumes s: "send_results c = []" and r: "incoming c = []"
    and four: "length buf4 = 8" "code_of (buf4 ! 1) = SOCKS4_CONN_ACC" "socks4_data opt = Inr (Some x)" "CHR '':'' \<notin> set (target opt)"
    and five: "length buf5 = 4" "code_of (buf5 ! 3) \<in> {1, 4}" "length bnd = SOCKS5_DST_MAXLEN + 2"
    and opt: "resolvable opt" "resolved opt = None \<longrightarrow> dns_remote opt \<and> length (target opt) \<le> SOCKS5_DST_MAXLEN"
  shows "(\<exists>c'. do_proxy_socks4 opt buf4 (Some c) = Inr (True, Some c')) \<and>
         (\<exists>c'. do_proxy_socks5 opt buf5 auth bnd (Some (c\<lparr>incoming := [Segment [byte 5, byte 0]]\<rparr>)) = Inr (True, Some c'))"
proof (rule conjI)
  show "\<exists>c'. do_proxy_socks4 opt buf4 (Some c) = Inr (True, Some c')"
    using s r four strchr_None [of "target opt" "CHR '':''"]
    by (cases x) (simp add: do_proxy_socks4_def tcp_send_all recv_at_end)
  let ?c = "c\<lparr>incoming := [Segment [byte 5, byte 0]]\<rparr>" and ?buf = "[byte 5, byte 0] @ drop 2 buf5"
  have recv: "recv_into (?c\<lparr>outgoing := m\<rparr>) buf5 2 = Inr (True, ?buf, c\<lparr>outgoing := m\<rparr>)" for m
    using five(1) r by (simp add: recv_into_def put_at_def numeral_2_eq_2)
  obtain m where greet: "goes_on (socks5_greet opt buf5 ?c) ?buf (c\<lparr>outgoing := m\<rparr>)"
    using s recv by (cases "proxy_auth opt") (simp_all add: socks5_greet_def Let_def put_at_ok tcp_send_all SOCKS5_VERSION_def)
  have auth: "goes_on (socks5_authenticate opt auth ?buf (c\<lparr>outgoing := m\<rparr>)) ?buf (c\<lparr>outgoing := m\<rparr>)"
    by (simp add: socks5_authenticate_def SOCKS5_AUTH_NONE_def)
  obtain c' where request: "goes_on (socks5_request opt ?buf (c\<lparr>outgoing := m\<rparr>)) ?buf c'" "incoming c' = []"
    using request_unanswered [of "c\<lparr>outgoing := m\<rparr>" ?buf opt] s r five(1) opt by auto
  have bound: "goes_on (socks5_bound bnd ?buf c') ?buf c'"
    by (rule bound_unanswered) (use request(2) five in \<open>auto simp: nth_append\<close>)
  have "goes_on (then_step (socks5_greet opt buf5 ?c) (\<lambda>socksbuf c.
      then_step (socks5_authenticate opt auth socksbuf c) (\<lambda>socksbuf c.
      then_step (socks5_request opt socksbuf c) (\<lambda>socksbuf c. socks5_bound bnd socksbuf c)))) ?buf c'"
    unfolding goes_on_then using greet auth request(1) bound by blast
  then show "\<exists>c'. do_proxy_socks5 opt buf5 auth bnd (Some ?c) = Inr (True, Some c')"
    by (auto simp: goes_on_def do_proxy_socks5_def)
qed
theorem socks_short_reply_witness:
  "(\<exists>c'. do_proxy_socks4 \<lparr>target = ''h'', portno = 80, proxy_auth = None, dns_remote = True, resolved4 = None, resolved = None\<rparr>
       (replicate 8 (byte 90)) (Some \<lparr>outgoing = [], send_results = [], incoming = [], hung_up = False\<rparr>) = Inr (True, Some c')) \<and>
   (\<exists>c'. do_proxy_socks5 \<lparr>target = ''h'', portno = 80, proxy_auth = None, dns_remote = True, resolved4 = None, resolved = None\<rparr>
       (replicate 4 (byte 1)) [] (replicate 257 NUL)
       (Some \<lparr>outgoing = [], send_results = [], incoming = [Segment [byte 5, byte 0]], hung_up = False\<rparr>) = Inr (True, Some c'))"
proof -
  let ?opt = "\<lparr>target = ''h'', portno = 80, proxy_auth = None, dns_remote = True, resolved4 = None, resolved = None\<rparr>"
  let ?c = "\<lparr>outgoing = [], send_results = [], incoming = [], hung_up = False\<rparr>"
  obtain x where x: "socks4_data ?opt = Inr (Some x)"
    by (simp add: socks4_data_def Let_def put_at_def SOCKS_BUFF_SIZE_def)
  show ?thesis
    using socks_short_reply [of ?c "replicate 8 (byte 90)" ?opt x "replicate 4 (byte 1)" "replicate 257 NUL" "[]"] x
    by (simp add: SOCKS4_CONN_ACC_def SOCKS5_DST_MAXLEN_def resolvable_def)
qed

end
